(* ===== verification/Prelude.thy ===== *)
theory Prelude
  imports Main "HOL-Library.AList" "HOL-Library.Char_ord" "HOL-Library.List_Lexorder"
    "HOL-Library.Sublist" "HOL-Library.Countable"
begin

text \<open>
  What the components share. Rust's \<^verbatim>\<open>String\<close> is a \<^typ>\<open>string\<close> of UTF-8 bytes (so
  \<^verbatim>\<open>len()\<close> is \<^const>\<open>length\<close> and the derived \<^verbatim>\<open>Ord\<close> is the bytewise lexicographic order of
  \<^verbatim>\<open>List_Lexorder\<close>), an \<^verbatim>\<open>i64\<close> an \<^typ>\<open>int\<close> whose sums are wrapped where they can overflow,
  a \<^verbatim>\<open>BTreeMap\<close> an association list sorted by key, a \<^verbatim>\<open>HashMap\<close> an association list in some
  order, a \<^verbatim>\<open>serde_json::Value\<close> the datatype \<open>json\<close>. The lemmas are the facts of the Rust
  standard library that the component theories use.
\<close>

subsection \<open>Lemma collections\<close>

named_theorems btree \<open>laws of the sorted association lists\<close>
named_theorems str_simps \<open>evaluation of the string helpers\<close>

subsection \<open>Machine integers\<close>

text \<open>\<^verbatim>\<open>i64\<close> arithmetic in a release build: two's complement wrap-around.\<close>

definition i64_wrap :: "int \<Rightarrow> int" where
  "i64_wrap x = (x + 2 ^ 63) mod 2 ^ 64 - 2 ^ 63"

definition i64_ok :: "int \<Rightarrow> bool" where
  "i64_ok x \<longleftrightarrow> - (2 ^ 63) \<le> x \<and> x < 2 ^ 63"

definition u64_max :: nat where
  "u64_max = 2 ^ 64 - 1"

lemma i64_wrap_id: "i64_ok x \<Longrightarrow> i64_wrap x = x"
  by (auto simp: i64_wrap_def i64_ok_def)

lemma i64_wrap_ok [intro, simp]: "i64_ok (i64_wrap x)"
proof -
  have "0 \<le> (x + 2 ^ 63) mod 2 ^ 64" and "(x + 2 ^ 63) mod 2 ^ 64 < (2 ^ 64 :: int)"
    by simp_all
  then show ?thesis
    unfolding i64_wrap_def i64_ok_def by auto
qed

text \<open>Rust's \<^verbatim>\<open>/\<close> on signed integers rounds the quotient towards zero.\<close>

definition quot_zero :: "int \<Rightarrow> int \<Rightarrow> int" where
  "quot_zero n d =
     (let q = \<bar>n\<bar> div \<bar>d\<bar> in if (n < 0) = (d < 0) then q else - q)"

lemma quot_zero_nonneg: "0 \<le> n \<Longrightarrow> 0 < d \<Longrightarrow> quot_zero n d = n div d"
  by (simp add: quot_zero_def)

lemma quot_zero_neg_le: "n \<le> 0 \<Longrightarrow> 0 < d \<Longrightarrow> quot_zero n d \<le> 0"
  by (cases "n = 0") (auto simp: quot_zero_def Let_def pos_imp_zdiv_nonneg_iff)

text \<open>Saturating subtraction on \<^verbatim>\<open>i64\<close>.\<close>

definition i64_sat_sub :: "int \<Rightarrow> int \<Rightarrow> int" where
  "i64_sat_sub a b = max (- (2 ^ 63)) (min (2 ^ 63 - 1) (a - b))"

text \<open>A \<^verbatim>\<open>Vec<u8>\<close>: one character per byte.\<close>

type_synonym bytes = string

subsection \<open>Decimal formatting\<close>

definition digit_char :: "nat \<Rightarrow> char" where
  "digit_char d = char_of (48 + d)"

text \<open>\<^verbatim>\<open>format!("{n}")\<close> of an unsigned integer.\<close>

fun dec :: "nat \<Rightarrow> string" where
  "dec n = (if n < 10 then [digit_char n] else dec (n div 10) @ [digit_char (n mod 10)])"

declare dec.simps [simp del]

text \<open>\<^verbatim>\<open>{n:0w}\<close>: zero padding to width \<open>w\<close>; the sign of a negative number comes first and
  counts for the width.\<close>

definition zero_pad :: "nat \<Rightarrow> string \<Rightarrow> string" where
  "zero_pad w s = replicate (w - length s) (CHR ''0'') @ s"

definition dec_padded :: "nat \<Rightarrow> int \<Rightarrow> string" where
  "dec_padded w n =
     (if n < 0 then CHR ''-'' # zero_pad (w - 1) (dec (nat (- n))) else zero_pad w (dec (nat n)))"

definition dec_int :: "int \<Rightarrow> string" where
  "dec_int n = (if n < 0 then CHR ''-'' # dec (nat (- n)) else dec (nat n))"

text \<open>The \<open>w\<close> low decimal digits, most significant first: what zero padding computes for a number
  that fits the width.\<close>

fun digits_w :: "nat \<Rightarrow> nat \<Rightarrow> string" where
  "digits_w 0 n = []"
| "digits_w (Suc w) n = digits_w w (n div 10) @ [digit_char (n mod 10)]"

lemma length_digits_w [simp]: "length (digits_w w n) = w"
  by (induction w arbitrary: n) auto

lemma digit_char_less: "a < 10 \<Longrightarrow> b < 10 \<Longrightarrow> digit_char a < digit_char b \<longleftrightarrow> a < b"
  by (simp add: digit_char_def less_char_def)

lemma digit_char_eq: "a < 10 \<Longrightarrow> b < 10 \<Longrightarrow> digit_char a = digit_char b \<longleftrightarrow> a = b"
  using digit_char_less by (metis less_irrefl nat_neq_iff)

lemma length_dec_le: "n < 10 ^ w \<Longrightarrow> 0 < w \<Longrightarrow> length (dec n) \<le> w"
proof (induction n arbitrary: w rule: dec.induct)
  case (1 n)
  show ?case
  proof (cases "n < 10")
    case True
    with "1.prems" show ?thesis by (subst dec.simps) simp
  next
    case False
    with "1.prems" obtain v where v: "w = Suc v" by (cases w) auto
    with "1.prems" False have "n div 10 < 10 ^ v" and "0 < v"
      by (auto simp: div_less_iff_less_mult mult.commute intro: gr0I)
    then have "length (dec (n div 10)) \<le> v"
      using "1.IH" [OF False] by simp
    with False v show ?thesis by (subst dec.simps) simp
  qed
qed

lemma digit_char_0 [simp]: "digit_char 0 = CHR ''0''"
  by code_simp

lemma digits_w_zero: "digits_w w 0 = replicate w (CHR ''0'')"
  by (induction w) (auto simp: replicate_append_same)

lemma zero_pad_dec: "n < 10 ^ w \<Longrightarrow> 0 < w \<Longrightarrow> zero_pad w (dec n) = digits_w w n"
proof (induction n arbitrary: w rule: dec.induct)
  case (1 n)
  from "1.prems" obtain v where v: "w = Suc v" by (cases w) auto
  show ?case
  proof (cases "n < 10")
    case True
    then show ?thesis
      using v by (subst dec.simps) (simp add: zero_pad_def digits_w_zero)
  next
    case False
    with "1.prems" v have lt: "n div 10 < 10 ^ v" and pos: "0 < v"
      by (auto simp: div_less_iff_less_mult mult.commute intro: gr0I)
    then have "zero_pad v (dec (n div 10)) = digits_w v (n div 10)"
      using "1.IH" [OF False] by simp
    with False v show ?thesis
      by (subst dec.simps) (auto simp: zero_pad_def)
  qed
qed

lemma append_less_iff:
  fixes xs xs' :: "'a::linorder list"
  shows "length xs = length xs' \<Longrightarrow>
    xs @ ys < xs' @ ys' \<longleftrightarrow> xs < xs' \<or> (xs = xs' \<and> ys < ys')"
  by (induction xs xs' rule: list_induct2) auto

lemma digits_w_eq: "a < 10 ^ w \<Longrightarrow> b < 10 ^ w \<Longrightarrow> digits_w w a = digits_w w b \<longleftrightarrow> a = b"
proof (induction w arbitrary: a b)
  case 0
  then show ?case by simp
next
  case (Suc w)
  have "a div 10 < 10 ^ w" "b div 10 < 10 ^ w"
    using Suc.prems by (simp_all add: div_less_iff_less_mult mult.commute)
  then have "digits_w (Suc w) a = digits_w (Suc w) b \<longleftrightarrow>
      a div 10 = b div 10 \<and> a mod 10 = b mod 10"
    using Suc.IH by (simp add: digit_char_eq)
  also have "\<dots> \<longleftrightarrow> a = b" by (metis div_mult_mod_eq)
  finally show ?case .
qed

lemma less_div_mod10:
  fixes a b :: nat
  shows "a < b \<longleftrightarrow> a div 10 < b div 10 \<or> (a div 10 = b div 10 \<and> a mod 10 < b mod 10)"
proof -
  have a: "a = 10 * (a div 10) + a mod 10" and b: "b = 10 * (b div 10) + b mod 10" by simp_all
  have "a mod 10 < 10" "b mod 10 < 10" by simp_all
  with a b show ?thesis by linarith
qed

lemma digits_w_less: "a < 10 ^ w \<Longrightarrow> b < 10 ^ w \<Longrightarrow> digits_w w a < digits_w w b \<longleftrightarrow> a < b"
proof (induction w arbitrary: a b)
  case 0
  then show ?case by simp
next
  case (Suc w)
  have ab: "a div 10 < 10 ^ w" "b div 10 < 10 ^ w"
    using Suc.prems by (simp_all add: div_less_iff_less_mult mult.commute)
  have "digits_w (Suc w) a < digits_w (Suc w) b \<longleftrightarrow>
      a div 10 < b div 10 \<or> (a div 10 = b div 10 \<and> a mod 10 < b mod 10)"
    using Suc.IH [OF ab] ab
    by (simp add: append_less_iff digits_w_eq digit_char_less)
  also have "\<dots> \<longleftrightarrow> a < b"
    by (rule less_div_mod10 [symmetric])
  finally show ?case .
qed


subsection \<open>Key-value maps\<close>

lemma map_of_rev_distinct: "distinct (map fst kvs) \<Longrightarrow> map_of (rev kvs) k = map_of kvs k"
  by (induction kvs) (force simp: map_add_def split: option.splits dest: map_of_SomeD)+

text \<open>The contract of Rust's maps, and what building one by repeated insertion gives.\<close>

locale kv_map =
  fixes get :: "'m \<Rightarrow> 'k \<Rightarrow> 'v option"
    and put :: "'k \<Rightarrow> 'v \<Rightarrow> 'm \<Rightarrow> 'm"
    and del :: "'k \<Rightarrow> 'm \<Rightarrow> 'm"
    and emp :: 'm
    and wf :: "'m \<Rightarrow> bool"
  assumes get_emp: "get emp k = None"
    and get_put: "wf m \<Longrightarrow> get (put k v m) k' = (if k' = k then Some v else get m k')"
    and get_del: "wf m \<Longrightarrow> get (del k m) k' = (if k' = k then None else get m k')"
    and wf_emp: "wf emp"
    and wf_put: "wf m \<Longrightarrow> wf (put k v m)"
    and wf_del: "wf m \<Longrightarrow> wf (del k m)"
begin

lemma wf_put_all: "wf m \<Longrightarrow> wf (fold (\<lambda>p. put (fst p) (snd p)) kvs m)"
  by (induction kvs arbitrary: m) (auto intro: wf_put)

lemma get_put_all:
  "wf m \<Longrightarrow> get (fold (\<lambda>p. put (fst p) (snd p)) kvs m) k =
     (case map_of (rev kvs) k of Some v \<Rightarrow> Some v | None \<Rightarrow> get m k)"
proof (induction kvs arbitrary: m)
  case Nil
  then show ?case by simp
next
  case (Cons p kvs)
  then show ?case
    by (cases p) (auto simp: get_put map_add_def wf_put split: option.splits)
qed

lemma get_put_all_distinct:
  "distinct (map fst kvs) \<Longrightarrow> get (fold (\<lambda>p. put (fst p) (snd p)) kvs emp) k = map_of kvs k"
  using get_put_all [OF wf_emp, of kvs k]
  by (simp add: get_emp map_of_rev_distinct split: option.splits)

end

text \<open>A \<^verbatim>\<open>BTreeMap\<close>: sorted by key, one entry per key.\<close>

type_synonym ('k, 'v) btree = "('k \<times> 'v) list"

fun bt_insert :: "'k::linorder \<Rightarrow> 'v \<Rightarrow> ('k, 'v) btree \<Rightarrow> ('k, 'v) btree" where
  "bt_insert k v [] = [(k, v)]"
| "bt_insert k v ((k', v') # m) =
     (if k < k' then (k, v) # (k', v') # m
      else if k = k' then (k, v) # m
      else (k', v') # bt_insert k v m)"

definition bt_remove :: "'k \<Rightarrow> ('k, 'v) btree \<Rightarrow> ('k, 'v) btree" where
  "bt_remove k m = filter (\<lambda>p. fst p \<noteq> k) m"

definition bt_wf :: "('k::linorder, 'v) btree \<Rightarrow> bool" where
  "bt_wf m \<longleftrightarrow> sorted_wrt (<) (map fst m)"

definition bt_of_list :: "('k::linorder \<times> 'v) list \<Rightarrow> ('k, 'v) btree" where
  "bt_of_list kvs = fold (\<lambda>p. bt_insert (fst p) (snd p)) kvs []"

lemma map_of_bt_insert [btree, simp]: "map_of (bt_insert k v m) = (map_of m)(k \<mapsto> v)"
  by (induction k v m rule: bt_insert.induct) (auto simp: fun_eq_iff)

lemma map_of_bt_remove [btree, simp]: "map_of (bt_remove k m) = (map_of m)(k := None)"
  by (induction m) (auto simp: bt_remove_def fun_eq_iff)

lemma bt_wf_Nil [btree, simp]: "bt_wf []"
  by (simp add: bt_wf_def)

lemma set_fst_bt_insert: "fst ` set (bt_insert k v m) = insert k (fst ` set m)"
  by (induction k v m rule: bt_insert.induct) auto

lemma bt_wf_insert [btree, simp]: "bt_wf m \<Longrightarrow> bt_wf (bt_insert k v m)"
  by (induction k v m rule: bt_insert.induct) (auto simp: bt_wf_def set_fst_bt_insert)

lemma bt_wf_remove [btree, simp]: "bt_wf m \<Longrightarrow> bt_wf (bt_remove k m)"
  unfolding bt_wf_def bt_remove_def by (induction m) auto

lemma bt_wf_distinct: "bt_wf m \<Longrightarrow> distinct (map fst m)"
  unfolding bt_wf_def by (rule strict_sorted_iff [THEN iffD1, THEN conjunct2])

lemma bt_wf_keys: "bt_wf m \<Longrightarrow> map fst m = sorted_list_of_set (dom (map_of m))"
  using sorted_list_of_set.idem_if_sorted_distinct [of "map fst m"]
  by (simp add: bt_wf_def strict_sorted_iff dom_map_of_conv_image_fst)

text \<open>Two well-formed maps with the same lookups are equal: the list is a canonical form.\<close>

lemma bt_ext:
  assumes "bt_wf m" "bt_wf m'" "map_of m = map_of m'"
  shows "m = m'"
proof -
  have k: "map fst m = map fst m'" using assms by (simp add: bt_wf_keys)
  have "map snd m = map snd m'"
  proof (rule nth_equalityI)
    show l: "length (map snd m) = length (map snd m')"
      using k by (metis length_map)
    fix i assume i: "i < length (map snd m)"
    have "map_of m (fst (m ! i)) = Some (snd (m ! i))"
      using i assms(1) by (simp add: bt_wf_distinct)
    moreover have "map_of m' (fst (m' ! i)) = Some (snd (m' ! i))"
      using i l assms(2) by (simp add: bt_wf_distinct)
    moreover have "fst (m ! i) = fst (m' ! i)"
      using k i l by (metis length_map nth_map)
    ultimately show "map snd m ! i = map snd m' ! i" using i l assms(3) by simp
  qed
  with k show ?thesis by (metis zip_map_fst_snd)
qed

interpretation bt: kv_map map_of bt_insert bt_remove "[]" bt_wf
  by unfold_locales simp_all

lemma bt_wf_of_list [btree, simp]: "bt_wf (bt_of_list kvs)"
  unfolding bt_of_list_def by (rule bt.wf_put_all) simp

lemma map_of_bt_of_list:
  "distinct (map fst kvs) \<Longrightarrow> map_of (bt_of_list kvs) = map_of kvs"
  unfolding bt_of_list_def by (rule ext) (rule bt.get_put_all_distinct)

text \<open>A \<^verbatim>\<open>HashMap\<close>: one entry per key, in an order the code does not rely on.\<close>

type_synonym ('k, 'v) hashmap = "('k \<times> 'v) list"

definition hm_wf :: "('k, 'v) hashmap \<Rightarrow> bool" where
  "hm_wf m \<longleftrightarrow> distinct (map fst m)"

interpretation hm: kv_map map_of AList.update AList.delete "[]" hm_wf
  by unfold_locales
    (auto simp: hm_wf_def update_conv' delete_conv' distinct_update AList.distinct_delete)

subsection \<open>Strings\<close>

text \<open>The UTF-8 encodings of the characters of Unicode's \<^verbatim>\<open>White_Space\<close>, which
  \<^verbatim>\<open>str::trim\<close> and \<^verbatim>\<open>char::is_whitespace\<close> use.\<close>

definition ws_enc :: "string list" where
  "ws_enc =
    [[CHR 0x20], [CHR 0x09], [CHR 0x0A], [CHR 0x0B], [CHR 0x0C], [CHR 0x0D],
     [CHR 0xC2, CHR 0x85], [CHR 0xC2, CHR 0xA0], [CHR 0xE1, CHR 0x9A, CHR 0x80],
     [CHR 0xE2, CHR 0x80, CHR 0x80], [CHR 0xE2, CHR 0x80, CHR 0x81],
     [CHR 0xE2, CHR 0x80, CHR 0x82], [CHR 0xE2, CHR 0x80, CHR 0x83],
     [CHR 0xE2, CHR 0x80, CHR 0x84], [CHR 0xE2, CHR 0x80, CHR 0x85],
     [CHR 0xE2, CHR 0x80, CHR 0x86], [CHR 0xE2, CHR 0x80, CHR 0x87],
     [CHR 0xE2, CHR 0x80, CHR 0x88], [CHR 0xE2, CHR 0x80, CHR 0x89],
     [CHR 0xE2, CHR 0x80, CHR 0x8A], [CHR 0xE2, CHR 0x80, CHR 0xA8],
     [CHR 0xE2, CHR 0x80, CHR 0xA9], [CHR 0xE2, CHR 0x80, CHR 0xAF],
     [CHR 0xE2, CHR 0x81, CHR 0x9F], [CHR 0xE3, CHR 0x80, CHR 0x80]]"

lemma ws_enc_ne: "w \<in> set ws_enc \<Longrightarrow> w \<noteq> []"
  by (auto simp: ws_enc_def)

definition ws_at_start :: "string \<Rightarrow> string option" where
  "ws_at_start s = find (\<lambda>w. prefix w s) ws_enc"

definition ws_at_end :: "string \<Rightarrow> string option" where
  "ws_at_end s = find (\<lambda>w. suffix w s) ws_enc"

lemma ws_at_startD: "ws_at_start s = Some w \<Longrightarrow> w \<noteq> [] \<and> prefix w s"
  by (auto simp: ws_at_start_def find_Some_iff dest: ws_enc_ne [OF nth_mem])

lemma ws_at_endD: "ws_at_end s = Some w \<Longrightarrow> w \<noteq> [] \<and> suffix w s"
  by (auto simp: ws_at_end_def find_Some_iff dest: ws_enc_ne [OF nth_mem])

function trim_start :: "string \<Rightarrow> string" where
  "trim_start s =
     (case ws_at_start s of None \<Rightarrow> s | Some w \<Rightarrow> trim_start (drop (length w) s))"
  by pat_completeness auto
termination
  by (relation "measure length") (auto dest!: ws_at_startD elim: prefixE)

function trim_end :: "string \<Rightarrow> string" where
  "trim_end s =
     (case ws_at_end s of None \<Rightarrow> s | Some w \<Rightarrow> trim_end (take (length s - length w) s))"
  by pat_completeness auto
termination
  by (relation "measure length") (auto dest!: ws_at_endD simp: suffix_def)

declare trim_start.simps [simp del] trim_end.simps [simp del]

definition str_trim :: "string \<Rightarrow> string" where
  "str_trim s = trim_end (trim_start s)"

definition is_blank :: "string \<Rightarrow> bool" where
  "is_blank s \<longleftrightarrow> str_trim s = []"

text \<open>\<^verbatim>\<open>str::lines\<close>: a final line without a newline keeps its carriage return.\<close>

definition strip_cr :: "string \<Rightarrow> string" where
  "strip_cr l = (if l \<noteq> [] \<and> last l = CHR 0x0D then butlast l else l)"

function str_lines :: "string \<Rightarrow> string list" where
  "str_lines s =
     (if s = [] then []
      else let l = takeWhile (\<lambda>c. c \<noteq> CHR 0x0A) s; r = dropWhile (\<lambda>c. c \<noteq> CHR 0x0A) s
           in if r = [] then [l] else strip_cr l # str_lines (tl r))"
  by pat_completeness auto
termination
proof (relation "measure length", goal_cases)
  case (2 s l r)
  then have "length r \<le> length s" and "r \<noteq> []" by (simp_all add: length_dropWhile_le)
  then have "length (tl r) < length s" by (cases r) auto
  then show ?case by simp
qed simp

declare str_lines.simps [simp del]

fun str_join :: "string \<Rightarrow> string list \<Rightarrow> string" where
  "str_join sep [] = []"
| "str_join sep [x] = x"
| "str_join sep (x # y # zs) = x @ sep @ str_join sep (y # zs)"

text \<open>A byte is a character boundary unless it is a UTF-8 continuation byte.\<close>

definition is_cont :: "char \<Rightarrow> bool" where
  "is_cont c \<longleftrightarrow> 128 \<le> (of_char c :: nat) \<and> (of_char c :: nat) < 192"

definition is_char_boundary :: "string \<Rightarrow> nat \<Rightarrow> bool" where
  "is_char_boundary s i \<longleftrightarrow> i = length s \<or> (i < length s \<and> (i = 0 \<or> \<not> is_cont (s ! i)))"

definition char_count :: "string \<Rightarrow> nat" where
  "char_count s = length (filter (\<lambda>c. \<not> is_cont c) s)"

subsection \<open>Positions\<close>

text \<open>\<^verbatim>\<open>Iterator::find_map\<close>.\<close>

fun find_map :: "('a \<Rightarrow> 'b option) \<Rightarrow> 'a list \<Rightarrow> 'b option" where
  "find_map f [] = None"
| "find_map f (x # xs) = (case f x of Some y \<Rightarrow> Some y | None \<Rightarrow> find_map f xs)"

lemma find_map_SomeD: "find_map f xs = Some y \<Longrightarrow> \<exists>x \<in> set xs. f x = Some y"
  by (induction xs) (auto split: option.splits)

lemma find_map_None: "find_map f xs = None \<longleftrightarrow> (\<forall>x \<in> set xs. f x = None)"
  by (induction xs) (auto split: option.split)

text \<open>\<^verbatim>\<open>Iterator::position\<close>.\<close>

fun position :: "('a \<Rightarrow> bool) \<Rightarrow> 'a list \<Rightarrow> nat option" where
  "position P [] = None"
| "position P (x # xs) = (if P x then Some 0 else map_option Suc (position P xs))"

lemma find_SomeD: "find P xs = Some x \<Longrightarrow> x \<in> set xs \<and> P x"
  by (auto simp: find_Some_iff)

lemma position_None: "position P xs = None \<longleftrightarrow> (\<forall>x \<in> set xs. \<not> P x)"
  by (induction xs) auto

lemma position_app:
  "(\<forall>x \<in> set xs. \<not> P x) \<Longrightarrow> P y \<Longrightarrow> position P (xs @ y # ys) = Some (length xs)"
  by (induction xs) auto

lemma position_SomeD:
  "position P xs = Some i \<Longrightarrow> i < length xs \<and> P (xs ! i) \<and> (\<forall>j < i. \<not> P (xs ! j))"
proof (induction xs arbitrary: i)
  case (Cons x xs)
  then show ?case by (auto simp: less_Suc_eq_0_disj split: if_splits)
qed simp

subsection \<open>JSON values\<close>

text \<open>\<^verbatim>\<open>serde_json::Value\<close>. An object is a \<^verbatim>\<open>BTreeMap\<close>; a number that is no integer keeps its
  literal.\<close>

datatype json =
    JNull
  | JBool bool
  | JInt int
  | JFloat string
  | JStr string
  | JArr "json list"
  | JObj "(string \<times> json) list"

instance json :: countable by countable_datatype

definition as_i64 :: "json \<Rightarrow> int option" where
  "as_i64 v = (case v of JInt n \<Rightarrow> if i64_ok n then Some n else None | _ \<Rightarrow> None)"

definition as_str :: "json \<Rightarrow> string option" where
  "as_str v = (case v of JStr s \<Rightarrow> Some s | _ \<Rightarrow> None)"

definition as_bool :: "json \<Rightarrow> bool option" where
  "as_bool v = (case v of JBool b \<Rightarrow> Some b | _ \<Rightarrow> None)"

lemmas json_acc = as_i64_def as_str_def as_bool_def

subsection \<open>Reading fields\<close>

definition req_field :: "(json \<Rightarrow> 'a option) \<Rightarrow> (string \<times> json) list \<Rightarrow> string \<Rightarrow> 'a option" where
  "req_field f fs k = (case map_of fs k of None \<Rightarrow> None | Some v \<Rightarrow> f v)"

text \<open>\<^verbatim>\<open>#[serde(default)] Option<T>\<close>\<close>

definition opt_field :: "(json \<Rightarrow> 'a option) \<Rightarrow> (string \<times> json) list \<Rightarrow> string \<Rightarrow>
    'a option option" where
  "opt_field f fs k =
     (case map_of fs k of
        None \<Rightarrow> Some None
      | Some v \<Rightarrow> if v = JNull then Some None else map_option Some (f v))"

text \<open>\<^verbatim>\<open>#[serde(default)] T\<close>\<close>

definition default_field :: "'a \<Rightarrow> (json \<Rightarrow> 'a option) \<Rightarrow> (string \<times> json) list \<Rightarrow> string \<Rightarrow>
    'a option" where
  "default_field d f fs k = (case map_of fs k of None \<Rightarrow> Some d | Some v \<Rightarrow> f v)"

definition as_u32 :: "json \<Rightarrow> nat option" where
  "as_u32 v = (case v of JInt n \<Rightarrow> if 0 \<le> n \<and> n < 2 ^ 32 then Some (nat n) else None | _ \<Rightarrow> None)"

definition as_obj :: "json \<Rightarrow> (string \<times> json) list option" where
  "as_obj v = (case v of JObj fs \<Rightarrow> Some fs | _ \<Rightarrow> None)"

definition as_u64 :: "json \<Rightarrow> nat option" where
  "as_u64 v = (case v of JInt n \<Rightarrow> if 0 \<le> n \<and> n < 2 ^ 64 then Some (nat n) else None | _ \<Rightarrow> None)"

text \<open>\<^verbatim>\<open>Value::get\<close> and the reading of a string field.\<close>

definition json_get :: "json \<Rightarrow> string \<Rightarrow> json option" where
  "json_get v k = (case v of JObj fs \<Rightarrow> map_of fs k | _ \<Rightarrow> None)"

definition get_str :: "json \<Rightarrow> string \<Rightarrow> string option" where
  "get_str v k = (case json_get v k of None \<Rightarrow> None | Some x \<Rightarrow> as_str x)"

definition as_arr :: "json \<Rightarrow> json list option" where
  "as_arr v = (case v of JArr xs \<Rightarrow> Some xs | _ \<Rightarrow> None)"

end
