(* ===== verification/Proto_Types.thy ===== *)
theory Proto_Types
  imports Prelude
begin

text \<open>
  The wire types of \<^verbatim>\<open>crates/proto\<close>: agent identity, run requests, tool calls and the streaming
  event (\<^verbatim>\<open>agent.rs\<close>), the synced rows (\<^verbatim>\<open>entities.rs\<close>) and the workspace scope
  (\<^verbatim>\<open>workspace.rs\<close>). A field is named after the source's field with a prefix for its struct; a
  \<^verbatim>\<open>DateTime<Utc>\<close> is the \<^typ>\<open>int\<close> number of nanoseconds since the epoch.
\<close>

subsection \<open>agent.rs\<close>

datatype harness_id = ClaudeCode | Codex | Cursor | Grok | Hermes | Pi | Mock

datatype reasoning_level =
  Minimal | Low | Medium | High | XHigh | Max | Ultra | Ultracode | Ultrathink

text \<open>The derived \<^verbatim>\<open>Ord\<close> is the order of the variants.\<close>

fun reasoning_rank :: "reasoning_level \<Rightarrow> nat" where
  "reasoning_rank Minimal = 0"
| "reasoning_rank Low = 1"
| "reasoning_rank Medium = 2"
| "reasoning_rank High = 3"
| "reasoning_rank XHigh = 4"
| "reasoning_rank Max = 5"
| "reasoning_rank Ultra = 6"
| "reasoning_rank Ultracode = 7"
| "reasoning_rank Ultrathink = 8"

lemma reasoning_rank_inj: "reasoning_rank a = reasoning_rank b \<Longrightarrow> a = b"
  by (cases a; cases b) simp_all

instantiation reasoning_level :: linorder
begin

definition less_eq_reasoning_level :: "reasoning_level \<Rightarrow> reasoning_level \<Rightarrow> bool" where
  "less_eq_reasoning_level a b \<longleftrightarrow> reasoning_rank a \<le> reasoning_rank b"

definition less_reasoning_level :: "reasoning_level \<Rightarrow> reasoning_level \<Rightarrow> bool" where
  "less_reasoning_level a b \<longleftrightarrow> reasoning_rank a < reasoning_rank b"

instance
  by standard (auto simp: less_eq_reasoning_level_def less_reasoning_level_def
      dest: reasoning_rank_inj)

end

datatype sandbox_level = ReadOnly | WorkspaceWrite | DangerFullAccess

record run_request =
  rq_prompt :: string
  rq_harness :: "harness_id option"
  rq_model :: "string option"
  rq_reasoning :: "reasoning_level option"
  rq_model_options :: "(string, json) btree"
  rq_cwd :: string
  rq_sandbox :: sandbox_level
  rq_auto_approve :: bool
  rq_resume :: "string option"
  rq_attachments :: "string list"

record todo_item =
  ti_text :: string
  ti_done :: bool

datatype tool_call =
    Exec string
  | ReadFile string
  | WriteFile string "string option"
  | EditFile string "string option" "string option"
  | ApplyPatch "string option"
  | Search string "string option"
  | Glob string
  | WebFetch string "string option"
  | WebSearch string
  | Todo "todo_item list"
  | Mcp string string "json option"
  | UnknownTool string "json option"

text \<open>A slash command the agent advertises, a file diff on a tool result, a question and its
  answer.\<close>

record slash_command =
  sc_name :: string
  sc_description :: string
  sc_input_hint :: "string option"

record tool_diff =
  td_path :: string
  td_old_text :: "string option"
  td_new_text :: string

record user_input_question =
  uq_id :: string
  uq_header :: string
  uq_question :: string
  uq_options :: "string list"
  uq_multi_select :: bool

record user_input_answer =
  ua_question_id :: string
  ua_labels :: "string list"

definition live_plan_tool_id :: string where "live_plan_tool_id = ''acp-plan''"

datatype done_status = Completed | Interrupted | DoneErrored

datatype notice_level = Info | Warning

datatype agent_event =
    SessionStarted harness_id string "string list" string string string
  | TextDelta string
  | CommentaryDelta string
  | NoticeEvent notice_level string
  | ReasoningDelta string
  | AssistantMessageCompleted string
  | ToolCallEvent string tool_call
  | ToolResult string bool "string option" "tool_diff option"
  | Usage nat nat
  | AvailableCommands "slash_command list"
  | ErrorEvent string
  | InputRequested string "user_input_question list"
  | InputResolved string
  | Steered "string option" "string option"
  | Done done_status "string option" "string option" "string option"

subsection \<open>entities.rs and workspace.rs\<close>

type_synonym datetime = int

text \<open>chrono: \<^verbatim>\<open>timestamp_millis\<close> is the floor, \<^verbatim>\<open>num_milliseconds\<close> and \<^verbatim>\<open>num_seconds\<close> of a
  duration truncate towards zero.\<close>

definition timestamp_millis :: "datetime \<Rightarrow> int" where
  "timestamp_millis t = t div 1000000"

definition num_milliseconds :: "int \<Rightarrow> int" where
  "num_milliseconds d = quot_zero d 1000000"

definition num_seconds :: "int \<Rightarrow> int" where
  "num_seconds d = quot_zero d 1000000000"

record device =
  dv_id :: string
  dv_name :: string
  dv_platform :: string
  dv_last_seen_at :: "datetime option"
  dv_created_at :: "datetime option"
  dv_version :: "string option"

record space =
  sp_id :: string
  sp_device_id :: string
  sp_path :: string
  sp_name :: "string option"
  sp_git_detected :: bool
  sp_git_checked_at :: "datetime option"
  sp_checkout_id :: "string option"
  sp_created_at :: datetime

record chat_config =
  cc_harness :: harness_id
  cc_model :: "string option"
  cc_reasoning :: "reasoning_level option"
  cc_model_options :: "(string, json) btree"
  cc_sandbox :: sandbox_level

record chat =
  ch_id :: string
  ch_device_id :: string
  ch_title :: "string option"
  ch_archived :: bool
  ch_cwd :: "string option"
  ch_branch :: "string option"
  ch_checkout_id :: "string option"
  ch_config :: "chat_config option"
  ch_last_message_preview :: "string option"
  ch_last_message_at :: "datetime option"
  ch_created_at :: datetime
  ch_harness_session_id :: "string option"
  ch_harness_session_cwd :: "string option"
  ch_space_id :: "string option"
  ch_last_seen_at :: "datetime option"
  ch_room_gen :: "nat option"

definition on_chat2 :: "chat \<Rightarrow> bool" where
  "on_chat2 c \<longleftrightarrow> (case ch_room_gen c of None \<Rightarrow> 1 | Some g \<Rightarrow> g) \<ge> 2"

text \<open>Activity the user has not seen on any device.\<close>

definition unseen :: "chat \<Rightarrow> bool" where
  "unseen c =
     (case (ch_last_message_at c, ch_last_seen_at c) of
        (Some msg, Some seen) \<Rightarrow> msg > seen
      | (Some _, None) \<Rightarrow> True
      | (None, _) \<Rightarrow> False)"

datatype chat_indicator_kind = CiWorking | CiAwaitingInput | CiErrored | CiCompleted | CiIdle

datatype session_status = SsIdle | SsWorking | SsAwaitingInput | SsErrored

record session =
  se_chat_id :: string
  se_device_id :: string
  se_status :: session_status
  se_started_at :: "datetime option"
  se_updated_at :: datetime

text \<open>The display status; \<open>live\<close> is already gated for staleness by the caller.\<close>

definition chat_indicator :: "chat \<Rightarrow> session option \<Rightarrow> chat_indicator_kind" where
  "chat_indicator c live =
     (case map_option se_status live of
        Some SsWorking \<Rightarrow> CiWorking
      | Some SsAwaitingInput \<Rightarrow> CiAwaitingInput
      | Some SsErrored \<Rightarrow> if unseen c then CiErrored else CiIdle
      | _ \<Rightarrow> if unseen c then CiCompleted else CiIdle)"

record repo_ref =
  rr_name :: string
  rr_current :: bool
  rr_worktree_path :: "string option"

record user_profile =
  up_id :: string
  up_email :: string
  up_name :: "string option"

datatype auth_state =
    SignedOut
  | NeedsOrganization user_profile
  | SignedIn user_profile "string option"

datatype workspace_scope = ScopeLocal | ScopeSynced | ScopeDevelopment

end
