(* ===== verification/Doc_Parts.thy ===== *)
theory Doc_Parts
  imports Proto_Types "HOL-Library.Multiset"
begin

text \<open>
  Message parts, \<^verbatim>\<open>crates/doc/src/parts.rs\<close>: the fold of agent events into an accumulator of parts,
  the sidecar references and payloads, the render-only privacy policy and the splitting of an
  oversized message into continuation entries. Two libraries the code calls are parameters: the
  line differ (\<^verbatim>\<open>similar::TextDiff\<close>), a function from the two texts to the numbers of inserted and
  deleted lines, and the length of the JSON serialisation (\<^verbatim>\<open>serde_json::to_vec\<close>), the record
  \<open>json_sizes\<close>, with \<^const>\<open>None\<close> for a serialisation error.
\<close>

subsection \<open>Data\<close>

datatype message_status = MsStreaming | MsComplete | MsAborted

record tool_diff_stat =
  dst_path :: string
  dst_additions :: nat
  dst_deletions :: nat

record tool_part =
  tp_id :: string
  tp_call :: tool_call
  tp_is_error :: bool
  tp_resolved :: bool
  tp_output :: "string option"
  tp_diff :: "tool_diff option"
  tp_output_ref :: "string option"
  tp_output_bytes :: "nat option"
  tp_diff_ref :: "string option"
  tp_diff_stats :: "tool_diff_stat list option"

datatype message_part =
    PText string string
  | PCommentary string string
  | PNotice string notice_level string
  | PTool tool_part
  | PInput string string "user_input_question list" bool
  | PError string string

fun part_id :: "message_part \<Rightarrow> string" where
  "part_id (PText i _) = i"
| "part_id (PCommentary i _) = i"
| "part_id (PNotice i _ _) = i"
| "part_id (PTool t) = tp_id t"
| "part_id (PInput i _ _ _) = i"
| "part_id (PError i _) = i"

record json_sizes =
  js_call :: "tool_call \<Rightarrow> nat option"
  js_diff :: "tool_diff \<Rightarrow> nat option"
  js_stats :: "tool_diff_stat list \<Rightarrow> nat option"
  js_questions :: "user_input_question list \<Rightarrow> nat option"

definition size_or_0 :: "nat option \<Rightarrow> nat" where
  "size_or_0 r = (case r of None \<Rightarrow> 0 | Some n \<Rightarrow> n)"

fun byte_len :: "json_sizes \<Rightarrow> message_part \<Rightarrow> nat" where
  "byte_len js (PText _ text) = length text"
| "byte_len js (PCommentary _ text) = length text"
| "byte_len js (PNotice _ _ message) = length message"
| "byte_len js (PTool t) =
     size_or_0 (js_call js (tp_call t))
     + (case tp_output t of None \<Rightarrow> 0 | Some out \<Rightarrow> length out)
     + (case tp_diff t of None \<Rightarrow> 0 | Some d \<Rightarrow> size_or_0 (js_diff js d))
     + (case tp_diff_stats t of None \<Rightarrow> 0 | Some s \<Rightarrow> size_or_0 (js_stats js s))"
| "byte_len js (PInput _ _ questions _) = size_or_0 (js_questions js questions)"
| "byte_len js (PError _ message) = length message"

subsection \<open>Tool output summaries and diff statistics\<close>

definition tool_output_summary_max :: nat where
  "tool_output_summary_max = 160"

definition ellipsis :: string where
  "ellipsis = [CHR 0xE2, CHR 0x80, CHR 0xA6]"

text \<open>The prefix of the first \<open>n\<close> characters (the byte offset of character \<open>n\<close>, or the whole).\<close>

fun take_chars :: "nat \<Rightarrow> string \<Rightarrow> string" where
  "take_chars n [] = []"
| "take_chars n (c # cs) =
     (if is_cont c then c # take_chars n cs
      else if n = 0 then []
      else c # take_chars (n - 1) cs)"

definition fence :: string where
  "fence = [CHR 0x60, CHR 0x60, CHR 0x60]"

definition summarize_tool_output :: "string \<Rightarrow> string option" where
  "summarize_tool_output text =
     (let kept = filter (\<lambda>l. \<not> prefix fence (trim_start l)) (str_lines text);
          stripped = str_trim (str_join [CHR 0x0A] kept)
      in if stripped = [] then None
         else if char_count stripped \<le> tool_output_summary_max then Some stripped
         else
           let line = trim_end
             (case find (\<lambda>l. \<not> is_blank l) (str_lines stripped) of
                Some l \<Rightarrow> l | None \<Rightarrow> stripped)
           in Some (take_chars tool_output_summary_max line @ ellipsis))"

type_synonym line_differ = "string \<Rightarrow> string \<Rightarrow> nat \<times> nat"

definition diff_stat :: "line_differ \<Rightarrow> tool_diff \<Rightarrow> tool_diff_stat" where
  "diff_stat ld d =
     (let (additions, deletions) =
        (case td_old_text d of
           None \<Rightarrow> (length (str_lines (td_new_text d)), 0)
         | Some old \<Rightarrow> ld old (td_new_text d))
      in \<lparr>dst_path = td_path d, dst_additions = additions, dst_deletions = deletions\<rparr>)"

subsection \<open>The event fold\<close>

definition new_tool_part :: "string \<Rightarrow> tool_call \<Rightarrow> tool_part" where
  "new_tool_part i c =
     \<lparr>tp_id = i, tp_call = c, tp_is_error = False, tp_resolved = False, tp_output = None,
      tp_diff = None, tp_output_ref = None, tp_output_bytes = None, tp_diff_ref = None,
      tp_diff_stats = None\<rparr>"

text \<open>Refresh the call of the first tool part with this id; \<^const>\<open>None\<close> when there is none.\<close>

fun refresh_tool :: "string \<Rightarrow> tool_call \<Rightarrow> message_part list \<Rightarrow> message_part list option" where
  "refresh_tool i c [] = None"
| "refresh_tool i c (PTool t # ps) =
     (if tp_id t = i then Some (PTool (t\<lparr>tp_call := c\<rparr>) # ps)
      else map_option (\<lambda>qs. PTool t # qs) (refresh_tool i c ps))"
| "refresh_tool i c (p # ps) = map_option (\<lambda>qs. p # qs) (refresh_tool i c ps)"

text \<open>A tool result resolves the part and keeps the error flag and the diff statistics only.\<close>

definition resolve_tool ::
    "line_differ \<Rightarrow> string \<Rightarrow> bool \<Rightarrow> tool_diff option \<Rightarrow> message_part \<Rightarrow> message_part" where
  "resolve_tool ld i is_error diff p =
     (case p of
        PTool t \<Rightarrow>
          if tp_id t = i
          then PTool (t\<lparr>tp_is_error := is_error, tp_resolved := True, tp_output := None,
                 tp_diff := None, tp_output_bytes := None,
                 tp_diff_stats := map_option (\<lambda>d. [diff_stat ld d]) diff\<rparr>)
          else p
      | _ \<Rightarrow> p)"

definition resolve_input :: "string \<Rightarrow> message_part \<Rightarrow> message_part" where
  "resolve_input rid p =
     (case p of
        PInput i rid' qs r \<Rightarrow> if rid' = rid then PInput i rid' qs True else p
      | _ \<Rightarrow> p)"

fun fold_event_into_parts ::
    "line_differ \<Rightarrow> message_part list \<Rightarrow> agent_event \<Rightarrow> message_part list" where
  "fold_event_into_parts ld out (SessionStarted _ _ _ _ _ _) = []"
| "fold_event_into_parts ld out (Steered _ _) = []"
| "fold_event_into_parts ld out (TextDelta text) =
     (case rev out of
        PText i tail # front \<Rightarrow> rev front @ [PText i (tail @ text)]
      | _ \<Rightarrow> out @ [PText (''t'' @ dec (length out)) text])"
| "fold_event_into_parts ld out (CommentaryDelta text) =
     (case rev out of
        PCommentary i tail # front \<Rightarrow> rev front @ [PCommentary i (tail @ text)]
      | _ \<Rightarrow> out @ [PCommentary (''c'' @ dec (length out)) text])"
| "fold_event_into_parts ld out (NoticeEvent level message) =
     out @ [PNotice (''n'' @ dec (length out)) level message]"
| "fold_event_into_parts ld out (ReasoningDelta _) = out"
| "fold_event_into_parts ld out (ToolCallEvent i c) =
     (case refresh_tool i c out of
        Some out' \<Rightarrow> out'
      | None \<Rightarrow> out @ [PTool (new_tool_part i c)])"
| "fold_event_into_parts ld out (ToolResult i is_error output diff) =
     map (resolve_tool ld i is_error diff) out"
| "fold_event_into_parts ld out (InputRequested rid qs) =
     (let i = ''in-'' @ rid
      in if list_ex (\<lambda>p. part_id p = i) out then out else out @ [PInput i rid qs False])"
| "fold_event_into_parts ld out (InputResolved rid) = map (resolve_input rid) out"
| "fold_event_into_parts ld out (ErrorEvent message) =
     out @ [PError (''e'' @ dec (length out)) message]"
| "fold_event_into_parts ld out (Done _ _ error _) =
     (case error of
        Some message \<Rightarrow> out @ [PError (''e'' @ dec (length out)) message]
      | None \<Rightarrow> out)"
| "fold_event_into_parts ld out (AssistantMessageCompleted _) = out"
| "fold_event_into_parts ld out (Usage _ _) = out"
| "fold_event_into_parts ld out (AvailableCommands _) = out"

text \<open>The caller folds a stream of events, one at a time.\<close>

abbreviation fold_events :: "line_differ \<Rightarrow> message_part list \<Rightarrow> agent_event list \<Rightarrow>
    message_part list" where
  "fold_events ld out evs \<equiv> foldl (fold_event_into_parts ld) out evs"

subsection \<open>Sidecar references and payloads\<close>

definition stamp_refs :: "string \<Rightarrow> message_part \<Rightarrow> message_part" where
  "stamp_refs chat_id p =
     (case p of
        PTool t \<Rightarrow>
          if tp_resolved t then
            (let t = (if tp_output_ref t = None \<and> tp_output_bytes t \<noteq> None
                      then t\<lparr>tp_output_ref := Some (chat_id @ ''/'' @ tp_id t)\<rparr> else t);
                 t = (if tp_diff_ref t = None \<and> tp_diff_stats t \<noteq> None
                      then t\<lparr>tp_diff_ref := Some (chat_id @ ''/'' @ tp_id t @ ''.diff'')\<rparr> else t)
             in PTool t)
          else p
      | _ \<Rightarrow> p)"

definition apply_sidecar_refs :: "string \<Rightarrow> message_part list \<Rightarrow> message_part list" where
  "apply_sidecar_refs chat_id parts = map (stamp_refs chat_id) parts"

record sidecar_payload_rec =
  sd_part_id :: string
  sd_output :: "string option"
  sd_diff :: "tool_diff option"

definition sidecar_payload :: "agent_event \<Rightarrow> sidecar_payload_rec option" where
  "sidecar_payload ev =
     (case ev of
        ToolResult i _ output diff \<Rightarrow>
          (let output = (case output of
                           Some s \<Rightarrow> if is_blank s then None else Some s
                         | None \<Rightarrow> None)
           in if output = None \<and> diff = None then None
              else Some \<lparr>sd_part_id = i, sd_output = output, sd_diff = diff\<rparr>)
      | _ \<Rightarrow> None)"

subsection \<open>The privacy policy\<close>

fun sanitize_tool_call :: "tool_call \<Rightarrow> tool_call" where
  "sanitize_tool_call (WriteFile path _) = WriteFile path None"
| "sanitize_tool_call (EditFile path _ _) = EditFile path None None"
| "sanitize_tool_call (WebFetch url _) = WebFetch url None"
| "sanitize_tool_call (Mcp server tool _) = Mcp server tool None"
| "sanitize_tool_call (UnknownTool name _) = UnknownTool name None"
| "sanitize_tool_call other = other"

subsection \<open>Continuation splitting\<close>

definition msg_inline_max :: nat where
  "msg_inline_max = 256 * 1024"

definition continuation_id :: "string \<Rightarrow> nat \<Rightarrow> string" where
  "continuation_id root index = root @ ''#c'' @ dec index"

text \<open>The inner \<^verbatim>\<open>while\<close> that moves an offset back to a character boundary.\<close>

fun back_off :: "string \<Rightarrow> nat \<Rightarrow> nat" where
  "back_off text 0 = 0"
| "back_off text (Suc e) =
     (if Suc e < length text \<and> \<not> is_char_boundary text (Suc e) then back_off text e
      else Suc e)"

definition piece_end :: "nat \<Rightarrow> string \<Rightarrow> nat \<Rightarrow> nat" where
  "piece_end mx text start =
     (let e = back_off text (min (start + mx) (length text))
      in if e \<le> start then length text else e)"

function text_pieces :: "nat \<Rightarrow> string \<Rightarrow> string \<Rightarrow> nat \<Rightarrow> nat \<Rightarrow> (string \<times> string) list" where
  "text_pieces mx i text start piece =
     (if start < length text
      then
        let e = piece_end mx text start
        in ((if piece = 0 then i else i @ ''~'' @ dec piece), take (e - start) (drop start text))
           # text_pieces mx i text e (Suc piece)
      else [])"
  by pat_completeness auto
termination
  by (relation "measure (\<lambda>(mx, i, text, start, piece). length text - start)")
    (auto simp: piece_end_def Let_def)

declare text_pieces.simps [simp del]

definition push_part ::
    "json_sizes \<Rightarrow> nat \<Rightarrow> message_part list list \<times> nat \<Rightarrow> message_part \<Rightarrow>
       message_part list list \<times> nat" where
  "push_part js mx st part =
     (let (chunks, current) = st;
          len = byte_len js part;
          (chunks, current) =
            (if current > 0 \<and> current + len > mx then (chunks @ [[]], 0) else (chunks, current))
      in (butlast chunks @ [last chunks @ [part]], current + len))"

definition part_pieces :: "nat \<Rightarrow> message_part \<Rightarrow> message_part list" where
  "part_pieces mx part =
     (case part of
        PText i text \<Rightarrow>
          if length text > mx then map (\<lambda>(j, s). PText j s) (text_pieces mx i text 0 0) else [part]
      | PCommentary i text \<Rightarrow>
          if length text > mx then map (\<lambda>(j, s). PCommentary j s) (text_pieces mx i text 0 0)
          else [part]
      | _ \<Rightarrow> [part])"

definition split_with :: "json_sizes \<Rightarrow> nat \<Rightarrow> message_part list \<Rightarrow> message_part list list" where
  "split_with js mx parts =
     fst (foldl (\<lambda>st part. foldl (push_part js mx) st (part_pieces mx part)) ([[]], 0) parts)"

definition split_parts :: "json_sizes \<Rightarrow> message_part list \<Rightarrow> message_part list list" where
  "split_parts js parts = split_with js msg_inline_max parts"

definition join_continuations :: "message_part list list \<Rightarrow> message_part list" where
  "join_continuations entries = concat entries"

subsection \<open>The invariant of the fold\<close>

text \<open>Ids of prose parts are positional; a tool part carries no payload and no reference.\<close>

definition id_at :: "nat \<Rightarrow> message_part \<Rightarrow> bool" where
  "id_at i p =
     (case p of
        PText j _ \<Rightarrow> j = ''t'' @ dec i
      | PCommentary j _ \<Rightarrow> j = ''c'' @ dec i
      | PNotice j _ _ \<Rightarrow> j = ''n'' @ dec i
      | PError j _ \<Rightarrow> j = ''e'' @ dec i
      | PInput j rid _ _ \<Rightarrow> j = ''in-'' @ rid
      | PTool _ \<Rightarrow> True)"

definition no_payload :: "message_part \<Rightarrow> bool" where
  "no_payload p =
     (case p of
        PTool t \<Rightarrow> tp_output t = None \<and> tp_diff t = None \<and> tp_output_bytes t = None \<and>
          tp_output_ref t = None \<and> tp_diff_ref t = None
      | _ \<Rightarrow> True)"

definition tool_ids :: "message_part list \<Rightarrow> string list" where
  "tool_ids ps = concat (map (\<lambda>p. case p of PTool t \<Rightarrow> [tp_id t] | _ \<Rightarrow> []) ps)"

definition input_ids :: "message_part list \<Rightarrow> string list" where
  "input_ids ps = concat (map (\<lambda>p. case p of PInput _ rid _ _ \<Rightarrow> [rid] | _ \<Rightarrow> []) ps)"

definition parts_inv :: "message_part list \<Rightarrow> bool" where
  "parts_inv ps \<longleftrightarrow>
     (\<forall>i < length ps. id_at i (ps ! i)) \<and> (\<forall>p \<in> set ps. no_payload p) \<and>
     distinct (tool_ids ps) \<and> distinct (input_ids ps)"

named_theorems part_simps \<open>projections of message parts\<close>

lemmas [part_simps] = id_at_def no_payload_def tool_ids_def input_ids_def

lemma ids_append [part_simps]:
  "tool_ids (xs @ ys) = tool_ids xs @ tool_ids ys"
  "input_ids (xs @ ys) = input_ids xs @ input_ids ys"
  by (simp_all add: tool_ids_def input_ids_def)

text \<open>A step that maps every part without touching ids and kinds keeps the invariant.\<close>

lemma parts_inv_map:
  assumes inv: "parts_inv ps"
    and f: "\<And>i p. id_at i p \<Longrightarrow> id_at i (f p)" "\<And>p. no_payload p \<Longrightarrow> no_payload (f p)"
      "\<And>p. tool_ids [f p] = tool_ids [p]" "\<And>p. input_ids [f p] = input_ids [p]"
  shows "parts_inv (map f ps)"
proof -
  have "tool_ids (map f qs) = tool_ids qs \<and> input_ids (map f qs) = input_ids qs" for qs
  proof (induction qs)
    case (Cons q qs)
    have "tool_ids (f q # map f qs) = tool_ids [f q] @ tool_ids (map f qs)"
      "tool_ids (q # qs) = tool_ids [q] @ tool_ids qs"
      "input_ids (f q # map f qs) = input_ids [f q] @ input_ids (map f qs)"
      "input_ids (q # qs) = input_ids [q] @ input_ids qs"
      by (simp_all add: tool_ids_def input_ids_def)
    with Cons f show ?case by simp
  qed simp
  with inv f(1,2) show ?thesis by (auto simp: parts_inv_def)
qed

text \<open>So does appending a part whose id is positional and new.\<close>

lemma parts_inv_snoc:
  "parts_inv (ps @ [p]) \<longleftrightarrow>
     parts_inv ps \<and> id_at (length ps) p \<and> no_payload p \<and>
     (\<forall>t. p = PTool t \<longrightarrow> tp_id t \<notin> set (tool_ids ps)) \<and>
     (\<forall>j rid qs r. p = PInput j rid qs r \<longrightarrow> rid \<notin> set (input_ids ps))"
  by (cases p) (auto simp: parts_inv_def nth_append ids_append tool_ids_def [of "[_]"]
      input_ids_def [of "[_]"] less_Suc_eq)

lemma refresh_tool_None: "refresh_tool i c ps = None \<longleftrightarrow> i \<notin> set (tool_ids ps)"
  by (induction i c ps rule: refresh_tool.induct) (auto simp: tool_ids_def)

text \<open>A refresh replaces the call of one tool part, found by its id.\<close>

lemma refresh_tool_Cons:
  "tool_ids [p] \<noteq> [i] \<Longrightarrow> refresh_tool i c (p # ps) = map_option ((#) p) (refresh_tool i c ps)"
  by (cases p) (auto simp: tool_ids_def)

lemma refresh_tool_Some:
  "refresh_tool i c ps = Some qs \<Longrightarrow>
     \<exists>xs t ys. ps = xs @ PTool t # ys \<and> tp_id t = i \<and> i \<notin> set (tool_ids xs) \<and>
       qs = xs @ PTool (t\<lparr>tp_call := c\<rparr>) # ys"
proof (induction ps arbitrary: qs)
  case Nil
  then show ?case by simp
next
  case (Cons p ps)
  show ?case
  proof (cases "tool_ids [p] = [i]")
    case True
    then obtain t where "p = PTool t" "tp_id t = i" by (cases p) (auto simp: tool_ids_def)
    with Cons.prems show ?thesis by (intro exI [of _ "[]"]) (auto simp: tool_ids_def)
  next
    case False
    with Cons.prems obtain zs where zs: "refresh_tool i c ps = Some zs" "qs = p # zs"
      by (auto simp: refresh_tool_Cons)
    from Cons.IH [OF zs(1)] obtain xs t ys where
      *: "ps = xs @ PTool t # ys" "tp_id t = i" "i \<notin> set (tool_ids xs)"
        "zs = xs @ PTool (t\<lparr>tp_call := c\<rparr>) # ys" by blast
    have "i \<notin> set (tool_ids (p # xs))"
      using False *(3) ids_append(1) [of "[p]" xs] by (cases p) (auto simp: tool_ids_def)
    with * zs(2) show ?thesis by (intro exI [of _ "p # xs"]) auto
  qed
qed

lemma parts_inv_swap:
  assumes "parts_inv (xs @ PTool t # ys)" "tp_id u = tp_id t" "no_payload (PTool u)"
  shows "parts_inv (xs @ PTool u # ys)"
proof -
  have "id_at i ((xs @ PTool u # ys) ! i)" if "i < length (xs @ PTool u # ys)" for i
  proof (cases "i = length xs")
    case True
    then show ?thesis by (simp add: id_at_def)
  next
    case False
    then have "(xs @ PTool u # ys) ! i = (xs @ PTool t # ys) ! i"
      by (auto simp: nth_append nth_Cons')
    with assms(1) that show ?thesis by (auto simp: parts_inv_def)
  qed
  moreover have "tool_ids (xs @ PTool u # ys) = tool_ids (xs @ PTool t # ys)"
    "input_ids (xs @ PTool u # ys) = input_ids (xs @ PTool t # ys)"
    using assms(2) by (simp_all add: tool_ids_def input_ids_def)
  ultimately show ?thesis
    using assms by (auto simp: parts_inv_def)
qed

lemma parts_inv_resolve: "parts_inv ps \<Longrightarrow> parts_inv (map (resolve_tool ld i e d) ps)"
  by (rule parts_inv_map)
    (auto simp: resolve_tool_def part_simps split: message_part.splits)

lemma parts_inv_resolve_input: "parts_inv ps \<Longrightarrow> parts_inv (map (resolve_input rid) ps)"
  by (rule parts_inv_map)
    (auto simp: resolve_input_def part_simps split: message_part.splits)

lemma parts_inv_refresh:
  assumes "parts_inv ps" "refresh_tool i c ps = Some qs"
  shows "parts_inv qs"
proof -
  from refresh_tool_Some [OF assms(2)] obtain xs t ys where
    *: "ps = xs @ PTool t # ys" "qs = xs @ PTool (t\<lparr>tp_call := c\<rparr>) # ys" by blast
  then have "no_payload (PTool t)" using assms(1) by (simp add: parts_inv_def)
  then show ?thesis
    using parts_inv_swap [of xs t ys "t\<lparr>tp_call := c\<rparr>"] assms(1) *
    by (simp add: no_payload_def)
qed

lemma input_id_mem:
  assumes "parts_inv ps" "rid \<in> set (input_ids ps)"
  shows "list_ex (\<lambda>p. part_id p = ''in-'' @ rid) ps"
proof -
  from assms(2) obtain p where p: "p \<in> set ps" "rid \<in> set (input_ids [p])"
    by (auto simp: input_ids_def)
  then obtain j qs r where pj: "p = PInput j rid qs r"
    by (cases p) (auto simp: input_ids_def)
  with p(1) assms(1) have "j = ''in-'' @ rid"
    by (force simp: parts_inv_def id_at_def in_set_conv_nth)
  with p(1) pj show ?thesis by (auto simp: list_ex_iff intro!: bexI [of _ p])
qed

lemma fold_text_shape:
  "fold_event_into_parts ld ps (TextDelta s) = ps @ [PText (''t'' @ dec (length ps)) s] \<or>
   (\<exists>xs i tail. ps = xs @ [PText i tail] \<and>
      fold_event_into_parts ld ps (TextDelta s) = xs @ [PText i (tail @ s)])"
proof (cases "rev ps")
  case (Cons p front)
  then have "ps = rev front @ [p]" by (metis rev_eq_Cons_iff)
  then show ?thesis by (cases p) simp_all
qed simp

lemma fold_commentary_shape:
  "fold_event_into_parts ld ps (CommentaryDelta s) = ps @ [PCommentary (''c'' @ dec (length ps)) s] \<or>
   (\<exists>xs i tail. ps = xs @ [PCommentary i tail] \<and>
      fold_event_into_parts ld ps (CommentaryDelta s) = xs @ [PCommentary i (tail @ s)])"
proof (cases "rev ps")
  case (Cons p front)
  then have "ps = rev front @ [p]" by (metis rev_eq_Cons_iff)
  then show ?thesis by (cases p) simp_all
qed simp

lemma parts_inv_fold_event:
  assumes inv: "parts_inv ps"
  shows "parts_inv (fold_event_into_parts ld ps ev)"
proof (cases ev)
  case (TextDelta s)
  show ?thesis
    using fold_text_shape [of ld ps s] inv unfolding TextDelta
    by (elim disjE exE conjE)
      (simp_all add: parts_inv_snoc id_at_def no_payload_def del: fold_event_into_parts.simps)
next
  case (CommentaryDelta s)
  show ?thesis
    using fold_commentary_shape [of ld ps s] inv unfolding CommentaryDelta
    by (elim disjE exE conjE)
      (simp_all add: parts_inv_snoc id_at_def no_payload_def del: fold_event_into_parts.simps)
next
  case (ToolCallEvent i c)
  with inv show ?thesis
    by (auto simp: parts_inv_snoc refresh_tool_None id_at_def no_payload_def new_tool_part_def
        intro: parts_inv_refresh split: option.splits)
next
  case (InputRequested rid qs)
  with inv show ?thesis
    by (auto simp: parts_inv_snoc id_at_def no_payload_def Let_def dest: input_id_mem)
qed (auto simp: parts_inv_snoc id_at_def no_payload_def inv parts_inv_def [of "[]"]
    tool_ids_def [of "[]"] input_ids_def [of "[]"]
    intro: parts_inv_resolve parts_inv_resolve_input split: option.splits)

lemma parts_inv_fold_events: "parts_inv ps \<Longrightarrow> parts_inv (fold_events ld ps evs)"
  by (induction evs arbitrary: ps) (simp_all add: parts_inv_fold_event del: fold_event_into_parts.simps)

lemma parts_inv_Nil [simp]: "parts_inv []"
  by (simp add: parts_inv_def tool_ids_def input_ids_def)

text \<open>
  C31. Whatever stream of agent events is folded into an empty accumulator, the ids of prose parts
  are their positions, no two tool parts and no two input prompts share an id, and no tool part
  carries output bytes, a diff or a sidecar reference: the transcript stores statistics only.
\<close>

theorem fold_events_invariant: "parts_inv (fold_events ld [] evs)"
  by (simp add: parts_inv_fold_events)

subsection \<open>What the fold keeps of the stream\<close>

text \<open>The events after the last \<^verbatim>\<open>SessionStarted\<close> or \<^verbatim>\<open>Steered\<close>.\<close>

definition is_boundary :: "agent_event \<Rightarrow> bool" where
  "is_boundary ev =
     (case ev of SessionStarted _ _ _ _ _ _ \<Rightarrow> True | Steered _ _ \<Rightarrow> True | _ \<Rightarrow> False)"

definition live_events :: "agent_event list \<Rightarrow> agent_event list" where
  "live_events evs = rev (takeWhile (\<lambda>ev. \<not> is_boundary ev) (rev evs))"

definition text_of :: "message_part list \<Rightarrow> string" where
  "text_of ps = concat (map (\<lambda>p. case p of PText _ s \<Rightarrow> s | _ \<Rightarrow> []) ps)"

definition commentary_of :: "message_part list \<Rightarrow> string" where
  "commentary_of ps = concat (map (\<lambda>p. case p of PCommentary _ s \<Rightarrow> s | _ \<Rightarrow> []) ps)"

lemma text_of_append [part_simps]:
  "text_of (xs @ ys) = text_of xs @ text_of ys" "text_of [] = []"
  "commentary_of (xs @ ys) = commentary_of xs @ commentary_of ys" "commentary_of [] = []"
  by (simp_all add: text_of_def commentary_of_def)

lemma text_of_single [part_simps]:
  "text_of [PText i s] = s" "text_of [PCommentary i s] = []" "text_of [PNotice i l m] = []"
  "text_of [PTool t] = []" "text_of [PInput i r q b] = []" "text_of [PError i m] = []"
  "commentary_of [PText i s] = []" "commentary_of [PCommentary i s] = s"
  "commentary_of [PNotice i l m] = []" "commentary_of [PTool t] = []"
  "commentary_of [PInput i r q b] = []" "commentary_of [PError i m] = []"
  by (simp_all add: text_of_def commentary_of_def)

lemma text_of_map:
  assumes "\<And>p. text_of [f p] = text_of [p]" "\<And>p. commentary_of [f p] = commentary_of [p]"
  shows "text_of (map f ps) = text_of ps" "commentary_of (map f ps) = commentary_of ps"
proof -
  show "text_of (map f ps) = text_of ps"
    using assms(1) by (induction ps) (simp_all add: text_of_def)
  show "commentary_of (map f ps) = commentary_of ps"
    using assms(2) by (induction ps) (simp_all add: commentary_of_def)
qed

lemma text_of_resolve:
  "text_of (map (resolve_tool ld i e d) ps) = text_of ps"
  "commentary_of (map (resolve_tool ld i e d) ps) = commentary_of ps"
  "text_of (map (resolve_input rid) ps) = text_of ps"
  "commentary_of (map (resolve_input rid) ps) = commentary_of ps"
  by (rule text_of_map; simp add: resolve_tool_def resolve_input_def part_simps
        split: message_part.split)+

lemma text_of_refresh:
  assumes "refresh_tool i c ps = Some qs"
  shows "text_of qs = text_of ps" "commentary_of qs = commentary_of ps"
  using refresh_tool_Some [OF assms] by (auto simp: text_of_def commentary_of_def)

definition ev_text :: "agent_event \<Rightarrow> string" where
  "ev_text ev = (case ev of TextDelta s \<Rightarrow> s | _ \<Rightarrow> [])"

definition ev_commentary :: "agent_event \<Rightarrow> string" where
  "ev_commentary ev = (case ev of CommentaryDelta s \<Rightarrow> s | _ \<Rightarrow> [])"

lemma text_of_step:
  "text_of (fold_event_into_parts ld ps ev) =
     (if is_boundary ev then [] else text_of ps @ ev_text ev)"
proof (cases ev)
  case (TextDelta s)
  show ?thesis
    using fold_text_shape [of ld ps s] unfolding TextDelta
    by (elim disjE exE conjE) (simp_all add: part_simps is_boundary_def ev_text_def del: fold_event_into_parts.simps)
next
  case (CommentaryDelta s)
  show ?thesis
    using fold_commentary_shape [of ld ps s] unfolding CommentaryDelta
    by (elim disjE exE conjE) (simp_all add: part_simps is_boundary_def ev_text_def del: fold_event_into_parts.simps)
qed (auto simp: part_simps is_boundary_def ev_text_def Let_def text_of_resolve text_of_refresh
    split: option.split)

lemma commentary_of_step:
  "commentary_of (fold_event_into_parts ld ps ev) =
     (if is_boundary ev then [] else commentary_of ps @ ev_commentary ev)"
proof (cases ev)
  case (TextDelta s)
  show ?thesis
    using fold_text_shape [of ld ps s] unfolding TextDelta
    by (elim disjE exE conjE) (simp_all add: part_simps is_boundary_def ev_commentary_def del: fold_event_into_parts.simps)
next
  case (CommentaryDelta s)
  show ?thesis
    using fold_commentary_shape [of ld ps s] unfolding CommentaryDelta
    by (elim disjE exE conjE) (simp_all add: part_simps is_boundary_def ev_commentary_def del: fold_event_into_parts.simps)
qed (auto simp: part_simps is_boundary_def ev_commentary_def Let_def text_of_resolve
    text_of_refresh split: option.split)

lemma live_events_snoc:
  "live_events (evs @ [ev]) = (if is_boundary ev then [] else live_events evs @ [ev])"
  by (simp add: live_events_def)

text \<open>
  The prose of the folded parts is exactly the concatenation of the text deltas streamed since
  the last session start or steer, in order, and likewise for the commentary: no delta is lost,
  repeated or moved, whatever other events are interleaved.
\<close>

theorem fold_events_text:
  "text_of (fold_events ld [] evs) = concat (map ev_text (live_events evs)) \<and>
   commentary_of (fold_events ld [] evs) = concat (map ev_commentary (live_events evs))"
proof (induction evs rule: rev_induct)
  case Nil
  then show ?case by (simp add: live_events_def part_simps)
next
  case (snoc ev evs)
  then show ?case
    by (simp add: live_events_snoc text_of_step commentary_of_step
        del: fold_event_into_parts.simps)
qed

lemma refresh_tool_twice:
  "refresh_tool i c ps = Some qs \<Longrightarrow> refresh_tool i c qs = Some qs"
proof (induction ps arbitrary: qs)
  case (Cons p ps)
  show ?case
  proof (cases "tool_ids [p] = [i]")
    case True
    with Cons.prems show ?thesis by (cases p) (auto simp: tool_ids_def)
  next
    case False
    with Cons show ?thesis by (auto simp: refresh_tool_Cons)
  qed
qed simp

lemma refresh_tool_new:
  "i \<notin> set (tool_ids ps) \<Longrightarrow> tp_id t = i \<Longrightarrow> tp_call t = c \<Longrightarrow>
     refresh_tool i c (ps @ [PTool t]) = Some (ps @ [PTool t])"
proof (induction ps)
  case (Cons p ps)
  have "tool_ids [p] \<noteq> [i]" and "i \<notin> set (tool_ids ps)"
    using Cons.prems(1) ids_append(1) [of "[p]" ps] by auto
  with Cons show ?case by (simp add: refresh_tool_Cons)
qed simp

lemma resolve_tool_twice: "resolve_tool ld i e d (resolve_tool ld i e d p) = resolve_tool ld i e d p"
  by (simp add: resolve_tool_def split: message_part.split)

lemma resolve_input_twice: "resolve_input rid (resolve_input rid p) = resolve_input rid p"
  by (simp add: resolve_input_def split: message_part.split)

definition is_id_event :: "agent_event \<Rightarrow> bool" where
  "is_id_event ev =
     (case ev of ToolCallEvent _ _ \<Rightarrow> True | ToolResult _ _ _ _ \<Rightarrow> True
      | InputRequested _ _ \<Rightarrow> True | InputResolved _ \<Rightarrow> True | _ \<Rightarrow> False)"

text \<open>
  Replaying an event that was folded already changes nothing: a repeated tool call only
  refreshes the call, a repeated result, request or resolution is absorbed.
\<close>

theorem fold_event_replay:
  assumes "is_id_event ev"
  shows "fold_event_into_parts ld (fold_event_into_parts ld ps ev) ev =
    fold_event_into_parts ld ps ev"
proof (cases ev)
  case (ToolCallEvent i c)
  show ?thesis
  proof (cases "refresh_tool i c ps")
    case None
    then have "refresh_tool i c (ps @ [PTool (new_tool_part i c)]) =
        Some (ps @ [PTool (new_tool_part i c)])"
      by (intro refresh_tool_new) (simp_all add: refresh_tool_None new_tool_part_def)
    with None ToolCallEvent show ?thesis by simp
  next
    case (Some qs)
    with ToolCallEvent show ?thesis by (simp add: refresh_tool_twice)
  qed
qed (use assms in \<open>auto simp: is_id_event_def resolve_tool_twice resolve_input_twice Let_def\<close>)

lemma fold_event_replay_witness:
  "is_id_event (ToolCallEvent ''x'' (Exec ''ls'')) \<and>
   fold_event_into_parts (\<lambda>_ _. (0, 0))
       (fold_event_into_parts (\<lambda>_ _. (0, 0)) [PText ''t0'' ''hi'']
       (ToolCallEvent ''x'' (Exec ''ls''))) (ToolCallEvent ''x'' (Exec ''ls'')) =
     [PText ''t0'' ''hi'', PTool (new_tool_part ''x'' (Exec ''ls''))]"
proof -
  have h: "is_id_event (ToolCallEvent ''x'' (Exec ''ls''))"
    by (simp add: is_id_event_def)
  then show ?thesis
    using fold_event_replay [OF h, of "\<lambda>_ _. (0, 0)" "[PText ''t0'' ''hi'']"] h by simp
qed

subsection \<open>Splitting\<close>

lemma back_off_le: "back_off str e \<le> e"
  by (induction str e rule: back_off.induct) auto

lemma back_off_ge: "is_char_boundary str j \<Longrightarrow> j \<le> e \<Longrightarrow> j \<le> back_off str e"
  by (induction str e rule: back_off.induct) (auto simp: le_Suc_eq)

lemma back_off_boundary:
  "0 < back_off str e \<Longrightarrow> e \<le> length str \<Longrightarrow> is_char_boundary str (back_off str e)"
  by (induction str e rule: back_off.induct) (auto simp: is_char_boundary_def)

lemma piece_end_bounds:
  assumes "start < length str"
  shows "start < piece_end mx str start" "piece_end mx str start \<le> length str"
    "is_char_boundary str (piece_end mx str start)"
proof -
  let ?e = "back_off str (min (start + mx) (length str))"
  show "start < piece_end mx str start"
    using assms by (auto simp: piece_end_def Let_def)
  have "?e \<le> length str" using back_off_le [of str "min (start + mx) (length str)"] by simp
  then show "piece_end mx str start \<le> length str" by (simp add: piece_end_def Let_def)
  show "is_char_boundary str (piece_end mx str start)"
  proof (cases "?e \<le> start")
    case True
    then show ?thesis by (simp add: piece_end_def is_char_boundary_def)
  next
    case False
    with back_off_boundary [of str "min (start + mx) (length str)"] show ?thesis
      by (simp add: piece_end_def)
  qed
qed

text \<open>Every four consecutive bytes of a UTF-8 string hold the first byte of a character.\<close>

definition char_windows :: "string \<Rightarrow> bool" where
  "char_windows str \<longleftrightarrow>
     list_all (\<lambda>i. list_ex (\<lambda>j. \<not> is_cont (str ! (i + j))) [0..<4]) [0..<length str - 3]"

lemma char_windowsD:
  assumes "char_windows str" "i + 3 < length str"
  obtains j where "j \<in> {i..i+3}" "\<not> is_cont (str ! j)"
proof -
  from assms have "list_ex (\<lambda>j. \<not> is_cont (str ! (i + j))) [0..<4]"
    by (simp add: char_windows_def list_all_iff)
  then obtain k where "k < 4" "\<not> is_cont (str ! (i + k))" by (auto simp: list_ex_iff)
  then show thesis by (intro that [of "i + k"]) auto
qed

lemma piece_end_le:
  assumes "start < length str" "4 \<le> mx" "char_windows str"
  shows "piece_end mx str start \<le> start + mx"
proof (cases "start + mx < length str")
  case True
  define e where "e = start + mx"
  from True assms(2) have "e - 3 + 3 < length str" by (simp add: e_def)
  with assms(3) obtain j where j: "j \<in> {e - 3..e - 3 + 3}" "\<not> is_cont (str ! j)"
    using char_windowsD by blast
  with True assms(2) have "is_char_boundary str j" "j \<le> e" "start < j"
    by (auto simp: is_char_boundary_def e_def)
  with back_off_ge [of str j e] back_off_le [of str e] True show ?thesis
    by (simp add: piece_end_def e_def)
next
  case False
  with piece_end_bounds(2) [OF assms(1), of mx] show ?thesis by simp
qed

lemma take_drop_split: "a \<le> b \<Longrightarrow> take (b - a) (drop a xs) @ drop b xs = drop a xs"
  by (metis append_take_drop_id drop_drop le_add_diff_inverse2)

lemma concat_text_pieces: "concat (map snd (text_pieces mx i str start piece)) = drop start str"
proof (induction mx i str start piece rule: text_pieces.induct)
  case (1 mx i str start piece)
  show ?case
  proof (cases "start < length str")
    case True
    have "start \<le> piece_end mx str start"
      using piece_end_bounds(1) [OF True] by (simp add: less_imp_le)
    with 1 True show ?thesis
      by (subst text_pieces.simps) (simp add: Let_def take_drop_split)
  next
    case False
    then show ?thesis by (subst text_pieces.simps) simp
  qed
qed

definition piece_ok :: "nat \<Rightarrow> string \<Rightarrow> bool" where
  "piece_ok mx s \<longleftrightarrow> s \<noteq> [] \<and> length s \<le> mx \<and> \<not> is_cont (hd s)"

lemma text_pieces_ok:
  assumes "4 \<le> mx" "char_windows str" "start < length str" "\<not> is_cont (str ! start)"
  shows "\<forall>s \<in> snd ` set (text_pieces mx i str start piece). piece_ok mx s"
  using assms
proof (induction mx i str start piece rule: text_pieces.induct)
  case (1 mx i str start piece)
  define e where "e = piece_end mx str start"
  have e: "start < e" "e \<le> length str" "is_char_boundary str e" "e \<le> start + mx"
    using piece_end_bounds [OF "1.prems"(3)] piece_end_le [OF "1.prems"(3,1,2)]
    by (simp_all add: e_def)
  have rest: "\<forall>s \<in> snd ` set (text_pieces mx i str e (Suc piece)). piece_ok mx s"
  proof (cases "e < length str")
    case True
    with e(1,3) "1.prems" show ?thesis
      unfolding e_def by (intro "1.IH") (auto simp: is_char_boundary_def)
  next
    case False
    then show ?thesis by (subst text_pieces.simps) simp
  qed
  have "piece_ok mx (take (e - start) (drop start str))"
    using e "1.prems" by (auto simp: piece_ok_def hd_drop_conv_nth)
  with rest "1.prems"(3) show ?case
    by (subst text_pieces.simps) (simp add: Let_def e_def)
qed

text \<open>What the transcript can read back from the pieces of a part.\<close>

lemma text_of_pieces:
  "text_of (part_pieces mx p) = text_of [p]"
  "commentary_of (part_pieces mx p) = commentary_of [p]"
  using concat_text_pieces [of mx _ _ 0 0]
  by (cases p; simp add: part_pieces_def text_of_def commentary_of_def comp_def split_def)+

definition is_prose :: "message_part \<Rightarrow> bool" where
  "is_prose p = (case p of PText _ _ \<Rightarrow> True | PCommentary _ _ \<Rightarrow> True | _ \<Rightarrow> False)"

lemma filter_pieces: "filter (\<lambda>q. \<not> is_prose q) (part_pieces mx p) = filter (\<lambda>q. \<not> is_prose q) [p]"
  by (cases p) (auto simp: part_pieces_def is_prose_def filter_empty_conv)

definition chunk_bytes :: "json_sizes \<Rightarrow> message_part list \<Rightarrow> nat" where
  "chunk_bytes js c = sum_list (map (byte_len js) c)"

definition split_inv :: "json_sizes \<Rightarrow> nat \<Rightarrow> message_part list \<Rightarrow>
    message_part list list \<times> nat \<Rightarrow> bool" where
  "split_inv js mx ps st \<longleftrightarrow>
     (case st of (chunks, current) \<Rightarrow>
        chunks \<noteq> [] \<and> concat chunks = ps \<and> current = chunk_bytes js (last chunks) \<and>
        (\<forall>c \<in> set chunks. chunk_bytes js c \<le> mx \<or> chunk_bytes js (butlast c) = 0))"

lemma split_inv_push:
  assumes "split_inv js mx ps st"
  shows "split_inv js mx (ps @ [p]) (push_part js mx st p)"
proof -
  obtain chunks current where st: "st = (chunks, current)" by (cases st)
  with assms obtain front c where c: "chunks = front @ [c]"
    by (cases chunks rule: rev_cases) (auto simp: split_inv_def)
  show ?thesis
    using assms unfolding st c
    by (auto simp: split_inv_def push_part_def Let_def chunk_bytes_def butlast_append)
qed

lemma split_inv_pushes:
  "split_inv js mx ps st \<Longrightarrow> split_inv js mx (ps @ qs) (foldl (push_part js mx) st qs)"
proof (induction qs arbitrary: ps st)
  case (Cons q qs)
  from Cons.IH [OF split_inv_push [OF Cons.prems, of q]] show ?case by simp
qed simp

lemma split_inv_parts:
  "split_inv js mx ps st \<Longrightarrow>
     split_inv js mx (ps @ concat (map (part_pieces mx) parts))
       (foldl (\<lambda>st part. foldl (push_part js mx) st (part_pieces mx part)) st parts)"
proof (induction parts arbitrary: ps st)
  case (Cons p parts)
  from Cons.IH [OF split_inv_pushes [OF Cons.prems, of "part_pieces mx p"]] show ?case by simp
qed simp

lemma split_with_inv:
  "concat (split_with js mx parts) = concat (map (part_pieces mx) parts)"
  "\<forall>c \<in> set (split_with js mx parts). chunk_bytes js c \<le> mx \<or> chunk_bytes js (butlast c) = 0"
proof -
  have "split_inv js mx [] ([[]], 0)" by (simp add: split_inv_def chunk_bytes_def)
  from split_inv_parts [OF this, of parts]
  show "concat (split_with js mx parts) = concat (map (part_pieces mx) parts)"
    "\<forall>c \<in> set (split_with js mx parts). chunk_bytes js c \<le> mx \<or> chunk_bytes js (butlast c) = 0"
    by (auto simp: split_inv_def split_with_def split: prod.splits)
qed

text \<open>
  Splitting a message into continuation entries and joining them again loses nothing: the
  prose, the commentary and the sequence of all other parts are those of the message.
\<close>

theorem split_join:
  "text_of (join_continuations (split_with js mx parts)) = text_of parts \<and>
   commentary_of (join_continuations (split_with js mx parts)) = commentary_of parts \<and>
   filter (\<lambda>p. \<not> is_prose p) (join_continuations (split_with js mx parts)) =
     filter (\<lambda>p. \<not> is_prose p) parts"
proof -
  let ?ps = "concat (map (part_pieces mx) parts)"
  have "text_of ?ps = text_of parts \<and> commentary_of ?ps = commentary_of parts \<and>
      filter (\<lambda>p. \<not> is_prose p) ?ps = filter (\<lambda>p. \<not> is_prose p) parts"
  proof (induction parts)
    case (Cons p parts)
    have "text_of (p # parts) = text_of [p] @ text_of parts"
      "commentary_of (p # parts) = commentary_of [p] @ commentary_of parts"
      by (simp_all add: text_of_def commentary_of_def)
    with Cons show ?case by (simp add: text_of_append text_of_pieces filter_pieces)
  qed simp
  then show ?thesis by (simp add: join_continuations_def split_with_inv(1))
qed

definition prose_utf8 :: "message_part \<Rightarrow> bool" where
  "prose_utf8 p =
     (case p of
        PText _ s \<Rightarrow> char_windows s \<and> (s \<noteq> [] \<longrightarrow> \<not> is_cont (hd s))
      | PCommentary _ s \<Rightarrow> char_windows s \<and> (s \<noteq> [] \<longrightarrow> \<not> is_cont (hd s))
      | _ \<Rightarrow> True)"

lemma prose_pieces_le:
  assumes "4 \<le> mx" "prose_utf8 p" "q \<in> set (part_pieces mx p)" "is_prose q"
  shows "byte_len js q \<le> mx"
proof -
  have *: "length s \<le> mx" if "char_windows str" "\<not> is_cont (hd str)" "mx < length str"
    "(j, s) \<in> set (text_pieces mx i str 0 0)" for i j s str
  proof -
    have "str \<noteq> []" using that(3) by auto
    then have "\<forall>s \<in> snd ` set (text_pieces mx i str 0 0). piece_ok mx s"
      using that(2) by (intro text_pieces_ok assms(1) that(1)) (auto simp: hd_conv_nth)
    with that(4) show ?thesis by (force simp: piece_ok_def)
  qed
  show ?thesis
    using assms(2-4) *
    by (cases p) (auto simp: part_pieces_def prose_utf8_def is_prose_def split: if_splits)
qed

definition chunk_fits :: "json_sizes \<Rightarrow> nat \<Rightarrow> message_part list \<Rightarrow> bool" where
  "chunk_fits js mx c \<longleftrightarrow>
     chunk_bytes js c \<le> mx \<or>
     (c \<noteq> [] \<and> chunk_bytes js (butlast c) = 0 \<and> \<not> is_prose (last c))"

text \<open>
  Every continuation entry stays within the inline bound, except one that holds a single
  oversized part, and that part is never prose: a UTF-8 text is always cut at character
  boundaries into pieces that fit.
\<close>

theorem split_chunks_fit:
  assumes "4 \<le> mx" "list_all prose_utf8 parts"
  shows "list_all (chunk_fits js mx) (split_with js mx parts)"
proof -
  have "chunk_fits js mx c" if c: "c \<in> set (split_with js mx parts)" for c
  proof (cases "chunk_bytes js c \<le> mx")
    case False
    then have ne: "c \<noteq> []" by (auto simp: chunk_bytes_def)
    with split_with_inv(2) c False have zero: "chunk_bytes js (butlast c) = 0" by blast
    have "chunk_bytes js c = chunk_bytes js (butlast c) + byte_len js (last c)"
      using arg_cong [OF append_butlast_last_id [OF ne], of "chunk_bytes js"]
      by (simp add: chunk_bytes_def)
    with zero False have big: "mx < byte_len js (last c)" by simp
    from ne c have "last c \<in> set (concat (split_with js mx parts))"
      using last_in_set by fastforce
    then obtain p where "p \<in> set parts" "last c \<in> set (part_pieces mx p)"
      by (auto simp: split_with_inv(1))
    with prose_pieces_le [OF assms(1)] assms(2) big have "\<not> is_prose (last c)"
      by (metis list_all_iff linorder_not_less)
    with ne zero show ?thesis by (simp add: chunk_fits_def)
  qed (simp add: chunk_fits_def)
  then show ?thesis by (simp add: list_all_iff)
qed

text \<open>A text of two-byte characters, cut at five bytes: the pieces end at character boundaries.\<close>

definition demo_parts :: "message_part list" where
  "demo_parts = [PText ''t0'' (concat (replicate 4 [CHR 0xC3, CHR 0xA9])), PError ''e1'' ''failed!'']"

lemma split_chunks_fit_witness:
  "list_all prose_utf8 demo_parts \<and>
   list_all (chunk_fits \<lparr>js_call = \<lambda>_. None, js_diff = \<lambda>_. None, js_stats = \<lambda>_. None,
       js_questions = \<lambda>_. None\<rparr> 5)
     (split_with \<lparr>js_call = \<lambda>_. None, js_diff = \<lambda>_. None, js_stats = \<lambda>_. None,
       js_questions = \<lambda>_. None\<rparr> 5 demo_parts)"
proof -
  have "list_all prose_utf8 demo_parts"
    by code_simp
  then show ?thesis using split_chunks_fit [of 5 demo_parts] by simp
qed

subsection \<open>Summaries and idempotence\<close>

lemma char_count_append [str_simps]: "char_count (xs @ ys) = char_count xs + char_count ys"
  by (simp add: char_count_def)

lemma char_count_take_chars: "char_count (take_chars n s) \<le> n"
  by (induction n s rule: take_chars.induct) (auto simp: char_count_def)

lemma char_count_ellipsis: "char_count ellipsis = 1"
  by code_simp

text \<open>
  A tool output summary is never empty and never longer than 160 characters and the ellipsis,
  however long the output; a blank output has no summary.
\<close>

theorem summarize_tool_output_bound:
  "case summarize_tool_output output of
     None \<Rightarrow> True
   | Some s \<Rightarrow> s \<noteq> [] \<and> char_count s \<le> tool_output_summary_max + 1"
  using char_count_take_chars [of tool_output_summary_max]
  by (auto simp: summarize_tool_output_def Let_def char_count_append char_count_ellipsis
      ellipsis_def [symmetric] split: option.splits) (simp_all add: ellipsis_def)

lemma sanitize_tool_call_twice: "sanitize_tool_call (sanitize_tool_call c) = sanitize_tool_call c"
  by (cases c) simp_all

lemma stamp_refs_twice: "stamp_refs chat (stamp_refs chat' p) = stamp_refs chat' p"
  by (cases p) (auto simp: stamp_refs_def Let_def)

lemma apply_sidecar_refs_twice:
  "apply_sidecar_refs chat (apply_sidecar_refs chat' ps) = apply_sidecar_refs chat' ps"
  by (simp add: apply_sidecar_refs_def stamp_refs_twice)

end
