(* ===== verification/Doc_Commands.thy ===== *)
theory Doc_Commands
  imports Proto_Types
begin

text \<open>
  The durable command ledger of \<^verbatim>\<open>crates/doc/src/commands.rs\<close>: the command entry, the composer's
  cancel rule and the host's pure evaluation of a pending command.
\<close>

subsection \<open>Entries\<close>

datatype session_command_kind = KRun | KSteer | KInterrupt | KRespondInput

datatype session_command_status =
  CsPending | CsApplied | CsRejected | CsExpired | CsSuperseded | CsCancelled

datatype session_command_payload =
    CpRun run_request string
  | CpSteer string "string option"
  | CpInterrupt
  | CpRespondInput string "user_input_answer list"

fun payload_kind :: "session_command_payload \<Rightarrow> session_command_kind" where
  "payload_kind (CpRun _ _) = KRun"
| "payload_kind (CpSteer _ _) = KSteer"
| "payload_kind CpInterrupt = KInterrupt"
| "payload_kind (CpRespondInput _ _) = KRespondInput"

record command_based_on =
  cb_turn_id :: "string option"
  cb_frontier :: "string option"

record session_command_entry =
  ce_id :: string
  ce_payload :: session_command_payload
  ce_issued_by :: string
  ce_issued_at :: int
  ce_based_on :: "command_based_on option"
  ce_expires_at :: "int option"
  ce_status :: session_command_status
  ce_resolution :: "string option"

definition command_default_ttl_ms :: int where
  "command_default_ttl_ms = 24 * 60 * 60 * 1000"

abbreviation entry_kind :: "session_command_entry \<Rightarrow> session_command_kind" where
  "entry_kind e \<equiv> payload_kind (ce_payload e)"

definition effective_expiry :: "session_command_entry \<Rightarrow> int" where
  "effective_expiry e =
     (case ce_expires_at e of
        Some t \<Rightarrow> t
      | None \<Rightarrow> i64_wrap (ce_issued_at e + command_default_ttl_ms))"

definition can_composer_cancel :: "session_command_entry \<Rightarrow> string \<Rightarrow> bool" where
  "can_composer_cancel e device_id \<longleftrightarrow> ce_status e = CsPending \<and> ce_issued_by e = device_id"

subsection \<open>Evaluation\<close>

datatype command_disposition = Skip | Expired | Superseded | Execute

record evaluation_context =
  cx_is_processed :: "string \<Rightarrow> bool"
  cx_now_ms :: int
  cx_entries :: "session_command_entry list"
  cx_current_turn_id :: "string option"
  cx_turn_is_past :: "string \<Rightarrow> bool"

definition has_newer_same_kind ::
    "session_command_entry \<Rightarrow> session_command_entry list \<Rightarrow> bool" where
  "has_newer_same_kind e entries \<longleftrightarrow>
     list_ex (\<lambda>other. ce_id other \<noteq> ce_id e \<and> entry_kind other = entry_kind e \<and>
       ce_status other = CsPending \<and> ce_issued_at other > ce_issued_at e) entries"

definition interrupt_moot :: "session_command_entry \<Rightarrow> evaluation_context \<Rightarrow> bool" where
  "interrupt_moot e cx \<longleftrightarrow>
     entry_kind e = KInterrupt \<and>
     (case ce_based_on e of
        None \<Rightarrow> False
      | Some b \<Rightarrow>
          (case cb_turn_id b of
             None \<Rightarrow> False
           | Some turn_id \<Rightarrow>
               cx_current_turn_id cx \<noteq> Some turn_id \<and> cx_turn_is_past cx turn_id))"

definition evaluate_command ::
    "session_command_entry \<Rightarrow> evaluation_context \<Rightarrow> command_disposition" where
  "evaluate_command e cx =
     (if cx_is_processed cx (ce_id e) then Skip
      else if cx_now_ms cx \<ge> effective_expiry e then Expired
      else if entry_kind e \<in> {KSteer, KInterrupt} \<and> has_newer_same_kind e (cx_entries cx)
        then Superseded
      else if interrupt_moot e cx then Superseded
      else Execute)"

subsection \<open>Lemmas\<close>

lemma has_newer_iff:
  "has_newer_same_kind e entries \<longleftrightarrow>
     (\<exists>o' \<in> set entries. ce_id o' \<noteq> ce_id e \<and> entry_kind o' = entry_kind e \<and>
        ce_status o' = CsPending \<and> ce_issued_at e < ce_issued_at o')"
  by (auto simp: has_newer_same_kind_def list_ex_iff)

lemma evaluate_Execute_iff:
  "evaluate_command e cx = Execute \<longleftrightarrow>
     \<not> cx_is_processed cx (ce_id e) \<and> cx_now_ms cx < effective_expiry e \<and>
     (entry_kind e \<in> {KSteer, KInterrupt} \<longrightarrow> \<not> has_newer_same_kind e (cx_entries cx)) \<and>
     \<not> interrupt_moot e cx"
  by (auto simp: evaluate_command_def)

lemma evaluate_Skip_iff: "evaluate_command e cx = Skip \<longleftrightarrow> cx_is_processed cx (ce_id e)"
  by (auto simp: evaluate_command_def)

lemma evaluate_Expired_iff:
  "evaluate_command e cx = Expired \<longleftrightarrow>
     \<not> cx_is_processed cx (ce_id e) \<and> effective_expiry e \<le> cx_now_ms cx"
  by (auto simp: evaluate_command_def)

lemmas evaluate_iffs = evaluate_Execute_iff evaluate_Skip_iff evaluate_Expired_iff

text \<open>The default deadline is a day after issue, unless the sum leaves \<^verbatim>\<open>i64\<close>.\<close>

lemma effective_expiry_default:
  "ce_expires_at e = None \<Longrightarrow> i64_ok (ce_issued_at e + command_default_ttl_ms) \<Longrightarrow>
     effective_expiry e = ce_issued_at e + command_default_ttl_ms"
  by (simp add: effective_expiry_def i64_wrap_id)

end
