(* ===== verification/Doc_Loro.thy ===== *)
theory Doc_Loro
  imports Prelude "HOL-Library.AList"
begin

text \<open>
  The document library (\<^verbatim>\<open>loro\<close>) as the chat schema uses it. A document is a parameter: a record of
  operations on an abstract state, observed through the tree of its containers as this replica shows
  them. A container handle is the path it was obtained by, which stays valid because the schema's
  operations only append to lists. What the code relies on is \<open>loro_ok\<close>: an operation on an attached
  container of the right kind succeeds and has its documented effect on the tree, and \<^verbatim>\<open>commit\<close> has
  none. The rest of the theory is a small calculus for sequences of such operations.
\<close>

subsection \<open>Trees and paths\<close>

datatype doc_error = DeLoro string | DeSchema string | DeJson string

datatype ltree = TVal json | TMap "(string \<times> ltree) list" | TList "ltree list" | TText string

datatype step = Key string | Idx nat

type_synonym path = "step list"

fun tree_at :: "path \<Rightarrow> ltree \<Rightarrow> ltree option" where
  "tree_at [] t = Some t"
| "tree_at (Key k # p) (TMap m) = Option.bind (map_of m k) (tree_at p)"
| "tree_at (Idx i # p) (TList ts) = (if i < length ts then tree_at p (ts ! i) else None)"
| "tree_at (_ # _) _ = None"

fun tree_upd :: "path \<Rightarrow> (ltree \<Rightarrow> ltree) \<Rightarrow> ltree \<Rightarrow> ltree" where
  "tree_upd [] f t = f t"
| "tree_upd (Key k # p) f (TMap m) = TMap (AList.map_entry k (tree_upd p f) m)"
| "tree_upd (Idx i # p) f (TList ts) = TList (if i < length ts then ts[i := tree_upd p f (ts ! i)] else ts)"
| "tree_upd (_ # _) f t = t"

text \<open>\<^verbatim>\<open>get_deep_value().to_json_value()\<close>\<close>

fun to_json :: "ltree \<Rightarrow> json" where
  "to_json (TVal v) = v"
| "to_json (TMap m) = JObj (map (\<lambda>(k, t). (k, to_json t)) m)"
| "to_json (TList ts) = JArr (map to_json ts)"
| "to_json (TText s) = JStr s"

lemma map_of_to_json: "map_of (map (\<lambda>(k, t). (k, to_json t)) m) k = map_option to_json (map_of m k)"
  by (induction m) auto

lemma tree_at_append: "tree_at (p @ q) t = Option.bind (tree_at p t) (tree_at q)"
  by (induction p t rule: tree_at.induct) (auto split: option.splits bind_splits)

lemma tree_at_upd: "tree_at p (tree_upd p f t) = map_option f (tree_at p t)"
  by (induction p t rule: tree_at.induct) (auto simp: map_of_map_entry split: option.splits bind_splits)

lemma tree_upd_append: "tree_upd (p @ q) f t = tree_upd p (tree_upd q f) t"
proof (induction p arbitrary: t)
  case (Cons s p)
  then have "tree_upd (p @ q) f = tree_upd p (tree_upd q f)" by (simp add: fun_eq_iff)
  then show ?case by (cases s; cases t) simp_all
qed simp

lemma map_entry_map_entry: "AList.map_entry k g (AList.map_entry k f m) = AList.map_entry k (\<lambda>t. g (f t)) m"
  by (induction m) auto

lemma tree_upd_upd: "tree_upd p g (tree_upd p f t) = tree_upd p (\<lambda>u. g (f u)) t"
proof (induction p arbitrary: t)
  case (Cons s p)
  then have "(\<lambda>t. tree_upd p g (tree_upd p f t)) = tree_upd p (\<lambda>u. g (f u))" by (simp add: fun_eq_iff)
  with Cons show ?case by (cases s; cases t) (simp_all add: map_entry_map_entry)
qed simp

lemma tree_upd_const: "tree_upd p (\<lambda>_. b) (tree_upd p (\<lambda>_. a) t) = tree_upd p (\<lambda>_. b) t"
  by (simp add: tree_upd_upd)

lemma map_entry_cong: "(\<And>v. map_of m k = Some v \<Longrightarrow> f v = g v) \<Longrightarrow> AList.map_entry k f m = AList.map_entry k g m"
  by (induction m) (auto split: if_splits)

lemma tree_upd_cong: "(\<And>u. tree_at p t = Some u \<Longrightarrow> f u = g u) \<Longrightarrow> tree_upd p f t = tree_upd p g t"
proof (induction p t rule: tree_at.induct)
  case (2 k p m)
  have "tree_upd p f v = tree_upd p g v" if "map_of m k = Some v" for v
    using 2 that by simp
  then have "AList.map_entry k (tree_upd p f) m = AList.map_entry k (tree_upd p g) m" by (rule map_entry_cong)
  then show ?case by simp
qed auto

text \<open>An update under one root leaves the others alone.\<close>

lemma tree_at_other: "k \<noteq> k' \<Longrightarrow> tree_at (Key k' # q) (tree_upd (Key k # p) f t) = tree_at (Key k' # q) t"
  by (cases t) (auto simp: map_of_map_entry)

subsection \<open>The library\<close>

record 'd loro_ops =
  ld_new :: 'd
  ld_tree :: "'d \<Rightarrow> ltree"
  ld_insert :: "path \<Rightarrow> string \<Rightarrow> json \<Rightarrow> 'd \<Rightarrow> string + 'd"
  ld_insert_container :: "path \<Rightarrow> string \<Rightarrow> ltree \<Rightarrow> 'd \<Rightarrow> string + 'd"
  ld_push_container :: "path \<Rightarrow> ltree \<Rightarrow> 'd \<Rightarrow> string + 'd"
  ld_text_insert :: "path \<Rightarrow> nat \<Rightarrow> string \<Rightarrow> 'd \<Rightarrow> string + 'd"
  ld_text_update :: "path \<Rightarrow> string \<Rightarrow> 'd \<Rightarrow> string + 'd"
  ld_commit :: "'d \<Rightarrow> 'd"
  ld_export :: "'d \<Rightarrow> string + bytes"
  ld_value :: "json \<Rightarrow> json"

definition law_insert :: "'d loro_ops \<Rightarrow> bool" where
  "law_insert L \<longleftrightarrow>
     (\<forall>p k v d m. tree_at p (ld_tree L d) = Some (TMap m) \<longrightarrow>
        (\<exists>d'. ld_insert L p k v d = Inr d' \<and>
           ld_tree L d' = tree_upd p (\<lambda>_. TMap (AList.update k (TVal v) m)) (ld_tree L d)))"

definition law_insert_container :: "'d loro_ops \<Rightarrow> bool" where
  "law_insert_container L \<longleftrightarrow>
     (\<forall>p k e d m. tree_at p (ld_tree L d) = Some (TMap m) \<longrightarrow>
        (\<exists>d'. ld_insert_container L p k e d = Inr d' \<and>
           ld_tree L d' = tree_upd p (\<lambda>_. TMap (AList.update k e m)) (ld_tree L d)))"

definition law_push_container :: "'d loro_ops \<Rightarrow> bool" where
  "law_push_container L \<longleftrightarrow>
     (\<forall>p e d ts. tree_at p (ld_tree L d) = Some (TList ts) \<longrightarrow>
        (\<exists>d'. ld_push_container L p e d = Inr d' \<and>
           ld_tree L d' = tree_upd p (\<lambda>_. TList (ts @ [e])) (ld_tree L d)))"

definition law_text_insert :: "'d loro_ops \<Rightarrow> bool" where
  "law_text_insert L \<longleftrightarrow>
     (\<forall>p s d u. tree_at p (ld_tree L d) = Some (TText u) \<longrightarrow>
        (\<exists>d'. ld_text_insert L p (char_count u) s d = Inr d' \<and>
           ld_tree L d' = tree_upd p (\<lambda>_. TText (u @ s)) (ld_tree L d)))"

definition law_text_update :: "'d loro_ops \<Rightarrow> bool" where
  "law_text_update L \<longleftrightarrow>
     (\<forall>p s d u. tree_at p (ld_tree L d) = Some (TText u) \<longrightarrow>
        (\<exists>d'. ld_text_update L p s d = Inr d' \<and>
           ld_tree L d' = tree_upd p (\<lambda>_. TText s) (ld_tree L d)))"

text \<open>The chat document's three root containers exist in every document.\<close>

definition law_new :: "'d loro_ops \<Rightarrow> bool" where
  "law_new L \<longleftrightarrow>
     tree_at [Key ''meta''] (ld_tree L (ld_new L)) = Some (TMap []) \<and>
     tree_at [Key ''messages''] (ld_tree L (ld_new L)) = Some (TList []) \<and>
     tree_at [Key ''commands''] (ld_tree L (ld_new L)) = Some (TList [])"

definition law_commit :: "'d loro_ops \<Rightarrow> bool" where
  "law_commit L \<longleftrightarrow> (\<forall>d. ld_tree L (ld_commit L d) = ld_tree L d)"

definition loro_ok :: "'d loro_ops \<Rightarrow> bool" where
  "loro_ok L \<longleftrightarrow> law_new L \<and> law_insert L \<and> law_insert_container L \<and> law_push_container L \<and>
     law_text_insert L \<and> law_text_update L \<and> law_commit L"

subsection \<open>Fallible operations\<close>

type_synonym ('d, 'a) act = "'d \<Rightarrow> (doc_error + 'a) \<times> 'd"

text \<open>An error stops the sequence and leaves what was written; Rust's \<^verbatim>\<open>?\<close>.\<close>

definition act_bind :: "('d, 'a) act \<Rightarrow> ('a \<Rightarrow> ('d, 'b) act) \<Rightarrow> ('d, 'b) act" where
  "act_bind a f d = (case a d of (Inl e, d) \<Rightarrow> (Inl e, d) | (Inr x, d) \<Rightarrow> f x d)"

definition act_return :: "'a \<Rightarrow> ('d, 'a) act" where
  "act_return x d = (Inr x, d)"

definition act_fail :: "doc_error \<Rightarrow> ('d, 'a) act" where
  "act_fail e d = (Inl e, d)"

definition act_of :: "('d \<Rightarrow> string + 'd) \<Rightarrow> ('d, unit) act" where
  "act_of f d = (case f d of Inl e \<Rightarrow> (Inl (DeLoro e), d) | Inr d \<Rightarrow> (Inr (), d))"

definition act_commit :: "'d loro_ops \<Rightarrow> ('d, unit) act" where
  "act_commit L d = (Inr (), ld_commit L d)"

fun run_acts :: "('d, unit) act list \<Rightarrow> ('d, unit) act" where
  "run_acts [] = act_return ()"
| "run_acts (a # as) = act_bind a (\<lambda>_. run_acts as)"

text \<open>\<^verbatim>\<open>if let Some(x) = ...\<close>\<close>

definition opt_act :: "('a \<Rightarrow> ('d, unit) act) \<Rightarrow> 'a option \<Rightarrow> ('d, unit) act list" where
  "opt_act f x = (case x of None \<Rightarrow> [] | Some x \<Rightarrow> [f x])"

definition put_value :: "'d loro_ops \<Rightarrow> path \<Rightarrow> string \<Rightarrow> json \<Rightarrow> ('d, unit) act" where
  "put_value L p k v = act_of (ld_insert L p k v)"

definition put_str :: "'d loro_ops \<Rightarrow> path \<Rightarrow> string \<Rightarrow> string \<Rightarrow> ('d, unit) act" where
  "put_str L p k s = put_value L p k (JStr s)"

text \<open>A \<^verbatim>\<open>serde_json\<close> value goes through \<^verbatim>\<open>LoroValue\<close>.\<close>

definition put_json :: "'d loro_ops \<Rightarrow> path \<Rightarrow> string \<Rightarrow> json \<Rightarrow> ('d, unit) act" where
  "put_json L p k v = put_value L p k (ld_value L v)"

definition put_text :: "'d loro_ops \<Rightarrow> path \<Rightarrow> string \<Rightarrow> string \<Rightarrow> ('d, unit) act" where
  "put_text L p k s =
     act_bind (act_of (ld_insert_container L p k (TText [])))
       (\<lambda>_. act_of (ld_text_insert L (p @ [Key k]) 0 s))"

definition root_list :: "'d loro_ops \<Rightarrow> string \<Rightarrow> 'd \<Rightarrow> ltree list" where
  "root_list L name d = (case tree_at [Key name] (ld_tree L d) of Some (TList ts) \<Rightarrow> ts | _ \<Rightarrow> [])"

subsection \<open>The effect of an operation on a subtree\<close>

definition does :: "'d loro_ops \<Rightarrow> path \<Rightarrow> ltree \<Rightarrow> ('d, 'a) act \<Rightarrow> 'a \<Rightarrow> ltree \<Rightarrow> bool" where
  "does L p t a x t' \<longleftrightarrow>
     (\<forall>d. tree_at p (ld_tree L d) = Some t \<longrightarrow>
        (\<exists>d'. a d = (Inr x, d') \<and> ld_tree L d' = tree_upd p (\<lambda>_. t') (ld_tree L d)))"

lemma doesD:
  "does L p t a x t' \<Longrightarrow> tree_at p (ld_tree L d) = Some t \<Longrightarrow>
     \<exists>d'. a d = (Inr x, d') \<and> ld_tree L d' = tree_upd p (\<lambda>_. t') (ld_tree L d)"
  by (simp add: does_def)

lemma does_bind:
  assumes "does L p t a x t'" "does L p t' (f x) y t''"
  shows "does L p t (act_bind a f) y t''"
  unfolding does_def
proof (intro allI impI)
  fix d assume "tree_at p (ld_tree L d) = Some t"
  from doesD [OF assms(1) this] obtain d1 where
    1: "a d = (Inr x, d1)" "ld_tree L d1 = tree_upd p (\<lambda>_. t') (ld_tree L d)" by blast
  have "tree_at p (ld_tree L d1) = Some t'"
    unfolding 1(2) tree_at_upd using \<open>tree_at p (ld_tree L d) = Some t\<close> by simp
  from doesD [OF assms(2) this] obtain d2 where
    2: "f x d1 = (Inr y, d2)" "ld_tree L d2 = tree_upd p (\<lambda>_. t'') (ld_tree L d1)" by blast
  then show "\<exists>d'. act_bind a f d = (Inr y, d') \<and> ld_tree L d' = tree_upd p (\<lambda>_. t'') (ld_tree L d)"
    using 1 by (auto simp: act_bind_def tree_upd_const)
qed

lemma tree_upd_id: "tree_at p t = Some u \<Longrightarrow> tree_upd p (\<lambda>_. u) t = t"
proof (induction p t rule: tree_at.induct)
  case (2 k p m)
  then obtain v where v: "map_of m k = Some v" "tree_at p v = Some u" by (auto split: bind_splits)
  then have "AList.map_entry k (tree_upd p (\<lambda>_. u)) m = AList.map_entry k id m"
    using 2(1) [OF v(1) v(2)] by (intro map_entry_cong) simp
  also have "\<dots> = m" by (induction m) auto
  finally show ?case by simp
qed (auto split: if_splits)

lemma does_return: "does L p t (act_return x) x t"
  by (auto simp: does_def act_return_def tree_upd_id)

lemma does_commit: "loro_ok L \<Longrightarrow> does L p t (act_commit L) () t"
  by (auto simp: does_def act_commit_def loro_ok_def law_commit_def tree_upd_id)

text \<open>An operation below a path is one on the path.\<close>

lemma does_lift:
  assumes "does L (p @ q) t a x t'" "tree_at q s = Some t"
  shows "does L p s a x (tree_upd q (\<lambda>_. t') s)"
  unfolding does_def
proof (intro allI impI)
  fix d assume s: "tree_at p (ld_tree L d) = Some s"
  then have "tree_at (p @ q) (ld_tree L d) = Some t" using assms(2) by (simp add: tree_at_append)
  from doesD [OF assms(1) this] obtain d' where
    d: "a d = (Inr x, d')" "ld_tree L d' = tree_upd (p @ q) (\<lambda>_. t') (ld_tree L d)" by blast
  have "tree_upd p (tree_upd q (\<lambda>_. t')) (ld_tree L d) = tree_upd p (\<lambda>_. tree_upd q (\<lambda>_. t') s) (ld_tree L d)"
    by (rule tree_upd_cong) (simp add: s)
  with d show "\<exists>d'. a d = (Inr x, d') \<and> ld_tree L d' = tree_upd p (\<lambda>_. tree_upd q (\<lambda>_. t') s) (ld_tree L d)"
    by (auto simp: tree_upd_append)
qed

lemma does_put_value:
  assumes "loro_ok L"
  shows "does L p (TMap m) (put_value L p k v) () (TMap (AList.update k (TVal v) m))"
proof -
  have "law_insert L" using assms by (simp add: loro_ok_def)
  then show ?thesis unfolding does_def law_insert_def put_value_def act_of_def by (metis sum.simps(6))
qed

lemma does_insert_container:
  assumes "loro_ok L"
  shows "does L p (TMap m) (act_of (ld_insert_container L p k e)) () (TMap (AList.update k e m))"
proof -
  have "law_insert_container L" using assms by (simp add: loro_ok_def)
  then show ?thesis unfolding does_def law_insert_container_def act_of_def by (metis sum.simps(6))
qed

lemma does_push:
  assumes "loro_ok L"
  shows "does L p (TList ts) (act_of (ld_push_container L p e)) () (TList (ts @ [e]))"
proof -
  have "law_push_container L" using assms by (simp add: loro_ok_def)
  then show ?thesis unfolding does_def law_push_container_def act_of_def by (metis sum.simps(6))
qed

lemma does_text_insert:
  assumes "loro_ok L"
  shows "does L p (TText u) (act_of (ld_text_insert L p (char_count u) s)) () (TText (u @ s))"
proof -
  have "law_text_insert L" using assms by (simp add: loro_ok_def)
  then show ?thesis unfolding does_def law_text_insert_def act_of_def by (metis sum.simps(6))
qed

lemma does_text_update:
  assumes "loro_ok L"
  shows "does L p (TText u) (act_of (ld_text_update L p s)) () (TText s)"
proof -
  have "law_text_update L" using assms by (simp add: loro_ok_def)
  then show ?thesis unfolding does_def law_text_update_def act_of_def by (metis sum.simps(6))
qed

lemma update_map_entry: "map_of m k = Some u \<Longrightarrow> AList.map_entry k f m = AList.update k (f u) m"
  by (induction m) auto

lemma update_update: "AList.update k b (AList.update k a m) = AList.update k b m"
  by (induction m) auto

lemma does_at_key:
  assumes "does L (p @ [Key k]) t a x t'" "map_of m k = Some t"
  shows "does L p (TMap m) a x (TMap (AList.update k t' m))"
  using does_lift [OF assms(1), of "TMap m"] assms(2) by (simp add: update_map_entry)

lemma does_at_idx:
  assumes "does L (p @ [Idx i]) t a x t'" "i < length ts" "ts ! i = t"
  shows "does L p (TList ts) a x (TList (ts[i := t']))"
  using does_lift [OF assms(1), of "TList ts"] assms(2,3) by simp

lemma does_put_text:
  assumes "loro_ok L"
  shows "does L p (TMap m) (put_text L p k s) () (TMap (AList.update k (TText s) m))"
proof -
  have "does L (p @ [Key k]) (TText []) (act_of (ld_text_insert L (p @ [Key k]) 0 s)) () (TText s)"
    using does_text_insert [OF assms, of "p @ [Key k]" "[]" s] by (simp add: char_count_def)
  from does_at_key [OF this, of "AList.update k (TText []) m"]
  have "does L p (TMap (AList.update k (TText []) m)) (act_of (ld_text_insert L (p @ [Key k]) 0 s)) ()
      (TMap (AList.update k (TText s) m))"
    by (simp add: update_conv' update_update)
  then show ?thesis
    unfolding put_text_def by (rule does_bind [OF does_insert_container [OF assms]])
qed

text \<open>Filling a map, field after field.\<close>

datatype field = FVal json | FText string

fun put_field :: "'d loro_ops \<Rightarrow> path \<Rightarrow> string \<times> field \<Rightarrow> ('d, unit) act" where
  "put_field L p (k, FVal v) = put_value L p k v"
| "put_field L p (k, FText s) = put_text L p k s"

fun field_tree :: "field \<Rightarrow> ltree" where
  "field_tree (FVal v) = TVal v"
| "field_tree (FText s) = TText s"

definition fill :: "(string \<times> field) list \<Rightarrow> (string \<times> ltree) list \<Rightarrow> (string \<times> ltree) list" where
  "fill kvs m = fold (\<lambda>(k, f). AList.update k (field_tree f)) kvs m"

lemma does_fill: "loro_ok L \<Longrightarrow> does L p (TMap m) (run_acts (map (put_field L p) kvs)) () (TMap (fill kvs m))"
proof (induction kvs arbitrary: m)
  case Nil
  show ?case by (simp add: fill_def does_return)
next
  case (Cons kv kvs)
  obtain k f where kv: "kv = (k, f)" by fastforce
  have "does L p (TMap m) (put_field L p kv) () (TMap (AList.update k (field_tree f) m))"
    using does_put_value does_put_text Cons.prems kv by (cases f) auto
  from does_bind [OF this Cons.IH [OF Cons.prems]] show ?case by (simp add: fill_def kv)
qed

lemma map_of_fill: "map_of (fill kvs m) = map_of m ++ (\<lambda>k. map_option field_tree (map_of (rev kvs) k))"
proof (induction kvs arbitrary: m)
  case (Cons kv kvs)
  obtain k f where "kv = (k, f)" by fastforce
  with Cons [of "AList.update k (field_tree f) m"] show ?case
    by (auto simp: fill_def update_conv' map_add_def fun_eq_iff split: option.splits)
qed (simp add: fill_def map_add_def fun_eq_iff)


subsection \<open>A reference instance\<close>

definition tree_ops :: "ltree loro_ops" where
  "tree_ops =
     \<lparr>ld_new = TMap [(''meta'', TMap []), (''messages'', TList []), (''commands'', TList [])],
      ld_tree = (\<lambda>t. t),
      ld_insert = (\<lambda>p k v t. case tree_at p t of
         Some (TMap m) \<Rightarrow> Inr (tree_upd p (\<lambda>_. TMap (AList.update k (TVal v) m)) t) | _ \<Rightarrow> Inl ''no map''),
      ld_insert_container = (\<lambda>p k e t. case tree_at p t of
         Some (TMap m) \<Rightarrow> Inr (tree_upd p (\<lambda>_. TMap (AList.update k e m)) t) | _ \<Rightarrow> Inl ''no map''),
      ld_push_container = (\<lambda>p e t. case tree_at p t of
         Some (TList ts) \<Rightarrow> Inr (tree_upd p (\<lambda>_. TList (ts @ [e])) t) | _ \<Rightarrow> Inl ''no list''),
      ld_text_insert = (\<lambda>p i s t. case tree_at p t of
         Some (TText u) \<Rightarrow> if i = char_count u then Inr (tree_upd p (\<lambda>_. TText (u @ s)) t) else Inl ''no end''
       | _ \<Rightarrow> Inl ''no text''),
      ld_text_update = (\<lambda>p s t. case tree_at p t of
         Some (TText u) \<Rightarrow> Inr (tree_upd p (\<lambda>_. TText s) t) | _ \<Rightarrow> Inl ''no text''),
      ld_commit = (\<lambda>t. t), ld_export = (\<lambda>_. Inl ''unsupported''), ld_value = (\<lambda>v. v)\<rparr>"

lemma tree_ops_ok: "loro_ok tree_ops"
  by (simp add: loro_ok_def law_new_def law_insert_def law_insert_container_def law_push_container_def
      law_text_insert_def law_text_update_def law_commit_def tree_ops_def)

end
