(* ===== verification/Doc_Schema.thy ===== *)
theory Doc_Schema
  imports Doc_Parts Doc_Commands Doc_Loro "HOL-Library.Monad_Syntax"
begin

text \<open>
  The chat document's schema, \<^verbatim>\<open>crates/doc/src/schema.rs\<close>: entries and their part maps, reading with
  salvage, the command ledger's rows, the in-place writes, the streaming segment writer and the join
  of continuations. The document is a \<^typ>\<open>'d loro_ops\<close>; the JSON codecs of nested types
  (\<^verbatim>\<open>serde_json\<close>) are the parameter \<open>part_codec\<close>, and the derived readers of the schema's own structs
  are written out.
\<close>

subsection \<open>Entries\<close>

datatype message_role = MrUser | MrAssistant | MrSystem

record session_message_entry =
  me_id :: string
  me_role :: message_role
  me_parts :: "message_part list"
  me_created_at :: int
  me_device_id :: string
  me_status :: "message_status option"
  me_continuation_of :: "string option"

record doc_part_json =
  dp_id :: string
  dp_kind :: string
  dp_text :: "string option"
  dp_call :: "json option"
  dp_is_error :: "bool option"
  dp_questions :: "json option"
  dp_resolved :: "bool option"
  dp_message :: "string option"
  dp_level :: "notice_level option"
  dp_output :: "string option"
  dp_diff :: "json option"
  dp_output_ref :: "string option"
  dp_output_bytes :: "nat option"
  dp_diff_ref :: "string option"
  dp_diff_stats :: "json option"

definition doc_part_default :: "string \<Rightarrow> string \<Rightarrow> doc_part_json" where
  "doc_part_default i kind =
     \<lparr>dp_id = i, dp_kind = kind, dp_text = None, dp_call = None, dp_is_error = None, dp_questions = None,
      dp_resolved = None, dp_message = None, dp_level = None, dp_output = None, dp_diff = None,
      dp_output_ref = None, dp_output_bytes = None, dp_diff_ref = None, dp_diff_stats = None\<rparr>"

record part_codec =
  pc_call :: "tool_call \<Rightarrow> string + json"
  pc_call_of :: "json \<Rightarrow> tool_call option"
  pc_questions :: "user_input_question list \<Rightarrow> string + json"
  pc_questions_of :: "json \<Rightarrow> user_input_question list option"
  pc_diff :: "tool_diff \<Rightarrow> string + json"
  pc_diff_of :: "json \<Rightarrow> tool_diff option"
  pc_stats :: "tool_diff_stat list \<Rightarrow> string + json"
  pc_stats_of :: "json \<Rightarrow> tool_diff_stat list option"
  pc_payload :: "session_command_payload \<Rightarrow> string + json"
  pc_payload_of :: "json \<Rightarrow> session_command_payload option"

subsection \<open>Parts\<close>

definition json_result :: "string + 'a \<Rightarrow> doc_error + 'a" where
  "json_result r = (case r of Inl e \<Rightarrow> Inl (DeJson e) | Inr x \<Rightarrow> Inr x)"

text \<open>\<^verbatim>\<open>as_ref().map(to_value).transpose()\<close>\<close>

definition json_opt :: "('a \<Rightarrow> string + json) \<Rightarrow> 'a option \<Rightarrow> doc_error + json option" where
  "json_opt f x =
     (case x of
        None \<Rightarrow> Inr None
      | Some x \<Rightarrow> (case f x of Inl e \<Rightarrow> Inl (DeJson e) | Inr v \<Rightarrow> Inr (Some v)))"

definition to_doc_tool :: "part_codec \<Rightarrow> tool_part \<Rightarrow> doc_error + doc_part_json" where
  "to_doc_tool C t =
     (case pc_call C (tp_call t) of
        Inl e \<Rightarrow> Inl (DeJson e)
      | Inr call \<Rightarrow>
          (case json_opt (pc_diff C) (tp_diff t) of
             Inl e \<Rightarrow> Inl e
           | Inr diff \<Rightarrow>
               (case json_opt (pc_stats C) (tp_diff_stats t) of
                  Inl e \<Rightarrow> Inl e
                | Inr stats \<Rightarrow>
                    Inr ((doc_part_default (tp_id t) ''tool'')
                      \<lparr>dp_call := Some call,
                       dp_is_error := (if tp_resolved t then Some (tp_is_error t) else None),
                       dp_output := tp_output t, dp_diff := diff, dp_output_ref := tp_output_ref t,
                       dp_output_bytes := tp_output_bytes t, dp_diff_ref := tp_diff_ref t,
                       dp_diff_stats := stats\<rparr>))))"

fun to_doc_part :: "part_codec \<Rightarrow> message_part \<Rightarrow> doc_error + doc_part_json" where
  "to_doc_part C (PText i s) = Inr ((doc_part_default i ''text'')\<lparr>dp_text := Some s\<rparr>)"
| "to_doc_part C (PCommentary i s) = Inr ((doc_part_default i ''commentary'')\<lparr>dp_text := Some s\<rparr>)"
| "to_doc_part C (PNotice i level message) =
     Inr ((doc_part_default i ''notice'')\<lparr>dp_level := Some level, dp_message := Some message\<rparr>)"
| "to_doc_part C (PTool t) = to_doc_tool C t"
| "to_doc_part C (PInput i request_id questions resolved) =
     (case pc_questions C questions of
        Inl e \<Rightarrow> Inl (DeJson e)
      | Inr qs \<Rightarrow> Inr ((doc_part_default request_id ''input'')
          \<lparr>dp_questions := Some qs, dp_resolved := Some resolved\<rparr>))"
| "to_doc_part C (PError i message) = Inr ((doc_part_default i ''error'')\<lparr>dp_message := Some message\<rparr>)"

definition unwrap_or :: "'a \<Rightarrow> 'a option \<Rightarrow> 'a" where
  "unwrap_or d x = (case x of None \<Rightarrow> d | Some x \<Rightarrow> x)"

definition from_doc_part :: "part_codec \<Rightarrow> doc_part_json \<Rightarrow> message_part" where
  "from_doc_part C p =
     (if dp_kind p = ''tool'' then
        (case Option.bind (dp_call p) (pc_call_of C) of
           Some call \<Rightarrow>
             PTool \<lparr>tp_id = dp_id p, tp_call = call, tp_is_error = unwrap_or False (dp_is_error p),
               tp_resolved = (dp_is_error p \<noteq> None), tp_output = dp_output p,
               tp_diff = Option.bind (dp_diff p) (pc_diff_of C), tp_output_ref = dp_output_ref p,
               tp_output_bytes = dp_output_bytes p, tp_diff_ref = dp_diff_ref p,
               tp_diff_stats = Option.bind (dp_diff_stats p) (pc_stats_of C)\<rparr>
         | None \<Rightarrow> PText (dp_id p) [])
      else if dp_kind p = ''input'' then
        PInput (dp_id p) (dp_id p) (unwrap_or [] (Option.bind (dp_questions p) (pc_questions_of C)))
          (unwrap_or False (dp_resolved p))
      else if dp_kind p = ''commentary'' then PCommentary (dp_id p) (unwrap_or [] (dp_text p))
      else if dp_kind p = ''notice'' then
        PNotice (dp_id p) (unwrap_or Warning (dp_level p)) (unwrap_or [] (dp_message p))
      else if dp_kind p = ''error'' then PError (dp_id p) (unwrap_or [] (dp_message p))
      else PText (dp_id p) (unwrap_or [] (dp_text p)))"

subsection \<open>Derived readers\<close>

fun level_str :: "notice_level \<Rightarrow> string" where
  "level_str Info = ''info''"
| "level_str Warning = ''warning''"

definition level_of :: "json \<Rightarrow> notice_level option" where
  "level_of v = find (\<lambda>l. v = JStr (level_str l)) [Info, Warning]"

fun status_str :: "message_status \<Rightarrow> string" where
  "status_str MsStreaming = ''streaming''"
| "status_str MsComplete = ''complete''"
| "status_str MsAborted = ''aborted''"

definition status_of :: "json \<Rightarrow> message_status option" where
  "status_of v = find (\<lambda>s. v = JStr (status_str s)) [MsStreaming, MsComplete, MsAborted]"

fun role_str :: "message_role \<Rightarrow> string" where
  "role_str MrUser = ''user''"
| "role_str MrAssistant = ''assistant''"
| "role_str MrSystem = ''system''"

definition role_of :: "json \<Rightarrow> message_role option" where
  "role_of v = find (\<lambda>r. v = JStr (role_str r)) [MrUser, MrAssistant, MrSystem]"

definition read_part :: "(string \<times> json) list \<Rightarrow> doc_part_json option" where
  "read_part fs =
     do {
       i \<leftarrow> req_field as_str fs ''id'';
       kind \<leftarrow> req_field as_str fs ''kind'';
       text \<leftarrow> opt_field as_str fs ''text'';
       call \<leftarrow> opt_field Some fs ''call'';
       is_error \<leftarrow> opt_field as_bool fs ''isError'';
       questions \<leftarrow> opt_field Some fs ''questions'';
       resolved \<leftarrow> opt_field as_bool fs ''resolved'';
       message \<leftarrow> opt_field as_str fs ''message'';
       level \<leftarrow> opt_field level_of fs ''level'';
       output \<leftarrow> opt_field as_str fs ''output'';
       diff \<leftarrow> opt_field Some fs ''diff'';
       output_ref \<leftarrow> opt_field as_str fs ''outputRef'';
       output_bytes \<leftarrow> opt_field as_u64 fs ''outputBytes'';
       diff_ref \<leftarrow> opt_field as_str fs ''diffRef'';
       diff_stats \<leftarrow> opt_field Some fs ''diffStats'';
       Some \<lparr>dp_id = i, dp_kind = kind, dp_text = text, dp_call = call, dp_is_error = is_error,
         dp_questions = questions, dp_resolved = resolved, dp_message = message, dp_level = level,
         dp_output = output, dp_diff = diff, dp_output_ref = output_ref, dp_output_bytes = output_bytes,
         dp_diff_ref = diff_ref, dp_diff_stats = diff_stats\<rparr>
     }"


definition read_parts :: "json \<Rightarrow> doc_part_json list option" where
  "read_parts v =
     (case v of JArr vs \<Rightarrow> those (map (\<lambda>v. Option.bind (as_obj v) read_part) vs) | _ \<Rightarrow> None)"

definition raw_entry :: "part_codec \<Rightarrow> (string \<times> json) list \<Rightarrow> session_message_entry option" where
  "raw_entry C fs =
     do {
       i \<leftarrow> req_field as_str fs ''id'';
       role \<leftarrow> req_field role_of fs ''role'';
       parts \<leftarrow> default_field [] read_parts fs ''parts'';
       created_at \<leftarrow> req_field as_i64 fs ''createdAt'';
       device_id \<leftarrow> req_field as_str fs ''deviceId'';
       status \<leftarrow> opt_field status_of fs ''status'';
       continuation_of \<leftarrow> opt_field as_str fs ''continuationOf'';
       Some \<lparr>me_id = i, me_role = role, me_parts = map (from_doc_part C) parts, me_created_at = created_at,
         me_device_id = device_id, me_status = status, me_continuation_of = continuation_of\<rparr>
     }"

subsection \<open>Salvage\<close>

definition field_str :: "(string \<times> json) list \<Rightarrow> string \<Rightarrow> string option" where
  "field_str fs k = Option.bind (map_of fs k) as_str"

definition salvage_part :: "part_codec \<Rightarrow> string \<Rightarrow> nat \<Rightarrow> json \<Rightarrow> message_part option" where
  "salvage_part C entry_id ix part =
     (case as_obj part of
        None \<Rightarrow> None
      | Some fs \<Rightarrow>
          (let i = unwrap_or (entry_id @ ''#recovered-'' @ dec ix) (field_str fs ''id'')
           in case field_str fs ''text'' of
                Some s \<Rightarrow> Some (if field_str fs ''kind'' = Some ''commentary'' then PCommentary i s else PText i s)
              | None \<Rightarrow>
                  (case Option.bind (map_of fs ''call'') (pc_call_of C) of
                     Some call \<Rightarrow>
                       Some (PTool \<lparr>tp_id = i, tp_call = call,
                         tp_is_error = unwrap_or False (Option.bind (map_of fs ''isError'') as_bool),
                         tp_resolved = unwrap_or True (Option.bind (map_of fs ''resolved'') as_bool),
                         tp_output = field_str fs ''output'', tp_diff = None, tp_output_ref = None,
                         tp_output_bytes = None, tp_diff_ref = None, tp_diff_stats = None\<rparr>)
                   | None \<Rightarrow>
                       (case field_str fs ''message'' of
                          Some message \<Rightarrow>
                            Some (if field_str fs ''kind'' = Some ''notice''
                                  then PNotice i (unwrap_or Warning (Option.bind (map_of fs ''level'') level_of))
                                         message
                                  else PError i message)
                        | None \<Rightarrow> None))))"

text \<open>\<^verbatim>\<open>{:016x}\<close>\<close>

fun hex_w :: "nat \<Rightarrow> nat \<Rightarrow> string" where
  "hex_w 0 n = []"
| "hex_w (Suc w) n = hex_w w (n div 16) @ [let r = n mod 16 in if r < 10 then digit_char r else char_of (87 + r)]"

definition salvage_parts :: "part_codec \<Rightarrow> string \<Rightarrow> json list \<Rightarrow> message_part list" where
  "salvage_parts C i vs =
     List.map_filter (\<lambda>(ix, part).
       case Option.bind (as_obj part) read_part of
         Some p \<Rightarrow> Some (from_doc_part C p)
       | None \<Rightarrow> salvage_part C i ix part) (enumerate 0 vs)"

text \<open>\<open>H\<close> is the \<^verbatim>\<open>DefaultHasher\<close> of the value's text.\<close>

definition salvage_entry :: "part_codec \<Rightarrow> (json \<Rightarrow> nat) \<Rightarrow> json \<Rightarrow> session_message_entry option" where
  "salvage_entry C H v =
     (case as_obj v of
        None \<Rightarrow> None
      | Some fs \<Rightarrow>
          (let i = unwrap_or (''recovered-'' @ hex_w 16 (H v)) (field_str fs ''id'')
           in Some \<lparr>me_id = i,
                me_role = unwrap_or MrAssistant (Option.bind (map_of fs ''role'') role_of),
                me_parts = (case map_of fs ''parts'' of Some (JArr vs) \<Rightarrow> salvage_parts C i vs | _ \<Rightarrow> []),
                me_created_at = unwrap_or 0 (Option.bind (map_of fs ''createdAt'') as_i64),
                me_device_id = unwrap_or [] (field_str fs ''deviceId''),
                me_status = Option.bind (map_of fs ''status'') status_of,
                me_continuation_of = field_str fs ''continuationOf''\<rparr>))"

definition entry_from_json :: "part_codec \<Rightarrow> (json \<Rightarrow> nat) \<Rightarrow> json \<Rightarrow> session_message_entry option" where
  "entry_from_json C H v =
     (case Option.bind (as_obj v) (raw_entry C) of Some e \<Rightarrow> Some e | None \<Rightarrow> salvage_entry C H v)"

definition read_entries :: "'d loro_ops \<Rightarrow> part_codec \<Rightarrow> (json \<Rightarrow> nat) \<Rightarrow> 'd \<Rightarrow> session_message_entry list" where
  "read_entries L C H d = List.map_filter (entry_from_json C H) (map to_json (root_list L ''messages'' d))"

subsection \<open>Whole documents and entries\<close>

definition session_schema_version :: int where "session_schema_version = 1"

definition doc_init :: "'d loro_ops \<Rightarrow> string \<Rightarrow> (doc_error + unit) \<times> 'd" where
  "doc_init L chat_id =
     run_acts
       [put_str L [Key ''meta''] ''chatId'' chat_id,
        put_value L [Key ''meta''] ''schemaVersion'' (JInt session_schema_version), act_commit L] (ld_new L)"

definition map_get :: "'d loro_ops \<Rightarrow> path \<Rightarrow> string \<Rightarrow> 'd \<Rightarrow> ltree option" where
  "map_get L p k d = (case tree_at p (ld_tree L d) of Some (TMap m) \<Rightarrow> map_of m k | _ \<Rightarrow> None)"

definition doc_chat_id :: "'d loro_ops \<Rightarrow> 'd \<Rightarrow> string option" where
  "doc_chat_id L d = (case map_get L [Key ''meta''] ''chatId'' d of Some (TVal (JStr s)) \<Rightarrow> Some s | _ \<Rightarrow> None)"

definition write_entry_scalar_fields :: "'d loro_ops \<Rightarrow> path \<Rightarrow> session_message_entry \<Rightarrow> ('d, unit) act" where
  "write_entry_scalar_fields L p e =
     run_acts
       ([put_str L p ''id'' (me_id e),
         put_str L p ''role'' (role_str (me_role e)),
         put_value L p ''createdAt'' (JInt (me_created_at e)),
         put_str L p ''deviceId'' (me_device_id e)] @
        opt_act (\<lambda>s. put_str L p ''status'' (status_str s)) (me_status e) @
        opt_act (put_str L p ''continuationOf'') (me_continuation_of e))"

text \<open>\<open>p\<close> is the new part map's path.\<close>

definition write_part :: "'d loro_ops \<Rightarrow> path \<Rightarrow> doc_part_json \<Rightarrow> ('d, unit) act" where
  "write_part L p dp =
     run_acts
       ([put_str L p ''id'' (dp_id dp), put_str L p ''kind'' (dp_kind dp)] @
        opt_act (put_text L p ''text'') (dp_text dp) @
        opt_act (put_json L p ''call'') (dp_call dp) @
        opt_act (\<lambda>b. put_value L p ''isError'' (JBool b)) (dp_is_error dp) @
        opt_act (put_json L p ''questions'') (dp_questions dp) @
        opt_act (\<lambda>b. put_value L p ''resolved'' (JBool b)) (dp_resolved dp) @
        opt_act (put_str L p ''message'') (dp_message dp) @
        opt_act (\<lambda>l. put_str L p ''level'' (level_str l)) (dp_level dp) @
        opt_act (put_str L p ''output'') (dp_output dp) @
        opt_act (put_json L p ''diff'') (dp_diff dp) @
        opt_act (put_str L p ''outputRef'') (dp_output_ref dp) @
        opt_act (\<lambda>n. put_value L p ''outputBytes'' (JInt (i64_wrap (int n)))) (dp_output_bytes dp) @
        opt_act (put_str L p ''diffRef'') (dp_diff_ref dp) @
        opt_act (put_json L p ''diffStats'') (dp_diff_stats dp))"

definition list_len :: "'d loro_ops \<Rightarrow> path \<Rightarrow> 'd \<Rightarrow> nat" where
  "list_len L p d = (case tree_at p (ld_tree L d) of Some (TList ts) \<Rightarrow> length ts | _ \<Rightarrow> 0)"

text \<open>\<^verbatim>\<open>push_container(LoroMap::new())\<close>: the handle of the new map.\<close>

definition push_map :: "'d loro_ops \<Rightarrow> path \<Rightarrow> ('d, path) act" where
  "push_map L p d =
     (let n = list_len L p d
      in act_bind (act_of (ld_push_container L p (TMap []))) (\<lambda>_. act_return (p @ [Idx n])) d)"

definition doc_push_part :: "'d loro_ops \<Rightarrow> part_codec \<Rightarrow> path \<Rightarrow> message_part \<Rightarrow> ('d, unit) act" where
  "doc_push_part L C parts part =
     act_bind (push_map L parts) (\<lambda>p.
       case to_doc_part C part of Inl e \<Rightarrow> act_fail e | Inr dp \<Rightarrow> write_part L p dp)"

definition push_message :: "'d loro_ops \<Rightarrow> part_codec \<Rightarrow> session_message_entry \<Rightarrow> ('d, unit) act" where
  "push_message L C entry =
     act_bind (push_map L [Key ''messages'']) (\<lambda>p.
       act_bind (write_entry_scalar_fields L p entry) (\<lambda>_.
         act_bind (act_of (ld_insert_container L p ''parts'' (TList []))) (\<lambda>_.
           act_bind (run_acts (map (doc_push_part L C (p @ [Key ''parts''])) (me_parts entry))) (\<lambda>_.
             act_commit L))))"


subsection \<open>The command ledger\<close>

fun command_status_str :: "session_command_status \<Rightarrow> string" where
  "command_status_str CsPending = ''pending''"
| "command_status_str CsApplied = ''applied''"
| "command_status_str CsRejected = ''rejected''"
| "command_status_str CsExpired = ''expired''"
| "command_status_str CsSuperseded = ''superseded''"
| "command_status_str CsCancelled = ''cancelled''"

definition command_status_of :: "json \<Rightarrow> session_command_status option" where
  "command_status_of v =
     find (\<lambda>s. v = JStr (command_status_str s))
       [CsPending, CsApplied, CsRejected, CsExpired, CsSuperseded, CsCancelled]"

fun command_kind_str :: "session_command_kind \<Rightarrow> string" where
  "command_kind_str KRun = ''run''"
| "command_kind_str KSteer = ''steer''"
| "command_kind_str KInterrupt = ''interrupt''"
| "command_kind_str KRespondInput = ''respondInput''"

definition opt_json :: "string option \<Rightarrow> json" where
  "opt_json x = (case x of None \<Rightarrow> JNull | Some s \<Rightarrow> JStr s)"

definition based_on_json :: "command_based_on \<Rightarrow> json" where
  "based_on_json b = JObj [(''frontier'', opt_json (cb_frontier b)), (''turnId'', opt_json (cb_turn_id b))]"

definition based_on_of :: "json \<Rightarrow> command_based_on option" where
  "based_on_of v =
     do {
       fs \<leftarrow> as_obj v;
       turn_id \<leftarrow> opt_field as_str fs ''turnId'';
       frontier \<leftarrow> opt_field as_str fs ''frontier'';
       Some \<lparr>cb_turn_id = turn_id, cb_frontier = frontier\<rparr>
     }"

definition read_command :: "part_codec \<Rightarrow> (string \<times> json) list \<Rightarrow> session_command_entry option" where
  "read_command C fs =
     do {
       i \<leftarrow> req_field as_str fs ''id'';
       payload \<leftarrow> req_field (pc_payload_of C) fs ''payload'';
       issued_by \<leftarrow> req_field as_str fs ''issuedBy'';
       issued_at \<leftarrow> req_field as_i64 fs ''issuedAt'';
       based_on \<leftarrow> opt_field based_on_of fs ''basedOn'';
       expires_at \<leftarrow> opt_field as_i64 fs ''expiresAt'';
       status \<leftarrow> req_field command_status_of fs ''status'';
       resolution \<leftarrow> opt_field as_str fs ''resolution'';
       Some \<lparr>ce_id = i, ce_payload = payload, ce_issued_by = issued_by, ce_issued_at = issued_at,
         ce_based_on = based_on, ce_expires_at = expires_at, ce_status = status, ce_resolution = resolution\<rparr>
     }"

definition read_commands :: "'d loro_ops \<Rightarrow> part_codec \<Rightarrow> 'd \<Rightarrow> session_command_entry list" where
  "read_commands L C d =
     List.map_filter (\<lambda>v. Option.bind (as_obj v) (read_command C)) (map to_json (root_list L ''commands'' d))"

definition queue_command :: "'d loro_ops \<Rightarrow> part_codec \<Rightarrow> session_command_entry \<Rightarrow> ('d, unit) act" where
  "queue_command L C entry =
     act_bind (push_map L [Key ''commands'']) (\<lambda>p.
       run_acts
         ([put_str L p ''id'' (ce_id entry),
           put_str L p ''kind'' (command_kind_str (payload_kind (ce_payload entry))),
           (case pc_payload C (ce_payload entry) of
              Inl e \<Rightarrow> act_fail (DeJson e) | Inr v \<Rightarrow> put_json L p ''payload'' v),
           put_str L p ''issuedBy'' (ce_issued_by entry),
           put_value L p ''issuedAt'' (JInt (ce_issued_at entry))] @
          opt_act (\<lambda>b. put_json L p ''basedOn'' (based_on_json b)) (ce_based_on entry) @
          opt_act (\<lambda>t. put_value L p ''expiresAt'' (JInt t)) (ce_expires_at entry) @
          [put_str L p ''status'' (command_status_str (ce_status entry)), act_commit L]))"

definition is_id :: "string \<Rightarrow> ltree \<Rightarrow> bool" where
  "is_id i t = (case t of TMap m \<Rightarrow> map_of m ''id'' = Some (TVal (JStr i)) | _ \<Rightarrow> False)"

definition loro_set_command_status :: "'d loro_ops \<Rightarrow> string \<Rightarrow> session_command_status \<Rightarrow> string option \<Rightarrow>
    ('d, unit) act" where
  "loro_set_command_status L command_id status resolution d =
     (case position (is_id command_id) (root_list L ''commands'' d) of
        None \<Rightarrow> (Inl (DeSchema (''command '' @ command_id @ '' not found'')), d)
      | Some i \<Rightarrow>
          run_acts
            ([put_str L [Key ''commands'', Idx i] ''status'' (command_status_str status)] @
             opt_act (put_str L [Key ''commands'', Idx i] ''resolution'') resolution @ [act_commit L]) d)"

subsection \<open>Writes in place\<close>

definition set_message_status :: "'d loro_ops \<Rightarrow> string \<Rightarrow> message_status \<Rightarrow> ('d, bool) act" where
  "set_message_status L message_id status d =
     (case position (is_id message_id) (root_list L ''messages'' d) of
        None \<Rightarrow> (Inr False, d)
      | Some i \<Rightarrow>
          act_bind (put_str L [Key ''messages'', Idx i] ''status'' (status_str status)) (\<lambda>_.
            act_bind (act_commit L) (\<lambda>_. act_return True)) d)"

definition parts_of :: "ltree \<Rightarrow> ltree list option" where
  "parts_of t =
     (case t of TMap m \<Rightarrow> (case map_of m ''parts'' of Some (TList ps) \<Rightarrow> Some ps | _ \<Rightarrow> None) | _ \<Rightarrow> None)"

definition append_error_part :: "'d loro_ops \<Rightarrow> part_codec \<Rightarrow> string \<Rightarrow> string \<Rightarrow> string \<Rightarrow> ('d, bool) act" where
  "append_error_part L C message_id part_id' message d =
     (let ts = root_list L ''messages'' d
      in case position (\<lambda>t. is_id message_id t \<and> parts_of t \<noteq> None) ts of
           None \<Rightarrow> (Inr False, d)
         | Some i \<Rightarrow>
             if list_ex (is_id part_id') (unwrap_or [] (parts_of (ts ! i))) then (Inr True, d)
             else act_bind (doc_push_part L C [Key ''messages'', Idx i, Key ''parts''] (PError part_id' message))
                    (\<lambda>_. act_bind (act_commit L) (\<lambda>_. act_return True)) d)"

definition is_input_map :: "string \<Rightarrow> ltree \<Rightarrow> bool" where
  "is_input_map request_id t =
     (is_id request_id t \<and> (case t of TMap m \<Rightarrow> map_of m ''kind'' = Some (TVal (JStr ''input'')) | _ \<Rightarrow> False))"

definition loro_resolve_input :: "'d loro_ops \<Rightarrow> string \<Rightarrow> ('d, bool) act" where
  "loro_resolve_input L request_id d =
     (let ts = root_list L ''messages'' d;
          here = (\<lambda>t. position (is_input_map request_id) (unwrap_or [] (parts_of t)))
      in case position (\<lambda>t. here t \<noteq> None) ts of
           None \<Rightarrow> (Inr False, d)
         | Some i \<Rightarrow>
             (case here (ts ! i) of
                None \<Rightarrow> (Inr False, d)
              | Some j \<Rightarrow>
                  act_bind (put_value L [Key ''messages'', Idx i, Key ''parts'', Idx j] ''resolved'' (JBool True))
                    (\<lambda>_. act_bind (act_commit L) (\<lambda>_. act_return True)) d))"

definition export_snapshot :: "'d loro_ops \<Rightarrow> 'd \<Rightarrow> doc_error + bytes" where
  "export_snapshot L d = (case ld_export L d of Inl e \<Rightarrow> Inl (DeSchema e) | Inr bs \<Rightarrow> Inr bs)"

subsection \<open>The segment writer\<close>

record segment_writer =
  sw_entry_index :: nat
  sw_written :: "message_part list"

definition segment_begin :: "'d loro_ops \<Rightarrow> string \<Rightarrow> string \<Rightarrow> int \<Rightarrow> ('d, segment_writer) act" where
  "segment_begin L entry_id device_id created_at d =
     (let entry_index = list_len L [Key ''messages''] d
      in act_bind (push_map L [Key ''messages'']) (\<lambda>p.
           act_bind (write_entry_scalar_fields L p
             \<lparr>me_id = entry_id, me_role = MrAssistant, me_parts = [], me_created_at = created_at,
              me_device_id = device_id, me_status = Some MsStreaming, me_continuation_of = None\<rparr>) (\<lambda>_.
             act_bind (act_of (ld_insert_container L p ''parts'' (TList []))) (\<lambda>_.
               act_bind (act_commit L) (\<lambda>_.
                 act_return \<lparr>sw_entry_index = entry_index, sw_written = []\<rparr>)))) d)"

definition entry_map :: "'d loro_ops \<Rightarrow> segment_writer \<Rightarrow> 'd \<Rightarrow> doc_error + path" where
  "entry_map L w d =
     (let p = [Key ''messages'', Idx (sw_entry_index w)]
      in case tree_at p (ld_tree L d) of
           Some (TMap _) \<Rightarrow> Inr p | _ \<Rightarrow> Inl (DeSchema ''streaming entry map missing''))"

definition parts_list :: "'d loro_ops \<Rightarrow> segment_writer \<Rightarrow> 'd \<Rightarrow> doc_error + path" where
  "parts_list L w d =
     (case entry_map L w d of
        Inl e \<Rightarrow> Inl e
      | Inr p \<Rightarrow>
          (case map_get L p ''parts'' d of
             Some (TList _) \<Rightarrow> Inr (p @ [Key ''parts''])
           | _ \<Rightarrow> Inl (DeSchema ''streaming entry parts list missing'')))"

definition part_map_at :: "'d loro_ops \<Rightarrow> path \<Rightarrow> nat \<Rightarrow> ('d, path) act" where
  "part_map_at L parts i d =
     (case tree_at (parts @ [Idx i]) (ld_tree L d) of
        Some (TMap _) \<Rightarrow> (Inr (parts @ [Idx i]), d)
      | _ \<Rightarrow> (Inl (DeSchema (''part map missing at '' @ dec i)), d))"

text \<open>The text of a text part, if the map has one.\<close>

definition text_at :: "'d loro_ops \<Rightarrow> path \<Rightarrow> 'd \<Rightarrow> string option" where
  "text_at L p d = (case map_get L p ''text'' d of Some (TText u) \<Rightarrow> Some u | _ \<Rightarrow> None)"

definition append_text :: "'d loro_ops \<Rightarrow> path \<Rightarrow> nat \<Rightarrow> string \<Rightarrow> ('d, unit) act" where
  "append_text L parts i delta =
     act_bind (part_map_at L parts i) (\<lambda>p d.
       case text_at L p d of
         Some u \<Rightarrow> act_of (ld_text_insert L (p @ [Key ''text'']) (char_count u) delta) d
       | None \<Rightarrow> (Inl (DeSchema ''text part missing LoroText''), d))"

definition rewrite_text :: "'d loro_ops \<Rightarrow> path \<Rightarrow> string \<Rightarrow> ('d, unit) act" where
  "rewrite_text L p s d =
     (case text_at L p d of
        Some _ \<Rightarrow>
          (case ld_text_update L (p @ [Key ''text'']) s d of
             Inl e \<Rightarrow> (Inl (DeSchema e), d) | Inr d \<Rightarrow> (Inr (), d))
      | None \<Rightarrow> (Inr (), d))"

definition update_part_fields :: "'d loro_ops \<Rightarrow> part_codec \<Rightarrow> path \<Rightarrow> message_part \<Rightarrow> ('d, unit) act" where
  "update_part_fields L C p part =
     (case to_doc_part C part of
        Inl e \<Rightarrow> act_fail e
      | Inr dp \<Rightarrow>
          run_acts
            (opt_act (put_json L p ''call'') (dp_call dp) @
             opt_act (\<lambda>b. put_value L p ''isError'' (JBool b)) (dp_is_error dp) @
             opt_act (put_json L p ''questions'') (dp_questions dp) @
             opt_act (\<lambda>b. put_value L p ''resolved'' (JBool b)) (dp_resolved dp) @
             opt_act (put_str L p ''message'') (dp_message dp) @
             opt_act (put_str L p ''output'') (dp_output dp) @
             opt_act (put_json L p ''diff'') (dp_diff dp) @
             opt_act (put_str L p ''outputRef'') (dp_output_ref dp) @
             opt_act (\<lambda>n. put_value L p ''outputBytes'' (JInt (i64_wrap (int n)))) (dp_output_bytes dp) @
             opt_act (put_str L p ''diffRef'') (dp_diff_ref dp) @
             opt_act (put_json L p ''diffStats'') (dp_diff_stats dp) @
             opt_act (rewrite_text L p) (dp_text dp)))"

text \<open>The growth of a text part: the suffix to append.\<close>

definition text_growth :: "message_part \<Rightarrow> message_part \<Rightarrow> string option" where
  "text_growth prev part =
     (case (prev, part) of
        (PText _ old, PText _ new) \<Rightarrow> if prefix old new then Some (drop (length old) new) else None
      | (PCommentary _ old, PCommentary _ new) \<Rightarrow> if prefix old new then Some (drop (length old) new) else None
      | _ \<Rightarrow> None)"

text \<open>One part of the loop: what is written, and whether.\<close>

definition sync_part :: "'d loro_ops \<Rightarrow> part_codec \<Rightarrow> path \<Rightarrow> nat \<Rightarrow> message_part \<Rightarrow> message_part list \<Rightarrow>
    ('d, bool) act" where
  "sync_part L C parts i part written =
     (if length written \<le> i then act_bind (doc_push_part L C parts part) (\<lambda>_. act_return True)
      else if written ! i = part then act_return False
      else case text_growth (written ! i) part of
             Some delta \<Rightarrow>
               if delta = [] then act_return False
               else act_bind (append_text L parts i delta) (\<lambda>_. act_return True)
           | None \<Rightarrow>
               act_bind (part_map_at L parts i) (\<lambda>p.
                 act_bind (update_part_fields L C p part) (\<lambda>_. act_return True)))"

fun sync_loop :: "'d loro_ops \<Rightarrow> part_codec \<Rightarrow> path \<Rightarrow> nat \<Rightarrow> message_part list \<Rightarrow> message_part list \<Rightarrow> bool \<Rightarrow>
    'd \<Rightarrow> (doc_error + bool) \<times> message_part list \<times> 'd" where
  "sync_loop L C parts i [] written dirty d = (Inr dirty, written, d)"
| "sync_loop L C parts i (part # rest) written dirty d =
     (case sync_part L C parts i part written d of
        (Inl e, d) \<Rightarrow> (Inl e, written, d)
      | (Inr wrote, d) \<Rightarrow>
          sync_loop L C parts (Suc i) rest (if length written \<le> i then written @ [part] else written[i := part])
            (dirty \<or> wrote) d)"

definition segment_sync :: "'d loro_ops \<Rightarrow> part_codec \<Rightarrow> message_part list \<Rightarrow> segment_writer \<Rightarrow> 'd \<Rightarrow>
    (doc_error + unit) \<times> segment_writer \<times> 'd" where
  "segment_sync L C folded w d =
     (case parts_list L w d of
        Inl e \<Rightarrow> (Inl e, w, d)
      | Inr parts \<Rightarrow>
          (case sync_loop L C parts 0 folded (sw_written w) False d of
             (Inl e, written, d) \<Rightarrow> (Inl e, w\<lparr>sw_written := written\<rparr>, d)
           | (Inr dirty, written, d) \<Rightarrow>
               (Inr (), w\<lparr>sw_written := written\<rparr>, if dirty then ld_commit L d else d)))"

definition segment_finish :: "'d loro_ops \<Rightarrow> part_codec \<Rightarrow> message_part list \<Rightarrow> message_status \<Rightarrow> segment_writer \<Rightarrow>
    ('d, unit) act" where
  "segment_finish L C folded status w d =
     (case segment_sync L C folded w d of
        (Inl e, w, d) \<Rightarrow> (Inl e, d)
      | (Inr _, w, d) \<Rightarrow>
          (case entry_map L w d of
             Inl e \<Rightarrow> (Inl e, d)
           | Inr p \<Rightarrow> act_bind (put_str L p ''status'' (status_str status)) (\<lambda>_. act_commit L) d))"

subsection \<open>Continuations and the tail\<close>

fun extend_root :: "string \<Rightarrow> message_part list \<Rightarrow> (string \<times> nat) list \<Rightarrow> session_message_entry list \<Rightarrow>
    session_message_entry list option" where
  "extend_root root_id parts root_index out =
     (case map_of root_index root_id of
        None \<Rightarrow> None
      | Some at \<Rightarrow> Some (out[at := (out ! at)\<lparr>me_parts := me_parts (out ! at) @ parts\<rparr>]))"

fun join_loop :: "session_message_entry list \<Rightarrow> (string \<times> nat) list \<Rightarrow> session_message_entry list \<Rightarrow>
    session_message_entry list" where
  "join_loop [] root_index out = out"
| "join_loop (e # es) root_index out =
     (case me_continuation_of e of
        Some root_id \<Rightarrow>
          join_loop es root_index
            (case extend_root root_id (me_parts e) root_index out of Some out \<Rightarrow> out | None \<Rightarrow> out @ [e])
      | None \<Rightarrow> join_loop es (AList.update (me_id e) (length out) root_index) (out @ [e]))"

definition join_continuation_entries :: "session_message_entry list \<Rightarrow> session_message_entry list" where
  "join_continuation_entries es =
     (if list_ex (\<lambda>e. me_continuation_of e \<noteq> None) es then join_loop es [] [] else es)"

definition tail_message_count :: nat where "tail_message_count = 64"

record session_tail =
  st_chat_id :: string
  st_schema_version :: int
  st_messages :: "session_message_entry list"
  st_total_messages :: nat
  st_updated_at :: int

definition materialize_tail :: "'d loro_ops \<Rightarrow> part_codec \<Rightarrow> (json \<Rightarrow> nat) \<Rightarrow> 'd \<Rightarrow> int \<Rightarrow> nat \<Rightarrow> session_tail" where
  "materialize_tail L C H d now tail_count =
     (let entries = join_continuation_entries (read_entries L C H d);
          total = length entries;
          start = total - (if tail_count = 0 then tail_message_count else tail_count)
      in \<lparr>st_chat_id = unwrap_or [] (doc_chat_id L d), st_schema_version = session_schema_version,
          st_messages = drop start entries, st_total_messages = total, st_updated_at = now\<rparr>)"


subsection \<open>What is read back\<close>

text \<open>What the codecs of nested types promise: serialising succeeds, and the value read back from the
  document gives the datum.\<close>

definition part_codec_ok :: "'d loro_ops \<Rightarrow> part_codec \<Rightarrow> bool" where
  "part_codec_ok L C \<longleftrightarrow>
     (\<forall>c. \<exists>j. pc_call C c = Inr j \<and> ld_value L j \<noteq> JNull \<and> pc_call_of C (ld_value L j) = Some c) \<and>
     (\<forall>c. \<exists>j. pc_questions C c = Inr j \<and> ld_value L j \<noteq> JNull \<and> pc_questions_of C (ld_value L j) = Some c) \<and>
     (\<forall>c. \<exists>j. pc_diff C c = Inr j \<and> ld_value L j \<noteq> JNull \<and> pc_diff_of C (ld_value L j) = Some c) \<and>
     (\<forall>c. \<exists>j. pc_stats C c = Inr j \<and> ld_value L j \<noteq> JNull \<and> pc_stats_of C (ld_value L j) = Some c) \<and>
     (\<forall>c. \<exists>j. pc_payload C c = Inr j \<and> pc_payload_of C (ld_value L j) = Some c) \<and>
     (\<forall>b. ld_value L (based_on_json b) = based_on_json b)"

text \<open>A part as it reads back: an unresolved tool has no error flag, an input is keyed by its request.\<close>

fun norm_part :: "message_part \<Rightarrow> message_part" where
  "norm_part (PTool t) = PTool (if tp_resolved t then t else t\<lparr>tp_is_error := False\<rparr>)"
| "norm_part (PInput i rid qs r) = PInput rid rid qs r"
| "norm_part p = p"

definition norm_entry :: "session_message_entry \<Rightarrow> session_message_entry" where
  "norm_entry e = e\<lparr>me_parts := map norm_part (me_parts e)\<rparr>"

definition bytes_ok :: "message_part \<Rightarrow> bool" where
  "bytes_ok p = (case p of PTool t \<Rightarrow> (case tp_output_bytes t of Some n \<Rightarrow> n < 2 ^ 63 | None \<Rightarrow> True) | _ \<Rightarrow> True)"

definition entry_ok :: "session_message_entry \<Rightarrow> bool" where
  "entry_ok e \<longleftrightarrow> i64_ok (me_created_at e) \<and> list_all bytes_ok (me_parts e)"

definition opt_map :: "string \<Rightarrow> ('a \<Rightarrow> ltree) \<Rightarrow> 'a option \<Rightarrow> string \<Rightarrow> ltree option" where
  "opt_map k f x = (\<lambda>k'. if k' = k then map_option f x else None)"

lemma opt_map_add: "(m ++ opt_map k f x) k' = (if k' = k \<and> x \<noteq> None then map_option f x else m k')"
  by (cases x) (auto simp: opt_map_def map_add_def)

definition str_map :: "string \<Rightarrow> string \<Rightarrow> string \<Rightarrow> ltree option" where
  "str_map k s = [k \<mapsto> TVal (JStr s)]"

definition part_lookup :: "'d loro_ops \<Rightarrow> doc_part_json \<Rightarrow> string \<Rightarrow> ltree option" where
  "part_lookup L dp =
     [''id'' \<mapsto> TVal (JStr (dp_id dp)), ''kind'' \<mapsto> TVal (JStr (dp_kind dp))] ++
     opt_map ''text'' TText (dp_text dp) ++
     opt_map ''call'' (\<lambda>v. TVal (ld_value L v)) (dp_call dp) ++
     opt_map ''isError'' (\<lambda>b. TVal (JBool b)) (dp_is_error dp) ++
     opt_map ''questions'' (\<lambda>v. TVal (ld_value L v)) (dp_questions dp) ++
     opt_map ''resolved'' (\<lambda>b. TVal (JBool b)) (dp_resolved dp) ++
     opt_map ''message'' (\<lambda>s. TVal (JStr s)) (dp_message dp) ++
     opt_map ''level'' (\<lambda>l. TVal (JStr (level_str l))) (dp_level dp) ++
     opt_map ''output'' (\<lambda>s. TVal (JStr s)) (dp_output dp) ++
     opt_map ''diff'' (\<lambda>v. TVal (ld_value L v)) (dp_diff dp) ++
     opt_map ''outputRef'' (\<lambda>s. TVal (JStr s)) (dp_output_ref dp) ++
     opt_map ''outputBytes'' (\<lambda>n. TVal (JInt (i64_wrap (int n)))) (dp_output_bytes dp) ++
     opt_map ''diffRef'' (\<lambda>s. TVal (JStr s)) (dp_diff_ref dp) ++
     opt_map ''diffStats'' (\<lambda>v. TVal (ld_value L v)) (dp_diff_stats dp)"

text \<open>A list of optional writes to distinct keys is a filling.\<close>

definition field_opt :: "('a \<Rightarrow> string \<times> field) \<Rightarrow> 'a option \<Rightarrow> (string \<times> field) list" where
  "field_opt f x = (case x of None \<Rightarrow> [] | Some x \<Rightarrow> [f x])"

lemma opt_act_field: "(\<And>x. a x = put_field L p (f x)) \<Longrightarrow> opt_act a x = map (put_field L p) (field_opt f x)"
  by (cases x) (simp_all add: opt_act_def field_opt_def)

definition part_fields :: "'d loro_ops \<Rightarrow> doc_part_json \<Rightarrow> (string \<times> field) list" where
  "part_fields L dp =
     [(''id'', FVal (JStr (dp_id dp))), (''kind'', FVal (JStr (dp_kind dp)))] @
     field_opt (\<lambda>s. (''text'', FText s)) (dp_text dp) @
     field_opt (\<lambda>v. (''call'', FVal (ld_value L v))) (dp_call dp) @
     field_opt (\<lambda>b. (''isError'', FVal (JBool b))) (dp_is_error dp) @
     field_opt (\<lambda>v. (''questions'', FVal (ld_value L v))) (dp_questions dp) @
     field_opt (\<lambda>b. (''resolved'', FVal (JBool b))) (dp_resolved dp) @
     field_opt (\<lambda>s. (''message'', FVal (JStr s))) (dp_message dp) @
     field_opt (\<lambda>l. (''level'', FVal (JStr (level_str l)))) (dp_level dp) @
     field_opt (\<lambda>s. (''output'', FVal (JStr s))) (dp_output dp) @
     field_opt (\<lambda>v. (''diff'', FVal (ld_value L v))) (dp_diff dp) @
     field_opt (\<lambda>s. (''outputRef'', FVal (JStr s))) (dp_output_ref dp) @
     field_opt (\<lambda>n. (''outputBytes'', FVal (JInt (i64_wrap (int n))))) (dp_output_bytes dp) @
     field_opt (\<lambda>s. (''diffRef'', FVal (JStr s))) (dp_diff_ref dp) @
     field_opt (\<lambda>v. (''diffStats'', FVal (ld_value L v))) (dp_diff_stats dp)"

lemmas act_fields = put_str_def put_json_def

lemma write_part_fields: "write_part L p dp = run_acts (map (put_field L p) (part_fields L dp))"
  unfolding write_part_def part_fields_def map_append
  by (intro arg_cong [where f = run_acts] arg_cong2 [where f = "(@)"] opt_act_field) (simp_all add: act_fields)

definition fields_map :: "(string \<times> field) list \<Rightarrow> string \<Rightarrow> ltree option" where
  "fields_map kvs = (\<lambda>k. map_option field_tree (map_of (rev kvs) k))"

lemma fields_map_append: "fields_map (xs @ ys) = fields_map xs ++ fields_map ys"
  by (auto simp: fields_map_def map_add_def fun_eq_iff split: option.splits)

lemma fields_map_opt: "(\<And>x. fst (f x) = k) \<Longrightarrow> fields_map (field_opt f x) = opt_map k (\<lambda>x. field_tree (snd (f x))) x"
  by (cases x) (auto simp: fields_map_def field_opt_def opt_map_def fun_eq_iff)

lemma fields_map_fill: "map_of (fill kvs []) = fields_map kvs"
  by (simp add: map_of_fill fields_map_def)

lemma part_fields_map: "fields_map (part_fields L dp) = part_lookup L dp"
  unfolding part_fields_def part_lookup_def fields_map_append map_add_assoc
  by (intro arg_cong2 [where f = "(++)"]) (auto simp: fields_map_opt, auto simp: fields_map_def fun_eq_iff)


text \<open>Reading one field of a map through JSON.\<close>

definition json_fields :: "(string \<times> ltree) list \<Rightarrow> (string \<times> json) list" where
  "json_fields m = map (\<lambda>(k, t). (k, to_json t)) m"

lemma to_json_map: "to_json (TMap m) = JObj (json_fields m)"
  by (simp add: json_fields_def)

lemma json_field: "map_of (json_fields m) k = map_option to_json (map_of m k)"
  by (simp add: json_fields_def map_of_to_json)

lemma opt_field_read:
  assumes "map_of m k = map_option (\<lambda>x. f x) x" "\<And>v. x = Some v \<Longrightarrow> to_json (f v) \<noteq> JNull \<and> g (to_json (f v)) = Some (h v)"
  shows "opt_field g (json_fields m) k = Some (map_option h x)"
  using assms by (cases x) (auto simp: opt_field_def json_field)

lemma req_field_read: "map_of m k = Some t \<Longrightarrow> req_field g (json_fields m) k = g (to_json t)"
  by (simp add: req_field_def json_field)

lemma level_of_str [simp]: "level_of (JStr (level_str l)) = Some l"
  by (cases l) (simp_all add: level_of_def)

lemma status_of_str [simp]: "status_of (JStr (status_str s)) = Some s"
  by (cases s) (simp_all add: status_of_def)

lemma role_of_str [simp]: "role_of (JStr (role_str r)) = Some r"
  by (cases r) (simp_all add: role_of_def)

lemma command_status_of_str [simp]: "command_status_of (JStr (command_status_str s)) = Some s"
  by (cases s) (simp_all add: command_status_of_def)

definition dp_ok :: "'d loro_ops \<Rightarrow> doc_part_json \<Rightarrow> bool" where
  "dp_ok L dp \<longleftrightarrow>
     (\<forall>v. Some v \<in> {dp_call dp, dp_questions dp, dp_diff dp, dp_diff_stats dp} \<longrightarrow> ld_value L v \<noteq> JNull) \<and>
     (case dp_output_bytes dp of Some n \<Rightarrow> n < 2 ^ 63 | None \<Rightarrow> True)"

definition loaded :: "'d loro_ops \<Rightarrow> doc_part_json \<Rightarrow> doc_part_json" where
  "loaded L dp =
     dp\<lparr>dp_call := map_option (ld_value L) (dp_call dp), dp_questions := map_option (ld_value L) (dp_questions dp),
        dp_diff := map_option (ld_value L) (dp_diff dp),
        dp_diff_stats := map_option (ld_value L) (dp_diff_stats dp)\<rparr>"

lemma as_u64_bytes: "n < 2 ^ 63 \<Longrightarrow> as_u64 (JInt (i64_wrap (int n))) = Some n"
proof -
  assume "n < 2 ^ 63"
  then have "i64_wrap (int n) = int n" by (intro i64_wrap_id) (simp add: i64_ok_def)
  with \<open>n < 2 ^ 63\<close> show ?thesis by (simp add: as_u64_def)
qed

lemma part_lookups:
  assumes "map_of m = part_lookup L dp"
  shows "map_of m ''id'' = Some (TVal (JStr (dp_id dp)))" "map_of m ''kind'' = Some (TVal (JStr (dp_kind dp)))"
    "map_of m ''text'' = map_option TText (dp_text dp)"
    "map_of m ''call'' = map_option (\<lambda>v. TVal (ld_value L v)) (dp_call dp)"
    "map_of m ''isError'' = map_option (\<lambda>b. TVal (JBool b)) (dp_is_error dp)"
    "map_of m ''questions'' = map_option (\<lambda>v. TVal (ld_value L v)) (dp_questions dp)"
    "map_of m ''resolved'' = map_option (\<lambda>b. TVal (JBool b)) (dp_resolved dp)"
    "map_of m ''message'' = map_option (\<lambda>s. TVal (JStr s)) (dp_message dp)"
    "map_of m ''level'' = map_option (\<lambda>l. TVal (JStr (level_str l))) (dp_level dp)"
    "map_of m ''output'' = map_option (\<lambda>s. TVal (JStr s)) (dp_output dp)"
    "map_of m ''diff'' = map_option (\<lambda>v. TVal (ld_value L v)) (dp_diff dp)"
    "map_of m ''outputRef'' = map_option (\<lambda>s. TVal (JStr s)) (dp_output_ref dp)"
    "map_of m ''outputBytes'' = map_option (\<lambda>n. TVal (JInt (i64_wrap (int n)))) (dp_output_bytes dp)"
    "map_of m ''diffRef'' = map_option (\<lambda>s. TVal (JStr s)) (dp_diff_ref dp)"
    "map_of m ''diffStats'' = map_option (\<lambda>v. TVal (ld_value L v)) (dp_diff_stats dp)"
  unfolding assms part_lookup_def by (simp_all add: opt_map_add)

lemma read_part_back:
  assumes "map_of m = part_lookup L dp" "dp_ok L dp"
  shows "read_part (json_fields m) = Some (loaded L dp)"
proof -
  note l = part_lookups [OF assms(1)]
  have b: "dp_output_bytes dp = Some n \<Longrightarrow> n < 2 ^ 63" for n using assms(2) by (simp add: dp_ok_def)
  note r = req_field_read [OF l(1), of as_str] req_field_read [OF l(2), of as_str]
    opt_field_read [OF l(3), of as_str "\<lambda>x. x"] opt_field_read [OF l(4), of Some "ld_value L"]
    opt_field_read [OF l(5), of as_bool "\<lambda>x. x"] opt_field_read [OF l(6), of Some "ld_value L"]
    opt_field_read [OF l(7), of as_bool "\<lambda>x. x"] opt_field_read [OF l(8), of as_str "\<lambda>x. x"]
    opt_field_read [OF l(9), of level_of "\<lambda>x. x"] opt_field_read [OF l(10), of as_str "\<lambda>x. x"]
    opt_field_read [OF l(11), of Some "ld_value L"] opt_field_read [OF l(12), of as_str "\<lambda>x. x"]
    opt_field_read [OF l(13), of as_u64 "\<lambda>x. x"] opt_field_read [OF l(14), of as_str "\<lambda>x. x"]
    opt_field_read [OF l(15), of Some "ld_value L"]
  show ?thesis
    unfolding read_part_def
    using assms(2) b as_u64_bytes
    by (simp add: r as_str_def as_bool_def dp_ok_def loaded_def option.map_ident)
qed

text \<open>The tree of a part.\<close>

definition part_rep :: "'d loro_ops \<Rightarrow> part_codec \<Rightarrow> message_part \<Rightarrow> ltree \<Rightarrow> bool" where
  "part_rep L C p t \<longleftrightarrow>
     (\<exists>dp m. to_doc_part C p = Inr dp \<and> t = TMap m \<and> map_of m = part_lookup L dp)"

lemma json_opt_ok:
  assumes "\<And>c. \<exists>j. f c = Inr j \<and> P j \<and> g (v j) = Some c"
  shows "\<exists>j. json_opt f x = Inr j \<and> Option.bind (map_option v j) g = x \<and> (\<forall>w. j = Some w \<longrightarrow> P w)"
proof (cases x)
  case (Some c)
  from assms [of c] obtain j where "f c = Inr j" "P j" "g (v j) = Some c" by blast
  with Some show ?thesis by (auto simp: json_opt_def)
qed (simp add: json_opt_def)

lemma to_doc_part_back:
  assumes "part_codec_ok L C" "bytes_ok p"
  shows "\<exists>dp. to_doc_part C p = Inr dp \<and> dp_ok L dp \<and> from_doc_part C (loaded L dp) = norm_part p"
proof (cases p)
  case (PTool t)
  from assms(1) obtain j where j: "pc_call C (tp_call t) = Inr j" "ld_value L j \<noteq> JNull"
    "pc_call_of C (ld_value L j) = Some (tp_call t)" unfolding part_codec_ok_def by blast
  have "\<exists>d. json_opt (pc_diff C) (tp_diff t) = Inr d \<and> Option.bind (map_option (ld_value L) d) (pc_diff_of C) = tp_diff t \<and>
      (\<forall>w. d = Some w \<longrightarrow> ld_value L w \<noteq> JNull)"
    by (rule json_opt_ok) (use assms(1) in \<open>simp add: part_codec_ok_def\<close>)
  then obtain d where d: "json_opt (pc_diff C) (tp_diff t) = Inr d"
    "Option.bind (map_option (ld_value L) d) (pc_diff_of C) = tp_diff t" "\<And>w. d = Some w \<Longrightarrow> ld_value L w \<noteq> JNull" by blast
  have "\<exists>d. json_opt (pc_stats C) (tp_diff_stats t) = Inr d \<and>
      Option.bind (map_option (ld_value L) d) (pc_stats_of C) = tp_diff_stats t \<and> (\<forall>w. d = Some w \<longrightarrow> ld_value L w \<noteq> JNull)"
    by (rule json_opt_ok) (use assms(1) in \<open>simp add: part_codec_ok_def\<close>)
  then obtain s where s: "json_opt (pc_stats C) (tp_diff_stats t) = Inr s"
    "Option.bind (map_option (ld_value L) s) (pc_stats_of C) = tp_diff_stats t" "\<And>w. s = Some w \<Longrightarrow> ld_value L w \<noteq> JNull" by blast
  show ?thesis
    using PTool j d s assms(2)
    by (cases t) (auto simp: to_doc_tool_def dp_ok_def doc_part_default_def from_doc_part_def loaded_def unwrap_or_def bytes_ok_def)
next
  case (PInput i rid qs r)
  from assms(1) obtain j where j: "pc_questions C qs = Inr j" "ld_value L j \<noteq> JNull"
    "pc_questions_of C (ld_value L j) = Some qs" unfolding part_codec_ok_def by blast
  then show ?thesis
    using PInput by (auto simp: dp_ok_def doc_part_default_def from_doc_part_def loaded_def unwrap_or_def)
qed (auto simp: dp_ok_def doc_part_default_def from_doc_part_def loaded_def unwrap_or_def)

lemma part_rep_read:
  assumes "part_codec_ok L C" "bytes_ok p" "part_rep L C p t"
  shows "\<exists>fs dp. to_json t = JObj fs \<and> read_part fs = Some dp \<and> from_doc_part C dp = norm_part p"
proof -
  from assms(3) obtain dp m where r: "to_doc_part C p = Inr dp" "t = TMap m" "map_of m = part_lookup L dp"
    unfolding part_rep_def by blast
  from to_doc_part_back [OF assms(1,2)] r(1) have "dp_ok L dp" "from_doc_part C (loaded L dp) = norm_part p" by auto
  with read_part_back [OF r(3)] r(2) show ?thesis by (simp add: json_fields_def)
qed

lemma read_parts_back:
  assumes "part_codec_ok L C" "list_all bytes_ok ps" "list_all2 (part_rep L C) ps ts"
  shows "\<exists>dps. read_parts (to_json (TList ts)) = Some dps \<and> map (from_doc_part C) dps = map norm_part ps"
  using assms(3,2)
proof (induction rule: list_all2_induct)
  case Nil
  show ?case by (simp add: read_parts_def)
next
  case (Cons p ps t ts)
  from part_rep_read [OF assms(1) _ Cons(1)] Cons(4) obtain fs dp where
    1: "to_json t = JObj fs" "read_part fs = Some dp" "from_doc_part C dp = norm_part p" by auto
  from Cons(3,4) obtain dps where
    2: "read_parts (to_json (TList ts)) = Some dps" "map (from_doc_part C) dps = map norm_part ps" by auto
  with 1 show ?case by (auto simp: read_parts_def as_obj_def)
qed


subsection \<open>Writing an entry\<close>

lemma does_write_part:
  "loro_ok L \<Longrightarrow> does L p (TMap []) (write_part L p dp) () (TMap (fill (part_fields L dp) []))"
  unfolding write_part_fields by (rule does_fill)

lemma part_rep_written:
  "to_doc_part C part = Inr dp \<Longrightarrow> part_rep L C part (TMap (fill (part_fields L dp) []))"
  by (auto simp: part_rep_def fields_map_fill part_fields_map)

text \<open>A new map, and what is then done in it.\<close>

lemma does_push_map:
  assumes "loro_ok L" "does L (p @ [Idx (length ts)]) (TMap []) (f (p @ [Idx (length ts)])) x t"
  shows "does L p (TList ts) (act_bind (push_map L p) f) x (TList (ts @ [t]))"
  unfolding does_def
proof (intro allI impI)
  fix d assume d: "tree_at p (ld_tree L d) = Some (TList ts)"
  from doesD [OF does_push [OF assms(1)] d] obtain d1 where
    1: "act_of (ld_push_container L p (TMap [])) d = (Inr (), d1)"
      "ld_tree L d1 = tree_upd p (\<lambda>_. TList (ts @ [TMap []])) (ld_tree L d)" by blast
  have "does L p (TList (ts @ [TMap []])) (f (p @ [Idx (length ts)])) x (TList (ts @ [t]))"
    using does_at_idx [OF assms(2), of "ts @ [TMap []]"] by simp
  moreover have "tree_at p (ld_tree L d1) = Some (TList (ts @ [TMap []]))"
    unfolding 1(2) tree_at_upd using d by simp
  ultimately obtain d2 where 2: "f (p @ [Idx (length ts)]) d1 = (Inr x, d2)"
    "ld_tree L d2 = tree_upd p (\<lambda>_. TList (ts @ [t])) (ld_tree L d1)" by (blast dest: doesD)
  with 1 d show "\<exists>d'. act_bind (push_map L p) f d = (Inr x, d') \<and>
      ld_tree L d' = tree_upd p (\<lambda>_. TList (ts @ [t])) (ld_tree L d)"
    by (auto simp: act_bind_def push_map_def list_len_def act_return_def Let_def tree_upd_const)
qed

lemma does_push_part:
  assumes "loro_ok L" "to_doc_part C part = Inr dp"
  shows "does L p (TList ts) (doc_push_part L C p part) () (TList (ts @ [TMap (fill (part_fields L dp) [])]))"
  unfolding doc_push_part_def
  by (rule does_push_map [OF assms(1)]) (use does_write_part [OF assms(1)] assms(2) in simp)

lemma does_push_parts:
  assumes "loro_ok L" "part_codec_ok L C" "list_all bytes_ok ps"
  shows "\<exists>us. does L p (TList ts) (run_acts (map (doc_push_part L C p) ps)) () (TList (ts @ us)) \<and>
    list_all2 (part_rep L C) ps us"
  using assms(3)
proof (induction ps arbitrary: ts)
  case Nil
  show ?case by (auto intro: does_return)
next
  case (Cons part ps)
  from to_doc_part_back [OF assms(2), of part] Cons.prems obtain dp where dp: "to_doc_part C part = Inr dp" by auto
  let ?t = "TMap (fill (part_fields L dp) [])"
  from Cons.IH [of "ts @ [?t]"] Cons.prems obtain us where
    us: "does L p (TList (ts @ [?t])) (run_acts (map (doc_push_part L C p) ps)) () (TList ((ts @ [?t]) @ us))"
      "list_all2 (part_rep L C) ps us" by auto
  from does_bind [OF does_push_part [OF assms(1) dp, of p ts], of "\<lambda>_. run_acts (map (doc_push_part L C p) ps)", OF us(1)]
  have "does L p (TList ts) (run_acts (map (doc_push_part L C p) (part # ps))) () (TList (ts @ ?t # us))" by simp
  with us(2) part_rep_written [OF dp] show ?case by (intro exI [of _ "?t # us"]) simp
qed

definition entry_lookup :: "session_message_entry \<Rightarrow> string \<Rightarrow> ltree option" where
  "entry_lookup e =
     [''id'' \<mapsto> TVal (JStr (me_id e)), ''role'' \<mapsto> TVal (JStr (role_str (me_role e))),
      ''createdAt'' \<mapsto> TVal (JInt (me_created_at e)), ''deviceId'' \<mapsto> TVal (JStr (me_device_id e))] ++
     opt_map ''status'' (\<lambda>s. TVal (JStr (status_str s))) (me_status e) ++
     opt_map ''continuationOf'' (\<lambda>s. TVal (JStr s)) (me_continuation_of e)"

definition entry_rep :: "'d loro_ops \<Rightarrow> part_codec \<Rightarrow> session_message_entry \<Rightarrow> ltree \<Rightarrow> bool" where
  "entry_rep L C e t \<longleftrightarrow>
     (\<exists>m ts. t = TMap m \<and> map_of m = (entry_lookup e)(''parts'' \<mapsto> TList ts) \<and>
        list_all2 (part_rep L C) (me_parts e) ts)"

definition entry_fields :: "session_message_entry \<Rightarrow> (string \<times> field) list" where
  "entry_fields e =
     [(''id'', FVal (JStr (me_id e))), (''role'', FVal (JStr (role_str (me_role e)))),
      (''createdAt'', FVal (JInt (me_created_at e))), (''deviceId'', FVal (JStr (me_device_id e)))] @
     field_opt (\<lambda>s. (''status'', FVal (JStr (status_str s)))) (me_status e) @
     field_opt (\<lambda>s. (''continuationOf'', FVal (JStr s))) (me_continuation_of e)"

lemma write_entry_fields: "write_entry_scalar_fields L p e = run_acts (map (put_field L p) (entry_fields e))"
  unfolding write_entry_scalar_fields_def entry_fields_def map_append
  by (intro arg_cong [where f = run_acts] arg_cong2 [where f = "(@)"] opt_act_field) (simp_all add: act_fields)

lemma entry_fields_map: "fields_map (entry_fields e) = entry_lookup e"
  unfolding entry_fields_def entry_lookup_def fields_map_append map_add_assoc
  by (intro arg_cong2 [where f = "(++)"]) (auto simp: fields_map_opt, auto simp: fields_map_def fun_eq_iff)

lemma does_write_entry:
  "loro_ok L \<Longrightarrow> does L p (TMap []) (write_entry_scalar_fields L p e) () (TMap (fill (entry_fields e) []))"
  unfolding write_entry_fields by (rule does_fill)

lemma entry_no_parts: "map_of (fill (entry_fields e) []) ''parts'' = None"
  by (simp add: fields_map_fill entry_fields_map entry_lookup_def opt_map_add)

lemma does_push_message:
  assumes "loro_ok L" "part_codec_ok L C" "list_all bytes_ok (me_parts e)"
  shows "\<exists>t. does L [Key ''messages''] (TList ts) (push_message L C e) () (TList (ts @ [t])) \<and> entry_rep L C e t"
proof -
  let ?p = "[Key ''messages'', Idx (length ts)]" and ?m = "fill (entry_fields e) []"
  obtain us where us: "does L (?p @ [Key ''parts'']) (TList [])
      (run_acts (map (doc_push_part L C (?p @ [Key ''parts''])) (me_parts e))) () (TList us)"
    "list_all2 (part_rep L C) (me_parts e) us"
    using does_push_parts [OF assms, of "?p @ [Key ''parts'']" "[]"] by auto
  let ?m1 = "AList.update ''parts'' (TList []) ?m"
  have parts: "does L ?p (TMap ?m1) (run_acts (map (doc_push_part L C (?p @ [Key ''parts''])) (me_parts e))) ()
      (TMap (AList.update ''parts'' (TList us) ?m))"
    using does_at_key [OF us(1), of ?m1] by (simp add: update_conv' update_update)
  have body: "does L ?p (TMap []) (act_bind (write_entry_scalar_fields L ?p e) (\<lambda>_.
      act_bind (act_of (ld_insert_container L ?p ''parts'' (TList []))) (\<lambda>_.
        act_bind (run_acts (map (doc_push_part L C (?p @ [Key ''parts''])) (me_parts e))) (\<lambda>_. act_commit L)))) ()
      (TMap (AList.update ''parts'' (TList us) ?m))"
    by (rule does_bind [OF does_write_entry [OF assms(1)]], rule does_bind [OF does_insert_container [OF assms(1)]],
        rule does_bind [OF parts], rule does_commit [OF assms(1)])
  have "does L [Key ''messages''] (TList ts) (push_message L C e) ()
      (TList (ts @ [TMap (AList.update ''parts'' (TList us) ?m)]))"
    unfolding push_message_def by (rule does_push_map [OF assms(1)]) (use body in simp)
  moreover have "entry_rep L C e (TMap (AList.update ''parts'' (TList us) ?m))"
    using us(2) by (auto simp: entry_rep_def update_conv' fields_map_fill entry_fields_map)
  ultimately show ?thesis by blast
qed

text \<open>Reading an entry back.\<close>

lemma entry_rep_read:
  assumes "part_codec_ok L C" "entry_ok e" "entry_rep L C e t"
  shows "entry_from_json C H (to_json t) = Some (norm_entry e)"
proof -
  from assms(3) obtain m ts where t: "t = TMap m" "map_of m = (entry_lookup e)(''parts'' \<mapsto> TList ts)"
    "list_all2 (part_rep L C) (me_parts e) ts" unfolding entry_rep_def by blast
  have l: "map_of m ''id'' = Some (TVal (JStr (me_id e)))"
    "map_of m ''role'' = Some (TVal (JStr (role_str (me_role e))))"
    "map_of m ''createdAt'' = Some (TVal (JInt (me_created_at e)))"
    "map_of m ''deviceId'' = Some (TVal (JStr (me_device_id e)))"
    "map_of m ''status'' = map_option (\<lambda>s. TVal (JStr (status_str s))) (me_status e)"
    "map_of m ''continuationOf'' = map_option (\<lambda>s. TVal (JStr s)) (me_continuation_of e)"
    "map_of m ''parts'' = Some (TList ts)"
    unfolding t(2) by (simp_all add: entry_lookup_def opt_map_add)
  have "list_all bytes_ok (me_parts e)" using assms(2) by (simp add: entry_ok_def)
  from read_parts_back [OF assms(1) this t(3)] obtain dps where
    d: "read_parts (to_json (TList ts)) = Some dps" "map (from_doc_part C) dps = map norm_part (me_parts e)" by blast
  have p: "default_field [] read_parts (json_fields m) ''parts'' = Some dps"
    using d(1) by (simp add: default_field_def json_field l(7))
  have s: "opt_field status_of (json_fields m) ''status'' = Some (me_status e)"
    by (subst opt_field_read [OF l(5), of _ "\<lambda>x. x"]) (simp_all add: option.map_ident)
  have c: "opt_field as_str (json_fields m) ''continuationOf'' = Some (me_continuation_of e)"
    by (subst opt_field_read [OF l(6), of _ "\<lambda>x. x"]) (simp_all add: option.map_ident as_str_def)
  have "raw_entry C (json_fields m) = Some (norm_entry e)"
    unfolding raw_entry_def p s c req_field_read [OF l(1)] req_field_read [OF l(2)] req_field_read [OF l(3)]
      req_field_read [OF l(4)]
    using assms(2) d(2) by (simp add: as_str_def as_i64_def entry_ok_def norm_entry_def)
  then show ?thesis by (simp add: entry_from_json_def t(1) json_fields_def as_obj_def)
qed

lemma root_list_upd:
  "tree_at [Key n] (ld_tree L d) = Some t \<Longrightarrow> ld_tree L d' = tree_upd [Key n] (\<lambda>_. TList ts) (ld_tree L d) \<Longrightarrow>
     root_list L n d' = ts"
  unfolding root_list_def by (simp only: tree_at_upd) simp


lemma read_entries_snoc:
  assumes "tree_at [Key ''messages''] (ld_tree L d) = Some (TList ts)"
    "ld_tree L d' = tree_upd [Key ''messages''] (\<lambda>_. TList (ts @ [t])) (ld_tree L d)"
  shows "read_entries L C H d' = read_entries L C H d @
    (case entry_from_json C H (to_json t) of None \<Rightarrow> [] | Some e \<Rightarrow> [e])"
proof -
  have "root_list L ''messages'' d' = ts @ [t]" by (rule root_list_upd [OF assms])
  moreover have "root_list L ''messages'' d = ts" using assms(1) by (simp add: root_list_def)
  ultimately show ?thesis by (simp add: read_entries_def List.map_filter_def split: option.splits)
qed

lemma read_commands_other:
  "ld_tree L d' = tree_upd [Key ''messages''] f (ld_tree L d) \<Longrightarrow> read_commands L C d' = read_commands L C d"
  using tree_at_other [of "''messages''" "''commands''" "[]" "[]"]
  by (simp add: read_commands_def root_list_def)

lemma push_message_reads:
  assumes "loro_ok L" "part_codec_ok L C" "entry_ok e"
    "tree_at [Key ''messages''] (ld_tree L d) = Some (TList ts)"
  shows "\<exists>d'. push_message L C e d = (Inr (), d') \<and>
    read_entries L C H d' = read_entries L C H d @ [norm_entry e] \<and> read_commands L C d' = read_commands L C d"
proof -
  from assms(3) have "list_all bytes_ok (me_parts e)" by (simp add: entry_ok_def)
  from does_push_message [OF assms(1,2) this] obtain t where
    t: "does L [Key ''messages''] (TList ts) (push_message L C e) () (TList (ts @ [t]))" "entry_rep L C e t" by blast
  from doesD [OF t(1) assms(4)] obtain d' where d': "push_message L C e d = (Inr (), d')"
    "ld_tree L d' = tree_upd [Key ''messages''] (\<lambda>_. TList (ts @ [t])) (ld_tree L d)" by blast
  with read_entries_snoc [OF assms(4) d'(2), of C H] entry_rep_read [OF assms(2,3) t(2)] read_commands_other [OF d'(2)]
  show ?thesis by simp
qed

text \<open>
C16. A message written to the chat is read back whole: the transcript grows by exactly this entry, an
  input part keyed by its request and an unresolved tool without its error flag, and the command
  ledger stays as it was.
\<close>

theorem push_message_read:
  assumes "loro_ok L" "part_codec_ok L C" "entry_ok e"
    "tree_at [Key ''messages''] (ld_tree L d) = Some (TList ts)"
  shows "\<exists>d'. push_message L C e d = (Inr (), d') \<and>
    read_entries L C H d' = read_entries L C H d @ [norm_entry e] \<and> read_commands L C d' = read_commands L C d"
  using assms by (rule push_message_reads)

end
