(* ===== verification/Doc_Transcript_Delta.thy ===== *)
theory Doc_Transcript_Delta
  imports Doc_Schema
begin

text \<open>
  The transcript frames of \<^verbatim>\<open>crates/doc/src/transcript_delta.rs\<close>: the diff of two transcript states,
  its application by a consumer with the desync tripwires as error values, and the round trip. A
  failed application leaves a state the consumer throws away, so an error carries no state.
\<close>

subsection \<open>Frames\<close>

record transcript_upsert =
  tu_after :: "string option"
  tu_entry :: session_message_entry

record text_append =
  ta_entry :: string
  ta_part :: string
  ta_text :: string
  ta_len :: nat

datatype transcript_frame =
    FReset "session_message_entry list"
  | FDelta "transcript_upsert list" "text_append list" "string list" nat

fun is_empty_delta :: "transcript_frame \<Rightarrow> bool" where
  "is_empty_delta (FDelta ups apps rem _) \<longleftrightarrow> ups = [] \<and> apps = [] \<and> rem = []"
| "is_empty_delta (FReset _) \<longleftrightarrow> False"

subsection \<open>Diff\<close>

definition grow_text :: "string \<Rightarrow> string \<Rightarrow> string \<Rightarrow> string \<Rightarrow> string \<Rightarrow> text_append option \<Rightarrow>
    text_append option" where
  "grow_text eid pid pt nid nt acc =
     (if pid \<noteq> nid \<or> \<not> prefix pt nt \<or> acc \<noteq> None then None
      else Some \<lparr>ta_entry = eid, ta_part = nid, ta_text = drop (length pt) nt, ta_len = length nt\<rparr>)"

text \<open>The loop over the zipped parts; \<^const>\<open>None\<close> is the early return.\<close>

fun append_loop :: "string \<Rightarrow> (message_part \<times> message_part) list \<Rightarrow> text_append option \<Rightarrow>
    text_append option" where
  "append_loop eid [] acc = acc"
| "append_loop eid ((p, n) # r) acc =
     (if p = n then append_loop eid r acc
      else
        case (p, n) of
          (PText pid pt, PText nid nt) \<Rightarrow>
            (case grow_text eid pid pt nid nt acc of
               None \<Rightarrow> None | Some t \<Rightarrow> append_loop eid r (Some t))
        | (PCommentary pid pt, PCommentary nid nt) \<Rightarrow>
            (case grow_text eid pid pt nid nt acc of
               None \<Rightarrow> None | Some t \<Rightarrow> append_loop eid r (Some t))
        | _ \<Rightarrow> None)"

definition try_text_append ::
    "session_message_entry \<Rightarrow> session_message_entry \<Rightarrow> text_append option" where
  "try_text_append prev next =
     (if me_id prev \<noteq> me_id next \<or> me_role prev \<noteq> me_role next \<or>
         me_created_at prev \<noteq> me_created_at next \<or> me_device_id prev \<noteq> me_device_id next \<or>
         me_status prev \<noteq> me_status next \<or> me_continuation_of prev \<noteq> me_continuation_of next \<or>
         length (me_parts prev) \<noteq> length (me_parts next)
      then None
      else append_loop (me_id next) (zip (me_parts prev) (me_parts next)) None)"

text \<open>The map from ids to positions; a later entry with the same id overwrites an earlier one.\<close>

definition prev_by_id ::
    "session_message_entry list \<Rightarrow> string \<Rightarrow> (nat \<times> session_message_entry) option" where
  "prev_by_id prev i = find (\<lambda>(_, e). me_id e = i) (rev (enumerate 0 prev))"

definition before :: "session_message_entry list \<Rightarrow> nat \<Rightarrow> string option" where
  "before xs i = (if i = 0 then None else Some (me_id (xs ! (i - 1))))"

definition diff_step ::
    "session_message_entry list \<Rightarrow> session_message_entry list \<Rightarrow>
     transcript_upsert list \<times> text_append list \<Rightarrow> nat \<times> session_message_entry \<Rightarrow>
     transcript_upsert list \<times> text_append list" where
  "diff_step prev next st ie =
     (let (ups, apps) = st;
          (i, entry) = ie;
          after = before next i;
          upserted = (ups @ [\<lparr>tu_after = after, tu_entry = entry\<rparr>], apps)
      in case prev_by_id prev (me_id entry) of
           Some (prev_ix, prev_entry) \<Rightarrow>
             (let prev_after = before prev prev_ix
              in if prev_entry = entry \<and> prev_after = after then (ups, apps)
                 else if prev_after = after
                   then (case try_text_append prev_entry entry of
                           Some t \<Rightarrow> (ups, apps @ [t]) | None \<Rightarrow> upserted)
                   else upserted)
         | None \<Rightarrow> upserted)"

definition diff_transcript ::
    "session_message_entry list \<Rightarrow> session_message_entry list \<Rightarrow> transcript_frame" where
  "diff_transcript prev next =
     (let next_ids = map me_id next;
          rem = map me_id (filter (\<lambda>e. \<not> List.member next_ids (me_id e)) prev);
          (ups, apps) = foldl (diff_step prev next) ([], []) (enumerate 0 next)
      in if length ups * 2 \<ge> max (length next) 1 \<and> length next > 4 then FReset next
         else FDelta ups apps rem (length next))"

subsection \<open>Application\<close>

datatype transcript_desync =
    MissingAnchor string
  | MissingAppendEntry string
  | MissingAppendPart string
  | AppendLength string string nat nat
  | CountMismatch nat nat

fun apply_upserts :: "session_message_entry list \<Rightarrow> transcript_upsert list \<Rightarrow>
    transcript_desync + session_message_entry list" where
  "apply_upserts cur [] = Inr cur"
| "apply_upserts cur (u # us) =
     (let e = tu_entry u;
          cur = (case position (\<lambda>x. me_id x = me_id e) cur of
                   Some ix \<Rightarrow> take ix cur @ drop (Suc ix) cur | None \<Rightarrow> cur)
      in case tu_after u of
           None \<Rightarrow> apply_upserts (e # cur) us
         | Some anchor \<Rightarrow>
             (case position (\<lambda>x. me_id x = anchor) cur of
                Some ix \<Rightarrow> apply_upserts (take (Suc ix) cur @ e # drop (Suc ix) cur) us
              | None \<Rightarrow> Inl (MissingAnchor anchor)))"

text \<open>The text of the first text or commentary part with this id, after the append.\<close>

fun append_part :: "string \<Rightarrow> string \<Rightarrow> message_part list \<Rightarrow> (message_part list \<times> nat) option" where
  "append_part part s [] = None"
| "append_part part s (PText i x # ps) =
     (if i = part then Some (PText i (x @ s) # ps, length (x @ s))
      else map_option (\<lambda>(qs, n). (PText i x # qs, n)) (append_part part s ps))"
| "append_part part s (PCommentary i x # ps) =
     (if i = part then Some (PCommentary i (x @ s) # ps, length (x @ s))
      else map_option (\<lambda>(qs, n). (PCommentary i x # qs, n)) (append_part part s ps))"
| "append_part part s (p # ps) =
     map_option (\<lambda>(qs, n). (p # qs, n)) (append_part part s ps)"

fun apply_appends :: "session_message_entry list \<Rightarrow> text_append list \<Rightarrow>
    transcript_desync + session_message_entry list" where
  "apply_appends cur [] = Inr cur"
| "apply_appends cur (a # as) =
     (case position (\<lambda>x. me_id x = ta_entry a) cur of
        None \<Rightarrow> Inl (MissingAppendEntry (ta_entry a))
      | Some ix \<Rightarrow>
          (case append_part (ta_part a) (ta_text a) (me_parts (cur ! ix)) of
             None \<Rightarrow> Inl (MissingAppendPart (ta_part a))
           | Some (ps, n) \<Rightarrow>
               if n \<noteq> ta_len a then Inl (AppendLength (ta_entry a) (ta_part a) n (ta_len a))
               else apply_appends (cur[ix := (cur ! ix)\<lparr>me_parts := ps\<rparr>]) as))"

definition apply_transcript_frame :: "session_message_entry list \<Rightarrow> transcript_frame \<Rightarrow>
    transcript_desync + session_message_entry list" where
  "apply_transcript_frame cur frame =
     (case frame of
        FReset entries \<Rightarrow> Inr entries
      | FDelta ups apps rem expected \<Rightarrow>
          (let cur = (if rem \<noteq> [] then filter (\<lambda>e. \<not> List.member rem (me_id e)) cur else cur)
           in case apply_upserts cur ups of
                Inl err \<Rightarrow> Inl err
              | Inr cur \<Rightarrow>
                  (case apply_appends cur apps of
                     Inl err \<Rightarrow> Inl err
                   | Inr cur \<Rightarrow>
                       if length cur \<noteq> expected then Inl (CountMismatch (length cur) expected)
                       else Inr cur)))"

subsection \<open>An append reproduces the changed part\<close>

definition prose_ids :: "message_part list \<Rightarrow> string list" where
  "prose_ids ps =
     concat (map (\<lambda>p. case p of PText i _ \<Rightarrow> [i] | PCommentary i _ \<Rightarrow> [i] | _ \<Rightarrow> []) ps)"

lemma prose_ids_Cons: "prose_ids (p # ps) = prose_ids [p] @ prose_ids ps"
  by (simp add: prose_ids_def)

lemma append_loop_found:
  "append_loop eid zs (Some t) = Some t' \<Longrightarrow> t' = t \<and> (\<forall>(p, n) \<in> set zs. p = n)"
proof (induction zs)
  case (Cons z zs)
  obtain p n where z: "z = (p, n)" by (cases z)
  show ?case
  proof (cases "p = n")
    case False
    with Cons.prems z show ?thesis
      by (cases p; cases n) (auto simp: grow_text_def)
  qed (use Cons z in auto)
qed simp

lemma append_part_skip:
  "prose_ids [p] \<noteq> [i] \<Longrightarrow>
     append_part i s (p # ps) = map_option (\<lambda>(qs, n). (p # qs, n)) (append_part i s ps)"
  by (cases p) (auto simp: prose_ids_def)

lemma append_loop_sound:
  assumes "length ps = length ns" "distinct (prose_ids ns)"
    "append_loop eid (zip ps ns) None = Some t"
  shows "ta_entry t = eid \<and> ta_part t \<in> set (prose_ids ns) \<and>
    append_part (ta_part t) (ta_text t) ps = Some (ns, ta_len t)"
  using assms
proof (induction ps ns rule: list_induct2)
  case (Cons p ps n ns)
  show ?case
  proof (cases "p = n")
    case True
    from Cons.prems True have t: "ta_entry t = eid" "ta_part t \<in> set (prose_ids ns)"
      "append_part (ta_part t) (ta_text t) ps = Some (ns, ta_len t)"
      using Cons.IH prose_ids_Cons [of n ns] by auto
    with Cons.prems(1) have "prose_ids [n] \<noteq> [ta_part t]"
      using prose_ids_Cons [of n ns] by auto
    with t True show ?thesis
      using prose_ids_Cons [of n ns] by (simp add: append_part_skip)
  next
    case False
    have eq: "ps = ns" if "append_loop eid (zip ps ns) (Some u) = Some t" for u
      using append_loop_found [OF that] Cons.hyps
      by (auto simp: list_eq_iff_zip_eq)
    from Cons.prems(2) False obtain i x y where
      pn: "(p = PText i x \<and> n = PText i y) \<or> (p = PCommentary i x \<and> n = PCommentary i y)"
        "prefix x y" and rest: "append_loop eid (zip ps ns) (Some \<lparr>ta_entry = eid, ta_part = i,
          ta_text = drop (length x) y, ta_len = length y\<rparr>) = Some t"
      by (cases p; cases n) (auto simp: grow_text_def split: if_splits)
    from append_loop_found [OF rest] have t: "t = \<lparr>ta_entry = eid, ta_part = i,
      ta_text = drop (length x) y, ta_len = length y\<rparr>" by simp
    with pn eq [OF rest] show ?thesis
      by (auto simp: prose_ids_def elim!: prefixE)
  qed
qed simp

lemma try_text_append_sound:
  assumes "try_text_append prev next = Some t" "distinct (prose_ids (me_parts next))"
  shows "me_id prev = me_id next \<and> ta_entry t = me_id next \<and>
    (\<exists>n. append_part (ta_part t) (ta_text t) (me_parts prev) = Some (me_parts next, n) \<and>
         n = ta_len t) \<and> prev\<lparr>me_parts := me_parts next\<rparr> = next"
  using assms append_loop_sound [of "me_parts prev" "me_parts next" "me_id next" t]
  by (auto simp: try_text_append_def split: if_splits)

subsection \<open>The diff, entry by entry\<close>

datatype diff_act = Keep | Grow text_append | Put

definition diff_act :: "session_message_entry list \<Rightarrow> session_message_entry list \<Rightarrow>
    nat \<times> session_message_entry \<Rightarrow> diff_act" where
  "diff_act prev next ie =
     (case prev_by_id prev (me_id (snd ie)) of
        None \<Rightarrow> Put
      | Some (k, e) \<Rightarrow>
          if before prev k \<noteq> before next (fst ie) then Put
          else if e = snd ie then Keep
          else (case try_text_append e (snd ie) of Some t \<Rightarrow> Grow t | None \<Rightarrow> Put))"

definition ups_of :: "session_message_entry list \<Rightarrow> session_message_entry list \<Rightarrow>
    nat \<times> session_message_entry \<Rightarrow> transcript_upsert list" where
  "ups_of prev next ie =
     (case diff_act prev next ie of
        Put \<Rightarrow> [\<lparr>tu_after = before next (fst ie), tu_entry = snd ie\<rparr>] | _ \<Rightarrow> [])"

definition apps_of :: "session_message_entry list \<Rightarrow> session_message_entry list \<Rightarrow>
    nat \<times> session_message_entry \<Rightarrow> text_append list" where
  "apps_of prev next ie = (case diff_act prev next ie of Grow t \<Rightarrow> [t] | _ \<Rightarrow> [])"

lemma diff_step_act:
  "diff_step prev next st ie = (fst st @ ups_of prev next ie, snd st @ apps_of prev next ie)"
  by (cases ie; cases st)
    (simp add: diff_step_def diff_act_def ups_of_def apps_of_def Let_def split: option.split)

lemma foldl_diff_step:
  "foldl (diff_step prev next) st ies =
     (fst st @ concat (map (ups_of prev next) ies), snd st @ concat (map (apps_of prev next) ies))"
  by (induction ies arbitrary: st) (simp_all add: diff_step_act)

text \<open>The entry of the previous state with an id, for distinct ids.\<close>

abbreviation ids :: "session_message_entry list \<Rightarrow> string list" where
  "ids xs \<equiv> map me_id xs"

lemma prev_by_id_None: "prev_by_id prev i = None \<longleftrightarrow> i \<notin> set (ids prev)"
proof -
  have "prev_by_id prev i = None \<longleftrightarrow> (\<forall>x \<in> snd ` set (enumerate 0 prev). me_id x \<noteq> i)"
    by (force simp: prev_by_id_def find_None_iff)
  also have "snd ` set (enumerate 0 prev) = set prev"
    by (metis list.set_map map_snd_enumerate)
  finally show ?thesis by auto
qed

lemma prev_by_id_Some:
  assumes "prev_by_id prev i = Some (k, e)"
  shows "k < length prev \<and> prev ! k = e \<and> me_id e = i"
proof -
  from assms have "(k, e) \<in> set (enumerate 0 prev)" "me_id e = i"
    by (auto simp: prev_by_id_def dest: find_SomeD)
  then show ?thesis by (auto simp: in_set_enumerate_eq)
qed

definition prev_of :: "session_message_entry list \<Rightarrow> session_message_entry \<Rightarrow>
    session_message_entry" where
  "prev_of prev e = (case prev_by_id prev (me_id e) of Some (k, p) \<Rightarrow> p | None \<Rightarrow> e)"

lemma me_id_prev_of [simp]: "me_id (prev_of prev e) = me_id e"
  by (auto simp: prev_of_def split: option.split dest: prev_by_id_Some)

lemma prev_of_mem:
  assumes "distinct (ids prev)" "p \<in> set prev" "me_id p = me_id e"
  shows "prev_of prev e = p"
proof -
  from assms(2,3) have "me_id e \<in> set (ids prev)" by (metis image_eqI list.set_map)
  then obtain k q where kq: "prev_by_id prev (me_id e) = Some (k, q)"
    using prev_by_id_None [of prev "me_id e"] by fastforce
  from prev_by_id_Some [OF this] have "q \<in> set prev" "me_id q = me_id p"
    using assms(3) by auto
  with assms(1,2) have "q = p" by (metis distinct_map inj_on_eq_iff)
  with kq show ?thesis by (simp add: prev_of_def)
qed

text \<open>What a consumer holds for an entry between the upserts and the appends.\<close>

definition mid :: "session_message_entry list \<Rightarrow> session_message_entry list \<Rightarrow>
    nat \<times> session_message_entry \<Rightarrow> session_message_entry" where
  "mid prev next ie = (if diff_act prev next ie = Put then snd ie else prev_of prev (snd ie))"

lemma me_id_mid [simp]: "me_id (mid prev next ie) = me_id (snd ie)"
  by (simp add: mid_def)

lemma ids_mid [simp]: "ids (map (mid prev next) (enumerate n xs)) = ids xs"
proof -
  have "ids (map (mid prev next) ies) = map me_id (map snd ies)" for ies by (induction ies) simp_all
  from this [of "enumerate n xs"] show ?thesis by (simp del: map_map)
qed

lemma position_id:
  "i \<notin> set (ids xs) \<Longrightarrow> me_id e = i \<Longrightarrow>
     position (\<lambda>x. me_id x = i) (xs @ e # ys) = Some (length xs)"
  by (rule position_app) (auto simp: image_iff)

lemma position_id_None:
  "i \<notin> set (ids xs) \<Longrightarrow> position (\<lambda>x. me_id x = i) xs = None"
  by (auto simp: position_None)

text \<open>Applying one upsert after the settled entries \<open>m\<close> puts its entry right behind them.\<close>

lemma apply_upsert_put:
  assumes "distinct (ids (m @ r))" "me_id e \<notin> set (ids m)"
    "tu_entry u = e" "tu_after u = (if m = [] then None else Some (me_id (last m)))"
    "r = (if me_id e \<in> set (ids r) then p # r' else r')" "me_id p = me_id e"
    "me_id e \<notin> set (ids r')"
  shows "apply_upserts (m @ r) (u # us) = apply_upserts (m @ e # r') us"
proof -
  let ?cur = "case position (\<lambda>x. me_id x = me_id e) (m @ r) of
      Some ix \<Rightarrow> take ix (m @ r) @ drop (Suc ix) (m @ r) | None \<Rightarrow> m @ r"
  have cur: "?cur = m @ r'"
  proof (cases "me_id e \<in> set (ids r)")
    case True
    then have r: "r = p # r'" using assms(5) by (simp split: if_splits)
    have "position (\<lambda>x. me_id x = me_id e) (m @ r) = Some (length m)"
      unfolding r by (rule position_id) (use assms(2,6) in auto)
    then show ?thesis by (simp add: r)
  next
    case False
    then have "position (\<lambda>x. me_id x = me_id e) (m @ r) = None"
      using assms(2) by (intro position_id_None) simp
    then show ?thesis using False assms(5) by simp
  qed
  have step: "apply_upserts (m @ r) (u # us) =
      (case tu_after u of
         None \<Rightarrow> apply_upserts (e # m @ r') us
       | Some anchor \<Rightarrow>
           (case position (\<lambda>x. me_id x = anchor) (m @ r') of
              Some ix \<Rightarrow> apply_upserts (take (Suc ix) (m @ r') @ e # drop (Suc ix) (m @ r')) us
            | None \<Rightarrow> Inl (MissingAnchor anchor)))"
    unfolding apply_upserts.simps Let_def assms(3) cur ..
  show ?thesis
  proof (cases m rule: rev_cases)
    case Nil
    then show ?thesis using step assms(4) by simp
  next
    case (snoc m' a)
    have "position (\<lambda>x. me_id x = me_id a) (m' @ a # r') = Some (length m')"
      using assms(1) snoc by (intro position_id) auto
    then show ?thesis using step snoc assms(4) by simp
  qed
qed

lemma before_app: "before (dn @ es) (length dn) =
    (if dn = [] then None else Some (me_id (last dn)))"
  by (cases dn rule: rev_cases) (simp_all add: before_def nth_append)

lemma ids_survivors:
  "ids (map (prev_of prev) (filter (\<lambda>e. me_id e \<in> K) xs)) = filter (\<lambda>i. i \<in> K) (ids xs)"
  by (induction xs) simp_all

text \<open>The upserts turn the surviving old entries into the new order, appends still missing.\<close>

lemma apply_upserts_diff:
  assumes "distinct (ids (dn @ todo))" "ids m = ids dn"
  shows "apply_upserts
      (m @ map (prev_of prev) (filter (\<lambda>e. me_id e \<in> set (ids prev)) todo))
      (concat (map (ups_of prev (dn @ todo)) (enumerate (length dn) todo))) =
    Inr (m @ map (mid prev (dn @ todo)) (enumerate (length dn) todo))"
  using assms
proof (induction todo arbitrary: dn m)
  case (Cons e todo)
  let ?next = "dn @ e # todo"
  let ?ie = "(length dn, e)"
  let ?r = "\<lambda>xs. map (prev_of prev) (filter (\<lambda>e. me_id e \<in> set (ids prev)) xs)"
  have ids_r: "set (ids (?r xs)) \<subseteq> set (ids xs)" for xs by auto
  have e_new: "me_id e \<notin> set (ids m)" "me_id e \<notin> set (ids (?r todo))"
    using Cons.prems ids_r [of todo] by auto
  have IH: "apply_upserts ((m @ [mid prev ?next ?ie]) @ ?r todo)
      (concat (map (ups_of prev ?next) (enumerate (Suc (length dn)) todo))) =
    Inr ((m @ [mid prev ?next ?ie]) @ map (mid prev ?next) (enumerate (Suc (length dn)) todo))"
    using Cons.IH [of "dn @ [e]" "m @ [mid prev ?next ?ie]"] Cons.prems by simp
  show ?case
  proof (cases "diff_act prev ?next ?ie = Put")
    case True
    have dist: "distinct (ids (m @ ?r (e # todo)))"
      using Cons.prems(1) filter_is_subset [of "\<lambda>i. i \<in> set (ids prev)" "ids (e # todo)"]
      unfolding map_append ids_survivors Cons.prems(2) distinct_append
      by (blast intro: distinct_filter)
    have m_last: "(if m = [] then None else Some (me_id (last m))) = before ?next (length dn)"
      using Cons.prems(2) unfolding before_app
      by (metis last_map map_is_Nil_conv)
    have eq: "apply_upserts (m @ ?r (e # todo))
        (\<lparr>tu_after = before ?next (length dn), tu_entry = e\<rparr> #
          concat (map (ups_of prev ?next) (enumerate (Suc (length dn)) todo))) =
      apply_upserts (m @ e # ?r todo)
          (concat (map (ups_of prev ?next) (enumerate (Suc (length dn)) todo)))"
      by (rule apply_upsert_put [where p = "prev_of prev e", OF dist e_new(1)])
        (use e_new(2) m_last in \<open>auto\<close>)
    have ups: "ups_of prev ?next ?ie = [\<lparr>tu_after = before ?next (length dn), tu_entry = e\<rparr>]"
      and mid: "mid prev ?next ?ie = e" using True by (simp_all add: ups_of_def mid_def)
    show ?thesis
      using eq IH unfolding enumerate_simps list.map concat.simps ups mid by simp
  next
    case False
    then have "me_id e \<in> set (ids prev)"
      using prev_by_id_None [of prev "me_id e"]
      by (auto simp: diff_act_def split: option.splits)
    moreover have "ups_of prev ?next ?ie = []" and "mid prev ?next ?ie = prev_of prev e"
      using False by (simp_all add: ups_of_def mid_def split: diff_act.split)
    ultimately show ?thesis using IH by simp
  qed
qed simp

text \<open>An append rewrites one settled entry.\<close>

lemma apply_append_put:
  assumes "me_id e \<notin> set (ids xs)" "ta_entry a = me_id e"
    "append_part (ta_part a) (ta_text a) (me_parts e) = Some (ps, ta_len a)"
  shows "apply_appends (xs @ e # ys) (a # as) = apply_appends (xs @ e\<lparr>me_parts := ps\<rparr> # ys) as"
  using position_id [OF assms(1) refl, of ys] assms(2,3) by simp

lemma diff_act_Grow:
  assumes "diff_act prev next (n, e) = Grow t" "distinct (prose_ids (me_parts e))"
  shows "ta_entry t = me_id e"
    "append_part (ta_part t) (ta_text t) (me_parts (prev_of prev e)) = Some (me_parts e, ta_len t)"
    "(prev_of prev e)\<lparr>me_parts := me_parts e\<rparr> = e"
  using assms
  by (auto simp: diff_act_def prev_of_def split: option.splits if_splits
      dest: try_text_append_sound [OF _ assms(2)])

lemma apply_appends_diff:
  assumes "distinct (ids (dn @ todo))" "\<forall>e \<in> set todo. distinct (prose_ids (me_parts e))"
  shows "apply_appends (dn @ map (mid prev next) (enumerate n todo))
      (concat (map (apps_of prev next) (enumerate n todo))) = Inr (dn @ todo)"
  using assms
proof (induction todo arbitrary: dn n)
  case (Cons e todo)
  have IH: "apply_appends (dn @ e # map (mid prev next) (enumerate (Suc n) todo))
      (concat (map (apps_of prev next) (enumerate (Suc n) todo))) = Inr (dn @ e # todo)"
    using Cons.IH [of "dn @ [e]"] Cons.prems by simp
  show ?case
  proof (cases "diff_act prev next (n, e)")
    case Keep
    then have "mid prev next (n, e) = e"
      by (auto simp: mid_def diff_act_def prev_of_def split: option.splits if_splits)
    moreover have "apps_of prev next (n, e) = []" using Keep by (simp add: apps_of_def)
    ultimately show ?thesis using IH by simp
  next
    case (Grow t)
    have "distinct (prose_ids (me_parts e))" using Cons.prems(2) by simp
    note g = diff_act_Grow [OF Grow this]
    have m: "mid prev next (n, e) = prev_of prev e" using Grow by (simp add: mid_def)
    have "apply_appends (dn @ prev_of prev e # map (mid prev next) (enumerate (Suc n) todo))
        (t # concat (map (apps_of prev next) (enumerate (Suc n) todo))) =
      apply_appends (dn @ (prev_of prev e)\<lparr>me_parts := me_parts e\<rparr> #
          map (mid prev next) (enumerate (Suc n) todo))
        (concat (map (apps_of prev next) (enumerate (Suc n) todo)))"
      by (rule apply_append_put) (use Cons.prems(1) g in auto)
    moreover have "apps_of prev next (n, e) = [t]" using Grow by (simp add: apps_of_def)
    ultimately show ?thesis using m g(3) IH by simp
  next
    case Put
    then have "apps_of prev next (n, e) = []" "mid prev next (n, e) = e"
      by (simp_all add: apps_of_def mid_def)
    with IH show ?thesis by simp
  qed
qed simp

text \<open>Two transcripts are compatible when what survives keeps its order.\<close>

definition same_order :: "session_message_entry list \<Rightarrow> session_message_entry list \<Rightarrow> bool" where
  "same_order prev next \<longleftrightarrow>
     filter (\<lambda>i. List.member (ids next) i) (ids prev) =
     filter (\<lambda>i. List.member (ids prev) i) (ids next)"

definition well_keyed :: "session_message_entry list \<Rightarrow> bool" where
  "well_keyed xs \<longleftrightarrow> distinct (ids xs) \<and> list_all (\<lambda>e. distinct (prose_ids (me_parts e))) xs"

lemma survivors_eq:
  assumes "distinct (ids prev)" "same_order prev next"
  shows "filter (\<lambda>e. me_id e \<in> set (ids next)) prev =
    map (prev_of prev) (filter (\<lambda>e. me_id e \<in> set (ids prev)) next)"
    (is "?l = ?r")
proof -
  have ids: "ids ?l = ids ?r"
    using assms(2) unfolding ids_survivors same_order_def
    by (simp add: filter_map o_def)
  show ?thesis
  proof (rule nth_equalityI)
    show len: "length ?l = length ?r" using ids by (metis length_map)
    fix i assume i: "i < length ?l"
    let ?e = "filter (\<lambda>e. me_id e \<in> set (ids prev)) next ! i"
    have "me_id (?l ! i) = me_id ?e"
      using arg_cong [OF ids, of "\<lambda>xs. xs ! i"] i len by (simp del: map_map)
    moreover have "?l ! i \<in> set prev" using nth_mem [OF i] by auto
    ultimately have "prev_of prev ?e = ?l ! i"
      using prev_of_mem [OF assms(1)] by blast
    then show "?l ! i = ?r ! i" using i len by simp
  qed
qed

lemma apply_delta:
  assumes "(if rem \<noteq> [] then filter (\<lambda>e. \<not> List.member rem (me_id e)) cur else cur) = kept"
    "apply_upserts kept ups = Inr m" "apply_appends m apps = Inr r" "length r = n"
  shows "apply_transcript_frame cur (FDelta ups apps rem n) = Inr r"
  unfolding apply_transcript_frame_def transcript_frame.case Let_def assms(1)
  by (simp add: assms(2-4))

text \<open>
  C11. A consumer that holds the previous transcript and applies the frame computed for the next one
  holds exactly the next one, without tripping a desync, whenever the ids are distinct and the
  entries present in both keep their relative order: insertions anywhere, removals, replacements,
  streamed text and the reset fallback included.
\<close>

theorem apply_diff_transcript:
  assumes "distinct (ids prev)" "well_keyed next" "same_order prev next"
  shows "apply_transcript_frame prev (diff_transcript prev next) = Inr next"
proof -
  let ?ups = "concat (map (ups_of prev next) (enumerate 0 next))"
  let ?apps = "concat (map (apps_of prev next) (enumerate 0 next))"
  let ?rem = "map me_id (filter (\<lambda>e. \<not> List.member (ids next) (me_id e)) prev)"
  have frame: "diff_transcript prev next = FReset next \<or>
      diff_transcript prev next = FDelta ?ups ?apps ?rem (length next)"
    by (auto simp: diff_transcript_def foldl_diff_step Let_def)
  have wk: "distinct (ids next)" "\<forall>e \<in> set next. distinct (prose_ids (me_parts e))"
    using assms(2) by (simp_all add: well_keyed_def list_all_iff)
  have kept: "(if ?rem \<noteq> [] then filter (\<lambda>e. \<not> List.member ?rem (me_id e)) prev else prev) =
      filter (\<lambda>e. me_id e \<in> set (ids next)) prev"
  proof -
    have "(if ?rem \<noteq> [] then filter (\<lambda>e. \<not> List.member ?rem (me_id e)) prev else prev) =
        filter (\<lambda>e. \<not> List.member ?rem (me_id e)) prev" by (cases "?rem") simp_all
    also have "\<dots> = filter (\<lambda>e. me_id e \<in> set (ids next)) prev"
    proof (rule filter_cong [OF refl])
      fix e assume "e \<in> set prev"
      then show "\<not> List.member ?rem (me_id e) \<longleftrightarrow> me_id e \<in> set (ids next)"
        unfolding List.member_iff by (simp add: image_iff) metis
    qed
    finally show ?thesis .
  qed
  have ups: "apply_upserts (filter (\<lambda>e. me_id e \<in> set (ids next)) prev) ?ups =
      Inr (map (mid prev next) (enumerate 0 next))"
    using apply_upserts_diff [of "[]" "next" "[]" prev] wk(1)
    unfolding survivors_eq [OF assms(1,3)] by simp
  have apps: "apply_appends (map (mid prev next) (enumerate 0 next)) ?apps = Inr next"
    using apply_appends_diff [of "[]" "next" prev "next" 0] wk by simp
  from frame show ?thesis
  proof
    assume "diff_transcript prev next = FDelta ?ups ?apps ?rem (length next)"
    then show ?thesis
      using apply_delta [OF kept ups apps refl] by simp
  qed (simp add: apply_transcript_frame_def)
qed

definition demo_entry :: "string \<Rightarrow> string \<Rightarrow> session_message_entry" where
  "demo_entry i s = \<lparr>me_id = i, me_role = MrAssistant, me_parts = [PText ''t0'' s],
     me_created_at = 0, me_device_id = ''d'', me_status = None, me_continuation_of = None\<rparr>"

definition demo_prev :: "session_message_entry list" where
  "demo_prev = [demo_entry ''a'' ''x'', demo_entry ''b'' ''x'', demo_entry ''c'' ''x'',
     demo_entry ''d'' ''x'']"

definition demo_next :: "session_message_entry list" where
  "demo_next = [demo_entry ''a'' ''x'', demo_entry ''n'' ''new'', demo_entry ''c'' ''x'',
     demo_entry ''d'' ''xy'']"

lemma apply_diff_transcript_witness:
  "distinct (ids demo_prev) \<and> well_keyed demo_next \<and> same_order demo_prev demo_next \<and>
   apply_transcript_frame demo_prev (diff_transcript demo_prev demo_next) = Inr demo_next"
proof -
  have "distinct (ids demo_prev)" "well_keyed demo_next" "same_order demo_prev demo_next"
    by code_simp+
  then show ?thesis using apply_diff_transcript by blast
qed

text \<open>
  When surviving entries change their relative order, the frame can be applied without any
  desync and still leave the consumer with another transcript: moving a block of two entries to
  the front gives a frame whose anchors are all present and whose count matches, but the second
  entry of the block, unchanged after the first, is never moved.
\<close>

theorem diff_transcript_block_move:
  "\<exists>prev next wrong. well_keyed prev \<and> well_keyed next \<and>
     apply_transcript_frame prev (diff_transcript prev next) = Inr wrong \<and> wrong \<noteq> next"
proof -
  let ?e = "\<lambda>i. demo_entry i ''x''"
  let ?next = "[?e ''c'', ?e ''d'', ?e ''a'', ?e ''b'']"
  have "well_keyed demo_prev" "well_keyed ?next"
    "apply_transcript_frame demo_prev (diff_transcript demo_prev ?next) =
       Inr [?e ''c'', ?e ''b'', ?e ''d'', ?e ''a'']"
    by code_simp+
  moreover have "[?e ''c'', ?e ''b'', ?e ''d'', ?e ''a''] \<noteq> ?next"
    by code_simp
  ultimately show ?thesis by blast
qed

end
