(* ===== verification/Proto_View.thy ===== *)
theory Proto_View
  imports Proto_Types "HOL-Library.Multiset" "HOL-Library.Product_Lexorder"
begin

text \<open>
  The pure view rules of \<^verbatim>\<open>crates/proto/src/view.rs\<close>: status with staleness, sort orders, the boot
  gate, sidebar grouping, relative times, tool summaries and the checkout plan, and
  \<^verbatim>\<open>Space::display_name\<close>. \<^verbatim>\<open>sort_by\<close> is a stable insertion sort over the source's comparator;
  \<^verbatim>\<open>Path::file_name\<close> follows the Unix rules.
\<close>

subsection \<open>Connection and status\<close>

datatype connection_status = CnConnecting | CnReady | CnFailed string

datatype indicator = IndNone | IndWorking | IndAwaitingInput | IndErrored

definition session_stale_ms :: int where
  "session_stale_ms = 45000"

definition effective_indicator :: "session option \<Rightarrow> datetime \<Rightarrow> indicator" where
  "effective_indicator s now =
     (case s of
        None \<Rightarrow> IndNone
      | Some s \<Rightarrow>
          (case se_status s of
             SsIdle \<Rightarrow> IndNone
           | SsErrored \<Rightarrow> IndErrored
           | _ \<Rightarrow>
               (let age_ms = num_milliseconds (now - se_updated_at s)
                in if age_ms > session_stale_ms then IndNone
                   else if se_status s = SsWorking then IndWorking
                   else IndAwaitingInput)))"

definition display_status :: "chat \<Rightarrow> session option \<Rightarrow> datetime \<Rightarrow> chat_indicator_kind" where
  "display_status c s now =
     (let live = (case s of
                    Some s \<Rightarrow> if effective_indicator (Some s) now \<noteq> IndNone then Some s else None
                  | None \<Rightarrow> None)
      in chat_indicator c live)"

fun attention_rank :: "chat_indicator_kind \<Rightarrow> nat" where
  "attention_rank CiAwaitingInput = 0"
| "attention_rank CiErrored = 1"
| "attention_rank CiWorking = 2"
| "attention_rank CiCompleted = 3"
| "attention_rank CiIdle = 4"

subsection \<open>Sort orders\<close>

datatype ordering = Less | Equal | Greater

definition cmp :: "'a::linorder \<Rightarrow> 'a \<Rightarrow> ordering" where
  "cmp a b = (if a < b then Less else if a = b then Equal else Greater)"

definition then_with :: "ordering \<Rightarrow> ordering \<Rightarrow> ordering" where
  "then_with a b = (if a = Equal then b else a)"

fun insert_by :: "('a \<Rightarrow> 'a \<Rightarrow> ordering) \<Rightarrow> 'a \<Rightarrow> 'a list \<Rightarrow> 'a list" where
  "insert_by c x [] = [x]"
| "insert_by c x (y # ys) = (if c x y \<noteq> Greater then x # y # ys else y # insert_by c x ys)"

definition sort_by :: "('a \<Rightarrow> 'a \<Rightarrow> ordering) \<Rightarrow> 'a list \<Rightarrow> 'a list" where
  "sort_by c xs = foldr (insert_by c) xs []"

definition recency :: "chat \<Rightarrow> datetime" where
  "recency c = (case ch_last_message_at c of Some t \<Rightarrow> t | None \<Rightarrow> ch_created_at c)"

definition active_cmp :: "chat_indicator_kind \<times> chat \<Rightarrow> chat_indicator_kind \<times> chat \<Rightarrow> ordering" where
  "active_cmp a b =
     then_with (cmp (recency (snd b)) (recency (snd a))) (cmp (ch_id (snd a)) (ch_id (snd b)))"

definition sort_active :: "(chat_indicator_kind \<times> chat) list \<Rightarrow> (chat_indicator_kind \<times> chat) list" where
  "sort_active rows = sort_by active_cmp rows"

definition tabs_cmp :: "chat \<Rightarrow> chat \<Rightarrow> ordering" where
  "tabs_cmp a b = then_with (cmp (ch_created_at a) (ch_created_at b)) (cmp (ch_id a) (ch_id b))"

definition sort_tabs :: "chat list \<Rightarrow> chat list" where
  "sort_tabs chats = sort_by tabs_cmp chats"

definition spaces_cmp :: "space \<Rightarrow> space \<Rightarrow> ordering" where
  "spaces_cmp a b = then_with (cmp (sp_created_at a) (sp_created_at b)) (cmp (sp_id a) (sp_id b))"

definition sort_spaces :: "space list \<Rightarrow> space list" where
  "sort_spaces spaces = sort_by spaces_cmp spaces"

definition chats_cmp :: "chat \<Rightarrow> chat \<Rightarrow> ordering" where
  "chats_cmp a b =
     then_with (then_with (cmp (recency b) (recency a)) (cmp (ch_created_at b) (ch_created_at a)))
       (cmp (ch_id a) (ch_id b))"

definition sort_chats :: "chat list \<Rightarrow> chat list" where
  "sort_chats chats = sort_by chats_cmp chats"

subsection \<open>Boot gate\<close>

datatype gate_phase_kind = GpLoading | GpFailed string | GpSignIn | GpOrgGate | GpReady

definition gate_phase :: "connection_status \<Rightarrow> workspace_scope option \<Rightarrow> auth_state option \<Rightarrow>
    gate_phase_kind" where
  "gate_phase connection scope auth =
     (case connection of
        CnConnecting \<Rightarrow> GpLoading
      | CnFailed err \<Rightarrow> GpFailed err
      | CnReady \<Rightarrow>
          (case (case scope of Some s \<Rightarrow> s | None \<Rightarrow> ScopeSynced) of
             ScopeSynced \<Rightarrow>
               (case auth of
                  Some (NeedsOrganization _) \<Rightarrow> GpOrgGate
                | Some (SignedIn _ _) \<Rightarrow> GpReady
                | _ \<Rightarrow> GpSignIn)
           | _ \<Rightarrow> GpReady))"

text \<open>The derived deserialiser of \<^verbatim>\<open>AuthState\<close> is the parameter \<open>from_value\<close>.\<close>

definition parse_auth_state :: "(json \<Rightarrow> auth_state option) \<Rightarrow> json \<Rightarrow> auth_state option" where
  "parse_auth_state from_value v =
     (case from_value v of
        Some st \<Rightarrow> Some st
      | None \<Rightarrow>
          (let user = (case json_get v ''user'' of
                         None \<Rightarrow> None
                       | Some u \<Rightarrow>
                           (case (get_str u ''id'', get_str u ''email'') of
                              (Some i, Some e) \<Rightarrow>
                                Some \<lparr>up_id = i, up_email = e, up_name = get_str u ''name''\<rparr>
                            | _ \<Rightarrow> None))
           in case get_str v ''_tag'' of
                None \<Rightarrow> None
              | Some tag \<Rightarrow>
                  if tag = ''SignedOut'' then Some SignedOut
                  else if tag = ''NeedsOrganization'' then map_option NeedsOrganization user
                  else if tag = ''SignedIn'' then map_option (\<lambda>u. SignedIn u (get_str v ''orgId'')) user
                  else None))"

subsection \<open>Sidebar grouping\<close>

definition is_sep :: "char \<Rightarrow> bool" where
  "is_sep c \<longleftrightarrow> c = CHR 0x2F \<or> c = CHR 0x5C"

definition trim_seps :: "string \<Rightarrow> string" where
  "trim_seps s = rev (dropWhile is_sep (rev s))"

text \<open>\<^verbatim>\<open>str::split\<close> on a character.\<close>

function split_on :: "(char \<Rightarrow> bool) \<Rightarrow> string \<Rightarrow> string list" where
  "split_on P s =
     (let r = dropWhile (\<lambda>c. \<not> P c) s
      in takeWhile (\<lambda>c. \<not> P c) s # (if r = [] then [] else split_on P (tl r)))"
  by pat_completeness auto
termination
proof (relation "measure (\<lambda>(P, s). length s)", goal_cases)
  case (2 P s r)
  then have "length r \<le> length s" "r \<noteq> []" by (simp_all add: length_dropWhile_le)
  then show ?case by (cases r) auto
qed simp

declare split_on.simps [simp del]

text \<open>The last normal component of a Unix path.\<close>

definition file_name :: "string \<Rightarrow> string option" where
  "file_name path =
     (let comps = filter (\<lambda>c. c \<noteq> [] \<and> c \<noteq> ''.'') (split_on (\<lambda>c. c = CHR 0x2F) path)
      in if comps = [] \<or> last comps = ''..'' then None else Some (last comps))"

definition project_label :: "string option \<Rightarrow> string" where
  "project_label cwd =
     (case map_option str_trim cwd of
        None \<Rightarrow> ''No project''
      | Some c \<Rightarrow>
          if c = [] then ''No project''
          else (case file_name (trim_seps c) of
                  Some n \<Rightarrow> if n \<noteq> [] then n else c
                | None \<Rightarrow> c))"

record chat_group =
  cg_label :: string
  cg_chats :: "chat list"

text \<open>Push onto the first group with the label; \<^const>\<open>None\<close> when there is none.\<close>

fun push_group :: "string \<Rightarrow> chat \<Rightarrow> chat_group list \<Rightarrow> chat_group list option" where
  "push_group l c [] = None"
| "push_group l c (g # gs) =
     (if cg_label g = l then Some (g\<lparr>cg_chats := cg_chats g @ [c]\<rparr> # gs)
      else map_option ((#) g) (push_group l c gs))"

definition group_step :: "chat_group list \<Rightarrow> chat \<Rightarrow> chat_group list" where
  "group_step groups c =
     (let l = project_label (ch_cwd c)
      in case push_group l c groups of
           Some gs \<Rightarrow> gs
         | None \<Rightarrow> groups @ [\<lparr>cg_label = l, cg_chats = [c]\<rparr>])"

definition group_chats :: "chat list \<Rightarrow> chat_group list" where
  "group_chats chats = foldl group_step [] chats"

definition display_name :: "space \<Rightarrow> string" where
  "display_name s =
     (let derived =
        (let seg = last (split_on is_sep (trim_seps (sp_path s)))
         in if seg \<noteq> [] then seg else sp_path s)
      in case sp_name s of
           Some n \<Rightarrow> if str_trim n \<noteq> [] then n else derived
         | None \<Rightarrow> derived)"

subsection \<open>Relative times\<close>

definition format_time_ago :: "datetime \<Rightarrow> datetime \<Rightarrow> string" where
  "format_time_ago past now =
     (let s = max (num_seconds (now - past)) 0
      in if s < 60 then ''now''
         else
           let m = quot_zero s 60
           in if m < 60 then dec_int m @ ''m''
              else
                let h = quot_zero m 60
                in if h < 24 then dec_int h @ ''h''
                   else
                     let d = quot_zero h 24
                     in if d < 7 then dec_int d @ ''d''
                        else
                          let w = quot_zero d 7
                          in if w < 5 then dec_int w @ ''w''
                             else
                               let mo = quot_zero d 30
                               in if mo < 12 then dec_int mo @ ''mo''
                                  else dec_int (quot_zero d 365) @ ''y'')"

text \<open>\<^verbatim>\<open>" \<cdot> "\<close>, the middle dot in UTF-8.\<close>

definition dot_sep :: string where
  "dot_sep = [CHR 0x20, CHR 0xC2, CHR 0xB7, CHR 0x20]"

definition chat_location :: "chat \<Rightarrow> string option" where
  "chat_location c =
     (let nonblank = (\<lambda>v. case map_option str_trim v of
                            Some t \<Rightarrow> if t \<noteq> [] then Some t else None | None \<Rightarrow> None);
          project = map_option (\<lambda>p. project_label (Some p)) (nonblank (ch_cwd c));
          reference = nonblank (ch_branch c)
      in case (project, reference) of
           (Some p, Some r) \<Rightarrow> Some (p @ dot_sep @ r)
         | (Some p, None) \<Rightarrow> Some p
         | (None, Some r) \<Rightarrow> Some r
         | (None, None) \<Rightarrow> None)"

subsection \<open>Tool summaries\<close>

text \<open>\<^verbatim>\<open>split_whitespace\<close>: \<open>cur\<close> is the word being read.\<close>

function split_ws :: "string \<Rightarrow> string \<Rightarrow> string list" where
  "split_ws cur s =
     (case ws_at_start s of
        Some w \<Rightarrow> (if cur = [] then [] else [cur]) @ split_ws [] (drop (length w) s)
      | None \<Rightarrow>
          (case s of
             [] \<Rightarrow> if cur = [] then [] else [cur]
           | c # cs \<Rightarrow> split_ws (cur @ [c]) cs))"
  by pat_completeness auto
termination
  by (relation "measure (\<lambda>(cur, s). length s)") (auto dest!: ws_at_startD elim: prefixE)

declare split_ws.simps [simp del]

definition single_line :: "string \<Rightarrow> string" where
  "single_line s = str_join '' '' (split_ws [] s)"

definition plural :: "nat \<Rightarrow> string \<Rightarrow> string \<Rightarrow> string" where
  "plural n one many = (if n = 1 then dec n @ '' '' @ one else dec n @ '' '' @ many)"

fun tool_chip_content_raw :: "tool_call \<Rightarrow> string \<times> string" where
  "tool_chip_content_raw (Exec command) = (''Run'', command)"
| "tool_chip_content_raw (ReadFile path) = (''Read'', path)"
| "tool_chip_content_raw (WriteFile path _) = (''Write'', path)"
| "tool_chip_content_raw (EditFile path _ _) = (''Edit'', path)"
| "tool_chip_content_raw (ApplyPatch path) =
     (''Patch'', case path of Some p \<Rightarrow> p | None \<Rightarrow> ''workspace'')"
| "tool_chip_content_raw (Search pattern path) =
     (''Search'', case path of Some p \<Rightarrow> pattern @ '' in '' @ p | None \<Rightarrow> pattern)"
| "tool_chip_content_raw (Glob pattern) = (''Glob'', pattern)"
| "tool_chip_content_raw (WebFetch url _) = (''Fetch'', url)"
| "tool_chip_content_raw (WebSearch query) = (''Web'', query)"
| "tool_chip_content_raw (Todo items) =
     (''Todo'', dec (length (filter ti_done items)) @ ''/'' @ dec (length items) @ '' done'')"
| "tool_chip_content_raw (Mcp server tool _) = (''MCP'', server @ dot_sep @ tool)"
| "tool_chip_content_raw (UnknownTool name _) = (''Tool'', name)"

definition tool_chip_content :: "tool_call \<Rightarrow> string \<times> string" where
  "tool_chip_content call = (let (label, detail) = tool_chip_content_raw call in (label, single_line detail))"

record tool_counts =
  tc_commands :: nat
  tc_edited :: "string list"
  tc_reads :: nat
  tc_searches :: nat
  tc_fetches :: nat
  tc_todos :: nat
  tc_other :: nat
  tc_failed :: nat

definition add_edited :: "string \<Rightarrow> tool_counts \<Rightarrow> tool_counts" where
  "add_edited p t = (if List.member (tc_edited t) p then t else t\<lparr>tc_edited := tc_edited t @ [p]\<rparr>)"

definition count_tool :: "tool_counts \<Rightarrow> tool_call \<times> bool \<Rightarrow> tool_counts" where
  "count_tool t ce =
     (let (call, is_error) = ce;
          t = (if is_error then t\<lparr>tc_failed := tc_failed t + 1\<rparr> else t)
      in case call of
           Exec _ \<Rightarrow> t\<lparr>tc_commands := tc_commands t + 1\<rparr>
         | WriteFile p _ \<Rightarrow> add_edited p t
         | EditFile p _ _ \<Rightarrow> add_edited p t
         | ApplyPatch p \<Rightarrow> add_edited (case p of Some p \<Rightarrow> p | None \<Rightarrow> ''patch'') t
         | ReadFile _ \<Rightarrow> t\<lparr>tc_reads := tc_reads t + 1\<rparr>
         | Search _ _ \<Rightarrow> t\<lparr>tc_searches := tc_searches t + 1\<rparr>
         | Glob _ \<Rightarrow> t\<lparr>tc_searches := tc_searches t + 1\<rparr>
         | WebSearch _ \<Rightarrow> t\<lparr>tc_searches := tc_searches t + 1\<rparr>
         | WebFetch _ _ \<Rightarrow> t\<lparr>tc_fetches := tc_fetches t + 1\<rparr>
         | Todo _ \<Rightarrow> t\<lparr>tc_todos := tc_todos t + 1\<rparr>
         | Mcp _ _ _ \<Rightarrow> t\<lparr>tc_other := tc_other t + 1\<rparr>
         | UnknownTool _ _ \<Rightarrow> t\<lparr>tc_other := tc_other t + 1\<rparr>)"

text \<open>The first segment starts with an ASCII character.\<close>

definition upper_first :: "string \<Rightarrow> string" where
  "upper_first s =
     (case s of
        [] \<Rightarrow> []
      | c # cs \<Rightarrow>
          (let n = of_char c :: nat
           in (if 97 \<le> n \<and> n \<le> 122 then char_of (n - 32) else c) # cs))"

definition tool_group_summary :: "(tool_call \<times> bool) list \<Rightarrow> string" where
  "tool_group_summary tools =
     (let t = foldl count_tool \<lparr>tc_commands = 0, tc_edited = [], tc_reads = 0, tc_searches = 0,
                tc_fetches = 0, tc_todos = 0, tc_other = 0, tc_failed = 0\<rparr> tools;
          segs = (if tc_commands t > 0
                  then [''ran '' @ plural (tc_commands t) ''command'' ''commands''] else [])
               @ (if tc_edited t \<noteq> []
                  then [''edited '' @ plural (length (tc_edited t)) ''file'' ''files''] else [])
               @ (if tc_reads t > 0 then [''read '' @ plural (tc_reads t) ''file'' ''files''] else [])
               @ (if tc_searches t > 0
                  then [''searched '' @ plural (tc_searches t) ''time'' ''times''] else [])
               @ (if tc_fetches t > 0
                  then [''fetched '' @ plural (tc_fetches t) ''page'' ''pages''] else [])
               @ (if tc_todos t > 0 then [''updated todos''] else [])
               @ (if tc_other t > 0 then [''called '' @ plural (tc_other t) ''tool'' ''tools''] else []);
          segs = (if segs = [] then [plural (length tools) ''tool'' ''tools''] else segs);
          segs = (if tc_failed t > 0 then segs @ [dec (tc_failed t) @ '' failed''] else segs)
      in upper_first (str_join dot_sep segs))"

subsection \<open>Checkout selection\<close>

datatype checkout_kind = CkLocal | CkNewWorktree

datatype checkout_plan_kind =
    CurrentCheckout "string option"
  | ReuseWorktree string string
  | NewWorktree "string option"

definition checkout_plan :: "checkout_kind \<Rightarrow> repo_ref option \<Rightarrow> checkout_plan_kind" where
  "checkout_plan kind picked =
     (let name = map_option rr_name picked
      in case kind of
           CkNewWorktree \<Rightarrow> NewWorktree name
         | CkLocal \<Rightarrow>
             (case (case picked of None \<Rightarrow> None | Some r \<Rightarrow> rr_worktree_path r) of
                Some path \<Rightarrow> ReuseWorktree path (case name of Some n \<Rightarrow> n | None \<Rightarrow> [])
              | None \<Rightarrow> CurrentCheckout name))"

definition checkout_label :: "checkout_kind \<Rightarrow> repo_ref option \<Rightarrow> string" where
  "checkout_label kind picked =
     (case kind of
        CkNewWorktree \<Rightarrow> ''New worktree''
      | CkLocal \<Rightarrow>
          if (case picked of None \<Rightarrow> False | Some r \<Rightarrow> rr_worktree_path r \<noteq> None)
          then ''Current worktree'' else ''Current checkout'')"

subsection \<open>The sorts are total orders\<close>

text \<open>The contract of a comparator: it compares by a key that identifies the element.\<close>

locale keyed_order =
  fixes c :: "'a \<Rightarrow> 'a \<Rightarrow> ordering"
    and key :: "'a \<Rightarrow> 'k::linorder"
    and ident :: "'a \<Rightarrow> 'i"
  assumes cmp_key: "c a b = cmp (key a) (key b)"
    and key_ident: "key a = key b \<Longrightarrow> ident a = ident b"
begin

lemma insert_by_key: "insert_by c x ys = insort_key key x ys"
  by (induction ys) (auto simp: cmp_key cmp_def)

lemma sort_by_key: "sort_by c xs = sort_key key xs"
  by (induction xs) (simp_all add: sort_by_def insert_by_key)

lemma sort_perm: "mset (sort_by c xs) = mset xs"
  by (simp add: sort_by_key)

lemma sort_sorted: "sorted (map key (sort_by c xs))"
  by (simp add: sort_by_key)

lemma sort_unique:
  assumes "mset xs = mset ys" "distinct (map ident xs)"
  shows "sort_by c xs = sort_by c ys"
proof -
  have "inj_on key (set xs)"
    using assms(2) key_ident by (metis distinct_map inj_on_def)
  then show ?thesis
    unfolding sort_by_key
    using sort_key_inj_key_eq [of xs "sort_key key ys" key] assms(1) by simp
qed

end

lemma then_with_cmp:
  "then_with (cmp a b) (cmp x y) = cmp (a, x) (b, y)"
  by (auto simp: cmp_def then_with_def less_prod_simp)

lemma cmp_uminus: "cmp b a = cmp (- a) (- b :: int)"
  by (auto simp: cmp_def)

interpretation active: keyed_order active_cmp "\<lambda>r. (- recency (snd r), ch_id (snd r))"
  "\<lambda>r. ch_id (snd r)"
  by unfold_locales (auto simp: active_cmp_def then_with_cmp [symmetric] cmp_uminus [symmetric])

interpretation tabs: keyed_order tabs_cmp "\<lambda>c. (ch_created_at c, ch_id c)" ch_id
  by unfold_locales (auto simp: tabs_cmp_def then_with_cmp)

interpretation spaces: keyed_order spaces_cmp "\<lambda>s. (sp_created_at s, sp_id s)" sp_id
  by unfold_locales (auto simp: spaces_cmp_def then_with_cmp)

interpretation chats: keyed_order chats_cmp "\<lambda>c. ((- recency c, - ch_created_at c), ch_id c)" ch_id
  by unfold_locales
    (auto simp: chats_cmp_def then_with_cmp [symmetric] cmp_uminus [symmetric])

text \<open>
The sidebar, tab and space orders depend on the set of rows only: two devices that hold the
  same rows with distinct ids, in whatever order they read them, show the same sequence, which is a
  permutation of the rows.
\<close>

theorem sort_orders_total:
  assumes "mset cs = mset cs'" "distinct (map ch_id cs)"
    "mset ss = mset ss'" "distinct (map sp_id ss)"
  shows "sort_chats cs = sort_chats cs' \<and> sort_tabs cs = sort_tabs cs' \<and>
    sort_spaces ss = sort_spaces ss' \<and>
    mset (sort_chats cs) = mset cs \<and> mset (sort_tabs cs) = mset cs \<and>
    mset (sort_spaces ss) = mset ss \<and>
    sorted_wrt (\<lambda>a b. recency b \<le> recency a) (sort_chats cs)"
proof -
  have "sorted (map (\<lambda>c. ((- recency c, - ch_created_at c), ch_id c)) (sort_chats cs))"
    unfolding sort_chats_def by (rule chats.sort_sorted)
  then have "sorted_wrt (\<lambda>a b. recency b \<le> recency a) (sort_chats cs)"
    unfolding sorted_map by (rule sorted_wrt_mono_rel [rotated]) (auto simp: less_eq_prod_simp)
  then show ?thesis
    using assms chats.sort_unique tabs.sort_unique spaces.sort_unique
    by (simp add: sort_chats_def sort_tabs_def sort_spaces_def chats.sort_perm tabs.sort_perm
        spaces.sort_perm)
qed

lemma sort_orders_total_witness:
  "sort_chats [] = sort_chats [] \<and> sort_tabs [] = sort_tabs [] \<and>
    sort_spaces [\<lparr>sp_id = ''b'', sp_device_id = ''d'', sp_path = ''/'', sp_name = None,
        sp_git_detected = False, sp_git_checked_at = None, sp_checkout_id = None, sp_created_at = 1\<rparr>,
      \<lparr>sp_id = ''a'', sp_device_id = ''d'', sp_path = ''/'', sp_name = None,
        sp_git_detected = False, sp_git_checked_at = None, sp_checkout_id = None, sp_created_at = 1\<rparr>] =
    sort_spaces [\<lparr>sp_id = ''a'', sp_device_id = ''d'', sp_path = ''/'', sp_name = None,
        sp_git_detected = False, sp_git_checked_at = None, sp_checkout_id = None, sp_created_at = 1\<rparr>,
      \<lparr>sp_id = ''b'', sp_device_id = ''d'', sp_path = ''/'', sp_name = None,
        sp_git_detected = False, sp_git_checked_at = None, sp_checkout_id = None, sp_created_at = 1\<rparr>]"
  using sort_orders_total [of "[]" "[]"
      "[\<lparr>sp_id = ''b'', sp_device_id = ''d'', sp_path = ''/'', sp_name = None,
        sp_git_detected = False, sp_git_checked_at = None, sp_checkout_id = None, sp_created_at = 1\<rparr>,
      \<lparr>sp_id = ''a'', sp_device_id = ''d'', sp_path = ''/'', sp_name = None,
        sp_git_detected = False, sp_git_checked_at = None, sp_checkout_id = None, sp_created_at = 1\<rparr>]"
      "[\<lparr>sp_id = ''a'', sp_device_id = ''d'', sp_path = ''/'', sp_name = None,
        sp_git_detected = False, sp_git_checked_at = None, sp_checkout_id = None, sp_created_at = 1\<rparr>,
      \<lparr>sp_id = ''b'', sp_device_id = ''d'', sp_path = ''/'', sp_name = None,
        sp_git_detected = False, sp_git_checked_at = None, sp_checkout_id = None, sp_created_at = 1\<rparr>]"]
  by simp

subsection \<open>Grouping is a partition by label\<close>

definition label_of :: "chat \<Rightarrow> string" where
  "label_of c = project_label (ch_cwd c)"

definition first_labels :: "chat list \<Rightarrow> string list" where
  "first_labels cs = rev (remdups (rev (map label_of cs)))"

lemma first_labels_snoc:
  "first_labels (cs @ [c]) =
     (if label_of c \<in> label_of ` set cs then first_labels cs else first_labels cs @ [label_of c])"
  by (simp add: first_labels_def)

lemma push_group_distinct:
  "distinct (map cg_label gs) \<Longrightarrow>
     push_group l c gs =
       (if l \<in> cg_label ` set gs
        then Some (map (\<lambda>g. if cg_label g = l then g\<lparr>cg_chats := cg_chats g @ [c]\<rparr> else g) gs)
        else None)"
proof (induction gs)
  case (Cons g gs)
  have "map (\<lambda>g. if cg_label g = l then g\<lparr>cg_chats := cg_chats g @ [c]\<rparr> else g) gs = gs"
    if "cg_label g = l"
  proof (rule map_idI)
    fix h assume "h \<in> set gs"
    then have "cg_label h \<in> set (map cg_label gs)" by simp
    with Cons.prems that have "cg_label h \<noteq> l" by auto
    then show "(if cg_label h = l then h\<lparr>cg_chats := cg_chats h @ [c]\<rparr> else h) = h" by simp
  qed
  with Cons show ?case by auto
qed simp

definition group_of :: "chat list \<Rightarrow> string \<Rightarrow> chat_group" where
  "group_of cs l = \<lparr>cg_label = l, cg_chats = filter (\<lambda>c. label_of c = l) cs\<rparr>"

text \<open>
Grouping partitions the chats by project: there is one group per label, in the order in which
  the labels first occur, and each group holds exactly the chats with its label, in their order.
\<close>

theorem group_chats_partition: "group_chats cs = map (group_of cs) (first_labels cs)"
proof (induction cs rule: rev_induct)
  case Nil
  then show ?case by (simp add: group_chats_def first_labels_def)
next
  case (snoc c cs)
  let ?l = "label_of c"
  have labels: "map cg_label (map (group_of cs) (first_labels cs)) = first_labels cs"
    by (simp add: group_of_def o_def)
  then have dist: "distinct (map cg_label (map (group_of cs) (first_labels cs)))"
    by (simp only: labels) (simp add: first_labels_def)
  have mem: "?l \<in> cg_label ` set (map (group_of cs) (first_labels cs)) \<longleftrightarrow> ?l \<in> label_of ` set cs"
    using arg_cong [OF labels, of set] by (simp add: first_labels_def image_image group_of_def)
  have fresh: "filter (\<lambda>x. label_of x = ?l) cs = []" if "?l \<notin> label_of ` set cs"
    using that unfolding filter_empty_conv by (metis imageI)
  have old: "l \<noteq> ?l" if "?l \<notin> label_of ` set cs" "l \<in> set (first_labels cs)" for l
    using that by (auto simp: first_labels_def image_iff)
  have "group_chats (cs @ [c]) = group_step (map (group_of cs) (first_labels cs)) c"
    using snoc.IH by (simp add: group_chats_def)
  also have "\<dots> = map (group_of (cs @ [c])) (first_labels (cs @ [c]))"
    unfolding group_step_def label_of_def [symmetric] Let_def push_group_distinct [OF dist] mem
      first_labels_snoc
    using fresh old by (auto simp: group_of_def)
  finally show ?case .
qed

subsection \<open>Status and relative times\<close>

text \<open>
A chat shows as working or as awaiting input exactly while its session says so and was updated
  within the last 45 seconds, so a crashed engine never shows as working forever.
\<close>

theorem display_status_live:
  "display_status c (Some s) now \<in> {CiWorking, CiAwaitingInput} \<longleftrightarrow>
     se_status s \<in> {SsWorking, SsAwaitingInput} \<and>
     num_milliseconds (now - se_updated_at s) \<le> session_stale_ms"
  by (cases "se_status s")
    (auto simp: display_status_def chat_indicator_def effective_indicator_def Let_def)

lemma hd_dec: "0 < n \<Longrightarrow> hd (dec n) \<noteq> CHR ''0''"
proof (induction n rule: dec.induct)
  case (1 n)
  show ?case
  proof (cases "n < 10")
    case True
    then have "dec n = [digit_char n]" by (subst dec.simps) simp
    then show ?thesis using digit_char_eq [of n 0] True "1.prems" by simp
  next
    case False
    then have "dec n = dec (n div 10) @ [digit_char (n mod 10)]" by (subst dec.simps) simp
    moreover have "dec (n div 10) \<noteq> []" by (subst dec.simps) simp
    ultimately show ?thesis using 1 False by (simp add: div_greater_zero_iff)
  qed
qed

lemma dec_0: "dec 0 = ''0''"
  by (subst dec.simps) simp

lemma dec_ne: "dec n \<noteq> []"
  by (subst dec.simps) simp

lemma hd_dec_int: "0 \<le> n \<Longrightarrow> hd (dec_int n @ u) = CHR ''0'' \<longleftrightarrow> n = 0"
  using hd_dec [of "nat n"] by (cases "n = 0") (auto simp: dec_int_def dec_0 dec_ne)

lemma div_less_int:
  assumes "0 < (b :: int)"
  shows "a div b < k \<longleftrightarrow> a < k * b"
proof
  assume "a div b < k"
  then have "(a div b + 1) * b \<le> k * b" using assms by (intro mult_right_mono) auto
  moreover have "a < (a div b + 1) * b"
  proof -
    have "(a div b + 1) * b = a div b * b + b" by (simp add: algebra_simps)
    then show ?thesis
      using div_mult_mod_eq [of a b] pos_mod_bound [OF assms, of a] by linarith
  qed
  ultimately show "a < k * b" by linarith
next
  assume *: "a < k * b"
  show "a div b < k"
  proof (rule ccontr)
    assume "\<not> a div b < k"
    then have "k * b \<le> a div b * b" using assms by (intro mult_right_mono) auto
    also have "\<dots> \<le> a" using div_mult_mod_eq [of a b] pos_mod_sign [OF assms, of a] by linarith
    finally show False using * by simp
  qed
qed

text \<open>
A relative time reads as a zero count exactly in one window: from 360 to 364 days, twelve
  thirty-day months have passed and no whole year, and the label is \<^verbatim>\<open>0y\<close>.
\<close>

theorem format_time_ago_zero:
  "hd (format_time_ago past now) = CHR ''0'' \<longleftrightarrow>
     360 * 86400 \<le> num_seconds (now - past) \<and> num_seconds (now - past) < 365 * 86400"
proof -
  define s where "s = max (num_seconds (now - past)) 0"
  have s0: "0 \<le> s" by (simp add: s_def)
  have q: "quot_zero n 60 = n div 60" "quot_zero n 24 = n div 24" "quot_zero n 7 = n div 7"
    "quot_zero n 30 = n div 30" "quot_zero n 365 = n div 365" if "0 \<le> n" for n
    using that by (simp_all add: quot_zero_nonneg)
  have "hd (format_time_ago past now) = CHR ''0'' \<longleftrightarrow> 360 * 86400 \<le> s \<and> s < 365 * 86400"
  proof -
    have e: "s div 60 div 60 = s div 3600" "s div 3600 div 24 = s div 86400"
      "s div 86400 div 7 = s div 604800" "s div 86400 div 30 = s div 2592000"
      "s div 86400 div 365 = s div 31536000"
      using s0 by (simp_all add: zdiv_zmult2_eq [symmetric])
    have n: "0 \<le> s div 60" "0 \<le> s div 3600" "0 \<le> s div 86400" "0 \<le> s div 604800"
      "0 \<le> s div 2592000" "0 \<le> s div 31536000" using s0 by simp_all
    have f: "format_time_ago past now =
        (if s < 60 then ''now'' else if s < 3600 then dec_int (s div 60) @ ''m''
         else if s < 86400 then dec_int (s div 3600) @ ''h''
         else if s < 604800 then dec_int (s div 86400) @ ''d''
         else if s < 3024000 then dec_int (s div 604800) @ ''w''
         else if s < 31104000 then dec_int (s div 2592000) @ ''mo''
         else dec_int (s div 31536000) @ ''y'')"
    proof -
      have qs: "quot_zero s 60 = s div 60" "quot_zero (s div 60) 60 = s div 3600"
        "quot_zero (s div 3600) 24 = s div 86400" "quot_zero (s div 86400) 7 = s div 604800"
        "quot_zero (s div 86400) 30 = s div 2592000" "quot_zero (s div 86400) 365 = s div 31536000"
        using q(1) [OF s0] q(1) [OF n(1)] q(2) [OF n(2)] q(3) [OF n(3)] q(4) [OF n(3)] q(5) [OF n(3)]
        unfolding e .
      have cs: "s div 60 < 60 \<longleftrightarrow> s < 3600" "s div 3600 < 24 \<longleftrightarrow> s < 86400"
        "s div 86400 < 7 \<longleftrightarrow> s < 604800" "s div 604800 < 5 \<longleftrightarrow> s < 3024000"
        "s div 2592000 < 12 \<longleftrightarrow> s < 31104000"
        using div_less_int [of 60 s 60] div_less_int [of 3600 s 24] div_less_int [of 86400 s 7]
          div_less_int [of 604800 s 5] div_less_int [of 2592000 s 12] by simp_all
      show ?thesis
        unfolding format_time_ago_def s_def [symmetric] Let_def qs cs ..
    qed
    have z: "hd (dec_int (s div b) @ u) = CHR ''0'' \<longleftrightarrow> s < b" if "0 < b" for b u
    proof -
      have "0 \<le> s div b" using s0 that by (simp add: pos_imp_zdiv_nonneg_iff)
      moreover have "s div b = 0 \<longleftrightarrow> s div b < 1" using calculation by linarith
      ultimately show ?thesis using div_less_int [OF that, of s 1] hd_dec_int by simp
    qed
    have "hd ''now'' \<noteq> CHR ''0''" by simp
    then show ?thesis
      unfolding f using z [of 60] z [of 3600] z [of 86400] z [of 604800] z [of 2592000] z [of 31536000]
      by (simp del: append.simps hd_append2)
  qed
  then show ?thesis by (auto simp: s_def)
qed

end
