(* ===== verification/Sync_Frames.thy ===== *)
theory Sync_Frames
  imports Prelude
begin

text \<open>
  The binary wire frames of the chat rooms, \<^verbatim>\<open>crates/sync/src/chat_frames.rs\<close>: one type byte, the
  length of the header as four bytes, least significant first, a JSON object as header, the payload.
  The JSON text codec (\<^verbatim>\<open>serde_json\<close>) is a parameter; the derived (de)serialisers of the typed headers
  are written out.
\<close>

subsection \<open>Frame types\<close>

definition ft_hello :: nat where "ft_hello = 1"
definition ft_state :: nat where "ft_state = 2"
definition ft_rows_req :: nat where "ft_rows_req = 3"
definition ft_row :: nat where "ft_row = 4"
definition ft_rows_done :: nat where "ft_rows_done = 5"
definition ft_push :: nat where "ft_push = 6"
definition ft_ack :: nat where "ft_ack = 7"
definition ft_presence :: nat where "ft_presence = 8"
definition ft_probe :: nat where "ft_probe = 9"
definition ft_probe_ok :: nat where "ft_probe_ok = 10"
definition ft_error :: nat where "ft_error = 11"

lemmas frame_types = ft_hello_def ft_state_def ft_rows_req_def ft_row_def ft_rows_done_def
  ft_push_def ft_ack_def ft_presence_def ft_probe_def ft_probe_ok_def ft_error_def

definition max_header_bytes :: nat where
  "max_header_bytes = 4096"

record wire_frame =
  wf_kind :: nat
  wf_header :: json
  wf_payload :: bytes

subsection \<open>The codec\<close>

text \<open>\<^verbatim>\<open>(len as u32).to_le_bytes()\<close> and back.\<close>

definition le_bytes :: "nat \<Rightarrow> bytes" where
  "le_bytes n =
     (let m = n mod 2 ^ 32
      in [char_of (m mod 256), char_of (m div 256 mod 256), char_of (m div 65536 mod 256),
          char_of (m div 16777216)])"

definition of_le_bytes :: "bytes \<Rightarrow> nat" where
  "of_le_bytes b = foldr (\<lambda>c n. of_char c + 256 * n) b 0"

definition encode :: "(json \<Rightarrow> bytes) \<Rightarrow> nat \<Rightarrow> json \<Rightarrow> bytes \<Rightarrow> bytes" where
  "encode to_vec kind header payload =
     (let header = to_vec header
      in [char_of kind] @ le_bytes (length header) @ header @ payload)"

definition decode :: "(bytes \<Rightarrow> json option) \<Rightarrow> bytes \<Rightarrow> wire_frame option" where
  "decode from_slice bs =
     (if length bs < 5 then None
      else
        let kind = of_char (bs ! 0); header_len = of_le_bytes (take 4 (drop 1 bs))
        in if header_len > max_header_bytes \<or> 5 + header_len > length bs then None
           else (case from_slice (take header_len (drop 5 bs)) of
                   Some (JObj fs) \<Rightarrow>
                     Some \<lparr>wf_kind = kind, wf_header = JObj fs, wf_payload = drop (5 + header_len) bs\<rparr>
                 | _ \<Rightarrow> None))"

subsection \<open>Typed headers\<close>

definition hello_header :: "nat \<Rightarrow> string \<Rightarrow> json" where
  "hello_header cursor device = JObj [(''cursor'', JInt (int cursor)), (''device'', JStr device)]"

definition rows_req_header :: "nat \<Rightarrow> bool \<Rightarrow> json" where
  "rows_req_header after exclude_own =
     JObj [(''after'', JInt (int after)), (''excludeOwn'', JBool exclude_own)]"

definition push_header :: "string \<Rightarrow> json" where
  "push_header batch_id = JObj [(''batchId'', JStr batch_id)]"

definition presence_out_header :: "int \<Rightarrow> json" where
  "presence_out_header at = JObj [(''at'', JInt at)]"

record state_header =
  st_head_seq :: nat
  st_seq_floor :: nat
  st_checkpoint_seq :: nat
  st_checkpoint_size :: nat
  st_row_count :: nat
  st_row_bytes :: nat

definition header_fields :: "json \<Rightarrow> (string \<times> json) list" where
  "header_fields h = (case h of JObj fs \<Rightarrow> fs | _ \<Rightarrow> [])"

definition state_header_of :: "json \<Rightarrow> state_header option" where
  "state_header_of h =
     (let fs = header_fields h
      in case (req_field as_u64 fs ''headSeq'', req_field as_u64 fs ''seqFloor'',
               req_field as_u64 fs ''checkpointSeq'', req_field as_u64 fs ''checkpointSize'',
               default_field 0 as_u64 fs ''rowCount'', default_field 0 as_u64 fs ''rowBytes'') of
           (Some a, Some b, Some c, Some d, Some e, Some f) \<Rightarrow>
             Some \<lparr>st_head_seq = a, st_seq_floor = b, st_checkpoint_seq = c,
                   st_checkpoint_size = d, st_row_count = e, st_row_bytes = f\<rparr>
         | _ \<Rightarrow> None)"

record row_header =
  rh_seq :: nat
  rh_device :: string
  rh_batch_id :: string

definition row_header_of :: "json \<Rightarrow> row_header option" where
  "row_header_of h =
     (let fs = header_fields h
      in case (req_field as_u64 fs ''seq'', req_field as_str fs ''device'',
               req_field as_str fs ''batchId'') of
           (Some s, Some d, Some b) \<Rightarrow> Some \<lparr>rh_seq = s, rh_device = d, rh_batch_id = b\<rparr>
         | _ \<Rightarrow> None)"

definition rows_done_of :: "json \<Rightarrow> nat option" where
  "rows_done_of h = req_field as_u64 (header_fields h) ''headSeq''"

record ack_header =
  ah_batch_id :: string
  ah_seq :: nat
  ah_dup :: bool

definition ack_header_of :: "json \<Rightarrow> ack_header option" where
  "ack_header_of h =
     (let fs = header_fields h
      in case (req_field as_str fs ''batchId'', req_field as_u64 fs ''seq'',
               default_field False as_bool fs ''dup'') of
           (Some b, Some s, Some d) \<Rightarrow> Some \<lparr>ah_batch_id = b, ah_seq = s, ah_dup = d\<rparr>
         | _ \<Rightarrow> None)"

definition probe_ok_of :: "json \<Rightarrow> nat option" where
  "probe_ok_of h = req_field as_u64 (header_fields h) ''headSeq''"

text \<open>\<^verbatim>\<open>header[key].as_str()\<close>\<close>

definition header_str :: "json \<Rightarrow> string \<Rightarrow> string option" where
  "header_str h key = (case map_of (header_fields h) key of None \<Rightarrow> None | Some v \<Rightarrow> as_str v)"

subsection \<open>Round trips\<close>

lemma length_le_bytes [simp]: "length (le_bytes n) = 4"
  by (simp add: le_bytes_def Let_def)

lemma of_le_bytes_le_bytes: "n < 2 ^ 32 \<Longrightarrow> of_le_bytes (le_bytes n) = n"
proof -
  assume n: "n < 2 ^ 32"
  have q: "n div 16777216 < 256" using n by (simp add: div_less_iff_less_mult)
  have 1: "n div 256 div 256 = n div 65536" "n div 65536 div 256 = n div 16777216"
    by (simp_all add: div_mult2_eq [symmetric])
  have "n div 65536 = n div 65536 mod 256 + 256 * (n div 16777216)"
    using mod_mult_div_eq [of "n div 65536" 256] unfolding 1 by simp
  moreover have "n div 256 = n div 256 mod 256 + 256 * (n div 65536)"
    using mod_mult_div_eq [of "n div 256" 256] unfolding 1 by simp
  moreover have "n = n mod 256 + 256 * (n div 256)" by simp
  ultimately have "n mod 256 + 256 * (n div 256 mod 256 + 256 * (n div 65536 mod 256 + 256 * (n div 16777216))) = n"
    by presburger
  then show ?thesis
    using n q by (simp add: of_le_bytes_def le_bytes_def Let_def)
qed

lemma drop_frame: "length len = 4 \<Longrightarrow> drop (5 + length h) (b # len @ h @ p) = p"
proof -
  assume l: "length len = 4"
  have "drop (5 + length h) (b # len @ h @ p) = drop (length h) (drop 5 (b # len @ h @ p))"
    by (metis add.commute drop_drop)
  also have "\<dots> = p" using l by simp
  finally show ?thesis .
qed

lemma decode_frame:
  assumes "from_slice h = Some (JObj fs)" "length h \<le> max_header_bytes" "kind < 256"
  shows "decode from_slice (char_of kind # le_bytes (length h) @ h @ payload) =
    Some \<lparr>wf_kind = kind, wf_header = JObj fs, wf_payload = payload\<rparr>"
proof -
  have len: "of_le_bytes (le_bytes (length h)) = length h"
    using assms(2) by (intro of_le_bytes_le_bytes) (simp add: max_header_bytes_def)
  have k: "of_char (char_of kind :: char) = kind" using assms(3) by simp
  have "drop (5 + length h) (char_of kind # le_bytes (length h) @ h @ payload) = payload"
    "take (length h) (drop 5 (char_of kind # le_bytes (length h) @ h @ payload)) = h"
    "take 4 (drop 1 (char_of kind # le_bytes (length h) @ h @ payload)) = le_bytes (length h)"
    by (simp_all add: drop_frame)
  with k show ?thesis
    unfolding decode_def Let_def using assms(1,2) by (simp only: len) simp
qed

text \<open>
A frame survives the wire: for any type byte and any object header of at most 4096 bytes that
  the JSON codec reproduces, decoding gives back the type, the header and the payload, whatever the
  payload is.
\<close>

theorem decode_encode:
  assumes "from_slice (to_vec (JObj fs)) = Some (JObj fs)" "length (to_vec (JObj fs)) \<le> max_header_bytes"
    "kind < 256"
  shows "decode from_slice (encode to_vec kind (JObj fs) payload) =
    Some \<lparr>wf_kind = kind, wf_header = JObj fs, wf_payload = payload\<rparr>"
  using decode_frame [of from_slice "to_vec (JObj fs)" fs kind payload] assms by (simp add: encode_def Let_def)

lemma decode_encode_witness:
  "decode (\<lambda>b. if b = ''h'' then Some (push_header ''b1'') else None)
     (encode (\<lambda>_. ''h'') ft_push (push_header ''b1'') ''bytes'') =
   Some \<lparr>wf_kind = ft_push, wf_header = push_header ''b1'', wf_payload = ''bytes''\<rparr>"
  unfolding push_header_def
  by (rule decode_encode) (simp_all add: max_header_bytes_def ft_push_def)

text \<open>
What decodes is a frame: a successful decode consumed all the bytes, the header it returns is
  an object no longer than the limit, and truncated input, an oversized header or a header that runs
  past the end is refused.
\<close>

theorem decode_sound:
  "decode from_slice bs = Some f \<longleftrightarrow>
     (\<exists>b len header. length len = 4 \<and> bs = b # len @ header @ wf_payload f \<and>
        of_le_bytes len = length header \<and> length header \<le> max_header_bytes \<and>
        from_slice header = Some (wf_header f) \<and> (\<exists>fs. wf_header f = JObj fs) \<and>
        wf_kind f = of_char b)" (is "?L \<longleftrightarrow> ?R")
proof
  assume ?L
  then have l: "5 \<le> length bs" and n: "of_le_bytes (take 4 (drop 1 bs)) \<le> max_header_bytes"
      "5 + of_le_bytes (take 4 (drop 1 bs)) \<le> length bs"
    and h: "from_slice (take (of_le_bytes (take 4 (drop 1 bs))) (drop 5 bs)) = Some (wf_header f)"
      "\<exists>fs. wf_header f = JObj fs" "wf_kind f = of_char (bs ! 0)"
      "wf_payload f = drop (5 + of_le_bytes (take 4 (drop 1 bs))) bs"
    by (auto simp: decode_def Let_def split: if_splits option.splits json.splits)
  let ?n = "of_le_bytes (take 4 (drop 1 bs))"
  have "drop 5 bs = take ?n (drop 5 bs) @ drop (5 + ?n) bs"
    using append_take_drop_id [of ?n "drop 5 bs"] by (simp add: add.commute)
  moreover have "drop 1 bs = take 4 (drop 1 bs) @ drop 5 bs"
    using append_take_drop_id [of 4 "drop 1 bs"] by simp
  ultimately have "bs = take 1 bs @ take 4 (drop 1 bs) @ take ?n (drop 5 bs) @ drop (5 + ?n) bs"
    using append_take_drop_id [of 1 bs] by metis
  moreover have "take 1 bs = [bs ! 0]" using l by (cases bs) simp_all
  ultimately have "bs = bs ! 0 # take 4 (drop 1 bs) @ take ?n (drop 5 bs) @ wf_payload f"
    unfolding h(4) by simp
  with l n h show ?R by (intro exI [of _ "bs ! 0"] exI [of _ "take 4 (drop 1 bs)"]
        exI [of _ "take ?n (drop 5 bs)"]) simp
next
  assume ?R
  then obtain b len header fs where r: "length len = 4" "bs = b # len @ header @ wf_payload f"
    "of_le_bytes len = length header" "length header \<le> max_header_bytes"
    "from_slice header = Some (wf_header f)" "wf_header f = JObj fs" "wf_kind f = of_char b"
    by blast
  have "take 4 (drop 1 bs) = len" "bs ! 0 = b" "take (length header) (drop 5 bs) = header"
    "drop (5 + length header) bs = wf_payload f"
    using r(1) by (simp_all add: r(2) drop_frame)
  with r show ?L by (simp add: decode_def)
qed

end
