(* ===== verification/Sync_Chat_Client.thy ===== *)
theory Sync_Chat_Client
  imports Sync_Frames
begin

text \<open>
  The client of a chat room, \<^verbatim>\<open>crates/sync/src/chat_client.rs\<close>: the queue of unacknowledged pushes,
  the catch-up after a hello, the frames of the steady state, and the reconnect loop.

  The document side is the trait \<^verbatim>\<open>ChatDocSink\<close>: a record of operations on a state of type \<open>'d\<close>. The
  client state holds what its mutex, its atomics, its channels and its task hold. The socket is the
  list of frames sent and the number of sends that still succeed before it breaks; what arrives, the
  passing of time, and the answers of the dialer and of the checkpoint download are inputs. Times are
  milliseconds. A run over a list of inputs that ends without an outcome is one that still waits.
\<close>

subsection \<open>Constants\<close>

definition hello_deadline :: nat where "hello_deadline = 15000"
definition probe_deadline :: nat where "probe_deadline = 10000"
definition backoff_base :: nat where "backoff_base = 250"
definition backoff_cap :: nat where "backoff_cap = 30000"
definition probe_quiet_default :: nat where "probe_quiet_default = 900000"
definition quota_retry :: nat where "quota_retry = 5000"
definition max_push_bytes :: nat where "max_push_bytes = 1024 * 1024 - 4096"

subsection \<open>Data\<close>

datatype sync_error = WebSocket string | Protocol string | JoinRefused string | LoroErr string
  | Auth string | ClosedErr

datatype chat_event = Connected | CaughtUp nat | Applied | Disconnected | PresenceEv | ServerReset
  | PushRejected

record 'd chat_doc_sink =
  sk_apply_row :: "bytes \<Rightarrow> nat \<Rightarrow> 'd \<Rightarrow> 'd"
  sk_apply_checkpoint :: "bytes \<Rightarrow> nat \<Rightarrow> 'd \<Rightarrow> (string + unit) \<times> 'd"
  sk_contains_frontier :: "bytes \<Rightarrow> 'd \<Rightarrow> bool"
  sk_advance_cursor :: "nat \<Rightarrow> 'd \<Rightarrow> 'd"

text \<open>What the client uses of the JSON library, its own sink and its identity.\<close>

record 'd chat_env =
  ce_to_vec :: "json \<Rightarrow> bytes"
  ce_from_slice :: "bytes \<Rightarrow> json option"
  ce_sink :: "'d chat_doc_sink"
  ce_device :: string
  ce_probe_quiet :: nat

datatype catch_up_plan = RowsOnly nat | CheckpointThenRows nat

record 'd chat_client =
  cc_cursor :: nat
  cc_pending :: "(string \<times> bytes) list"
  cc_server :: "state_header option"
  cc_retry_at :: "nat option"
  cc_quota_blocked :: bool
  cc_connected :: bool
  cc_rejoins :: nat
  cc_disconnects :: nat
  cc_rejected :: nat
  cc_server_resets :: nat
  cc_nudge :: bool
  cc_probe :: bool
  cc_redial :: bool
  cc_shutdown :: bool
  cc_presence_out :: "(int \<times> bytes) list"
  cc_resumed :: bool
  cc_ready :: "(sync_error + unit) option"
  cc_events :: "chat_event list"
  cc_sent :: "bytes list"
  cc_sends_left :: nat
  cc_doc :: 'd

definition connect_with_tuned :: "nat \<Rightarrow> 'd \<Rightarrow> 'd chat_client" where
  "connect_with_tuned initial_cursor d =
     \<lparr>cc_cursor = initial_cursor, cc_pending = [], cc_server = None, cc_retry_at = None,
      cc_quota_blocked = False, cc_connected = False, cc_rejoins = 0, cc_disconnects = 0,
      cc_rejected = 0, cc_server_resets = 0, cc_nudge = False, cc_probe = False, cc_redial = False,
      cc_shutdown = False,
      cc_presence_out = [], cc_resumed = False, cc_ready = None, cc_events = [], cc_sent = [],
      cc_sends_left = 0, cc_doc = d\<rparr>"

subsection \<open>Catch-up plan\<close>

definition plan_catch_up :: "nat \<Rightarrow> state_header \<Rightarrow> bool \<Rightarrow> catch_up_plan" where
  "plan_catch_up cursor state frontier_contained =
     (let cursor = (if cursor > st_head_seq state then 0 else cursor)
      in if st_checkpoint_size state = 0 then RowsOnly cursor
         else if frontier_contained then RowsOnly (max cursor (st_checkpoint_seq state))
         else CheckpointThenRows (st_checkpoint_seq state))"

subsection \<open>Operations of the host\<close>

definition emit :: "chat_event \<Rightarrow> 'd chat_client \<Rightarrow> 'd chat_client" where
  "emit e s = s\<lparr>cc_events := cc_events s @ [e]\<rparr>"

text \<open>The fresh batch identifier of \<^verbatim>\<open>Uuid::new_v4\<close> is an argument.\<close>

definition enqueue_update :: "string \<Rightarrow> bytes \<Rightarrow> 'd chat_client \<Rightarrow> 'd chat_client" where
  "enqueue_update uuid bs s =
     (if length bs > max_push_bytes
      then emit PushRejected (s\<lparr>cc_rejected := cc_rejected s + 1\<rparr>)
      else s\<lparr>cc_pending := cc_pending s @ [(uuid, bs)], cc_nudge := True\<rparr>)"

text \<open>\<^verbatim>\<open>try_send\<close> on a channel of capacity four drops the beat when it is full.\<close>

definition send_presence :: "int \<Rightarrow> bytes \<Rightarrow> 'd chat_client \<Rightarrow> 'd chat_client" where
  "send_presence at payload s =
     (if length (cc_presence_out s) < 4
      then s\<lparr>cc_presence_out := cc_presence_out s @ [(at, payload)]\<rparr> else s)"

definition probe_now :: "'d chat_client \<Rightarrow> 'd chat_client" where
  "probe_now s = s\<lparr>cc_probe := True\<rparr>"

definition redial_now :: "'d chat_client \<Rightarrow> 'd chat_client" where
  "redial_now s = s\<lparr>cc_redial := True\<rparr>"

definition shutdown_now :: "'d chat_client \<Rightarrow> 'd chat_client" where
  "shutdown_now s = s\<lparr>cc_shutdown := True\<rparr>"

definition note_checkpoint :: "nat \<Rightarrow> nat \<Rightarrow> 'd chat_client \<Rightarrow> 'd chat_client" where
  "note_checkpoint seq_covered sz s =
     s\<lparr>cc_server := map_option (\<lambda>server. server\<lparr>st_checkpoint_seq := seq_covered,
        st_checkpoint_size := sz, st_seq_floor := seq_covered, st_row_count := 0,
        st_row_bytes := 0\<rparr>) (cc_server s)\<rparr>"

record chat_stats =
  cs_connected :: bool
  cs_cursor :: nat
  cs_head_seq :: nat
  cs_seq_floor :: nat
  cs_checkpoint_seq :: nat
  cs_checkpoint_size :: nat
  cs_row_count :: nat
  cs_row_bytes :: nat
  cs_pending_pushes :: nat
  cs_rejoins :: nat
  cs_disconnects :: nat
  cs_rejected :: nat
  cs_server_resets :: nat

definition stats :: "'d chat_client \<Rightarrow> chat_stats" where
  "stats s =
     (let server = (case cc_server s of Some h \<Rightarrow> h
        | None \<Rightarrow> \<lparr>st_head_seq = 0, st_seq_floor = 0, st_checkpoint_seq = 0, st_checkpoint_size = 0,
                  st_row_count = 0, st_row_bytes = 0\<rparr>)
      in \<lparr>cs_connected = cc_connected s, cs_cursor = cc_cursor s,
          cs_head_seq = st_head_seq server, cs_seq_floor = st_seq_floor server,
          cs_checkpoint_seq = st_checkpoint_seq server,
          cs_checkpoint_size = st_checkpoint_size server,
          cs_row_count = st_row_count server, cs_row_bytes = st_row_bytes server,
          cs_pending_pushes = length (cc_pending s), cs_rejoins = cc_rejoins s,
          cs_disconnects = cc_disconnects s, cs_rejected = cc_rejected s,
          cs_server_resets = cc_server_resets s\<rparr>)"

subsection \<open>Sending\<close>

text \<open>\<^verbatim>\<open>pipe.tx.send(frame).await.is_ok()\<close>\<close>

definition pipe_send :: "bytes \<Rightarrow> 'd chat_client \<Rightarrow> bool \<times> 'd chat_client" where
  "pipe_send frame s =
     (case cc_sends_left s of
        0 \<Rightarrow> (False, s)
      | Suc n \<Rightarrow> (True, s\<lparr>cc_sends_left := n, cc_sent := cc_sent s @ [frame]\<rparr>))"

fun pipe_send_all :: "bytes list \<Rightarrow> 'd chat_client \<Rightarrow> bool \<times> 'd chat_client" where
  "pipe_send_all [] s = (True, s)"
| "pipe_send_all (f # fs) s =
     (case pipe_send f s of (False, s') \<Rightarrow> (False, s') | (True, s') \<Rightarrow> pipe_send_all fs s')"

definition push_frame :: "'d chat_env \<Rightarrow> string \<times> bytes \<Rightarrow> bytes" where
  "push_frame env p = encode (ce_to_vec env) ft_push (push_header (fst p)) (snd p)"

definition push_head :: "'d chat_env \<Rightarrow> 'd chat_client \<Rightarrow> bool \<times> 'd chat_client" where
  "push_head env s =
     (case cc_pending s of [] \<Rightarrow> (True, s) | p # _ \<Rightarrow> pipe_send (push_frame env p) s)"

definition push_pending :: "'d chat_env \<Rightarrow> 'd chat_client \<Rightarrow> bool \<times> 'd chat_client" where
  "push_pending env s = pipe_send_all (map (push_frame env) (cc_pending s)) s"

text \<open>The probe's deadline is armed once.\<close>

definition send_probe :: "'d chat_env \<Rightarrow> nat \<Rightarrow> nat option \<Rightarrow> 'd chat_client \<Rightarrow>
    bool \<times> nat option \<times> 'd chat_client" where
  "send_probe env now deadline s =
     (case pipe_send (encode (ce_to_vec env) ft_probe (JObj []) []) s of
        (False, s') \<Rightarrow> (False, deadline, s')
      | (True, s') \<Rightarrow> (True, (if deadline = None then Some (now + probe_deadline) else deadline), s'))"

subsection \<open>Inbound frames\<close>

definition retire :: "string \<Rightarrow> (string \<times> bytes) list \<Rightarrow> (string \<times> bytes) list" where
  "retire batch_id pending = [p \<leftarrow> pending. fst p \<noteq> batch_id]"

definition on_row :: "'d chat_env \<Rightarrow> row_header \<Rightarrow> bytes \<Rightarrow> 'd chat_client \<Rightarrow> 'd chat_client" where
  "on_row env row payload s =
     emit Applied (s\<lparr>cc_doc := sk_apply_row (ce_sink env) payload (rh_seq row) (cc_doc s),
                    cc_cursor := max (cc_cursor s) (rh_seq row)\<rparr>)"

definition on_ack :: "'d chat_env \<Rightarrow> nat \<Rightarrow> ack_header \<Rightarrow> 'd chat_client \<Rightarrow> 'd chat_client" where
  "on_ack env now ack s =
     (let pending = retire (ah_batch_id ack) (cc_pending s);
          cursor = max (cc_cursor s) (ah_seq ack);
          s = s\<lparr>cc_pending := pending, cc_cursor := cursor\<rparr>;
          s = (if cc_quota_blocked s
               then if pending = [] then s\<lparr>cc_quota_blocked := False\<rparr>
                    else s\<lparr>cc_retry_at := Some now\<rparr>
               else s)
      in emit Applied (s\<lparr>cc_doc := sk_advance_cursor (ce_sink env) cursor (cc_doc s)\<rparr>))"

definition on_probe_ok :: "json \<Rightarrow> 'd chat_client \<Rightarrow> 'd chat_client" where
  "on_probe_ok header s =
     (case probe_ok_of header of
        None \<Rightarrow> s
      | Some head \<Rightarrow>
          s\<lparr>cc_server := map_option (\<lambda>server. server\<lparr>st_head_seq := max (st_head_seq server) head\<rparr>)
                          (cc_server s)\<rparr>)"

definition on_error :: "nat \<Rightarrow> json \<Rightarrow> 'd chat_client \<Rightarrow> 'd chat_client" where
  "on_error now header s =
     (let s = s\<lparr>cc_rejected := cc_rejected s + 1\<rparr>;
          code = (case header_str header ''code'' of Some c \<Rightarrow> c | None \<Rightarrow> ''?'');
          batch_id = (case header_str header ''batchId'' of Some b \<Rightarrow> b | None \<Rightarrow> '''')
      in if code \<in> {''too_large'', ''empty'', ''bad_push''} \<and> batch_id \<noteq> ''''
         then let pending = retire batch_id (cc_pending s)
              in if length (cc_pending s) \<noteq> length pending
                 then emit PushRejected (s\<lparr>cc_pending := pending\<rparr>)
                 else s\<lparr>cc_pending := pending\<rparr>
         else if code = ''quota''
         then s\<lparr>cc_quota_blocked := True, cc_retry_at := Some (now + quota_retry)\<rparr>
         else s)"

definition handle_frame :: "'d chat_env \<Rightarrow> nat \<Rightarrow> wire_frame \<Rightarrow> 'd chat_client \<Rightarrow>
    bool \<times> 'd chat_client" where
  "handle_frame env now frame s =
     (if wf_kind frame = ft_row then
        (case row_header_of (wf_header frame) of
           None \<Rightarrow> (False, s)
         | Some row \<Rightarrow> (True, on_row env row (wf_payload frame) s))
      else if wf_kind frame = ft_ack then
        (case ack_header_of (wf_header frame) of
           None \<Rightarrow> (False, s)
         | Some ack \<Rightarrow> (True, on_ack env now ack s))
      else if wf_kind frame = ft_presence then (True, emit PresenceEv s)
      else if wf_kind frame = ft_probe_ok then (True, on_probe_ok (wf_header frame) s)
      else if wf_kind frame = ft_state then
        (True, case state_header_of (wf_header frame) of
                 None \<Rightarrow> s
               | Some state \<Rightarrow> s\<lparr>cc_server := Some state\<rparr>)
      else if wf_kind frame = ft_error then (True, on_error now (wf_header frame) s)
      else (True, s))"

subsection \<open>One session\<close>

text \<open>
  Where the task waits: \<^verbatim>\<open>Handshake\<close> with the cursor it sent, \<^verbatim>\<open>Fetching\<close> the checkpoint,
  \<^verbatim>\<open>Backfilling\<close>, and \<^verbatim>\<open>Steady\<close> with the time of the last frame, the deadline of the open probe
  and the time at which this turn of the loop began.
\<close>

datatype session_end = Reconnect | Stop

datatype session_phase = Handshake nat | Fetching nat state_header | Backfilling
  | Steady nat "nat option" nat

type_synonym 'd session_result = "(session_end + session_phase) \<times> 'd chat_client"

datatype session_input = InBytes bytes | InClosed | InTimeout | InFetched "sync_error + bytes"
  | InNudge | InBeat | InProbe | InRedial | InRetry | InQuiet | InDeadline | InShutdown

definition start_session :: "'d chat_env \<Rightarrow> 'd chat_client \<Rightarrow> 'd session_result" where
  "start_session env s =
     (let cursor = cc_cursor s
      in case pipe_send (encode (ce_to_vec env) ft_hello (hello_header cursor (ce_device env)) []) s of
           (False, s') \<Rightarrow> (Inl Reconnect, s')
         | (True, s') \<Rightarrow> (Inr (Handshake cursor), s'))"

definition request_rows :: "'d chat_env \<Rightarrow> nat \<Rightarrow> nat \<Rightarrow> 'd chat_client \<Rightarrow> 'd session_result" where
  "request_rows env cursor after s =
     (let s = (if after < cursor then s\<lparr>cc_cursor := after\<rparr> else s)
      in case pipe_send (encode (ce_to_vec env) ft_rows_req (rows_req_header after (cc_resumed s)) []) s of
           (False, s') \<Rightarrow> (Inl Reconnect, s')
         | (True, s') \<Rightarrow> (Inr Backfilling, s'))"

definition joined :: "nat \<Rightarrow> state_header \<Rightarrow> 'd chat_client \<Rightarrow> 'd chat_client" where
  "joined cursor state s =
     (let s = s\<lparr>cc_server := Some state, cc_connected := True\<rparr>;
          s = (if cc_ready s = None then s else s\<lparr>cc_rejoins := cc_rejoins s + 1\<rparr>);
          s = emit Connected s
      in if cursor > st_head_seq state
         then emit ServerReset (s\<lparr>cc_server_resets := cc_server_resets s + 1\<rparr>) else s)"

definition on_state :: "'d chat_env \<Rightarrow> nat \<Rightarrow> wire_frame \<Rightarrow> 'd chat_client \<Rightarrow> 'd session_result" where
  "on_state env cursor frame s =
     (case state_header_of (wf_header frame) of
        None \<Rightarrow> (Inl Reconnect, s)
      | Some state \<Rightarrow>
          let s = joined cursor state s;
              contained = (st_checkpoint_size state = 0 \<or>
                           sk_contains_frontier (ce_sink env) (wf_payload frame) (cc_doc s))
          in (case plan_catch_up cursor state contained of
                RowsOnly after \<Rightarrow> request_rows env cursor after s
              | CheckpointThenRows _ \<Rightarrow> (Inr (Fetching cursor state), s)))"

definition on_handshake_bytes :: "'d chat_env \<Rightarrow> nat \<Rightarrow> bytes \<Rightarrow> 'd chat_client \<Rightarrow> 'd session_result" where
  "on_handshake_bytes env cursor bs s =
     (case decode (ce_from_slice env) bs of
        None \<Rightarrow> (Inl Reconnect, s)
      | Some frame \<Rightarrow>
          if wf_kind frame = ft_state then on_state env cursor frame s
          else (Inr (Handshake cursor), s))"

definition on_fetched :: "'d chat_env \<Rightarrow> nat \<Rightarrow> state_header \<Rightarrow> sync_error + bytes \<Rightarrow>
    'd chat_client \<Rightarrow> 'd session_result" where
  "on_fetched env cursor state fetched s =
     (case fetched of
        Inl _ \<Rightarrow> (Inl Reconnect, s)
      | Inr bs \<Rightarrow>
          (case sk_apply_checkpoint (ce_sink env) bs (st_checkpoint_seq state) (cc_doc s) of
             (Inl _, d) \<Rightarrow> (Inl Reconnect, s\<lparr>cc_doc := d\<rparr>)
           | (Inr _, d) \<Rightarrow>
               request_rows env cursor (st_checkpoint_seq state)
                 (emit Applied (s\<lparr>cc_doc := d, cc_cursor := max (cc_cursor s) (st_checkpoint_seq state)\<rparr>))))"

definition caught_up :: "'d chat_env \<Rightarrow> nat \<Rightarrow> nat \<Rightarrow> 'd chat_client \<Rightarrow> 'd session_result" where
  "caught_up env now head_seq s =
     (let s = s\<lparr>cc_resumed := True\<rparr>;
          s = (if cc_ready s = None then s\<lparr>cc_ready := Some (Inr ())\<rparr> else s);
          s = emit (CaughtUp head_seq) s
      in case push_pending env s of
           (False, s') \<Rightarrow> (Inl Reconnect, s')
         | (True, s') \<Rightarrow> (Inr (Steady now None now), s'))"

definition on_backfill_bytes :: "'d chat_env \<Rightarrow> nat \<Rightarrow> bytes \<Rightarrow> 'd chat_client \<Rightarrow> 'd session_result" where
  "on_backfill_bytes env now bs s =
     (case decode (ce_from_slice env) bs of
        None \<Rightarrow> (Inl Reconnect, s)
      | Some frame \<Rightarrow>
          if wf_kind frame = ft_rows_done then
            (case rows_done_of (wf_header frame) of
               None \<Rightarrow> (Inl Reconnect, s)
             | Some head_seq \<Rightarrow> caught_up env now head_seq s)
          else (case handle_frame env now frame s of
                  (False, s') \<Rightarrow> (Inl Reconnect, s')
                | (True, s') \<Rightarrow> (Inr Backfilling, s')))"

text \<open>
  A turn of the steady loop. A branch of the \<^verbatim>\<open>select!\<close> whose guard does not hold is not enabled,
  which is \<^const>\<open>None\<close>; a timer that is not set is due a day after the turn began. A frame moves the
  last-frame time and clears the probe's deadline.
\<close>

definition a_day :: nat where "a_day = 86400 * 1000"

definition keep :: "session_phase \<Rightarrow> bool \<times> 'd chat_client \<Rightarrow> 'd session_result" where
  "keep ph r = (case r of (True, s) \<Rightarrow> (Inr ph, s) | (False, s) \<Rightarrow> (Inl Reconnect, s))"

definition on_steady_bytes :: "'d chat_env \<Rightarrow> nat \<Rightarrow> bytes \<Rightarrow> 'd chat_client \<Rightarrow> 'd session_result" where
  "on_steady_bytes env now bs s =
     (case decode (ce_from_slice env) bs of
        None \<Rightarrow> (Inl Reconnect, s)
      | Some frame \<Rightarrow> keep (Steady now None now) (handle_frame env now frame s))"

definition probe_turn :: "'d chat_env \<Rightarrow> nat \<Rightarrow> nat \<Rightarrow> nat option \<Rightarrow> 'd chat_client \<Rightarrow> 'd session_result" where
  "probe_turn env now last_frame deadline s =
     (case send_probe env now deadline s of
        (ok, deadline', s') \<Rightarrow> keep (Steady last_frame deadline' now) (ok, s'))"

definition send_beat :: "'d chat_env \<Rightarrow> int \<times> bytes \<Rightarrow> 'd chat_client \<Rightarrow> bool \<times> 'd chat_client" where
  "send_beat env beat s =
     pipe_send (encode (ce_to_vec env) ft_presence (presence_out_header (fst beat)) (snd beat)) s"

fun steady_step :: "'d chat_env \<Rightarrow> nat \<Rightarrow> session_input \<Rightarrow> nat \<Rightarrow> nat option \<Rightarrow> nat \<Rightarrow>
    'd chat_client \<Rightarrow> 'd session_result option" where
  "steady_step env now (InBytes bs) last_frame deadline turn s = Some (on_steady_bytes env now bs s)"
| "steady_step env now InClosed last_frame deadline turn s = Some (Inl Reconnect, s)"
| "steady_step env now InNudge last_frame deadline turn s =
     (if cc_nudge s
      then Some (keep (Steady last_frame deadline now) (push_pending env (s\<lparr>cc_nudge := False\<rparr>)))
      else None)"
| "steady_step env now InBeat last_frame deadline turn s =
     (case cc_presence_out s of
        [] \<Rightarrow> None
      | beat # rest \<Rightarrow>
          Some (keep (Steady last_frame deadline now)
                 (send_beat env beat (s\<lparr>cc_presence_out := rest\<rparr>))))"
| "steady_step env now InProbe last_frame deadline turn s =
     (if cc_probe s then Some (probe_turn env now last_frame deadline (s\<lparr>cc_probe := False\<rparr>))
      else None)"
| "steady_step env now InRedial last_frame deadline turn s =
     (if cc_redial s then Some (Inl Reconnect, s\<lparr>cc_redial := False\<rparr>) else None)"
| "steady_step env now InRetry last_frame deadline turn s =
     (if (case cc_retry_at s of Some t \<Rightarrow> t | None \<Rightarrow> turn + a_day) \<le> now
      then Some (keep (Steady last_frame deadline now) (push_head env (s\<lparr>cc_retry_at := None\<rparr>)))
      else None)"
| "steady_step env now InQuiet last_frame deadline turn s =
     (if last_frame + ce_probe_quiet env \<le> now then Some (probe_turn env now now deadline s) else None)"
| "steady_step env now InDeadline last_frame deadline turn s =
     (if (case deadline of Some t \<Rightarrow> t | None \<Rightarrow> turn + a_day) \<le> now
      then Some (Inl Reconnect, s) else None)"
| "steady_step env now InShutdown last_frame deadline turn s =
     (if cc_shutdown s then Some (Inl Stop, s) else None)"
| "steady_step env now i last_frame deadline turn s = None"

fun session_step :: "'d chat_env \<Rightarrow> nat \<Rightarrow> session_input \<Rightarrow> session_phase \<Rightarrow> 'd chat_client \<Rightarrow>
    'd session_result option" where
  "session_step env now i (Handshake cursor) s =
     (case i of
        InBytes bs \<Rightarrow> Some (on_handshake_bytes env cursor bs s)
      | InClosed \<Rightarrow> Some (Inl Reconnect, s)
      | InTimeout \<Rightarrow> Some (Inl Reconnect, s)
      | _ \<Rightarrow> None)"
| "session_step env now i (Fetching cursor state) s =
     (case i of
        InFetched r \<Rightarrow> Some (on_fetched env cursor state r s)
      | InTimeout \<Rightarrow> Some (Inl Reconnect, s)
      | InShutdown \<Rightarrow> if cc_shutdown s then Some (Inl Stop, s) else None
      | _ \<Rightarrow> None)"
| "session_step env now i Backfilling s =
     (case i of
        InBytes bs \<Rightarrow> Some (on_backfill_bytes env now bs s)
      | InClosed \<Rightarrow> Some (Inl Reconnect, s)
      | InTimeout \<Rightarrow> Some (Inl Reconnect, s)
      | _ \<Rightarrow> None)"
| "session_step env now i (Steady last_frame deadline turn) s =
     steady_step env now i last_frame deadline turn s"

subsection \<open>The reconnect loop\<close>

datatype waited = Elapsed | Woke | Shutdown

datatype run_phase = Dialing | InSession session_phase | BackingOff | Returned

datatype run_input = Dialed nat | DialFailed sync_error | DialTimedOut | Session session_input
  | WaitEnds waited | HostUpdate string bytes | HostBeat int bytes | HostProbe | HostRedial
  | HostNote nat nat | HostShutdown

record 'd run_state =
  rs_phase :: run_phase
  rs_backoff :: nat
  rs_client :: "'d chat_client"

text \<open>\<^verbatim>\<open>backoff\<close> after a wait: a wake starts afresh, a full wait doubles up to the cap.\<close>

fun next_backoff :: "waited \<Rightarrow> nat \<Rightarrow> nat" where
  "next_backoff Elapsed backoff = min (backoff * 2) backoff_cap"
| "next_backoff Woke backoff = backoff_base"
| "next_backoff Shutdown backoff = backoff"

definition dial_failed :: "sync_error \<Rightarrow> 'd run_state \<Rightarrow> 'd run_state" where
  "dial_failed err r =
     (if cc_ready (rs_client r) = None
      then r\<lparr>rs_phase := Returned, rs_client := (rs_client r)\<lparr>cc_ready := Some (Inl err)\<rparr>\<rparr>
      else r\<lparr>rs_phase := BackingOff\<rparr>)"

definition session_over :: "session_end \<Rightarrow> 'd run_state \<Rightarrow> 'd run_state" where
  "session_over e r =
     (case e of
        Stop \<Rightarrow> r\<lparr>rs_phase := Returned\<rparr>
      | Reconnect \<Rightarrow>
          let s = rs_client r; was_joined = cc_connected s;
              s = emit Disconnected (s\<lparr>cc_connected := False, cc_disconnects := cc_disconnects s + 1\<rparr>)
          in if cc_ready s = None
             then r\<lparr>rs_phase := Returned,
                    rs_client := s\<lparr>cc_ready := Some (Inl (Protocol ''chat2 handshake failed''))\<rparr>\<rparr>
             else r\<lparr>rs_phase := BackingOff, rs_client := s,
                    rs_backoff := (if was_joined then backoff_base else rs_backoff r)\<rparr>)"

definition enter_session :: "'d session_result \<Rightarrow> 'd run_state \<Rightarrow> 'd run_state" where
  "enter_session res r =
     (case res of
        (Inl e, s) \<Rightarrow> session_over e (r\<lparr>rs_client := s\<rparr>)
      | (Inr ph, s) \<Rightarrow> r\<lparr>rs_phase := InSession ph, rs_client := s\<rparr>)"

definition wait_ends :: "waited \<Rightarrow> 'd run_state \<Rightarrow> 'd run_state" where
  "wait_ends w r =
     (if w = Shutdown \<or> cc_shutdown (rs_client r) then r\<lparr>rs_phase := Returned\<rparr>
      else r\<lparr>rs_phase := Dialing, rs_backoff := next_backoff w (rs_backoff r)\<rparr>)"

definition host_op :: "('d chat_client \<Rightarrow> 'd chat_client) \<Rightarrow> 'd run_state \<Rightarrow> 'd run_state" where
  "host_op f r = r\<lparr>rs_client := f (rs_client r)\<rparr>"

fun run_step :: "'d chat_env \<Rightarrow> nat \<times> run_input \<Rightarrow> 'd run_state \<Rightarrow> 'd run_state option" where
  "run_step env (now, HostUpdate uuid bs) r = Some (host_op (enqueue_update uuid bs) r)"
| "run_step env (now, HostBeat at payload) r = Some (host_op (send_presence at payload) r)"
| "run_step env (now, HostProbe) r = Some (host_op probe_now r)"
| "run_step env (now, HostRedial) r = Some (host_op redial_now r)"
| "run_step env (now, HostNote sq sz) r = Some (host_op (note_checkpoint sq sz) r)"
| "run_step env (now, HostShutdown) r = Some (host_op shutdown_now r)"
| "run_step env (now, Dialed sends) r =
     (if rs_phase r = Dialing
      then Some (enter_session (start_session env ((rs_client r)\<lparr>cc_sends_left := sends\<rparr>)) r)
      else None)"
| "run_step env (now, DialFailed err) r =
     (if rs_phase r = Dialing then Some (dial_failed err r) else None)"
| "run_step env (now, DialTimedOut) r =
     (if rs_phase r = Dialing then Some (dial_failed (WebSocket ''connect timeout'') r) else None)"
| "run_step env (now, WaitEnds w) r =
     (if rs_phase r = BackingOff \<and> (w = Shutdown \<longrightarrow> cc_shutdown (rs_client r))
      then Some (wait_ends w r) else None)"
| "run_step env (now, Session i) r =
     (case rs_phase r of
        InSession ph \<Rightarrow> map_option (\<lambda>res. enter_session res r) (session_step env now i ph (rs_client r))
      | _ \<Rightarrow> None)"

fun run_all :: "'d chat_env \<Rightarrow> (nat \<times> run_input) list \<Rightarrow> 'd run_state \<Rightarrow> 'd run_state option" where
  "run_all env [] r = Some r"
| "run_all env (i # is) r = (case run_step env i r of None \<Rightarrow> None | Some r' \<Rightarrow> run_all env is r')"

definition run_start :: "nat \<Rightarrow> 'd \<Rightarrow> 'd run_state" where
  "run_start initial_cursor d =
     \<lparr>rs_phase = Dialing, rs_backoff = backoff_base, rs_client = connect_with_tuned initial_cursor d\<rparr>"

subsection \<open>Frame lemmas\<close>

text \<open>A send touches the socket only.\<close>

lemma pipe_send_frame:
  "cc_cursor (snd (pipe_send f s)) = cc_cursor s" "cc_pending (snd (pipe_send f s)) = cc_pending s"
  "cc_ready (snd (pipe_send f s)) = cc_ready s" "cc_resumed (snd (pipe_send f s)) = cc_resumed s"
  "cc_doc (snd (pipe_send f s)) = cc_doc s" "cc_retry_at (snd (pipe_send f s)) = cc_retry_at s"
  "cc_quota_blocked (snd (pipe_send f s)) = cc_quota_blocked s"
  by (simp_all add: pipe_send_def split: nat.splits)

lemma pipe_send_all_frame:
  "cc_cursor (snd (pipe_send_all fs s)) = cc_cursor s \<and>
   cc_pending (snd (pipe_send_all fs s)) = cc_pending s \<and>
   cc_ready (snd (pipe_send_all fs s)) = cc_ready s \<and>
   cc_resumed (snd (pipe_send_all fs s)) = cc_resumed s \<and>
   cc_doc (snd (pipe_send_all fs s)) = cc_doc s"
proof (induction fs arbitrary: s)
  case (Cons f fs)
  obtain b s' where b: "pipe_send f s = (b, s')" by fastforce
  with pipe_send_frame [of f s] Cons.IH [of s'] show ?case by (cases b) simp_all
qed simp

lemma push_head_frame:
  "cc_cursor (snd (push_head env s)) = cc_cursor s" "cc_pending (snd (push_head env s)) = cc_pending s"
  "cc_ready (snd (push_head env s)) = cc_ready s" "cc_resumed (snd (push_head env s)) = cc_resumed s"
  "cc_doc (snd (push_head env s)) = cc_doc s"
  by (simp_all add: push_head_def pipe_send_frame split: list.splits)

lemma emit_frame [simp]:
  "cc_cursor (emit e s) = cc_cursor s" "cc_pending (emit e s) = cc_pending s"
  "cc_ready (emit e s) = cc_ready s" "cc_resumed (emit e s) = cc_resumed s"
  "cc_doc (emit e s) = cc_doc s" "cc_sends_left (emit e s) = cc_sends_left s"
  "cc_sent (emit e s) = cc_sent s" "cc_connected (emit e s) = cc_connected s"
  "cc_quota_blocked (emit e s) = cc_quota_blocked s" "cc_retry_at (emit e s) = cc_retry_at s"
  by (simp_all add: emit_def)

lemma joined_frame [simp]:
  "cc_cursor (joined c st s) = cc_cursor s" "cc_pending (joined c st s) = cc_pending s"
  "cc_ready (joined c st s) = cc_ready s" "cc_resumed (joined c st s) = cc_resumed s"
  "cc_doc (joined c st s) = cc_doc s"
  by (simp_all add: joined_def Let_def)

lemma send_probe_frame:
  "send_probe env now d s = (b, d', s') \<Longrightarrow>
     cc_pending s' = cc_pending s \<and> cc_ready s' = cc_ready s \<and> cc_resumed s' = cc_resumed s \<and>
     cc_cursor s' = cc_cursor s \<and> cc_doc s' = cc_doc s"
  using pipe_send_frame [of "encode (ce_to_vec env) ft_probe (JObj []) []" s]
  by (auto simp: send_probe_def split: prod.splits bool.splits)

lemma request_rows_frame:
  "cc_pending (snd (request_rows env c a s)) = cc_pending s"
  "cc_ready (snd (request_rows env c a s)) = cc_ready s"
  "cc_resumed (snd (request_rows env c a s)) = cc_resumed s"
  "cc_doc (snd (request_rows env c a s)) = cc_doc s"
  "cc_cursor (snd (request_rows env c a s)) = (if a < c then a else cc_cursor s)"
proof -
  let ?s = "if a < c then s\<lparr>cc_cursor := a\<rparr> else s"
  let ?f = "encode (ce_to_vec env) ft_rows_req (rows_req_header a (cc_resumed ?s)) []"
  have e: "snd (request_rows env c a s) = snd (pipe_send ?f ?s)"
    by (simp add: request_rows_def Let_def split: prod.splits bool.splits)
  show "cc_pending (snd (request_rows env c a s)) = cc_pending s"
    "cc_ready (snd (request_rows env c a s)) = cc_ready s"
    "cc_resumed (snd (request_rows env c a s)) = cc_resumed s"
    "cc_doc (snd (request_rows env c a s)) = cc_doc s"
    "cc_cursor (snd (request_rows env c a s)) = (if a < c then a else cc_cursor s)"
    unfolding e pipe_send_frame by simp_all
qed

lemma start_session_frame:
  "cc_pending (snd (start_session env s)) = cc_pending s"
  "cc_ready (snd (start_session env s)) = cc_ready s"
  "cc_resumed (snd (start_session env s)) = cc_resumed s"
  "cc_doc (snd (start_session env s)) = cc_doc s" "cc_cursor (snd (start_session env s)) = cc_cursor s"
proof -
  have e: "snd (start_session env s) =
      snd (pipe_send (encode (ce_to_vec env) ft_hello (hello_header (cc_cursor s) (ce_device env)) []) s)"
    by (simp add: start_session_def Let_def split: prod.splits bool.splits)
  show "cc_pending (snd (start_session env s)) = cc_pending s"
    "cc_ready (snd (start_session env s)) = cc_ready s"
    "cc_resumed (snd (start_session env s)) = cc_resumed s"
    "cc_doc (snd (start_session env s)) = cc_doc s"
    "cc_cursor (snd (start_session env s)) = cc_cursor s"
    unfolding e pipe_send_frame by simp_all
qed

lemma keep_snd [simp]: "snd (keep ph r) = snd r"
  by (simp add: keep_def split: prod.splits bool.splits)

lemma enter_session_client:
  "cc_pending (rs_client (enter_session res r)) = cc_pending (snd res)"
  "cc_cursor (rs_client (enter_session res r)) = cc_cursor (snd res)"
  "cc_resumed (rs_client (enter_session res r)) = cc_resumed (snd res)"
  "cc_doc (rs_client (enter_session res r)) = cc_doc (snd res)"
  "cc_ready (snd res) \<noteq> None \<Longrightarrow> cc_ready (rs_client (enter_session res r)) = cc_ready (snd res)"
  by (auto simp: enter_session_def session_over_def Let_def split: prod.splits sum.splits session_end.splits)

subsection \<open>The push queue\<close>

text \<open>A frame that settles a batch: its acknowledgement, or a permanent rejection that names it.\<close>

definition settles :: "wire_frame \<Rightarrow> string \<Rightarrow> bool" where
  "settles f b \<longleftrightarrow>
     (wf_kind f = ft_ack \<and> map_option ah_batch_id (ack_header_of (wf_header f)) = Some b) \<or>
     (wf_kind f = ft_error \<and> b \<noteq> '''' \<and> header_str (wf_header f) ''batchId'' = Some b \<and>
      header_str (wf_header f) ''code'' \<in> {Some ''too_large'', Some ''empty'', Some ''bad_push''})"

definition settles_input :: "'d chat_env \<Rightarrow> run_input \<Rightarrow> string \<Rightarrow> bool" where
  "settles_input env i b \<longleftrightarrow>
     (case i of
        Session (InBytes bs) \<Rightarrow> (case decode (ce_from_slice env) bs of None \<Rightarrow> False | Some f \<Rightarrow> settles f b)
      | _ \<Rightarrow> False)"

definition accepted :: "run_input \<Rightarrow> (string \<times> bytes) list" where
  "accepted i = (case i of
     HostUpdate uuid bs \<Rightarrow> if length bs > max_push_bytes then [] else [(uuid, bs)] | _ \<Rightarrow> [])"

lemma on_error_pending:
  "cc_pending (on_error now h s) =
     [p \<leftarrow> cc_pending s. \<not> settles \<lparr>wf_kind = ft_error, wf_header = h, wf_payload = x\<rparr> (fst p)]"
proof (cases "header_str h ''code'' \<in> {Some ''too_large'', Some ''empty'', Some ''bad_push''}")
  case True
  show ?thesis
  proof (cases "header_str h ''batchId''")
    case None
    then show ?thesis by (auto simp: on_error_def Let_def settles_def frame_types)
  next
    case (Some b)
    with True have "settles \<lparr>wf_kind = ft_error, wf_header = h, wf_payload = x\<rparr> c \<longleftrightarrow>
        c = b \<and> b \<noteq> []" for c
      by (auto simp: settles_def frame_types)
    moreover have "cc_pending (on_error now h s) = (if b = [] then cc_pending s else retire b (cc_pending s))"
    proof -
      obtain c where c: "header_str h ''code'' = Some c" "c \<in> {''too_large'', ''empty'', ''bad_push''}"
        using True by auto
      show ?thesis unfolding on_error_def Let_def c(1) Some option.case using c(2) by simp
    qed
    ultimately show ?thesis by (simp add: retire_def)
  qed
next
  case False
  then have "cc_pending (on_error now h s) = cc_pending s"
    by (auto simp: on_error_def Let_def split: option.splits)
  with False show ?thesis by (simp add: settles_def frame_types)
qed

lemma handle_frame_pending:
  "cc_pending (snd (handle_frame env now f s)) = [p \<leftarrow> cc_pending s. \<not> settles f (fst p)]"
proof -
  obtain k h x where f: "f = \<lparr>wf_kind = k, wf_header = h, wf_payload = x\<rparr>" by (cases f)
  consider "k = ft_ack" | "k = ft_error" | "k \<noteq> ft_ack" "k \<noteq> ft_error" by blast
  then show ?thesis
  proof cases
    case 1
    show ?thesis
    proof (cases "ack_header_of h")
      case (Some a)
      have "cc_pending (on_ack env now a s) = retire (ah_batch_id a) (cc_pending s)"
        by (simp add: on_ack_def Let_def)
      moreover have "settles f b \<longleftrightarrow> b = ah_batch_id a" for b
        using Some by (auto simp: f 1 settles_def frame_types)
      ultimately show ?thesis
        using Some by (simp add: f 1 handle_frame_def frame_types retire_def)
    qed (simp add: f 1 handle_frame_def settles_def frame_types)
  next
    case 2
    have "snd (handle_frame env now f s) = on_error now h s"
      unfolding f 2 by (simp add: handle_frame_def frame_types)
    then show ?thesis unfolding f 2 by (simp add: on_error_pending)
  next
    case 3
    then have "\<not> settles f b" for b by (simp add: f settles_def)
    moreover have "cc_pending (snd (handle_frame env now f s)) = cc_pending s"
      using 3 unfolding f
      by (simp add: handle_frame_def on_row_def on_probe_ok_def split: option.splits)
    ultimately show ?thesis by simp
  qed
qed

lemma push_pending_frame:
  "cc_cursor (snd (push_pending env s)) = cc_cursor s" "cc_pending (snd (push_pending env s)) = cc_pending s"
  "cc_ready (snd (push_pending env s)) = cc_ready s" "cc_resumed (snd (push_pending env s)) = cc_resumed s"
  "cc_doc (snd (push_pending env s)) = cc_doc s"
  using pipe_send_all_frame [of "map (push_frame env) (cc_pending s)" s] by (simp_all add: push_pending_def)

lemma caught_up_frame:
  "cc_pending (snd (caught_up env now h s)) = cc_pending s"
  "cc_cursor (snd (caught_up env now h s)) = cc_cursor s"
  "cc_doc (snd (caught_up env now h s)) = cc_doc s"
  "cc_resumed (snd (caught_up env now h s))"
  "cc_ready (snd (caught_up env now h s)) = (if cc_ready s = None then Some (Inr ()) else cc_ready s)"
proof -
  let ?s = "emit (CaughtUp h) (if cc_ready s = None then s\<lparr>cc_resumed := True, cc_ready := Some (Inr ())\<rparr>
    else s\<lparr>cc_resumed := True\<rparr>)"
  have e: "snd (caught_up env now h s) = snd (push_pending env ?s)"
    by (cases "cc_ready s") (simp_all add: caught_up_def Let_def split: prod.splits bool.splits)
  show "cc_pending (snd (caught_up env now h s)) = cc_pending s"
    "cc_cursor (snd (caught_up env now h s)) = cc_cursor s"
    "cc_doc (snd (caught_up env now h s)) = cc_doc s" "cc_resumed (snd (caught_up env now h s))"
    "cc_ready (snd (caught_up env now h s)) = (if cc_ready s = None then Some (Inr ()) else cc_ready s)"
    unfolding e push_pending_frame by simp_all
qed

lemma on_state_frame:
  "cc_pending (snd (on_state env c f s)) = cc_pending s"
  "cc_ready (snd (on_state env c f s)) = cc_ready s"
  "cc_resumed (snd (on_state env c f s)) = cc_resumed s"
  "cc_doc (snd (on_state env c f s)) = cc_doc s"
  by (simp_all add: on_state_def Let_def request_rows_frame split: option.splits catch_up_plan.splits)

lemma on_fetched_frame:
  "cc_pending (snd (on_fetched env c st r s)) = cc_pending s"
  "cc_ready (snd (on_fetched env c st r s)) = cc_ready s"
  "cc_resumed (snd (on_fetched env c st r s)) = cc_resumed s"
  by (simp_all add: on_fetched_def request_rows_frame split: sum.splits prod.splits)

lemma steady_step_pending:
  assumes "steady_step env now i l d t s = Some res"
  shows "\<exists>Q. cc_pending (snd res) = filter Q (cc_pending s) \<and>
    (\<forall>p. \<not> Q p \<longrightarrow> settles_input env (Session i) (fst p))"
proof (cases i)
  case (InBytes bs)
  show ?thesis
  proof (cases "decode (ce_from_slice env) bs")
    case None
    with assms InBytes show ?thesis
      by (intro exI [of _ "\<lambda>_. True"]) (auto simp: on_steady_bytes_def)
  next
    case (Some f)
    with assms InBytes show ?thesis
      by (intro exI [of _ "\<lambda>p. \<not> settles f (fst p)"])
        (auto simp: on_steady_bytes_def handle_frame_pending settles_input_def)
  qed
next
  case InBeat
  with assms show ?thesis
    by (intro exI [of _ "\<lambda>_. True"]) (auto simp: send_beat_def pipe_send_frame split: list.splits)
next
  case InProbe
  with assms show ?thesis
    by (intro exI [of _ "\<lambda>_. True"])
      (auto simp: probe_turn_def dest: send_probe_frame split: if_splits prod.splits)
next
  case InQuiet
  with assms show ?thesis
    by (intro exI [of _ "\<lambda>_. True"])
      (auto simp: probe_turn_def dest: send_probe_frame split: if_splits prod.splits)
next
  case InRetry
  with assms show ?thesis
    by (intro exI [of _ "\<lambda>_. True"]) (auto simp: push_head_frame split: if_splits)
qed (use assms in \<open>intro exI [of _ "\<lambda>_. True"], auto simp: push_pending_frame split: if_splits\<close>)+

lemma session_step_pending:
  assumes "session_step env now i ph s = Some res"
  shows "\<exists>Q. cc_pending (snd res) = filter Q (cc_pending s) \<and>
    (\<forall>p. \<not> Q p \<longrightarrow> settles_input env (Session i) (fst p))"
proof (cases ph)
  case (Handshake c)
  with assms show ?thesis
    by (intro exI [of _ "\<lambda>_. True"])
      (auto simp: on_handshake_bytes_def on_state_frame split: session_input.splits option.splits if_splits)
next
  case (Fetching c st)
  with assms show ?thesis
    by (intro exI [of _ "\<lambda>_. True"])
      (auto simp: on_fetched_frame split: session_input.splits if_splits)
next
  case Backfilling
  show ?thesis
  proof (cases "\<exists>bs f. i = InBytes bs \<and> decode (ce_from_slice env) bs = Some f \<and> wf_kind f \<noteq> ft_rows_done")
    case True
    then obtain bs f where b: "i = InBytes bs" "decode (ce_from_slice env) bs = Some f"
      "wf_kind f \<noteq> ft_rows_done" by blast
    then have "snd res = snd (handle_frame env now f s)"
      using assms Backfilling by (auto simp: on_backfill_bytes_def split: prod.splits bool.splits)
    then show ?thesis
      using b by (intro exI [of _ "\<lambda>p. \<not> settles f (fst p)"])
        (auto simp: handle_frame_pending settles_input_def)
  next
    case False
    with assms Backfilling show ?thesis
      by (intro exI [of _ "\<lambda>_. True"])
        (auto simp: on_backfill_bytes_def caught_up_frame split: session_input.splits option.splits)
  qed
next
  case (Steady l d t)
  with assms steady_step_pending show ?thesis by simp
qed

text \<open>
C9. A batch the host queued leaves the queue only by its own verdict: in every step of the client,
  connected or not, a batch that is dropped was named by an acknowledgement or a permanent rejection
  received in that step, the kept ones keep their order, and only an accepted update is added, at the
  end. A lost connection, a refused send or a quota error loses nothing.
\<close>

theorem pending_until_verdict:
  assumes "run_step env (now, i) r = Some r'"
  shows "\<exists>Q. cc_pending (rs_client r') = filter Q (cc_pending (rs_client r)) @ accepted i \<and>
    (\<forall>p. \<not> Q p \<longrightarrow> settles_input env i (fst p))"
proof (cases i)
  case (Session j)
  with assms obtain ph res where "rs_phase r = InSession ph"
    and st: "session_step env now j ph (rs_client r) = Some res" and r': "r' = enter_session res r"
    by (auto split: run_phase.splits)
  from session_step_pending [OF st] Session show ?thesis
    by (simp add: r' enter_session_client accepted_def)
next
  case (Dialed n)
  with assms show ?thesis
    by (intro exI [of _ "\<lambda>_. True"])
      (auto simp: enter_session_client start_session_frame accepted_def split: if_splits)
qed (use assms in \<open>intro exI [of _ "\<lambda>_. True"],
  auto simp: host_op_def enqueue_update_def send_presence_def probe_now_def redial_now_def
    note_checkpoint_def shutdown_now_def dial_failed_def wait_ends_def accepted_def Let_def split: if_splits\<close>)+

subsection \<open>A codec for the examples\<close>

definition demo_headers :: "(bytes \<times> json) list" where
  "demo_headers =
     [(''empty room'', JObj [(''headSeq'', JInt 0), (''seqFloor'', JInt 0), (''checkpointSeq'', JInt 0),
         (''checkpointSize'', JInt 0)]),
      (''room at 2'', JObj [(''headSeq'', JInt 2), (''seqFloor'', JInt 0), (''checkpointSeq'', JInt 0),
         (''checkpointSize'', JInt 0)]),
      (''room at 3'', JObj [(''headSeq'', JInt 3), (''seqFloor'', JInt 0), (''checkpointSeq'', JInt 0),
         (''checkpointSize'', JInt 0)]),
      (''row 1'', JObj [(''seq'', JInt 1), (''device'', JStr ''d''), (''batchId'', JStr ''r1'')]),
      (''row 2'', JObj [(''seq'', JInt 2), (''device'', JStr ''d''), (''batchId'', JStr ''r2'')]),
      (''row 3'', JObj [(''seq'', JInt 3), (''device'', JStr ''d''), (''batchId'', JStr ''r3'')]),
      (''done 2'', JObj [(''headSeq'', JInt 2)]),
      (''ack a'', JObj [(''batchId'', JStr ''a''), (''seq'', JInt 3)]),
      (''ack b'', JObj [(''batchId'', JStr ''b''), (''seq'', JInt 4)]),
      (''quota a'', JObj [(''code'', JStr ''quota''), (''batchId'', JStr ''a'')]),
      (''large a'', JObj [(''code'', JStr ''too_large''), (''batchId'', JStr ''a'')])]"

definition log_sink :: "(bytes \<times> nat) list chat_doc_sink" where
  "log_sink = \<lparr>sk_apply_row = (\<lambda>b n d. d @ [(b, n)]), sk_apply_checkpoint = (\<lambda>b n d. (Inr (), d @ [(b, n)])),
     sk_contains_frontier = (\<lambda>_ _. True), sk_advance_cursor = (\<lambda>_ d. d)\<rparr>"

definition demo_chat_env :: "'d chat_doc_sink \<Rightarrow> 'd chat_env" where
  "demo_chat_env k = \<lparr>ce_to_vec = (\<lambda>_. ''h''), ce_from_slice = map_of demo_headers, ce_sink = k,
     ce_device = ''me'', ce_probe_quiet = probe_quiet_default\<rparr>"

definition demo_frame :: "nat \<Rightarrow> bytes \<Rightarrow> bytes \<Rightarrow> bytes" where
  "demo_frame k h p = char_of k # le_bytes (length h) @ h @ p"

lemma demo_env_sel [simp]: "ce_sink (demo_chat_env k) = k" "ce_from_slice (demo_chat_env k) = map_of demo_headers"
  "ce_probe_quiet (demo_chat_env k) = probe_quiet_default"
  by (simp_all add: demo_chat_env_def)

lemma decode_demo:
  assumes "map_of demo_headers h = Some (JObj fs)" "length h \<le> 20" "k < 256"
  shows "decode (map_of demo_headers) (demo_frame k h p) =
    Some \<lparr>wf_kind = k, wf_header = JObj fs, wf_payload = p\<rparr>"
  unfolding demo_frame_def using assms by (intro decode_frame) (simp_all add: max_header_bytes_def)

lemma decode_demo_eqs:
  "decode (map_of demo_headers) (demo_frame ft_state ''empty room'' p) = Some \<lparr>wf_kind = ft_state,
     wf_header = JObj [(''headSeq'', JInt 0), (''seqFloor'', JInt 0), (''checkpointSeq'', JInt 0),
       (''checkpointSize'', JInt 0)], wf_payload = p\<rparr>"
  "decode (map_of demo_headers) (demo_frame ft_state ''room at 2'' p) = Some \<lparr>wf_kind = ft_state,
     wf_header = JObj [(''headSeq'', JInt 2), (''seqFloor'', JInt 0), (''checkpointSeq'', JInt 0),
       (''checkpointSize'', JInt 0)], wf_payload = p\<rparr>"
  "decode (map_of demo_headers) (demo_frame ft_state ''room at 3'' p) = Some \<lparr>wf_kind = ft_state,
     wf_header = JObj [(''headSeq'', JInt 3), (''seqFloor'', JInt 0), (''checkpointSeq'', JInt 0),
       (''checkpointSize'', JInt 0)], wf_payload = p\<rparr>"
  "decode (map_of demo_headers) (demo_frame ft_row ''row 1'' p) = Some \<lparr>wf_kind = ft_row,
     wf_header = JObj [(''seq'', JInt 1), (''device'', JStr ''d''), (''batchId'', JStr ''r1'')], wf_payload = p\<rparr>"
  "decode (map_of demo_headers) (demo_frame ft_row ''row 2'' p) = Some \<lparr>wf_kind = ft_row,
     wf_header = JObj [(''seq'', JInt 2), (''device'', JStr ''d''), (''batchId'', JStr ''r2'')], wf_payload = p\<rparr>"
  "decode (map_of demo_headers) (demo_frame ft_row ''row 3'' p) = Some \<lparr>wf_kind = ft_row,
     wf_header = JObj [(''seq'', JInt 3), (''device'', JStr ''d''), (''batchId'', JStr ''r3'')], wf_payload = p\<rparr>"
  "decode (map_of demo_headers) (demo_frame ft_rows_done ''done 2'' p) = Some \<lparr>wf_kind = ft_rows_done,
     wf_header = JObj [(''headSeq'', JInt 2)], wf_payload = p\<rparr>"
  "decode (map_of demo_headers) (demo_frame ft_ack ''ack a'' p) = Some \<lparr>wf_kind = ft_ack,
     wf_header = JObj [(''batchId'', JStr ''a''), (''seq'', JInt 3)], wf_payload = p\<rparr>"
  "decode (map_of demo_headers) (demo_frame ft_ack ''ack b'' p) = Some \<lparr>wf_kind = ft_ack,
     wf_header = JObj [(''batchId'', JStr ''b''), (''seq'', JInt 4)], wf_payload = p\<rparr>"
  "decode (map_of demo_headers) (demo_frame ft_error ''quota a'' p) = Some \<lparr>wf_kind = ft_error,
     wf_header = JObj [(''code'', JStr ''quota''), (''batchId'', JStr ''a'')], wf_payload = p\<rparr>"
  "decode (map_of demo_headers) (demo_frame ft_error ''large a'' p) = Some \<lparr>wf_kind = ft_error,
     wf_header = JObj [(''code'', JStr ''too_large''), (''batchId'', JStr ''a'')], wf_payload = p\<rparr>"
  by (rule decode_demo; simp add: demo_headers_def frame_types)+

lemmas decode_demo_num = decode_demo_eqs [unfolded frame_types]

text \<open>The headers of the examples, read.\<close>

lemma demo_reads:
  "state_header_of (JObj [(''headSeq'', JInt 0), (''seqFloor'', JInt 0), (''checkpointSeq'', JInt 0),
     (''checkpointSize'', JInt 0)]) = Some \<lparr>st_head_seq = 0, st_seq_floor = 0, st_checkpoint_seq = 0,
       st_checkpoint_size = 0, st_row_count = 0, st_row_bytes = 0\<rparr>"
  "state_header_of (JObj [(''headSeq'', JInt 2), (''seqFloor'', JInt 0), (''checkpointSeq'', JInt 0),
     (''checkpointSize'', JInt 0)]) = Some \<lparr>st_head_seq = 2, st_seq_floor = 0, st_checkpoint_seq = 0,
       st_checkpoint_size = 0, st_row_count = 0, st_row_bytes = 0\<rparr>"
  "state_header_of (JObj [(''headSeq'', JInt 3), (''seqFloor'', JInt 0), (''checkpointSeq'', JInt 0),
     (''checkpointSize'', JInt 0)]) = Some \<lparr>st_head_seq = 3, st_seq_floor = 0, st_checkpoint_seq = 0,
       st_checkpoint_size = 0, st_row_count = 0, st_row_bytes = 0\<rparr>"
  "row_header_of (JObj [(''seq'', JInt 1), (''device'', JStr ''d''), (''batchId'', JStr ''r1'')]) =
     Some \<lparr>rh_seq = 1, rh_device = ''d'', rh_batch_id = ''r1''\<rparr>"
  "row_header_of (JObj [(''seq'', JInt 2), (''device'', JStr ''d''), (''batchId'', JStr ''r2'')]) =
     Some \<lparr>rh_seq = 2, rh_device = ''d'', rh_batch_id = ''r2''\<rparr>"
  "row_header_of (JObj [(''seq'', JInt 3), (''device'', JStr ''d''), (''batchId'', JStr ''r3'')]) =
     Some \<lparr>rh_seq = 3, rh_device = ''d'', rh_batch_id = ''r3''\<rparr>"
  "rows_done_of (JObj [(''headSeq'', JInt 2)]) = Some 2"
  "ack_header_of (JObj [(''batchId'', JStr ''a''), (''seq'', JInt 3)]) =
     Some \<lparr>ah_batch_id = ''a'', ah_seq = 3, ah_dup = False\<rparr>"
  "ack_header_of (JObj [(''batchId'', JStr ''b''), (''seq'', JInt 4)]) =
     Some \<lparr>ah_batch_id = ''b'', ah_seq = 4, ah_dup = False\<rparr>"
  by (simp_all add: state_header_of_def row_header_of_def rows_done_of_def ack_header_of_def header_fields_def
      req_field_def default_field_def as_u64_def as_str_def as_bool_def Let_def)

lemma pending_until_verdict_witness:
  "\<exists>Q. cc_pending (rs_client (host_op (enqueue_update ''b'' ''update'')
        \<lparr>rs_phase = BackingOff, rs_backoff = 500,
         rs_client = (connect_with_tuned 7 ([] :: (bytes \<times> nat) list))\<lparr>cc_pending := [(''a'', ''x'')]\<rparr>\<rparr>)) =
      filter Q [(''a'', ''x'')] @ [(''b'', ''update'')] \<and>
    (\<forall>p. \<not> Q p \<longrightarrow> settles_input (demo_chat_env log_sink) (HostUpdate ''b'' ''update'') (fst p))"
  using pending_until_verdict [of "demo_chat_env log_sink" 0 "HostUpdate ''b'' ''update''"
      "\<lparr>rs_phase = BackingOff, rs_backoff = 500,
        rs_client = (connect_with_tuned 7 ([] :: (bytes \<times> nat) list))\<lparr>cc_pending := [(''a'', ''x'')]\<rparr>\<rparr>"]
  by (simp add: accepted_def max_push_bytes_def)

subsection \<open>Catching up\<close>

text \<open>
The rows a catch-up skips are rows the client has: with \<^const>\<open>RowsOnly\<close> a row at or below the
  requested point is covered by the client's own cursor, which is then not ahead of the server, or by
  a checkpoint its document already contains; and a checkpoint is fetched exactly when there is one
  that the document does not contain. A cursor ahead of the server counts for nothing.
\<close>

theorem plan_catch_up_covers:
  "(case plan_catch_up cursor st has of
      RowsOnly after \<Rightarrow> (st_checkpoint_size st = 0 \<or> has) \<and>
        (\<forall>n. 0 < n \<and> n \<le> after \<longrightarrow>
           (n \<le> cursor \<and> cursor \<le> st_head_seq st) \<or>
           (n \<le> st_checkpoint_seq st \<and> st_checkpoint_size st \<noteq> 0 \<and> has)) \<and>
        (cursor \<le> st_head_seq st \<longrightarrow> cursor \<le> after)
    | CheckpointThenRows after \<Rightarrow>
        st_checkpoint_size st \<noteq> 0 \<and> \<not> has \<and> after = st_checkpoint_seq st)"
  by (auto simp: plan_catch_up_def Let_def)

definition demo_room :: state_header where
  "demo_room = \<lparr>st_head_seq = 9, st_seq_floor = 5, st_checkpoint_seq = 5, st_checkpoint_size = 12,
     st_row_count = 4, st_row_bytes = 40\<rparr>"

lemma plan_catch_up_covers_witness:
  "plan_catch_up 3 demo_room True = RowsOnly 5 \<and>
   ((4 \<le> (3::nat) \<and> 3 \<le> st_head_seq demo_room) \<or>
    (4 \<le> st_checkpoint_seq demo_room \<and> st_checkpoint_size demo_room \<noteq> 0))"
proof -
  have p: "plan_catch_up 3 demo_room True = RowsOnly 5" by (simp add: plan_catch_up_def demo_room_def)
  show ?thesis
    using plan_catch_up_covers [where cursor = 3 and has = True and st = demo_room] p
    by (auto dest: spec [of _ 4])
qed

text \<open>The rows a list of frames hands to the document, and the sequence numbers that move the cursor.\<close>

definition row_seq :: "wire_frame \<Rightarrow> nat option" where
  "row_seq f = (if wf_kind f = ft_row then map_option rh_seq (row_header_of (wf_header f)) else None)"

definition ack_seq :: "wire_frame \<Rightarrow> nat option" where
  "ack_seq f = (if wf_kind f = ft_ack then map_option ah_seq (ack_header_of (wf_header f)) else None)"

fun handle_frames :: "'d chat_env \<Rightarrow> (nat \<times> wire_frame) list \<Rightarrow> 'd chat_client \<Rightarrow> bool \<times> 'd chat_client" where
  "handle_frames env [] s = (True, s)"
| "handle_frames env ((now, f) # fs) s =
     (case handle_frame env now f s of (False, s') \<Rightarrow> (False, s') | (True, s') \<Rightarrow> handle_frames env fs s')"

text \<open>What a server that sends in order promises: no row or acknowledgement leaps over a sequence
  number that is neither this device's own nor already at or below what it sent.\<close>

fun in_order :: "nat set \<Rightarrow> nat \<Rightarrow> wire_frame list \<Rightarrow> bool" where
  "in_order own n [] \<longleftrightarrow> True"
| "in_order own n (f # fs) \<longleftrightarrow>
     (case (row_seq f, ack_seq f) of
        (Some q, _) \<Rightarrow> {n<..<q} \<subseteq> own \<and> in_order own (max n q) fs
      | (None, Some q) \<Rightarrow> {n<..<q} \<subseteq> own \<and> q \<in> own \<and> in_order own (max n q) fs
      | _ \<Rightarrow> in_order own n fs)"

lemma handle_frame_cursor:
  "handle_frame env now f s = (True, s') \<Longrightarrow>
     cc_cursor s' = (case row_seq f of Some q \<Rightarrow> max (cc_cursor s) q
                     | None \<Rightarrow> (case ack_seq f of Some q \<Rightarrow> max (cc_cursor s) q | None \<Rightarrow> cc_cursor s))"
  by (auto simp: handle_frame_def row_seq_def ack_seq_def on_row_def on_ack_def on_probe_ok_def Let_def
      on_error_def split: if_splits option.splits)

lemma handle_frames_cursor_mono:
  "handle_frames env fs s = (True, s') \<Longrightarrow> cc_cursor s \<le> cc_cursor s'"
proof (induction fs arbitrary: s)
  case (Cons p fs)
  obtain now f where p: "p = (now, f)" by fastforce
  from Cons.prems obtain s1 where 1: "handle_frame env now f s = (True, s1)" "handle_frames env fs s1 = (True, s')"
    by (auto simp: p split: prod.splits bool.splits)
  have "cc_cursor s \<le> cc_cursor s1"
    using handle_frame_cursor [OF 1(1)] by (auto split: option.splits)
  with Cons.IH [OF 1(2)] show ?case by simp
qed simp



subsection \<open>The backoff\<close>

lemma run_step_backoff:
  assumes "run_step env i r = Some r'" "backoff_base \<le> rs_backoff r" "rs_backoff r \<le> backoff_cap"
  shows "backoff_base \<le> rs_backoff r' \<and> rs_backoff r' \<le> backoff_cap"
proof -
  obtain now j where i: "i = (now, j)" by fastforce
  have over: "backoff_base \<le> rs_backoff (enter_session res r) \<and> rs_backoff (enter_session res r) \<le> backoff_cap"
    for res using assms(2,3)
    by (auto simp: enter_session_def session_over_def Let_def backoff_base_def backoff_cap_def
        split: prod.splits sum.splits session_end.splits)
  show ?thesis
  proof (cases j)
    case (WaitEnds w)
    with assms i show ?thesis
      by (cases w) (auto simp: wait_ends_def backoff_base_def backoff_cap_def split: if_splits)
  next
    case (Dialed n)
    with assms(1) i have "r' = enter_session (start_session env ((rs_client r)\<lparr>cc_sends_left := n\<rparr>)) r"
      by (simp split: if_splits)
    with over show ?thesis by simp
  next
    case (Session k)
    with assms(1) i obtain res where "r' = enter_session res r" by (auto split: run_phase.splits)
    with over show ?thesis by simp
  qed (use assms i in \<open>auto simp: host_op_def dial_failed_def split: if_splits\<close>)
qed

text \<open>
The wait before a redial never leaves the range from 250 milliseconds to 30 seconds, in any run of
  the client.
\<close>

theorem backoff_in_range:
  assumes "run_all env is (run_start c d) = Some r"
  shows "rs_backoff r \<in> {250..30000}"
proof -
  have "run_all env is r0 = Some r \<Longrightarrow> backoff_base \<le> rs_backoff r0 \<Longrightarrow> rs_backoff r0 \<le> backoff_cap \<Longrightarrow>
      backoff_base \<le> rs_backoff r \<and> rs_backoff r \<le> backoff_cap" for r0
  proof (induction "is" arbitrary: r0)
    case (Cons i js)
    then obtain r1 where r1: "run_step env i r0 = Some r1" and "run_all env js r1 = Some r"
      by (auto split: option.splits)
    with Cons.IH run_step_backoff [OF r1 Cons.prems(2,3)] show ?case by blast
  qed simp
  from this [OF assms] show ?thesis by (simp add: run_start_def backoff_base_def backoff_cap_def)
qed

lemma backoff_in_range_witness:
  "rs_backoff (run_start 3 ([] :: (bytes \<times> nat) list)) \<in> {250..30000}"
  using backoff_in_range [of "demo_chat_env log_sink" "[]" 3 "[]" "run_start 3 []"] by simp

text \<open>Without a wake the waits double up to the cap.\<close>

lemma backoff_doubles: "(next_backoff Elapsed ^^ k) backoff_base = min (backoff_base * 2 ^ k) backoff_cap"
  by (induction k) (auto simp: backoff_base_def backoff_cap_def min_def)

subsection \<open>The first answer\<close>

lemma handle_frame_ready:
  "cc_ready (snd (handle_frame env now f s)) = cc_ready s \<and>
   cc_resumed (snd (handle_frame env now f s)) = cc_resumed s"
proof -
  have "cc_ready (on_error now h s) = cc_ready s \<and> cc_resumed (on_error now h s) = cc_resumed s" for h
    unfolding on_error_def Let_def by (simp split: if_split)
  then show ?thesis
    by (simp add: handle_frame_def on_row_def on_ack_def on_probe_ok_def Let_def split: option.splits)
qed

lemma on_backfill_ready:
  assumes "\<not> (\<exists>f h. decode (ce_from_slice env) bs = Some f \<and> wf_kind f = ft_rows_done \<and>
      rows_done_of (wf_header f) = Some h)"
  shows "cc_ready (snd (on_backfill_bytes env now bs s)) = cc_ready s \<and>
    cc_resumed (snd (on_backfill_bytes env now bs s)) = cc_resumed s"
proof (cases "decode (ce_from_slice env) bs")
  case (Some f)
  obtain b s' where h: "handle_frame env now f s = (b, s')" by fastforce
  with assms Some handle_frame_ready [of env now f s] show ?thesis
    by (cases b) (auto simp: on_backfill_bytes_def split: option.splits)
qed (simp add: on_backfill_bytes_def)

lemma steady_step_ready:
  "steady_step env now i l d t s = Some res \<Longrightarrow>
     cc_ready (snd res) = cc_ready s \<and> cc_resumed (snd res) = cc_resumed s"
proof (cases i)
  case (InBytes bs)
  moreover assume "steady_step env now i l d t s = Some res"
  ultimately show ?thesis
    by (auto simp: on_steady_bytes_def handle_frame_ready split: option.splits)
next
  case InBeat
  moreover assume "steady_step env now i l d t s = Some res"
  ultimately show ?thesis by (auto simp: send_beat_def pipe_send_frame split: list.splits)
next
  case InProbe
  moreover assume "steady_step env now i l d t s = Some res"
  ultimately show ?thesis
    by (auto simp: probe_turn_def dest: send_probe_frame split: if_splits prod.splits)
next
  case InQuiet
  moreover assume "steady_step env now i l d t s = Some res"
  ultimately show ?thesis
    by (auto simp: probe_turn_def dest: send_probe_frame split: if_splits prod.splits)
qed (auto simp: push_pending_frame push_head_frame split: if_splits)

text \<open>What a step of a session does to the answer and to the backfill mark: nothing, unless the step
  completes a backfill.\<close>

lemma session_step_ready:
  assumes "session_step env now i ph s = Some res"
  shows "(cc_ready (snd res) = cc_ready s \<and> cc_resumed (snd res) = cc_resumed s) \<or>
    (cc_resumed (snd res) \<and>
     cc_ready (snd res) = (if cc_ready s = None then Some (Inr ()) else cc_ready s))"
proof (cases ph)
  case (Handshake c)
  with assms show ?thesis
    by (auto simp: on_handshake_bytes_def on_state_frame split: session_input.splits option.splits if_splits)
next
  case (Fetching c st)
  with assms show ?thesis
    by (auto simp: on_fetched_frame split: session_input.splits if_splits)
next
  case Backfilling
  show ?thesis
  proof (cases "\<exists>bs. i = InBytes bs")
    case True
    then obtain bs where b: "i = InBytes bs" by blast
    show ?thesis
    proof (cases "\<exists>f h. decode (ce_from_slice env) bs = Some f \<and> wf_kind f = ft_rows_done \<and>
        rows_done_of (wf_header f) = Some h")
      case True
      then obtain f h where "decode (ce_from_slice env) bs = Some f" "wf_kind f = ft_rows_done"
        "rows_done_of (wf_header f) = Some h" by blast
      with assms b Backfilling have "res = caught_up env now h s" by (simp add: on_backfill_bytes_def)
      then show ?thesis by (simp add: caught_up_frame)
    next
      case False
      from on_backfill_ready [OF this] assms b Backfilling show ?thesis by auto
    qed
  next
    case False
    with assms Backfilling show ?thesis by (auto split: session_input.splits)
  qed
next
  case (Steady l d t)
  with assms have "steady_step env now i l d t s = Some res" by simp
  from steady_step_ready [OF this] show ?thesis by simp
qed

definition answer_inv :: "'d run_state \<Rightarrow> bool" where
  "answer_inv r \<longleftrightarrow>
     (cc_resumed (rs_client r) \<longrightarrow> cc_ready (rs_client r) = Some (Inr ())) \<and>
     (rs_phase r \<noteq> Returned \<longrightarrow> cc_ready (rs_client r) \<in> {None, Some (Inr ())})"

lemma enter_session_answer:
  assumes "cc_resumed (snd res) \<longrightarrow> cc_ready (snd res) = Some (Inr ())" "cc_ready (snd res) \<in> {None, Some (Inr ())}"
  shows "answer_inv (enter_session res r) \<and>
    (cc_ready (snd res) \<noteq> None \<longrightarrow> cc_ready (rs_client (enter_session res r)) = cc_ready (snd res))"
  using assms by (auto simp: answer_inv_def enter_session_def session_over_def Let_def
      split: prod.splits sum.splits session_end.splits)

lemma run_step_answer:
  assumes "run_step env i r = Some r'" "answer_inv r"
  shows "answer_inv r' \<and>
    (cc_ready (rs_client r) \<noteq> None \<longrightarrow> cc_ready (rs_client r') = cc_ready (rs_client r))"
proof -
  obtain now j where i: "i = (now, j)" by fastforce
  show ?thesis
  proof (cases j)
    case (Dialed n)
    let ?res = "start_session env ((rs_client r)\<lparr>cc_sends_left := n\<rparr>)"
    from Dialed assms(1) i have r': "r' = enter_session ?res r" and d: "rs_phase r = Dialing"
      by (simp_all split: if_splits)
    from assms(2) d have "cc_resumed (snd ?res) \<longrightarrow> cc_ready (snd ?res) = Some (Inr ())"
      "cc_ready (snd ?res) \<in> {None, Some (Inr ())}"
      by (simp_all add: answer_inv_def start_session_frame)
    from enter_session_answer [OF this, of r] show ?thesis by (simp add: r' start_session_frame)
  next
    case (Session k)
    with assms(1) i obtain ph res where d: "rs_phase r = InSession ph"
      and st: "session_step env now k ph (rs_client r) = Some res"
      and r': "r' = enter_session res r" by (auto split: run_phase.splits)
    have q: "cc_resumed (snd res) \<longrightarrow> cc_ready (snd res) = Some (Inr ())"
      "cc_ready (snd res) \<in> {None, Some (Inr ())}"
      "cc_ready (rs_client r) \<noteq> None \<longrightarrow> cc_ready (snd res) = cc_ready (rs_client r)"
      using session_step_ready [OF st] assms(2) d by (auto simp: answer_inv_def split: if_splits)
    from enter_session_answer [OF q(1,2), of r] q(3) show ?thesis by (auto simp: r')
  next
    case (WaitEnds w)
    with assms i show ?thesis by (auto simp: wait_ends_def answer_inv_def split: if_splits)
  next
    case (HostUpdate uuid bs)
    with assms i show ?thesis by (auto simp: host_op_def enqueue_update_def answer_inv_def split: if_splits)
  next
    case (HostBeat a p)
    with assms i show ?thesis by (auto simp: host_op_def send_presence_def answer_inv_def split: if_splits)
  qed (use assms i in \<open>auto simp: host_op_def probe_now_def redial_now_def note_checkpoint_def
      shutdown_now_def dial_failed_def answer_inv_def split: if_splits\<close>)
qed

text \<open>
Whoever connects a client gets one answer: once the first join has been answered, with success or
  with an error, no later step of the client changes the answer; and a client that ever completed a
  backfill answered success.
\<close>

theorem answered_once:
  assumes "run_all env is (run_start c d) = Some r1" "run_all env js r1 = Some r2"
  shows "(cc_ready (rs_client r1) \<noteq> None \<longrightarrow> cc_ready (rs_client r2) = cc_ready (rs_client r1)) \<and>
    (cc_resumed (rs_client r2) \<longrightarrow> cc_ready (rs_client r2) = Some (Inr ()))"
proof -
  have step: "answer_inv q \<Longrightarrow> run_all env ks q = Some q' \<Longrightarrow> answer_inv q' \<and>
      (cc_ready (rs_client q) \<noteq> None \<longrightarrow> cc_ready (rs_client q') = cc_ready (rs_client q))" for ks q q'
  proof (induction ks arbitrary: q)
    case (Cons i ks)
    from Cons.prems(2) obtain p where p: "run_step env i q = Some p" "run_all env ks p = Some q'"
      by (auto split: option.splits)
    note s = run_step_answer [OF p(1) Cons.prems(1)]
    from Cons.IH [OF _ p(2)] s show ?case by auto
  qed simp
  have "answer_inv (run_start c d)" by (simp add: answer_inv_def run_start_def connect_with_tuned_def)
  from step [OF this assms(1)] have "answer_inv r1" by blast
  from step [OF this assms(2)] show ?thesis by (simp add: answer_inv_def)
qed

lemma answered_once_witness:
  "\<exists>r1 r2. run_all (demo_chat_env log_sink) [(0, DialFailed ClosedErr)] (run_start 3 []) = Some r1 \<and>
     run_all (demo_chat_env log_sink) [(1, HostShutdown)] r1 = Some r2 \<and>
     cc_ready (rs_client r2) = Some (Inl ClosedErr) \<and> \<not> cc_resumed (rs_client r2)"
proof -
  let ?r0 = "run_start 3 ([] :: (bytes \<times> nat) list)"
  let ?r1 = "dial_failed ClosedErr ?r0"
  let ?r2 = "host_op shutdown_now ?r1"
  have 1: "run_all (demo_chat_env log_sink) [(0, DialFailed ClosedErr)] ?r0 = Some ?r1"
    by (simp add: run_start_def)
  have 2: "run_all (demo_chat_env log_sink) [(1, HostShutdown)] ?r1 = Some ?r2" by simp
  have r: "cc_ready (rs_client ?r1) = Some (Inl ClosedErr)"
    by (simp add: dial_failed_def run_start_def connect_with_tuned_def)
  from answered_once [OF 1 2] r have "cc_ready (rs_client ?r2) = Some (Inl ClosedErr)"
    "\<not> cc_resumed (rs_client ?r2)" by auto
  with 1 2 show ?thesis by blast
qed

subsection \<open>Draining after a quota error\<close>

text \<open>
  One grant: the retry timer is due, the head batch goes out alone, the server acknowledges it.
\<close>

definition ack_bytes :: "'d chat_env \<Rightarrow> (string \<times> bytes) \<Rightarrow> bytes \<Rightarrow> bool" where
  "ack_bytes env p bs \<longleftrightarrow>
     (\<exists>f a. decode (ce_from_slice env) bs = Some f \<and> wf_kind f = ft_ack \<and>
        ack_header_of (wf_header f) = Some a \<and> ah_batch_id a = fst p)"

fun grants :: "nat \<Rightarrow> bytes list \<Rightarrow> (nat \<times> session_input) list" where
  "grants now [] = []"
| "grants now (bs # bss) = (now, InRetry) # (now, InBytes bs) # grants now bss"

fun steady_run :: "'d chat_env \<Rightarrow> (nat \<times> session_input) list \<Rightarrow> 'd session_result \<Rightarrow>
    'd session_result option" where
  "steady_run env [] res = Some res"
| "steady_run env ((now, i) # is) (Inr ph, s) =
     (case session_step env now i ph s of None \<Rightarrow> None | Some res \<Rightarrow> steady_run env is res)"
| "steady_run env (_ # _) (Inl e, s) = None"

lemma retire_hd: "distinct (map fst (p # ps)) \<Longrightarrow> retire (fst p) (p # ps) = ps"
proof -
  assume "distinct (map fst (p # ps))"
  then have "\<forall>q \<in> set ps. fst q \<noteq> fst p" by (auto simp: image_iff)
  then show ?thesis by (simp add: retire_def)
qed

text \<open>
C30. After a quota error the queue drains one batch per grant, in order, and the block ends: in a steady
  session with the retry timer due and distinct batch identifiers, if the server acknowledges each
  head batch, then after as many grants as there are batches the queue is empty, exactly the queued
  batches were sent, each once and oldest first, and the client is no longer blocked.
\<close>

theorem quota_drains:
  assumes "cc_quota_blocked s" "cc_retry_at s = Some at" "at \<le> now" "distinct (map fst (cc_pending s))"
    "list_all2 (ack_bytes env) (cc_pending s) bss" "cc_pending s \<noteq> []"
    "length (cc_pending s) \<le> cc_sends_left s"
  shows "\<exists>l t s'. steady_run env (grants now bss) (Inr (Steady lf d t0), s) = Some (Inr (Steady l None t), s') \<and>
    cc_pending s' = [] \<and> \<not> cc_quota_blocked s' \<and>
    cc_sent s' = cc_sent s @ map (push_frame env) (cc_pending s)"
  using assms
proof (induction bss arbitrary: s at lf d t0)
  case Nil
  then show ?case by simp
next
  case (Cons bs bss)
  obtain p ps where ps: "cc_pending s = p # ps" "ack_bytes env p bs" "list_all2 (ack_bytes env) ps bss"
    using Cons.prems(5) by (auto simp: list_all2_Cons2)
  obtain n where n: "cc_sends_left s = Suc n" "length ps \<le> n"
    using Cons.prems(7) ps(1) by (cases "cc_sends_left s") auto
  let ?s1 = "s\<lparr>cc_retry_at := None, cc_sends_left := n, cc_sent := cc_sent s @ [push_frame env p]\<rparr>"
  have 1: "session_step env now InRetry (Steady lf d t0) s = Some (Inr (Steady lf d now), ?s1)"
    using Cons.prems(2,3) n(1) by (simp add: push_head_def ps(1) pipe_send_def keep_def)
  obtain f a where f: "decode (ce_from_slice env) bs = Some f" "wf_kind f = ft_ack"
    "ack_header_of (wf_header f) = Some a" "ah_batch_id a = fst p"
    using ps(2) by (auto simp: ack_bytes_def)
  let ?s2 = "on_ack env now a ?s1"
  have 2: "session_step env now (InBytes bs) (Steady lf d now) ?s1 = Some (Inr (Steady now None now), ?s2)"
    using f by (simp add: on_steady_bytes_def handle_frame_def frame_types keep_def)
  have r: "retire (fst p) (p # ps) = ps" using retire_hd [of p ps] Cons.prems(4) ps(1) by simp
  have s2: "cc_pending ?s2 = ps" "cc_sends_left ?s2 = n" "cc_sent ?s2 = cc_sent s @ [push_frame env p]"
    "ps = [] \<Longrightarrow> \<not> cc_quota_blocked ?s2"
    "ps \<noteq> [] \<Longrightarrow> cc_quota_blocked ?s2 \<and> cc_retry_at ?s2 = Some now"
    using Cons.prems(1) r by (simp_all add: on_ack_def Let_def f(4) ps(1))
  have run: "steady_run env (grants now (bs # bss)) (Inr (Steady lf d t0), s) =
      steady_run env (grants now bss) (Inr (Steady now None now), ?s2)"
    using 1 2 by simp
  show ?case
  proof (cases "ps = []")
    case True
    with ps(3) have "bss = []" by simp
    then show ?thesis unfolding run using s2 True ps(1) by simp
  next
    case False
    have "distinct (map fst (cc_pending ?s2))" using Cons.prems(4) ps(1) s2(1) by simp
    from Cons.IH [of ?s2 now now None now] this False ps(3) n(2) s2 show ?thesis
      unfolding run by (simp add: ps(1))
  qed
qed

lemma quota_drains_witness:
  "\<exists>l t s'. steady_run (demo_chat_env log_sink)
      (grants 9 [demo_frame ft_ack ''ack a'' '''', demo_frame ft_ack ''ack b'' ''''])
      (Inr (Steady 8 None 8), (connect_with_tuned 2 [])\<lparr>cc_pending := [(''a'', ''x''), (''b'', ''y'')],
         cc_quota_blocked := True, cc_retry_at := Some 9, cc_sends_left := 5\<rparr>) =
      Some (Inr (Steady l None t), s') \<and> cc_pending s' = [] \<and> \<not> cc_quota_blocked s' \<and>
    length (cc_sent s') = 2"
proof -
  let ?s = "(connect_with_tuned 2 ([] :: (bytes \<times> nat) list))\<lparr>cc_pending := [(''a'', ''x''), (''b'', ''y'')],
         cc_quota_blocked := True, cc_retry_at := Some 9, cc_sends_left := 5\<rparr>"
  have l: "list_all2 (ack_bytes (demo_chat_env log_sink)) (cc_pending ?s)
      [demo_frame ft_ack ''ack a'' '''', demo_frame ft_ack ''ack b'' '''']"
    by (simp add: ack_bytes_def decode_demo_eqs demo_reads)
  have "\<exists>l t s'. steady_run (demo_chat_env log_sink)
      (grants 9 [demo_frame ft_ack ''ack a'' '''', demo_frame ft_ack ''ack b'' ''''])
      (Inr (Steady 8 None 8), ?s) = Some (Inr (Steady l None t), s') \<and>
      cc_pending s' = [] \<and> \<not> cc_quota_blocked s' \<and>
      cc_sent s' = cc_sent ?s @ map (push_frame (demo_chat_env log_sink)) (cc_pending ?s)"
    by (rule quota_drains [OF _ _ _ _ l, of 9]) simp_all
  then show ?thesis by (auto simp: connect_with_tuned_def)
qed

text \<open>
A batch that the server rejects for good while the client drains stops the drain: the batch leaves
  the queue, but the rest stays, the client stays blocked and no retry is scheduled.
\<close>

lemma quota_drain_stalls:
  "\<exists>s'. steady_run (demo_chat_env log_sink)
      [(9, InRetry), (9, InBytes (demo_frame ft_error ''large a'' ''''))]
      (Inr (Steady 8 None 8), (connect_with_tuned 2 [])\<lparr>cc_pending := [(''a'', ''x''), (''b'', ''y'')],
         cc_quota_blocked := True, cc_retry_at := Some 9, cc_sends_left := 5\<rparr>) =
      Some (Inr (Steady 9 None 9), s') \<and>
    cc_pending s' = [(''b'', ''y'')] \<and> cc_quota_blocked s' \<and> cc_retry_at s' = None \<and> \<not> cc_nudge s'"
  by (simp add: on_steady_bytes_def decode_demo_num push_head_def pipe_send_def keep_def
      connect_with_tuned_def handle_frame_def frame_types on_error_def header_str_def header_fields_def
      as_str_def retire_def emit_def Let_def)

subsection \<open>A live row during the catch-up\<close>

text \<open>
The server marks a socket ready when it answers the hello, and relays new rows to ready sockets at
  once, so a row pushed by a peer between the answer and the row request reaches the client before
  the rows it asked for. That row moves the cursor. When the connection drops before the backfill is
  done, the next one asks for the rows after it, and the rows below are never requested: here rows 1
  and 2 of three, from a client with cursor 0.
\<close>

definition live_row_trace :: "(nat \<times> run_input) list" where
  "live_row_trace =
     [(0, Dialed 9), (0, Session (InBytes (demo_frame ft_state ''empty room'' ''''))),
      (0, Session (InBytes (demo_frame ft_rows_done ''done 2'' ''''))),
      (1, Session InClosed), (2, WaitEnds Elapsed),
      (2, Dialed 9), (2, Session (InBytes (demo_frame ft_state ''room at 2'' ''''))),
      (2, Session (InBytes (demo_frame ft_row ''row 3'' ''third''))),
      (3, Session InClosed), (4, WaitEnds Elapsed),
      (4, Dialed 9), (4, Session (InBytes (demo_frame ft_state ''room at 3'' '''')))]"

lemma live_row_skips_rows:
  "\<exists>r. run_all (demo_chat_env log_sink) live_row_trace (run_start 0 []) = Some r \<and>
     rs_phase r = InSession Backfilling \<and> cc_doc (rs_client r) = [(''third'', 3)] \<and>
     last (cc_sent (rs_client r)) =
       encode (ce_to_vec (demo_chat_env log_sink)) ft_rows_req (rows_req_header 3 True) []"
  by (simp add: live_row_trace_def run_start_def connect_with_tuned_def decode_demo_num frame_types
      demo_reads enter_session_def session_over_def start_session_def pipe_send_def
      on_handshake_bytes_def on_state_def joined_def plan_catch_up_def request_rows_def
      on_backfill_bytes_def caught_up_def push_pending_def handle_frame_def on_row_def log_sink_def
      emit_def wait_ends_def backoff_base_def Let_def)

subsection \<open>What the client relies on from its sink\<close>

text \<open>Numbers read from a header fit 64 bits.\<close>

lemma as_u64_bound: "as_u64 v = Some n \<Longrightarrow> n < 2 ^ 64"
  by (auto simp: as_u64_def split: json.splits if_splits)

lemma req_u64_bound: "req_field as_u64 fs x = Some n \<Longrightarrow> n < 2 ^ 64"
  by (auto simp: req_field_def split: option.splits dest: as_u64_bound)

lemma row_header_seq: "row_header_of h = Some row \<Longrightarrow> rh_seq row < 2 ^ 64"
  by (auto simp: row_header_of_def Let_def dest: req_u64_bound split: option.splits)

lemma ack_header_seq: "ack_header_of h = Some ack \<Longrightarrow> ah_seq ack < 2 ^ 64"
  by (auto simp: ack_header_of_def Let_def dest: req_u64_bound split: option.splits)

lemma state_header_seq: "state_header_of h = Some st \<Longrightarrow> st_checkpoint_seq st < 2 ^ 64"
  by (auto simp: state_header_of_def Let_def dest: req_u64_bound split: option.splits)

text \<open>
  A sink stores a cursor with every write. \<open>ok\<close> says that the write goes through; \<open>stored\<close> is the
  cursor a restart would read, if any.
\<close>

locale doc_sink =
  fixes k :: "'d chat_doc_sink" and stored :: "'d \<Rightarrow> nat option" and ok :: "'d \<Rightarrow> bool"
  assumes row_stored: "ok d \<Longrightarrow> c < 2 ^ 64 \<Longrightarrow> stored (sk_apply_row k b c d) = Some c"
    and ack_stored: "ok d \<Longrightarrow> c < 2 ^ 64 \<Longrightarrow> stored (sk_advance_cursor k c d) = Some c"
    and row_weak: "c < 2 ^ 64 \<Longrightarrow> stored (sk_apply_row k b c d) \<in> {stored d, Some c}"
    and ack_weak: "c < 2 ^ 64 \<Longrightarrow> stored (sk_advance_cursor k c d) \<in> {stored d, Some c}"
    and checkpoint_weak: "sk_apply_checkpoint k b c d = (Inr u, d') \<Longrightarrow> c < 2 ^ 64 \<Longrightarrow>
      stored d' \<in> {stored d, Some c}"
    and checkpoint_refused: "sk_apply_checkpoint k b c d = (Inl e, d') \<Longrightarrow> stored d' = stored d"
begin

definition behind :: "'d chat_client \<Rightarrow> bool" where
  "behind s \<longleftrightarrow> cc_cursor s < 2 ^ 64 \<and>
     (case stored (cc_doc s) of None \<Rightarrow> True | Some n \<Rightarrow> n \<le> cc_cursor s)"

lemma behind_step: "behind s \<Longrightarrow> stored (cc_doc s') = stored (cc_doc s) \<or> stored (cc_doc s') = Some n \<Longrightarrow>
    n \<le> cc_cursor s' \<Longrightarrow> cc_cursor s \<le> cc_cursor s' \<Longrightarrow> cc_cursor s' < 2 ^ 64 \<Longrightarrow> behind s'"
  by (auto simp: behind_def split: option.splits)

lemma behind_same: "behind s \<Longrightarrow> cc_doc s' = cc_doc s \<Longrightarrow> cc_cursor s' = cc_cursor s \<Longrightarrow> behind s'"
  by (auto simp: behind_def split: option.splits)

lemma row_behind:
  assumes "ce_sink env = k" "behind s" "rh_seq row < 2 ^ 64"
  shows "behind (on_row env row payload s)"
proof (rule behind_step [OF assms(2)])
  show "stored (cc_doc (on_row env row payload s)) = stored (cc_doc s) \<or>
      stored (cc_doc (on_row env row payload s)) = Some (rh_seq row)"
    using row_weak [OF assms(3)] by (auto simp: on_row_def assms(1))
qed (use assms(2,3) in \<open>auto simp: on_row_def behind_def\<close>)

lemma ack_behind:
  assumes "ce_sink env = k" "behind s" "ah_seq ack < 2 ^ 64"
  shows "behind (on_ack env now ack s)"
proof (rule behind_step [OF assms(2)])
  have c: "cc_cursor (on_ack env now ack s) = max (cc_cursor s) (ah_seq ack)" by (simp add: on_ack_def Let_def)
  show lt: "cc_cursor (on_ack env now ack s) < 2 ^ 64" using assms(2,3) c by (simp add: behind_def)
  show "stored (cc_doc (on_ack env now ack s)) = stored (cc_doc s) \<or>
      stored (cc_doc (on_ack env now ack s)) = Some (cc_cursor (on_ack env now ack s))"
    using ack_weak [OF lt] unfolding c by (auto simp: on_ack_def Let_def assms(1))
  show "cc_cursor s \<le> cc_cursor (on_ack env now ack s)" by (simp add: c)
qed simp

lemma frame_behind:
  assumes "ce_sink env = k" "behind s"
  shows "behind (snd (handle_frame env now f s))"
proof -
  have e: "behind (on_error now h s)" for h
  proof (rule behind_same [OF assms(2)])
    show "cc_doc (on_error now h s) = cc_doc s" "cc_cursor (on_error now h s) = cc_cursor s"
      unfolding on_error_def Let_def by (simp_all split: if_split)
  qed
  have p: "behind (on_probe_ok h s)" for h
    by (rule behind_same [OF assms(2)]) (simp_all add: on_probe_ok_def split: option.splits)
  have q: "behind (emit ev s)" "behind (s\<lparr>cc_server := x\<rparr>)" for ev x
    by (rule behind_same [OF assms(2)]; simp)+
  show ?thesis
    using assms row_behind [OF assms row_header_seq] ack_behind [OF assms ack_header_seq]
    by (simp add: handle_frame_def e p q split: option.split)
qed

lemma steady_behind:
  assumes "ce_sink env = k" "behind s" "steady_step env now i l d t s = Some res"
  shows "behind (snd res)"
proof (cases "\<exists>bs f. i = InBytes bs \<and> decode (ce_from_slice env) bs = Some f")
  case True
  with assms frame_behind [OF assms(1,2)] show ?thesis by (auto simp: on_steady_bytes_def)
next
  case False
  have "cc_doc (snd res) = cc_doc s \<and> cc_cursor (snd res) = cc_cursor s"
  proof (cases i)
    case InBeat
    with assms(3) show ?thesis by (auto simp: send_beat_def pipe_send_frame split: list.splits)
  next
    case InProbe
    with assms(3) show ?thesis
      by (auto simp: probe_turn_def dest: send_probe_frame split: if_splits prod.splits)
  next
    case InQuiet
    with assms(3) show ?thesis
      by (auto simp: probe_turn_def dest: send_probe_frame split: if_splits prod.splits)
  qed (use assms(3) False in \<open>auto simp: on_steady_bytes_def push_pending_frame push_head_frame
      split: if_splits option.splits\<close>)
  then show ?thesis using behind_same [OF assms(2)] by blast
qed

lemma fetched_behind:
  assumes "ce_sink env = k" "behind s" "cc_cursor s \<le> cc_cursor (snd (on_fetched env c st r s))"
    "st_checkpoint_seq st < 2 ^ 64"
  shows "behind (snd (on_fetched env c st r s))"
proof (cases r)
  case (Inl e)
  with assms show ?thesis by (simp add: on_fetched_def)
next
  case (Inr bs)
  obtain x d where x: "sk_apply_checkpoint k bs (st_checkpoint_seq st) (cc_doc s) = (x, d)" by fastforce
  show ?thesis
  proof (cases x)
    case (Inl e)
    have d: "cc_doc (snd (on_fetched env c st r s)) = d"
      and cu: "cc_cursor (snd (on_fetched env c st r s)) = cc_cursor s"
      by (simp_all add: on_fetched_def \<open>r = Inr bs\<close> assms(1) x Inl)
    have "stored d = stored (cc_doc s)" using checkpoint_refused x Inl by blast
    then show ?thesis using assms(2) unfolding behind_def d cu by simp
  next
    case (Inr u)
    have d: "cc_doc (snd (on_fetched env c st r s)) = d"
      and cu: "cc_cursor (snd (on_fetched env c st r s)) =
        (if st_checkpoint_seq st < c then st_checkpoint_seq st else max (cc_cursor s) (st_checkpoint_seq st))"
      by (simp_all add: on_fetched_def \<open>r = Inr bs\<close> assms(1) x Inr request_rows_frame)
    show ?thesis
    proof (rule behind_step [OF assms(2), of _ "st_checkpoint_seq st"])
      show "stored (cc_doc (snd (on_fetched env c st r s))) = stored (cc_doc s) \<or>
          stored (cc_doc (snd (on_fetched env c st r s))) = Some (st_checkpoint_seq st)"
        unfolding d using checkpoint_weak [OF _ assms(4)] x Inr by blast
    qed (use assms cu in \<open>auto simp: behind_def\<close>)
  qed
qed

end

end
