(* ===== verification/Doc_Registry_Core.thy ===== *)
theory Doc_Registry_Core
  imports Proto_Types "HOL-Library.Multiset"
begin

text \<open>
  The merge core of the workspace registry, \<^verbatim>\<open>crates/doc/src/registry.rs\<close>: hybrid logical clocks and
  their encoding, rows, operations, the merge function \<open>apply_op\<close> and the re-seed operation. A row's
  field and clock maps are \<^verbatim>\<open>BTreeMap\<close>s, sorted association lists.
\<close>

subsection \<open>Hybrid logical clocks\<close>

definition encode_hlc :: "int \<Rightarrow> nat \<Rightarrow> string \<Rightarrow> string" where
  "encode_hlc ms counter device =
     dec_padded 13 ms @ ''-'' @ zero_pad 6 (dec counter) @ ''-'' @ device"

definition hlc_newer :: "string \<Rightarrow> string option \<Rightarrow> bool" where
  "hlc_newer a b = (case b of None \<Rightarrow> True | Some b \<Rightarrow> a > b)"

record hlc_clock =
  hc_last_ms :: int
  hc_counter :: nat

definition hlc_default :: hlc_clock where
  "hlc_default = \<lparr>hc_last_ms = 0, hc_counter = 0\<rparr>"

text \<open>The counter is a \<^verbatim>\<open>u32\<close>, the milliseconds an \<^verbatim>\<open>i64\<close>.\<close>

definition hlc_next :: "hlc_clock \<Rightarrow> int \<Rightarrow> string \<Rightarrow> hlc_clock \<times> string" where
  "hlc_next c now_ms device =
     (let c = (if now_ms > hc_last_ms c then \<lparr>hc_last_ms = now_ms, hc_counter = 0\<rparr>
               else
                 let counter = (hc_counter c + 1) mod 2 ^ 32
                 in if counter > 999999
                    then \<lparr>hc_last_ms = i64_wrap (hc_last_ms c + 1), hc_counter = 0\<rparr>
                    else c\<lparr>hc_counter := counter\<rparr>)
      in (c, encode_hlc (hc_last_ms c) (hc_counter c) device))"

subsection \<open>Rows and operations\<close>

record registry_row =
  rw_kind :: string
  rw_id :: string
  rw_seq :: nat
  rw_deleted :: bool
  rw_del_hlc :: "string option"
  rw_fields :: "(string, json) btree"
  rw_clocks :: "(string, string) btree"

definition tombstone :: "string \<Rightarrow> string \<Rightarrow> string \<Rightarrow> registry_row" where
  "tombstone kind i hlc =
     \<lparr>rw_kind = kind, rw_id = i, rw_seq = 0, rw_deleted = True, rw_del_hlc = Some hlc,
      rw_fields = [], rw_clocks = []\<rparr>"

definition max_clock :: "registry_row \<Rightarrow> string option" where
  "max_clock r =
     foldl (\<lambda>mx clock. case mx of None \<Rightarrow> Some clock
              | Some m \<Rightarrow> if clock > m then Some clock else mx)
       (rw_del_hlc r) (map snd (rw_clocks r))"

datatype op_kind = OpUpsert | OpUpdate | OpDelete

record row_op =
  ro_kind :: string
  ro_id :: string
  ro_op :: op_kind
  ro_set :: "(string, json) btree option"
  ro_hlc :: string
  ro_clocks :: "(string, string) btree option"

definition clock_for :: "row_op \<Rightarrow> string \<Rightarrow> string" where
  "clock_for op field =
     (case ro_clocks op of
        None \<Rightarrow> ro_hlc op
      | Some c \<Rightarrow> (case map_of c field of None \<Rightarrow> ro_hlc op | Some h \<Rightarrow> h))"

subsection \<open>Merging one operation\<close>

text \<open>One field write; the flag is \<^verbatim>\<open>changed\<close>.\<close>

definition write_field :: "row_op \<Rightarrow> registry_row \<times> bool \<Rightarrow> string \<times> json \<Rightarrow>
    registry_row \<times> bool" where
  "write_field op st kv =
     (let (base, changed) = st;
          (key, v) = kv;
          clock = clock_for op key
      in if \<not> hlc_newer clock (map_of (rw_clocks base) key) then (base, changed)
         else
           (base\<lparr>rw_fields := (if v = JNull then bt_remove key (rw_fields base)
                             else bt_insert key v (rw_fields base)),
               rw_clocks := bt_insert key clock (rw_clocks base)\<rparr>, True))"

definition new_row :: "string \<Rightarrow> string \<Rightarrow> registry_row" where
  "new_row kind i =
     \<lparr>rw_kind = kind, rw_id = i, rw_seq = 0, rw_deleted = False, rw_del_hlc = None,
      rw_fields = [], rw_clocks = []\<rparr>"

definition revive :: "registry_row \<Rightarrow> registry_row" where
  "revive row = row\<lparr>rw_deleted := False, rw_fields := [], rw_clocks := []\<rparr>"

definition apply_delete :: "registry_row option \<Rightarrow> row_op \<Rightarrow> registry_row option \<times> bool" where
  "apply_delete row op =
     (case row of
        None \<Rightarrow> (Some (tombstone (ro_kind op) (ro_id op) (ro_hlc op)), True)
      | Some r \<Rightarrow>
          (let beats = (if rw_deleted r then hlc_newer (ro_hlc op) (rw_del_hlc r)
                        else hlc_newer (ro_hlc op) (max_clock r))
           in if beats
              then (Some (r\<lparr>rw_deleted := True, rw_del_hlc := Some (ro_hlc op), rw_fields := [],
                         rw_clocks := []\<rparr>), True)
              else (Some r, False)))"

text \<open>The writes of an upsert or update into its base row.\<close>

definition apply_writes :: "row_op \<Rightarrow> registry_row \<Rightarrow> bool \<Rightarrow> registry_row option \<times> bool" where
  "apply_writes op base changed =
     (let (base, changed) =
        (case ro_set op of None \<Rightarrow> (base, changed)
         | Some kvs \<Rightarrow> foldl (write_field op) (base, changed) kvs)
      in if changed then (Some (base\<lparr>rw_deleted := False\<rparr>), True) else (Some base, False))"

definition apply_op :: "registry_row option \<Rightarrow> row_op \<Rightarrow> registry_row option \<times> bool" where
  "apply_op row op =
     (if ro_op op = OpDelete then apply_delete row op
      else
        case row of
          None \<Rightarrow>
            if ro_op op = OpUpdate then (None, False)
            else apply_writes op (new_row (ro_kind op) (ro_id op)) True
        | Some r \<Rightarrow>
            if rw_deleted r
            then
              if ro_op op = OpUpdate \<or> \<not> hlc_newer (ro_hlc op) (rw_del_hlc r) then (Some r, False)
              else apply_writes op (revive r) True
            else apply_writes op r False)"

abbreviation merge_op :: "row_op \<Rightarrow> registry_row option \<Rightarrow> registry_row option" where
  "merge_op op row \<equiv> fst (apply_op row op)"

definition merge_ops :: "registry_row option \<Rightarrow> row_op list \<Rightarrow> registry_row option" where
  "merge_ops row ops = fold merge_op ops row"

subsection \<open>Re-seeding\<close>

definition row_to_seed_op :: "registry_row \<Rightarrow> row_op" where
  "row_to_seed_op r =
     (if rw_deleted r
      then \<lparr>ro_kind = rw_kind r, ro_id = rw_id r, ro_op = OpDelete, ro_set = None,
            ro_hlc = (case rw_del_hlc r of Some h \<Rightarrow> h | None \<Rightarrow> encode_hlc 0 0 ''seed''),
            ro_clocks = None\<rparr>
      else \<lparr>ro_kind = rw_kind r, ro_id = rw_id r, ro_op = OpUpsert, ro_set = Some (rw_fields r),
            ro_hlc = (case max_clock r of Some h \<Rightarrow> h | None \<Rightarrow> encode_hlc 0 0 ''seed''),
            ro_clocks = Some (rw_clocks r)\<rparr>)"

subsection \<open>The order of encoded clocks\<close>

definition hlc_fits :: "int \<Rightarrow> nat \<Rightarrow> bool" where
  "hlc_fits ms counter \<longleftrightarrow> 0 \<le> ms \<and> ms < 10 ^ 13 \<and> counter < 10 ^ 6"

lemma encode_hlc_digits:
  assumes "hlc_fits ms counter"
  shows "encode_hlc ms counter device =
    digits_w 13 (nat ms) @ ''-'' @ digits_w 6 counter @ ''-'' @ device"
proof -
  from assms have "nat ms < 10 ^ 13" "counter < 10 ^ 6" "\<not> ms < 0" by (auto simp: hlc_fits_def)
  with zero_pad_dec [of "nat ms" 13] zero_pad_dec [of counter 6] show ?thesis
    by (simp add: encode_hlc_def dec_padded_def del: digits_w.simps)
qed

text \<open>
  Within 13 digits of milliseconds and 6 of counter, the encoded clocks are ordered as the
  triples of milliseconds, counter and device: the string comparison of the merge is the causal
  order, and two devices never tie.
\<close>

theorem encode_hlc_order:
  assumes "hlc_fits ms counter" "hlc_fits ms' counter'"
  shows "encode_hlc ms counter device < encode_hlc ms' counter' device' \<longleftrightarrow>
    ms < ms' \<or> (ms = ms' \<and> (counter < counter' \<or> (counter = counter' \<and> device < device')))"
proof -
  have "nat ms < 10 ^ 13" "nat ms' < 10 ^ 13" "counter < 10 ^ 6" "counter' < 10 ^ 6"
    and pos: "0 \<le> ms" "0 \<le> ms'"
    using assms by (auto simp: hlc_fits_def)
  then have "encode_hlc ms counter device < encode_hlc ms' counter' device' \<longleftrightarrow>
      nat ms < nat ms' \<or> (nat ms = nat ms' \<and> (counter < counter' \<or>
        (counter = counter' \<and> device < device')))"
    unfolding encode_hlc_digits [OF assms(1)] encode_hlc_digits [OF assms(2)]
    by (simp add: append_less_iff digits_w_less digits_w_eq del: digits_w.simps)
  with pos show ?thesis by (auto simp: nat_less_eq_zless)
qed

lemma encode_hlc_order_witness:
  "hlc_fits 9 999999 \<and> hlc_fits 10 0 \<and> encode_hlc 9 999999 ''z'' < encode_hlc 10 0 ''a''"
proof -
  have "hlc_fits 9 999999" "hlc_fits 10 0" by (simp_all add: hlc_fits_def)
  with encode_hlc_order [OF this, of "''z''" "''a''"] show ?thesis by simp
qed

subsection \<open>A source of increasing stamps\<close>

fun emits :: "('s \<Rightarrow> 't \<Rightarrow> 's \<times> 'h) \<Rightarrow> 's \<Rightarrow> 't list \<Rightarrow> 'h list" where
  "emits tick s [] = []"
| "emits tick s (t # ts) = snd (tick s t) # emits tick (fst (tick s t)) ts"

text \<open>The contract of a clock: with room for \<open>n\<close> more ticks, a tick gives a stamp newer than the
  state and leaves room for \<open>n - 1\<close>.\<close>

locale stamp_source =
  fixes tick :: "'s \<Rightarrow> 't \<Rightarrow> 's \<times> 'h::linorder"
    and stamp :: "'s \<Rightarrow> 'h"
    and room :: "nat \<Rightarrow> 's \<Rightarrow> bool"
    and sane :: "nat \<Rightarrow> 't \<Rightarrow> bool"
  assumes tick_stamp: "room (Suc n) s \<Longrightarrow> sane (Suc n) t \<Longrightarrow> snd (tick s t) = stamp (fst (tick s t))"
    and tick_newer: "room (Suc n) s \<Longrightarrow> sane (Suc n) t \<Longrightarrow> stamp s < stamp (fst (tick s t))"
    and tick_room: "room (Suc n) s \<Longrightarrow> sane (Suc n) t \<Longrightarrow> room n (fst (tick s t))"
    and sane_less: "sane (Suc n) t \<Longrightarrow> sane n t"
begin

lemma emits_increase:
  assumes "room (length ts) s" "list_all (sane (length ts)) ts"
  shows "sorted_wrt (<) (stamp s # emits tick s ts)"
  using assms
proof (induction ts arbitrary: s)
  case Nil
  then show ?case by simp
next
  case (Cons t ts)
  from Cons.prems have t: "room (Suc (length ts)) s" "sane (Suc (length ts)) t"
    and ts: "list_all (sane (length ts)) ts"
    by (auto simp: list_all_iff intro: sane_less)
  let ?s = "fst (tick s t)"
  have "sorted_wrt (<) (stamp ?s # emits tick ?s ts)"
    using Cons.IH [OF tick_room [OF t] ts] .
  with tick_stamp [OF t] tick_newer [OF t] show ?case
    by (auto intro: less_trans)
qed

lemma emits_distinct:
  "room (length ts) s \<Longrightarrow> list_all (sane (length ts)) ts \<Longrightarrow> distinct (emits tick s ts)"
  using emits_increase [of ts s] by (simp add: strict_sorted_iff)

end

definition hlc_room :: "nat \<Rightarrow> hlc_clock \<Rightarrow> bool" where
  "hlc_room n c \<longleftrightarrow> 0 \<le> hc_last_ms c \<and> hc_last_ms c + int n < 10 ^ 13 \<and> hc_counter c \<le> 999999"

definition hlc_sane :: "nat \<Rightarrow> int \<Rightarrow> bool" where
  "hlc_sane n now_ms \<longleftrightarrow> now_ms + int n < 10 ^ 13"

definition hlc_stamp :: "string \<Rightarrow> hlc_clock \<Rightarrow> string" where
  "hlc_stamp device c = encode_hlc (hc_last_ms c) (hc_counter c) device"

lemma hlc_next_advances:
  assumes "hlc_room (Suc n) c" "hlc_sane (Suc n) t"
  shows "hlc_room n (fst (hlc_next c t device))"
    "let c' = fst (hlc_next c t device) in hc_last_ms c < hc_last_ms c' \<or>
       (hc_last_ms c = hc_last_ms c' \<and> hc_counter c < hc_counter c')"
proof -
  have "i64_ok (hc_last_ms c + 1)"
    using assms(1) by (auto simp: hlc_room_def i64_ok_def)
  then have w: "i64_wrap (hc_last_ms c + 1) = hc_last_ms c + 1" by (rule i64_wrap_id)
  have m: "(hc_counter c + 1) mod 2 ^ 32 = hc_counter c + 1"
    using assms(1) by (simp add: hlc_room_def)
  show "hlc_room n (fst (hlc_next c t device))"
    "let c' = fst (hlc_next c t device) in hc_last_ms c < hc_last_ms c' \<or>
       (hc_last_ms c = hc_last_ms c' \<and> hc_counter c < hc_counter c')"
    using assms(1,2) unfolding hlc_next_def Let_def w m
    by (auto simp: hlc_room_def hlc_sane_def)
qed

lemma hlc_room_fits: "hlc_room n c \<Longrightarrow> hlc_fits (hc_last_ms c) (hc_counter c)"
  by (simp add: hlc_room_def hlc_fits_def)

interpretation hlc: stamp_source "\<lambda>c t. hlc_next c t device" "hlc_stamp device" hlc_room hlc_sane
  for device
proof unfold_locales
  fix n c t
  assume *: "hlc_room (Suc n) c" "hlc_sane (Suc n) t"
  let ?c = "fst (hlc_next c t device)"
  show "snd (hlc_next c t device) = hlc_stamp device ?c"
    by (simp add: hlc_next_def hlc_stamp_def Let_def)
  show "hlc_room n ?c" by (rule hlc_next_advances(1) [OF *])
  then show "hlc_stamp device c < hlc_stamp device ?c"
    using hlc_next_advances(2) [OF *, of device] * hlc_room_fits
    unfolding hlc_stamp_def Let_def by (subst encode_hlc_order) auto
qed (simp add: hlc_sane_def)

text \<open>
  The clock never repeats or goes back: whatever the wall clock reads, regressions and
  standing still included, the stamps it emits increase strictly in the string order the merge
  compares, as long as the encoding's 13 digits are not exhausted.
\<close>

theorem hlc_next_monotone:
  assumes "hlc_room (length nows) c" "list_all (hlc_sane (length nows)) nows"
  shows "sorted_wrt (<) (hlc_stamp device c # emits (\<lambda>c t. hlc_next c t device) c nows)"
  using hlc.emits_increase [OF assms] .

lemma hlc_next_monotone_witness:
  "sorted_wrt (<) (hlc_stamp ''d'' \<lparr>hc_last_ms = 7, hc_counter = 999998\<rparr> #
     emits (\<lambda>c t. hlc_next c t ''d'') \<lparr>hc_last_ms = 7, hc_counter = 999998\<rparr> [5, 7, 3, 9])"
  by (rule hlc_next_monotone) (simp_all add: hlc_room_def hlc_sane_def)

subsection \<open>Last writer wins, field by field\<close>

text \<open>The clock and the value of a field, what an operation writes to it, and the rule.\<close>

type_synonym cell = "string option \<times> json option"

definition row_cell :: "registry_row \<Rightarrow> string \<Rightarrow> cell" where
  "row_cell r k = (map_of (rw_clocks r) k, map_of (rw_fields r) k)"

definition op_write :: "row_op \<Rightarrow> string \<Rightarrow> json option" where
  "op_write op k = (case ro_set op of None \<Rightarrow> None | Some kvs \<Rightarrow> map_of kvs k)"

definition lww :: "string \<Rightarrow> json \<Rightarrow> cell \<Rightarrow> cell" where
  "lww clock v c =
     (if hlc_newer clock (fst c) then (Some clock, if v = JNull then None else Some v) else c)"

definition op_cell :: "row_op \<Rightarrow> string \<Rightarrow> cell \<Rightarrow> cell" where
  "op_cell op k c = (case op_write op k of None \<Rightarrow> c | Some v \<Rightarrow> lww (clock_for op k) v c)"

definition row_wf :: "registry_row \<Rightarrow> bool" where
  "row_wf r \<longleftrightarrow> bt_wf (rw_fields r) \<and> bt_wf (rw_clocks r)"

text \<open>Everything of a row but its maps.\<close>

definition row_head :: "registry_row \<Rightarrow> string \<times> string \<times> nat \<times> bool \<times> string option" where
  "row_head r = (rw_kind r, rw_id r, rw_seq r, rw_deleted r, rw_del_hlc r)"

lemma row_ext:
  assumes "row_wf a" "row_wf b" "row_head a = row_head b" "row_cell a = row_cell b"
  shows "a = (b :: registry_row)"
proof -
  have "map_of (rw_clocks a) = map_of (rw_clocks b)" "map_of (rw_fields a) = map_of (rw_fields b)"
    using fun_cong [OF assms(4)] by (auto simp: row_cell_def fun_eq_iff)
  then have "rw_clocks a = rw_clocks b" "rw_fields a = rw_fields b"
    using assms(1,2) by (auto simp: row_wf_def intro: bt_ext)
  with assms(3) show ?thesis by (simp add: row_head_def)
qed

lemma write_field_cell:
  "row_cell (fst (write_field op st kv)) k =
     (if fst kv = k then lww (clock_for op k) (snd kv) (row_cell (fst st) k)
      else row_cell (fst st) k)"
  by (cases st; cases kv) (simp add: write_field_def Let_def row_cell_def lww_def)

lemma write_field_keeps:
  "row_head (fst (write_field op st kv)) = row_head (fst st)"
  "row_wf (fst st) \<Longrightarrow> row_wf (fst (write_field op st kv))"
  by (cases st; cases kv; simp add: write_field_def Let_def row_head_def row_wf_def)+

lemma write_fields_keep:
  "row_head (fst (foldl (write_field op) st kvs)) = row_head (fst st)"
  "row_wf (fst st) \<Longrightarrow> row_wf (fst (foldl (write_field op) st kvs))"
  by (induction kvs arbitrary: st) (simp_all add: write_field_keeps)

lemma lww_same: "lww h w (lww h v c) = lww h v c"
  by (auto simp: lww_def hlc_newer_def split: option.splits)

text \<open>Only the first write to a key counts: a second one has the same clock.\<close>

lemma write_fields_cell:
  "row_cell (fst (foldl (write_field op) st kvs)) k =
     (case map_of kvs k of None \<Rightarrow> row_cell (fst st) k
      | Some v \<Rightarrow> lww (clock_for op k) v (row_cell (fst st) k))"
  by (induction kvs arbitrary: st)
    (auto simp: write_field_cell lww_same split: option.split)

text \<open>The flag says whether some write was newer.\<close>

lemma write_field_flag:
  "snd (write_field op st kv) \<longleftrightarrow>
     snd st \<or> hlc_newer (clock_for op (fst kv)) (map_of (rw_clocks (fst st)) (fst kv))"
  by (cases st; cases kv) (simp add: write_field_def Let_def)

lemma write_fields_flag_mono: "snd st \<Longrightarrow> snd (foldl (write_field op) st kvs)"
  by (induction kvs arbitrary: st) (simp_all add: write_field_flag)

definition absorbed :: "row_op \<Rightarrow> registry_row \<Rightarrow> bool" where
  "absorbed op r \<longleftrightarrow>
     (\<forall>k. op_write op k \<noteq> None \<longrightarrow> \<not> hlc_newer (clock_for op k) (map_of (rw_clocks r) k))"

lemma write_fields_absorbed:
  "(\<forall>k \<in> fst ` set kvs. \<not> hlc_newer (clock_for op k) (map_of (rw_clocks (fst st)) k)) \<Longrightarrow>
     foldl (write_field op) st kvs = st"
proof (induction kvs)
  case (Cons kv kvs)
  then have "write_field op st kv = st"
    by (cases st; cases kv) (simp add: write_field_def)
  with Cons show ?case by simp
qed simp

lemma apply_writes_absorbed:
  assumes "absorbed op r"
  shows "apply_writes op r False = (Some r, False)"
proof (cases "ro_set op")
  case None
  then show ?thesis by (simp add: apply_writes_def)
next
  case (Some kvs)
  have "\<not> hlc_newer (clock_for op k) (map_of (rw_clocks r) k)" if "k \<in> fst ` set kvs" for k
  proof -
    from that have "op_write op k \<noteq> None"
      by (simp add: op_write_def Some map_of_eq_None_iff)
    with assms show ?thesis by (simp add: absorbed_def)
  qed
  then have "foldl (write_field op) (r, False) kvs = (r, False)"
    by (intro write_fields_absorbed) simp
  with Some show ?thesis by (simp add: apply_writes_def)
qed

lemma write_fields_flag:
  "snd (foldl (write_field op) (r, False) kvs) \<or> foldl (write_field op) (r, False) kvs = (r, False)"
proof (cases "\<exists>k \<in> fst ` set kvs. hlc_newer (clock_for op k) (map_of (rw_clocks r) k)")
  case False
  then show ?thesis using write_fields_absorbed [of kvs op "(r, False)"] by auto
next
  case True
  then show ?thesis
  proof (induction kvs)
    case (Cons kv kvs)
    show ?case
    proof (cases "hlc_newer (clock_for op (fst kv)) (map_of (rw_clocks r) (fst kv))")
      case True
      then have "snd (write_field op (r, False) kv)" by (simp add: write_field_flag)
      then show ?thesis by (simp add: write_fields_flag_mono)
    next
      case False
      then have "write_field op (r, False) kv = (r, False)"
        by (cases kv) (simp add: write_field_def)
      with False Cons show ?thesis by auto
    qed
  qed simp
qed

subsection \<open>What one operation does to a live row\<close>

lemma row_deleted_head: "row_head a = row_head b \<Longrightarrow> rw_deleted a = rw_deleted b"
  by (simp add: row_head_def)

lemma apply_writes_live:
  assumes "\<not> rw_deleted base"
  obtains r where "fst (apply_writes op base ch) = Some r" "row_head r = row_head base"
    "row_wf base \<Longrightarrow> row_wf r" "\<And>k. row_cell r k = op_cell op k (row_cell base k)"
proof -
  define st where
    "st = (case ro_set op of None \<Rightarrow> (base, ch) | Some kvs \<Rightarrow> foldl (write_field op) (base, ch) kvs)"
  have head: "row_head (fst st) = row_head base"
    by (simp add: st_def write_fields_keep split: option.split)
  have "\<not> rw_deleted (fst st)" using row_deleted_head [OF head] assms by simp
  then have "(fst st)\<lparr>rw_deleted := False\<rparr> = fst st" by simp
  then have "fst (apply_writes op base ch) = Some (fst st)"
    unfolding apply_writes_def st_def [symmetric] Let_def by (cases st) simp
  moreover have "row_wf base \<Longrightarrow> row_wf (fst st)"
    by (simp add: st_def write_fields_keep split: option.split)
  moreover have "row_cell (fst st) k = op_cell op k (row_cell base k)" for k
    by (simp add: st_def op_cell_def op_write_def write_fields_cell split: option.split)
  ultimately show thesis using head by (intro that)
qed

lemma lww_not_newer: "\<not> hlc_newer h (fst (lww h v c))"
  by (auto simp: lww_def hlc_newer_def split: option.split)

lemma absorbed_op_cell:
  "(\<And>k. row_cell r k = op_cell op k (c k)) \<Longrightarrow> absorbed op r"
  unfolding absorbed_def
proof (intro allI impI)
  fix k assume c: "\<And>k. row_cell r k = op_cell op k (c k)" and "op_write op k \<noteq> None"
  then obtain v where "op_write op k = Some v" by blast
  then have "fst (row_cell r k) = fst (lww (clock_for op k) v (c k))"
    by (simp add: c op_cell_def)
  then show "\<not> hlc_newer (clock_for op k) (map_of (rw_clocks r) k)"
    using lww_not_newer by (simp add: row_cell_def)
qed

lemma apply_writes_twice:
  assumes "\<not> rw_deleted base" "fst (apply_writes op base ch) = Some r"
  shows "\<not> rw_deleted r \<and> absorbed op r"
proof -
  from apply_writes_live [OF assms(1), of op ch] obtain r' where
    r': "fst (apply_writes op base ch) = Some r'" "row_head r' = row_head base"
      "\<And>k. row_cell r' k = op_cell op k (row_cell base k)" by blast
  have "r' = r" using r'(1) assms(2) by simp
  with r' absorbed_op_cell [OF r'(3)] row_deleted_head [OF r'(2)] assms(1) show ?thesis by simp
qed

lemma apply_op_live:
  "ro_op op \<noteq> OpDelete \<Longrightarrow> \<not> rw_deleted r \<Longrightarrow> apply_op (Some r) op = apply_writes op r False"
  by (simp add: apply_op_def)

lemma apply_op_absorbed:
  "ro_op op \<noteq> OpDelete \<Longrightarrow> \<not> rw_deleted r \<Longrightarrow> absorbed op r \<Longrightarrow>
     apply_op (Some r) op = (Some r, False)"
  by (simp add: apply_op_live apply_writes_absorbed)

lemma live_rows [simp]: "\<not> rw_deleted (new_row kind i)" "\<not> rw_deleted (revive r)"
  by (simp_all add: new_row_def revive_def)

text \<open>An upsert or update either drops or writes into a live base row.\<close>

lemma apply_op_cases:
  assumes "ro_op op \<noteq> OpDelete"
  shows "apply_op row op = (row, False) \<or>
    (\<exists>base ch. \<not> rw_deleted base \<and> apply_op row op = apply_writes op base ch)"
proof (cases row)
  case None
  with assms have "apply_op row op = (row, False) \<or>
      apply_op row op = apply_writes op (new_row (ro_kind op) (ro_id op)) True"
    by (simp add: apply_op_def)
  then show ?thesis using live_rows by metis
next
  case (Some r)
  with assms have "apply_op row op = (row, False) \<or> apply_op row op = apply_writes op (revive r) True \<or>
      (\<not> rw_deleted r \<and> apply_op row op = apply_writes op r False)"
    by (simp add: apply_op_def)
  then show ?thesis using live_rows by metis
qed

lemma hlc_newer_irrefl [simp]: "\<not> hlc_newer h (Some h)"
  by (simp add: hlc_newer_def)

text \<open>
  Merging is idempotent: an operation applied to its own result, whatever the row was (missing,
  live or a tombstone) and whatever the operation, changes nothing and reports no change, so a
  batch pushed again right after a reconnect is a no-op.
\<close>

theorem apply_op_idempotent: "apply_op (merge_op op row) op = (merge_op op row, False)"
proof (cases "ro_op op = OpDelete")
  case True
  then show ?thesis
    by (auto simp: apply_op_def apply_delete_def tombstone_def Let_def split: option.split)
next
  case op: False
  have writes: "apply_op (fst (apply_writes op base ch)) op = (fst (apply_writes op base ch), False)"
    if nd: "\<not> rw_deleted base" for base ch
  proof -
    obtain r where r: "fst (apply_writes op base ch) = Some r"
      using apply_writes_live [OF nd, of op ch] by blast
    with apply_writes_twice [OF nd r] apply_op_absorbed [OF op] show ?thesis by simp
  qed
  from apply_op_cases [OF op, of row] show ?thesis
    using writes by (elim disjE exE conjE) simp_all
qed

subsection \<open>Convergence of live rows\<close>

lemma merge_op_live:
  assumes "ro_op op \<noteq> OpDelete" "\<not> rw_deleted r"
  obtains r' where "merge_op op (Some r) = Some r'" "row_head r' = row_head r"
    "row_wf r \<Longrightarrow> row_wf r'" "\<And>k. row_cell r' k = op_cell op k (row_cell r k)"
  using apply_writes_live [OF assms(2), of op False] by (auto simp: apply_op_live assms)

definition no_deletes :: "row_op list \<Rightarrow> bool" where
  "no_deletes ops \<longleftrightarrow> list_all (\<lambda>op. ro_op op \<noteq> OpDelete) ops"

lemma merge_ops_live:
  assumes "no_deletes ops" "\<not> rw_deleted r"
  obtains r' where "merge_ops (Some r) ops = Some r'" "row_head r' = row_head r"
    "row_wf r \<Longrightarrow> row_wf r'" "\<And>k. row_cell r' k = fold (\<lambda>op. op_cell op k) ops (row_cell r k)"
  using assms
proof (induction ops arbitrary: r thesis)
  case Nil
  then show ?case by (simp add: merge_ops_def)
next
  case (Cons op ops)
  from Cons.prems(2) have op: "ro_op op \<noteq> OpDelete" and ops: "no_deletes ops"
    by (simp_all add: no_deletes_def)
  obtain r1 where r1: "merge_op op (Some r) = Some r1" "row_head r1 = row_head r"
    "row_wf r \<Longrightarrow> row_wf r1" "\<And>k. row_cell r1 k = op_cell op k (row_cell r k)"
    using merge_op_live [OF op Cons.prems(3)] by blast
  have "\<not> rw_deleted r1" using row_deleted_head [OF r1(2)] Cons.prems(3) by simp
  then obtain r2 where "merge_ops (Some r1) ops = Some r2" "row_head r2 = row_head r1"
    "row_wf r1 \<Longrightarrow> row_wf r2" "\<And>k. row_cell r2 k = fold (\<lambda>op. op_cell op k) ops (row_cell r1 k)"
    using Cons.IH [OF _ ops] by blast
  with r1 show ?case by (intro Cons.prems(1) [of r2]) (simp_all add: merge_ops_def)
qed

text \<open>Two writes with the same clock to the same field write the same value.\<close>

definition tie_free :: "row_op list \<Rightarrow> bool" where
  "tie_free ops \<longleftrightarrow>
     (\<forall>a \<in> set ops. \<forall>b \<in> set ops. \<forall>k. op_write a k \<noteq> None \<and> op_write b k \<noteq> None \<and>
        clock_for a k = clock_for b k \<longrightarrow> op_write a k = op_write b k)"

lemma lww_commute:
  "(h = h' \<Longrightarrow> v = v') \<Longrightarrow> lww h v (lww h' v' c) = lww h' v' (lww h v c)"
  by (auto simp: lww_def hlc_newer_def split: option.splits)

lemma op_cell_commute:
  assumes "tie_free ops" "a \<in> set ops" "b \<in> set ops"
  shows "op_cell a k \<circ> op_cell b k = op_cell b k \<circ> op_cell a k"
proof
  fix c
  show "(op_cell a k \<circ> op_cell b k) c = (op_cell b k \<circ> op_cell a k) c"
    using assms unfolding tie_free_def
    by (auto simp: op_cell_def split: option.split intro!: lww_commute) fastforce+
qed

text \<open>
  C5. Field writes converge: on a live row, any two orders of the same upserts and updates give the
  same row, field values, per-field clocks and all, provided no two different writes carry the
  same clock (which the device suffix of the clock guarantees).
\<close>

theorem merge_ops_converge:
  assumes "no_deletes ops" "tie_free ops" "mset ops' = mset ops" "row_wf r" "\<not> rw_deleted r"
  shows "merge_ops (Some r) ops' = merge_ops (Some r) ops"
proof -
  have "no_deletes ops'"
    using assms(1) mset_eq_setD [OF assms(3)] by (simp add: no_deletes_def list_all_iff)
  from merge_ops_live [OF this assms(5)] obtain a where
    a: "merge_ops (Some r) ops' = Some a" "row_head a = row_head r" "row_wf r \<Longrightarrow> row_wf a"
      "\<And>k. row_cell a k = fold (\<lambda>op. op_cell op k) ops' (row_cell r k)" by blast
  from merge_ops_live [OF assms(1,5)] obtain b where
    b: "merge_ops (Some r) ops = Some b" "row_head b = row_head r" "row_wf r \<Longrightarrow> row_wf b"
      "\<And>k. row_cell b k = fold (\<lambda>op. op_cell op k) ops (row_cell r k)" by blast
  have "fold (\<lambda>op. op_cell op k) ops = fold (\<lambda>op. op_cell op k) ops'" for k
    by (rule fold_multiset_equiv) (use op_cell_commute assms(2,3) in auto)
  with a b have "row_cell a = row_cell b" by (simp add: fun_eq_iff)
  with a b assms(4) have "a = b" by (intro row_ext) auto
  with a b show ?thesis by simp
qed

definition demo_op :: "op_kind \<Rightarrow> string \<Rightarrow> (string \<times> json) list \<Rightarrow> row_op" where
  "demo_op k h kvs = \<lparr>ro_kind = ''chats'', ro_id = ''c1'', ro_op = k, ro_set = Some kvs,
     ro_hlc = h, ro_clocks = None\<rparr>"

lemma merge_ops_converge_witness:
  "merge_ops (Some (new_row ''chats'' ''c1''))
      [demo_op OpUpdate ''2'' [(''title'', JStr ''new'')],
       demo_op OpUpsert ''1'' [(''cwd'', JStr ''/''), (''title'', JStr ''old'')]] =
    merge_ops (Some (new_row ''chats'' ''c1''))
      [demo_op OpUpsert ''1'' [(''cwd'', JStr ''/''), (''title'', JStr ''old'')],
       demo_op OpUpdate ''2'' [(''title'', JStr ''new'')]]"
  by (rule merge_ops_converge)
    (auto simp: no_deletes_def tie_free_def demo_op_def clock_for_def row_wf_def new_row_def)

subsection \<open>Tombstones and missing rows\<close>

text \<open>An operation that the tombstone clock \<open>d\<close> beats.\<close>

definition beaten_by :: "string \<Rightarrow> row_op \<Rightarrow> bool" where
  "beaten_by d op \<longleftrightarrow> (ro_op op = OpUpsert \<longrightarrow> ro_hlc op \<le> d)"

lemma merge_op_tombstone:
  assumes "rw_deleted t" "rw_del_hlc t = Some d" "beaten_by d op"
  shows "\<exists>t' d'. merge_op op (Some t) = Some t' \<and> rw_deleted t' \<and> rw_del_hlc t' = Some d' \<and> d \<le> d'"
proof (cases "ro_op op = OpDelete \<and> d < ro_hlc op")
  case True
  with assms(1,2) show ?thesis
    by (simp add: apply_op_def apply_delete_def hlc_newer_def less_imp_le)
next
  case False
  with assms have "merge_op op (Some t) = Some t"
    by (cases "ro_op op")
      (auto simp: apply_op_def apply_delete_def hlc_newer_def beaten_by_def)
  with assms(1,2) show ?thesis by simp
qed

text \<open>
  C29. A deleted row stays deleted: after a tombstone, no sequence of updates, of further deletes
  and of upserts that are not newer than the tombstone ever brings the row back, and the tombstone
  clock never goes down.
\<close>

theorem tombstone_stays:
  assumes "rw_deleted t" "rw_del_hlc t = Some d" "list_all (beaten_by d) ops"
  shows "\<exists>t' d'. merge_ops (Some t) ops = Some t' \<and> rw_deleted t' \<and> rw_del_hlc t' = Some d' \<and> d \<le> d'"
  using assms
proof (induction ops arbitrary: t d)
  case Nil
  then show ?case by (simp add: merge_ops_def)
next
  case (Cons op ops)
  then obtain t' d' where t': "merge_op op (Some t) = Some t'" "rw_deleted t'"
    "rw_del_hlc t' = Some d'" "d \<le> d'"
    using merge_op_tombstone [of t d op] by auto
  have "list_all (beaten_by d') ops"
    using Cons.prems(3) t'(4) by (auto simp: list_all_iff beaten_by_def intro: order_trans)
  from Cons.IH [OF t'(2,3) this] t'(1,4) show ?case
    by (auto simp: merge_ops_def intro: order_trans)
qed

lemma tombstone_stays_witness:
  "\<exists>t' d'. merge_ops (Some (tombstone ''chats'' ''c1'' ''5''))
      [demo_op OpUpsert ''4'' [(''title'', JStr ''x'')], demo_op OpUpdate ''9'' [],
       demo_op OpDelete ''7'' []] = Some t' \<and> rw_deleted t' \<and> rw_del_hlc t' = Some d' \<and> ''5'' \<le> d'"
  by (rule tombstone_stays)
    (simp_all add: tombstone_def beaten_by_def demo_op_def less_eq_char_def less_char_def)

text \<open>
  Updates never invent rows: an update leaves a missing row missing and a tombstone untouched,
  and on a live row it changes neither the identity of the row nor its liveness.
\<close>

theorem update_never_invents:
  assumes "ro_op op = OpUpdate"
  shows "apply_op row op = (row, False) \<or>
    (\<exists>r r'. row = Some r \<and> \<not> rw_deleted r \<and> merge_op op row = Some r' \<and> row_head r' = row_head r)"
proof (cases row)
  case None
  with assms show ?thesis by (simp add: apply_op_def)
next
  case (Some r)
  show ?thesis
  proof (cases "rw_deleted r")
    case True
    with Some assms show ?thesis by (simp add: apply_op_def)
  next
    case False
    from assms have "ro_op op \<noteq> OpDelete" by simp
    from merge_op_live [OF this False] Some False show ?thesis by metis
  qed
qed

lemma update_never_invents_witness:
  "apply_op None (demo_op OpUpdate ''9'' [(''title'', JStr ''x'')]) = (None, False) \<or>
   (\<exists>r r'. None = Some r \<and> \<not> rw_deleted r \<and>
      merge_op (demo_op OpUpdate ''9'' [(''title'', JStr ''x'')]) None = Some r' \<and>
      row_head r' = row_head r)"
  by (rule update_never_invents) (simp add: demo_op_def)

subsection \<open>Replays\<close>

lemma lww_grows: "\<not> hlc_newer h (fst c) \<Longrightarrow> \<not> hlc_newer h (fst (lww h' v c))"
  by (auto simp: lww_def hlc_newer_def split: option.splits)

lemma op_cell_grows: "\<not> hlc_newer h (fst c) \<Longrightarrow> \<not> hlc_newer h (fst (op_cell op k c))"
  by (simp add: op_cell_def lww_grows split: option.split)

lemma op_cells_grow:
  "\<not> hlc_newer h (fst c) \<Longrightarrow> \<not> hlc_newer h (fst (fold (\<lambda>op. op_cell op k) ops c))"
  by (induction ops arbitrary: c) (simp_all add: op_cell_grows)

text \<open>
  A write that reached a live row can be pushed again at any later time: after any number of
  other field writes, the replay of the operation changes nothing.
\<close>

theorem replay_absorbed:
  assumes "\<not> rw_deleted r" "no_deletes (op # ops)"
  shows "apply_op (merge_ops (Some r) (op # ops)) op = (merge_ops (Some r) (op # ops), False)"
proof -
  from merge_ops_live [OF assms(2,1)] obtain r' where
    r': "merge_ops (Some r) (op # ops) = Some r'" "row_head r' = row_head r"
      "\<And>k. row_cell r' k = fold (\<lambda>op. op_cell op k) (op # ops) (row_cell r k)" by blast
  have "absorbed op r'"
    unfolding absorbed_def
  proof (intro allI impI)
    fix k assume "op_write op k \<noteq> None"
    then have "\<not> hlc_newer (clock_for op k) (fst (op_cell op k (row_cell r k)))"
      by (auto simp: op_cell_def lww_not_newer)
    then have "\<not> hlc_newer (clock_for op k) (fst (row_cell r' k))"
      by (simp add: r'(3) op_cells_grow)
    then show "\<not> hlc_newer (clock_for op k) (map_of (rw_clocks r') k)"
      by (simp add: row_cell_def)
  qed
  moreover have "\<not> rw_deleted r'" using row_deleted_head [OF r'(2)] assms(1) by simp
  ultimately show ?thesis
    using r'(1) apply_op_absorbed assms(2) by (simp add: no_deletes_def)
qed

lemma replay_absorbed_witness:
  "let row = merge_ops (Some (new_row ''chats'' ''c1''))
       [demo_op OpUpdate ''1'' [(''title'', JStr ''a'')], demo_op OpUpdate ''2'' [(''title'', JStr ''b'')]]
   in apply_op row (demo_op OpUpdate ''1'' [(''title'', JStr ''a'')]) = (row, False)"
  unfolding Let_def
  by (rule replay_absorbed) (simp_all add: no_deletes_def demo_op_def)

text \<open>
  The replay of an accepted write is not a no-op once the row was deleted and revived in
  between: a revival starts from empty field clocks, so a write older than the tombstone lands in
  the revived row when its batch is pushed again.
\<close>

theorem replay_after_revival:
  "\<exists>r op dl up row. \<not> rw_deleted r \<and> ro_op op = OpUpsert \<and> ro_op dl = OpDelete \<and> ro_op up = OpUpsert \<and>
     ro_hlc op < ro_hlc dl \<and> ro_hlc dl < ro_hlc up \<and>
     snd (apply_op (Some r) op) \<and> row = merge_ops (Some r) [op, dl, up] \<and>
     merge_op op row \<noteq> row"
proof -
  let ?r = "new_row ''chats'' ''c1''"
  let ?op = "demo_op OpUpsert ''1'' [(''title'', JStr ''stale'')]"
  let ?dl = "demo_op OpDelete ''2'' []"
  let ?up = "demo_op OpUpsert ''3'' [(''cwd'', JStr ''/'')]"
  have "\<not> rw_deleted ?r" "snd (apply_op (Some ?r) ?op)"
    "merge_op ?op (merge_ops (Some ?r) [?op, ?dl, ?up]) \<noteq> merge_ops (Some ?r) [?op, ?dl, ?up]"
    "ro_op ?op = OpUpsert" "ro_op ?dl = OpDelete" "ro_op ?up = OpUpsert"
    "ro_hlc ?op < ro_hlc ?dl" "ro_hlc ?dl < ro_hlc ?up"
    by code_simp+
  then show ?thesis by blast
qed

subsection \<open>The row invariant\<close>

text \<open>Sorted maps, every stored value non-null and clocked, and empty maps on a tombstone.\<close>

definition row_inv :: "registry_row \<Rightarrow> bool" where
  "row_inv r \<longleftrightarrow>
     row_wf r \<and>
     (\<forall>k v. map_of (rw_fields r) k = Some v \<longrightarrow> v \<noteq> JNull \<and> map_of (rw_clocks r) k \<noteq> None) \<and>
     (rw_deleted r \<longrightarrow> rw_fields r = [] \<and> rw_clocks r = [] \<and> rw_del_hlc r \<noteq> None)"

definition cell_ok :: "cell \<Rightarrow> bool" where
  "cell_ok c \<longleftrightarrow> snd c \<noteq> None \<longrightarrow> snd c \<noteq> Some JNull \<and> fst c \<noteq> None"

lemma row_inv_cells:
  "row_inv r \<longleftrightarrow> row_wf r \<and> (\<forall>k. cell_ok (row_cell r k)) \<and>
     (rw_deleted r \<longrightarrow> rw_fields r = [] \<and> rw_clocks r = [] \<and> rw_del_hlc r \<noteq> None)"
  by (auto simp: row_inv_def cell_ok_def row_cell_def)

lemma cell_ok_lww: "cell_ok c \<Longrightarrow> cell_ok (lww h v c)"
  by (simp add: cell_ok_def lww_def)

lemma row_inv_apply_writes:
  assumes "row_inv base" "\<not> rw_deleted base" "fst (apply_writes op base ch) = Some r"
  shows "row_inv r"
proof -
  from apply_writes_live [OF assms(2), of op ch] obtain r' where
    r': "fst (apply_writes op base ch) = Some r'" "row_head r' = row_head base"
      "row_wf base \<Longrightarrow> row_wf r'" "\<And>k. row_cell r' k = op_cell op k (row_cell base k)" by blast
  moreover have "r' = r" using r'(1) assms(3) by simp
  moreover have "cell_ok (op_cell op k (row_cell base k))" for k
    using assms(1) by (simp add: op_cell_def row_inv_cells cell_ok_lww split: option.split)
  ultimately show ?thesis
    using assms(1,2) row_deleted_head [OF r'(2)] by (simp add: row_inv_cells)
qed

lemma row_inv_base [simp]: "row_inv (new_row kind i)" "row_inv r \<Longrightarrow> row_inv (revive r)"
  by (simp_all add: row_inv_def row_wf_def new_row_def revive_def)

text \<open>
  Merging keeps every row well-formed: the field and clock maps stay sorted with one entry per
  key, no null is ever stored, every stored field has a clock, and a tombstone holds no fields and
  no clocks and always has its own.
\<close>

theorem apply_op_row_inv:
  assumes "\<And>r. row = Some r \<Longrightarrow> row_inv r" "merge_op op row = Some r'"
  shows "row_inv r'"
proof (cases "ro_op op = OpDelete")
  case True
  with assms show ?thesis
    by (auto simp: apply_op_def apply_delete_def Let_def row_inv_def row_wf_def tombstone_def
        split: option.splits if_splits)
next
  case False
  show ?thesis
  proof (cases row)
    case None
    with False assms(2) have "fst (apply_writes op (new_row (ro_kind op) (ro_id op)) True) = Some r'"
      by (simp add: apply_op_def split: if_splits)
    then show ?thesis by (rule row_inv_apply_writes [rotated 2]) simp_all
  next
    case (Some r)
    with False assms(2) consider "r' = r" | "fst (apply_writes op (revive r) True) = Some r'"
      | "\<not> rw_deleted r" "fst (apply_writes op r False) = Some r'"
      by (auto simp: apply_op_def split: if_splits)
    then show ?thesis
      using assms(1) [OF Some] by cases (auto intro: row_inv_apply_writes [rotated 2])
  qed
qed

lemma apply_op_row_inv_witness:
  "row_inv (tombstone ''chats'' ''c1'' ''5'') \<and>
   row_inv (the (merge_op (demo_op OpUpsert ''6'' [(''title'', JStr ''x'')])
     (Some (tombstone ''chats'' ''c1'' ''5''))))"
proof -
  have t: "row_inv (tombstone ''chats'' ''c1'' ''5'')"
    by (simp add: row_inv_def row_wf_def tombstone_def)
  obtain r where r: "merge_op (demo_op OpUpsert ''6'' [(''title'', JStr ''x'')])
      (Some (tombstone ''chats'' ''c1'' ''5'')) = Some r"
    using apply_writes_live [of "revive (tombstone ''chats'' ''c1'' ''5'')"
        "demo_op OpUpsert ''6'' [(''title'', JStr ''x'')]" True]
    by (auto simp: apply_op_def demo_op_def tombstone_def hlc_newer_def less_char_def)
  have "row_inv r"
    by (rule apply_op_row_inv [OF _ r]) (use t in simp)
  with t r show ?thesis by simp
qed

subsection \<open>Recovery of a wiped server\<close>

text \<open>
  C32. Re-seeding an empty server from a replica's row restores it: a live row comes back with the
  same fields, and each field with its original clock; a tombstone comes back with its own clock.
\<close>

theorem seed_restores:
  assumes "row_inv r"
  shows "\<exists>r'. merge_op (row_to_seed_op r) None = Some r' \<and>
    rw_kind r' = rw_kind r \<and> rw_id r' = rw_id r \<and> rw_deleted r' = rw_deleted r \<and>
    rw_fields r' = rw_fields r \<and>
    (if rw_deleted r then rw_del_hlc r' = rw_del_hlc r \<and> rw_clocks r' = rw_clocks r
     else map_of (rw_clocks r') = map_of (rw_clocks r) |` dom (map_of (rw_fields r)))"
proof (cases "rw_deleted r")
  case True
  with assms show ?thesis
    by (auto simp: row_to_seed_op_def apply_op_def apply_delete_def tombstone_def row_inv_def)
next
  case False
  let ?op = "row_to_seed_op r"
  have op: "merge_op ?op None = fst (apply_writes ?op (new_row (rw_kind r) (rw_id r)) True)"
    using False by (simp add: apply_op_def row_to_seed_op_def)
  from apply_writes_live [OF live_rows(1)] obtain r' where
    r': "fst (apply_writes ?op (new_row (rw_kind r) (rw_id r)) True) = Some r'"
      "row_head r' = row_head (new_row (rw_kind r) (rw_id r))"
      "row_wf (new_row (rw_kind r) (rw_id r)) \<Longrightarrow> row_wf r'"
      "\<And>k. row_cell r' k = op_cell ?op k (row_cell (new_row (rw_kind r) (rw_id r)) k)" by blast
  have cell: "row_cell r' k =
      (case map_of (rw_fields r) k of None \<Rightarrow> (None, None) | Some v \<Rightarrow> (map_of (rw_clocks r) k, Some v))"
    for k
  proof (cases "map_of (rw_fields r) k")
    case None
    with False show ?thesis
      unfolding r'(4)
      by (simp add: op_cell_def op_write_def row_to_seed_op_def row_cell_def new_row_def)
  next
    case (Some v)
    with assms obtain h where "v \<noteq> JNull" "map_of (rw_clocks r) k = Some h"
      by (auto simp: row_inv_def)
    with False Some show ?thesis
      unfolding r'(4)
      by (simp add: op_cell_def op_write_def row_to_seed_op_def row_cell_def new_row_def
          lww_def hlc_newer_def clock_for_def)
  qed
  have "row_wf r'" using r'(3) by (simp add: row_wf_def new_row_def)
  moreover have "map_of (rw_fields r') = map_of (rw_fields r)"
  proof
    fix k show "map_of (rw_fields r') k = map_of (rw_fields r) k"
      using cell [of k] by (simp add: row_cell_def split: option.splits)
  qed
  ultimately have "rw_fields r' = rw_fields r"
    using assms by (auto simp: row_inv_def row_wf_def intro: bt_ext)
  moreover have "map_of (rw_clocks r') = map_of (rw_clocks r) |` dom (map_of (rw_fields r))"
  proof
    fix k show "map_of (rw_clocks r') k = (map_of (rw_clocks r) |` dom (map_of (rw_fields r))) k"
      using cell [of k] by (simp add: row_cell_def restrict_map_def dom_def split: option.splits)
  qed
  ultimately show ?thesis
    using op r'(1,2) False by (simp add: row_head_def new_row_def)
qed

definition demo_row :: registry_row where
  "demo_row = (new_row ''chats'' ''c1'')\<lparr>rw_fields := [(''title'', JStr ''x'')],
     rw_clocks := [(''cwd'', ''4''), (''title'', ''5'')]\<rparr>"

lemma seed_restores_witness:
  "row_inv demo_row \<and>
   (\<exists>r'. merge_op (row_to_seed_op demo_row) None = Some r' \<and> rw_fields r' = rw_fields demo_row)"
proof -
  have "row_inv demo_row"
    by (simp add: demo_row_def row_inv_def row_wf_def new_row_def bt_wf_def less_char_def)
  with seed_restores [OF this] show ?thesis by blast
qed

text \<open>
  The re-seed drops the clocks of fields that were deleted by a null write: a stale write that
  the replica's row refuses lands in the re-seeded one, so recovery does coarsen causality there.
\<close>

theorem seed_forgets_removed_fields:
  "\<exists>r stale. row_inv r \<and> \<not> rw_deleted r \<and> apply_op (Some r) stale = (Some r, False) \<and>
     snd (apply_op (merge_op (row_to_seed_op r) None) stale)"
proof -
  let ?r = "(new_row ''chats'' ''c1'')\<lparr>rw_clocks := [(''title'', ''5'')]\<rparr>"
  let ?stale = "demo_op OpUpdate ''3'' [(''title'', JStr ''x'')]"
  have "row_inv ?r" by (simp add: row_inv_def row_wf_def new_row_def bt_wf_def)
  moreover have "\<not> rw_deleted ?r" "apply_op (Some ?r) ?stale = (Some ?r, False)"
    "snd (apply_op (merge_op (row_to_seed_op ?r) None) ?stale)" by code_simp+
  ultimately show ?thesis by blast
qed

end
