(* ===== verification/Doc_Registry.thy ===== *)
theory Doc_Registry
  imports Doc_Registry_Core Doc_Loro
begin

text \<open>
  The local registry replica \<^verbatim>\<open>RegistryDoc\<close> of \<^verbatim>\<open>crates/doc/src/registry.rs\<close>: the authoritative rows,
  the pending batches, server frames, local writes and the optimistic overlay. The two-level
  \<^verbatim>\<open>HashMap\<close> is an association list of association lists. The last field, \<open>rd_wall\<close>, is not one of
  the struct: it is the sequence of readings the wall clock will give, the environment's input, of
  which each clock tick consumes one. JSON encoding (\<^verbatim>\<open>serde_json\<close>) is a parameter.
\<close>

subsection \<open>State\<close>

definition kind_devices :: string where "kind_devices = ''devices''"
definition kind_spaces :: string where "kind_spaces = ''spaces''"
definition kind_chats :: string where "kind_chats = ''chats''"
definition kind_sessions :: string where "kind_sessions = ''sessions''"

record pending_batch =
  pb_batch :: string
  pb_ops :: "row_op list"
  pb_in_flight :: bool

type_synonym row_table = "(string, (string, registry_row) hashmap) hashmap"

record registry_doc =
  rd_device_id :: string
  rd_authoritative :: row_table
  rd_server_seq :: nat
  rd_gc_floor :: nat
  rd_clock :: hlc_clock
  rd_pending :: "pending_batch list"
  rd_generation :: nat
  rd_wall :: "nat \<Rightarrow> int"

definition registry_new :: "string \<Rightarrow> (nat \<Rightarrow> int) \<Rightarrow> registry_doc" where
  "registry_new device_id wall =
     \<lparr>rd_device_id = device_id, rd_authoritative = [], rd_server_seq = 0, rd_gc_floor = 0,
      rd_clock = hlc_default, rd_pending = [], rd_generation = 0, rd_wall = wall\<rparr>"

definition pending_len :: "registry_doc \<Rightarrow> nat" where
  "pending_len d = length (rd_pending d)"

text \<open>\<^verbatim>\<open>entry(kind).or_default().insert(id, row)\<close>\<close>

definition table_get :: "row_table \<Rightarrow> string \<Rightarrow> string \<Rightarrow> registry_row option" where
  "table_get t kind i = (case map_of t kind of None \<Rightarrow> None | Some m \<Rightarrow> map_of m i)"

definition table_put :: "registry_row \<Rightarrow> row_table \<Rightarrow> row_table" where
  "table_put row t =
     (let m = (case map_of t (rw_kind row) of None \<Rightarrow> [] | Some m \<Rightarrow> m)
      in AList.update (rw_kind row) (AList.update (rw_id row) row m) t)"

definition table_rows :: "row_table \<Rightarrow> registry_row list" where
  "table_rows t = concat (map (\<lambda>(_, m). map snd m) t)"

definition put_authoritative :: "registry_row \<Rightarrow> registry_doc \<Rightarrow> registry_doc" where
  "put_authoritative row d = d\<lparr>rd_authoritative := table_put row (rd_authoritative d)\<rparr>"

subsection \<open>Persistence\<close>

record persisted_state =
  ps_v :: nat
  ps_device_id :: string
  ps_server_seq :: nat
  ps_gc_floor :: nat
  ps_clock :: hlc_clock
  ps_rows :: "registry_row list"
  ps_pending :: "pending_batch list"

definition persisted_of :: "registry_doc \<Rightarrow> persisted_state" where
  "persisted_of d =
     \<lparr>ps_v = 1, ps_device_id = rd_device_id d, ps_server_seq = rd_server_seq d,
      ps_gc_floor = rd_gc_floor d, ps_clock = rd_clock d,
      ps_rows = table_rows (rd_authoritative d), ps_pending = rd_pending d\<rparr>"

definition to_bytes :: "(persisted_state \<Rightarrow> doc_error + bytes) \<Rightarrow> registry_doc \<Rightarrow>
    doc_error + bytes" where
  "to_bytes to_vec d = to_vec (persisted_of d)"

definition from_bytes :: "(bytes \<Rightarrow> doc_error + persisted_state) \<Rightarrow> (nat \<Rightarrow> int) \<Rightarrow> bytes \<Rightarrow> string \<Rightarrow>
    doc_error + registry_doc" where
  "from_bytes from_slice wall bs device_id =
     (case from_slice bs of
        Inl err \<Rightarrow> Inl err
      | Inr st \<Rightarrow>
          if ps_v st \<noteq> 1
          then Inl (DeSchema (''unknown registry snapshot version '' @ dec (ps_v st)))
          else
            (let d = registry_new device_id wall;
                 d = d\<lparr>rd_server_seq := ps_server_seq st, rd_gc_floor := ps_gc_floor st,
                       rd_clock := ps_clock st, rd_pending := ps_pending st\<rparr>
             in Inr (fold put_authoritative (ps_rows st) d)))"

subsection \<open>Local writes\<close>

definition next_hlc :: "registry_doc \<Rightarrow> registry_doc \<times> string" where
  "next_hlc d =
     (let (c, hlc) = hlc_next (rd_clock d) (rd_wall d 0) (rd_device_id d)
      in (d\<lparr>rd_clock := c, rd_wall := (\<lambda>i. rd_wall d (Suc i))\<rparr>, hlc))"

definition max_ops_per_batch :: nat where
  "max_ops_per_batch = 400"

text \<open>The \<^verbatim>\<open>while\<close> loop: chunks of at most \<open>max_ops_per_batch\<close>, a fresh tick for each batch id.\<close>

function enqueue_loop :: "registry_doc \<Rightarrow> row_op list \<Rightarrow> registry_doc" where
  "enqueue_loop d ops =
     (if ops = [] then d
      else
        let tail = (if length ops > max_ops_per_batch then drop max_ops_per_batch ops else []);
            ops = (if length ops > max_ops_per_batch then take max_ops_per_batch ops else ops);
            (d, hlc) = next_hlc d;
            d = d\<lparr>rd_pending := rd_pending d @
                  [\<lparr>pb_batch = ''b-'' @ hlc, pb_ops = ops, pb_in_flight = False\<rparr>]\<rparr>
        in enqueue_loop d tail)"
  by pat_completeness auto
termination
  by (relation "measure (\<lambda>(d, ops). length ops)") (auto simp: max_ops_per_batch_def)

declare enqueue_loop.simps [simp del]

definition enqueue_ops :: "row_op list \<Rightarrow> registry_doc \<Rightarrow> registry_doc" where
  "enqueue_ops ops d =
     (if ops = [] then d else enqueue_loop (d\<lparr>rd_generation := rd_generation d + 1\<rparr>) ops)"

definition write_row :: "string \<Rightarrow> string \<Rightarrow> op_kind \<Rightarrow> (string, json) btree \<Rightarrow> registry_doc \<Rightarrow>
    registry_doc" where
  "write_row kind i op kvs d =
     (let (d, hlc) = next_hlc d
      in enqueue_ops [\<lparr>ro_kind = kind, ro_id = i, ro_op = op, ro_set = Some kvs, ro_hlc = hlc,
                       ro_clocks = None\<rparr>] d)"

definition delete_row_ops :: "(string \<times> string) list \<Rightarrow> registry_doc \<Rightarrow> registry_doc" where
  "delete_row_ops keys d =
     (let (d, hlc) = next_hlc d
      in enqueue_ops (map (\<lambda>(kind, i). \<lparr>ro_kind = kind, ro_id = i, ro_op = OpDelete, ro_set = None,
                       ro_hlc = hlc, ro_clocks = None\<rparr>) keys) d)"

subsection \<open>Server frames\<close>

datatype state_outcome = StDelta | StReplaced | StReseeded

definition rows_to_table :: "registry_row list \<Rightarrow> row_table" where
  "rows_to_table rows = fold table_put rows []"

definition apply_state :: "nat \<Rightarrow> bool \<Rightarrow> nat \<Rightarrow> registry_row list \<Rightarrow> registry_doc \<Rightarrow>
    registry_doc \<times> state_outcome" where
  "apply_state seq full gc_floor rows d =
     (let d = d\<lparr>rd_generation := rd_generation d + 1\<rparr>
      in if \<not> full then
           ((fold put_authoritative rows d)\<lparr>rd_server_seq := seq, rd_gc_floor := gc_floor\<rparr>, StDelta)
         else if seq < rd_server_seq d then
           (let seed = map row_to_seed_op (table_rows (rd_authoritative d));
                d = (fold put_authoritative rows d)\<lparr>rd_server_seq := seq, rd_gc_floor := gc_floor\<rparr>;
                d = (if seed \<noteq> [] then enqueue_ops seed d else d)
            in (d, StReseeded))
         else
           (let incoming = rows_to_table rows;
                seed = concat (map (\<lambda>(kind, by_id).
                         map (\<lambda>(i, row). row_to_seed_op row)
                           (filter (\<lambda>(i, row). table_get incoming kind i = None) by_id))
                         (rd_authoritative d));
                d = d\<lparr>rd_authoritative := incoming, rd_server_seq := seq, rd_gc_floor := gc_floor\<rparr>
            in if seed = [] then (d, StReplaced) else (enqueue_ops seed d, StReseeded)))"

definition apply_rows :: "nat \<Rightarrow> registry_row list \<Rightarrow> registry_doc \<Rightarrow> registry_doc" where
  "apply_rows seq rows d =
     (let d = fold put_authoritative rows (d\<lparr>rd_generation := rd_generation d + 1\<rparr>)
      in if seq > rd_server_seq d then d\<lparr>rd_server_seq := seq\<rparr> else d)"

definition ack_batch :: "string \<Rightarrow> nat \<Rightarrow> registry_doc \<Rightarrow> registry_doc \<times> bool" where
  "ack_batch batch seq d =
     (let before = length (rd_pending d);
          d = d\<lparr>rd_pending := filter (\<lambda>b. pb_batch b \<noteq> batch) (rd_pending d)\<rparr>;
          d = (if seq > rd_server_seq d then d\<lparr>rd_server_seq := seq\<rparr> else d)
      in if length (rd_pending d) \<noteq> before
         then (d\<lparr>rd_generation := rd_generation d + 1\<rparr>, True) else (d, False))"

definition take_pushable :: "registry_doc \<Rightarrow> registry_doc \<times> pending_batch list" where
  "take_pushable d =
     (d\<lparr>rd_pending := map (\<lambda>b. b\<lparr>pb_in_flight := True\<rparr>) (rd_pending d)\<rparr>,
      map (\<lambda>b. b\<lparr>pb_in_flight := True\<rparr>) (filter (\<lambda>b. \<not> pb_in_flight b) (rd_pending d)))"

definition mark_disconnected :: "registry_doc \<Rightarrow> registry_doc" where
  "mark_disconnected d =
     d\<lparr>rd_pending := map (\<lambda>b. b\<lparr>pb_in_flight := False\<rparr>) (rd_pending d)\<rparr>"

subsection \<open>Overlay reads\<close>

definition overlay_op :: "string \<Rightarrow> string \<Rightarrow> registry_row option \<Rightarrow> row_op \<Rightarrow>
    registry_row option" where
  "overlay_op kind i row op =
     (if ro_kind op = kind \<and> ro_id op = i
      then (case apply_op row op of (Some r, _) \<Rightarrow> Some r | (None, _) \<Rightarrow> row)
      else row)"

definition overlay_row :: "registry_doc \<Rightarrow> string \<Rightarrow> string \<Rightarrow> registry_row option" where
  "overlay_row d kind i =
     (let row = foldl (\<lambda>row b. foldl (overlay_op kind i) row (pb_ops b))
                  (table_get (rd_authoritative d) kind i) (rd_pending d)
      in case row of Some r \<Rightarrow> if rw_deleted r then None else Some r | None \<Rightarrow> None)"

definition overlay_ids :: "registry_doc \<Rightarrow> string \<Rightarrow> string list" where
  "overlay_ids d kind =
     foldl (\<lambda>ids b. foldl (\<lambda>ids op.
              if ro_kind op = kind \<and> \<not> List.member ids (ro_id op) then ids @ [ro_id op] else ids)
              ids (pb_ops b))
       (case map_of (rd_authoritative d) kind of None \<Rightarrow> [] | Some m \<Rightarrow> map fst m) (rd_pending d)"

definition overlay_rows :: "registry_doc \<Rightarrow> string \<Rightarrow> registry_row list" where
  "overlay_rows d kind = List.map_filter (overlay_row d kind) (overlay_ids d kind)"

definition read_kind :: "(json \<Rightarrow> 'a option) \<Rightarrow> registry_doc \<Rightarrow> string \<Rightarrow> 'a list" where
  "read_kind from_value d kind =
     List.map_filter (\<lambda>r. from_value (JObj (rw_fields r))) (overlay_rows d kind)"

definition row_exists :: "registry_doc \<Rightarrow> string \<Rightarrow> string \<Rightarrow> bool" where
  "row_exists d kind i \<longleftrightarrow> overlay_row d kind i \<noteq> None"

subsection \<open>What a local write adds to the queue\<close>

definition batch_ok :: "pending_batch \<Rightarrow> bool" where
  "batch_ok b \<longleftrightarrow> pb_ops b \<noteq> [] \<and> length (pb_ops b) \<le> max_ops_per_batch"

text \<open>The states that differ in the clock, the wall and the tail of the queue only.\<close>

definition queued :: "registry_doc \<Rightarrow> registry_doc \<Rightarrow> pending_batch list \<Rightarrow> bool" where
  "queued d d' bs \<longleftrightarrow>
     rd_device_id d' = rd_device_id d \<and> rd_authoritative d' = rd_authoritative d \<and>
     rd_server_seq d' = rd_server_seq d \<and> rd_gc_floor d' = rd_gc_floor d \<and>
     rd_pending d' = rd_pending d @ bs \<and> rd_generation d \<le> rd_generation d'"

lemma queued_trans: "queued d d' bs \<Longrightarrow> queued d' d'' cs \<Longrightarrow> queued d d'' (bs @ cs)"
  by (simp add: queued_def)

lemma queued_refl [simp]: "queued d d []"
  by (simp add: queued_def)

lemma queued_next_hlc [simp]: "queued d (fst (next_hlc d)) []"
  by (simp add: next_hlc_def queued_def split: prod.split)

definition batches_of :: "row_op list \<Rightarrow> pending_batch list \<Rightarrow> bool" where
  "batches_of ops bs \<longleftrightarrow>
     concat (map pb_ops bs) = ops \<and> list_all batch_ok bs \<and> list_all (\<lambda>b. \<not> pb_in_flight b) bs"

lemma enqueue_loop_queued: "\<exists>bs. queued d (enqueue_loop d ops) bs \<and> batches_of ops bs"
proof (induction d ops rule: enqueue_loop.induct)
  case (1 d ops)
  show ?case
  proof (cases "ops = []")
    case True
    then show ?thesis
      by (intro exI [of _ "[]"]) (simp add: enqueue_loop.simps batches_of_def)
  next
    case False
    define hd_ops where
      "hd_ops = (if length ops > max_ops_per_batch then take max_ops_per_batch ops else ops)"
    define tl_ops where
      "tl_ops = (if length ops > max_ops_per_batch then drop max_ops_per_batch ops else [])"
    obtain d1 hlc where hlc: "next_hlc d = (d1, hlc)" by (cases "next_hlc d")
    let ?b = "\<lparr>pb_batch = ''b-'' @ hlc, pb_ops = hd_ops, pb_in_flight = False\<rparr>"
    let ?d2 = "d1\<lparr>rd_pending := rd_pending d1 @ [?b]\<rparr>"
    have step: "enqueue_loop d ops = enqueue_loop ?d2 tl_ops"
      using False by (subst enqueue_loop.simps) (simp add: hlc hd_ops_def tl_ops_def Let_def)
    have "\<exists>bs. queued ?d2 (enqueue_loop ?d2 tl_ops) bs \<and> batches_of tl_ops bs"
      using "1.IH" [OF False tl_ops_def hd_ops_def hlc [symmetric] refl refl] .
    then obtain bs where bs: "queued ?d2 (enqueue_loop ?d2 tl_ops) bs" "batches_of tl_ops bs" by blast
    have "queued d d1 []" using queued_next_hlc [of d] by (simp add: hlc)
    then have "queued d ?d2 [?b]" by (simp add: queued_def)
    with bs(1) have "queued d (enqueue_loop d ops) (?b # bs)"
      unfolding step using queued_trans by fastforce
    moreover have "batches_of ops (?b # bs)"
      using bs(2) False
      by (auto simp: batches_of_def batch_ok_def hd_ops_def tl_ops_def max_ops_per_batch_def)
    ultimately show ?thesis by blast
  qed
qed

lemma enqueue_ops_queued: "\<exists>bs. queued d (enqueue_ops ops d) bs \<and> batches_of ops bs"
proof (cases "ops = []")
  case True
  then show ?thesis by (intro exI [of _ "[]"]) (simp add: enqueue_ops_def batches_of_def)
next
  case False
  let ?d = "d\<lparr>rd_generation := rd_generation d + 1\<rparr>"
  from enqueue_loop_queued [of ?d ops] obtain bs where
    "queued ?d (enqueue_loop ?d ops) bs" "batches_of ops bs" by blast
  with False show ?thesis
    by (intro exI [of _ bs]) (simp add: enqueue_ops_def queued_def)
qed

lemma write_row_queued:
  obtains b op where "queued d (write_row kind i k kvs d) [b]" "pb_ops b = [op]"
    "op = \<lparr>ro_kind = kind, ro_id = i, ro_op = k, ro_set = Some kvs, ro_hlc = snd (next_hlc d),
            ro_clocks = None\<rparr>" "\<not> pb_in_flight b"
proof -
  define op where "op = \<lparr>ro_kind = kind, ro_id = i, ro_op = k, ro_set = Some kvs,
    ro_hlc = snd (next_hlc d), ro_clocks = None\<rparr>"
  obtain d1 hlc where hlc: "next_hlc d = (d1, hlc)" by (cases "next_hlc d")
  have w: "write_row kind i k kvs d = enqueue_ops [op] d1"
    by (simp add: write_row_def hlc op_def)
  obtain bs where bs: "queued d1 (enqueue_ops [op] d1) bs" "batches_of [op] bs"
    using enqueue_ops_queued by blast
  have q: "queued d (write_row kind i k kvs d) bs"
    using queued_trans [OF queued_next_hlc [of d]] bs(1) by (simp add: w hlc)
  from bs(2) obtain b where "bs = [b]" "pb_ops b = [op]" "\<not> pb_in_flight b"
    by (cases bs rule: list.exhaust; cases "tl bs")
      (auto simp: batches_of_def batch_ok_def append_eq_Cons_conv Cons_eq_append_conv)
  with q op_def show thesis by (intro that) auto
qed

lemma delete_row_ops_queued:
  "\<exists>bs. queued d (delete_row_ops keys d) bs \<and>
     batches_of (map (\<lambda>(kind, i). \<lparr>ro_kind = kind, ro_id = i, ro_op = OpDelete, ro_set = None,
       ro_hlc = snd (next_hlc d), ro_clocks = None\<rparr>) keys) bs"
proof -
  obtain d1 hlc where hlc: "next_hlc d = (d1, hlc)" by (cases "next_hlc d")
  let ?ops = "map (\<lambda>(kind, i). \<lparr>ro_kind = kind, ro_id = i, ro_op = OpDelete, ro_set = None,
       ro_hlc = hlc, ro_clocks = None\<rparr>) keys"
  obtain bs where bs: "queued d1 (enqueue_ops ?ops d1) bs" "batches_of ?ops bs"
    using enqueue_ops_queued by blast
  have "queued d (delete_row_ops keys d) bs"
    using queued_trans [OF queued_next_hlc [of d]] bs(1) by (simp add: delete_row_ops_def hlc)
  with bs(2) hlc show ?thesis by auto
qed

subsection \<open>Events of a replica\<close>

datatype registry_event =
    RvWrite string string op_kind "(string \<times> json) list"
  | RvDelete "(string \<times> string) list"
  | RvEnqueue "row_op list"
  | RvState nat bool nat "registry_row list"
  | RvRows nat "registry_row list"
  | RvAck string nat
  | RvTake
  | RvDisconnect

fun reg_apply :: "registry_event \<Rightarrow> registry_doc \<Rightarrow> registry_doc" where
  "reg_apply (RvWrite kind i k kvs) d = write_row kind i k kvs d"
| "reg_apply (RvDelete keys) d = delete_row_ops keys d"
| "reg_apply (RvEnqueue ops) d = enqueue_ops ops d"
| "reg_apply (RvState seq full gc rows) d = fst (apply_state seq full gc rows d)"
| "reg_apply (RvRows seq rows) d = apply_rows seq rows d"
| "reg_apply (RvAck batch seq) d = fst (ack_batch batch seq d)"
| "reg_apply RvTake d = fst (take_pushable d)"
| "reg_apply RvDisconnect d = mark_disconnected d"

inductive reg_reach :: "registry_doc \<Rightarrow> bool" where
  reg_init: "reg_reach (registry_new device wall)"
| reg_step: "reg_reach d \<Longrightarrow> reg_reach (reg_apply ev d)"

inductive_cases reg_reachE: "reg_reach d"

text \<open>The queue without the in-flight marks.\<close>

definition queue_of :: "registry_doc \<Rightarrow> (string \<times> row_op list) list" where
  "queue_of d = map (\<lambda>b. (pb_batch b, pb_ops b)) (rd_pending d)"

lemma put_authoritative_keeps [simp]:
  "rd_pending (put_authoritative r d) = rd_pending d"
  "rd_server_seq (put_authoritative r d) = rd_server_seq d"
  "rd_clock (put_authoritative r d) = rd_clock d"
  "rd_wall (put_authoritative r d) = rd_wall d"
  "rd_device_id (put_authoritative r d) = rd_device_id d"
  "rd_generation (put_authoritative r d) = rd_generation d"
  "rd_authoritative (put_authoritative r d) = table_put r (rd_authoritative d)"
  by (simp_all add: put_authoritative_def)

lemma put_rows_keep [simp]:
  "rd_pending (fold put_authoritative rows d) = rd_pending d"
  "rd_server_seq (fold put_authoritative rows d) = rd_server_seq d"
  "rd_clock (fold put_authoritative rows d) = rd_clock d"
  "rd_wall (fold put_authoritative rows d) = rd_wall d"
  "rd_device_id (fold put_authoritative rows d) = rd_device_id d"
  "rd_generation (fold put_authoritative rows d) = rd_generation d"
  "rd_authoritative (fold put_authoritative rows d) = fold table_put rows (rd_authoritative d)"
  by (induction rows arbitrary: d) simp_all

text \<open>A state frame leaves the queue alone but for the re-seed batches at its end.\<close>

lemma apply_state_pending:
  "\<exists>seed bs. rd_pending (fst (apply_state seq full gc rows d)) = rd_pending d @ bs \<and>
     batches_of seed bs"
proof -
  have q: "\<exists>seed bs. rd_pending (enqueue_ops ops d') = rd_pending d @ bs \<and> batches_of seed bs"
    if "rd_pending d' = rd_pending d" for ops d'
    using enqueue_ops_queued [of d' ops] that by (auto simp: queued_def)
  have e: "\<exists>seed. batches_of seed []"
    by (intro exI [of _ "[]"]) (simp add: batches_of_def)
  show ?thesis
    unfolding apply_state_def Let_def by (auto simp: e intro: q)
qed

lemma reg_apply_pending:
  assumes "\<forall>b seq. ev \<noteq> RvAck b seq" "ev \<noteq> RvTake" "ev \<noteq> RvDisconnect"
  shows "\<exists>ops bs. rd_pending (reg_apply ev d) = rd_pending d @ bs \<and> batches_of ops bs"
proof (cases ev)
  case (RvWrite kind i k kvs)
  obtain b op where b: "queued d (write_row kind i k kvs d) [b]" "pb_ops b = [op]" "\<not> pb_in_flight b"
    using write_row_queued by metis
  then have "batches_of [op] [b]" by (simp add: batches_of_def batch_ok_def max_ops_per_batch_def)
  with b(1) RvWrite show ?thesis by (auto simp: queued_def)
next
  case (RvDelete keys)
  then show ?thesis using delete_row_ops_queued [of d keys] by (auto simp: queued_def)
next
  case (RvEnqueue ops)
  then show ?thesis using enqueue_ops_queued [of d ops] by (auto simp: queued_def)
next
  case (RvState seq full gc rows)
  then show ?thesis using apply_state_pending [of seq full gc rows d] by auto
next
  case (RvRows seq rows)
  then have "rd_pending (reg_apply ev d) = rd_pending d @ []" "batches_of [] []"
    by (simp_all add: apply_rows_def Let_def batches_of_def)
  then show ?thesis by blast
qed (use assms in auto)

lemma pending_ack: "rd_pending (fst (ack_batch batch seq d)) =
    filter (\<lambda>b. pb_batch b \<noteq> batch) (rd_pending d)"
  by (simp add: ack_batch_def Let_def)

lemma queue_of_apply:
  "case ev of
     RvAck batch seq \<Rightarrow> queue_of (reg_apply ev d) = filter (\<lambda>(b, ops). b \<noteq> batch) (queue_of d)
   | _ \<Rightarrow> \<exists>bs. queue_of (reg_apply ev d) = queue_of d @ bs"
proof -
  have other: "\<exists>bs. queue_of (reg_apply ev d) = queue_of d @ bs"
    if "\<forall>b seq. ev \<noteq> RvAck b seq" "ev \<noteq> RvTake" "ev \<noteq> RvDisconnect"
    using reg_apply_pending [OF that, of d] by (auto simp: queue_of_def)
  show ?thesis
  proof (cases ev)
    case (RvAck batch seq)
    then show ?thesis
      by (simp add: queue_of_def pending_ack filter_map o_def)
  next
    case RvTake
    then have "queue_of (reg_apply ev d) = queue_of d @ []"
      by (simp add: queue_of_def take_pushable_def o_def)
    with RvTake show ?thesis by auto
  next
    case RvDisconnect
    then have "queue_of (reg_apply ev d) = queue_of d @ []"
      by (simp add: queue_of_def mark_disconnected_def o_def)
    with RvDisconnect show ?thesis by auto
  qed (use other in auto)
qed

text \<open>
  C21. The queue of local writes only grows at its end, and a batch leaves it only through its own
  acknowledgement: no server frame, no reconnect and no other write drops, reorders or changes a
  pending batch.
\<close>

theorem pending_queue_law:
  "case ev of
     RvAck batch seq \<Rightarrow> queue_of (reg_apply ev d) = filter (\<lambda>(b, ops). b \<noteq> batch) (queue_of d)
   | _ \<Rightarrow> \<exists>bs. queue_of (reg_apply ev d) = queue_of d @ bs"
  by (rule queue_of_apply)

lemma batch_ok_in_flight [simp]: "batch_ok (b\<lparr>pb_in_flight := f\<rparr>) = batch_ok b"
  by (simp add: batch_ok_def)

lemma reg_apply_batch_ok:
  assumes "list_all batch_ok (rd_pending d)"
  shows "list_all batch_ok (rd_pending (reg_apply ev d))"
proof (cases "(\<exists>b seq. ev = RvAck b seq) \<or> ev = RvTake \<or> ev = RvDisconnect")
  case True
  with assms show ?thesis
    by (auto simp: pending_ack take_pushable_def mark_disconnected_def list_all_iff)
next
  case False
  then obtain ops bs where "rd_pending (reg_apply ev d) = rd_pending d @ bs" "batches_of ops bs"
    using reg_apply_pending [of ev d] by blast
  with assms show ?thesis by (simp add: batches_of_def)
qed

text \<open>
  In every reachable state of a replica no pending batch is empty and none exceeds 400
  operations, below the room's cap of 500, however large the write, the cascade or the re-seed
  that produced it: the batch that the server would refuse forever is never built.
\<close>

theorem pending_batches_bounded:
  assumes "reg_reach d"
  shows "list_all batch_ok (rd_pending d) \<and> max_ops_per_batch < 500"
proof -
  have "list_all batch_ok (rd_pending d)"
    using assms by induction (simp add: registry_new_def, rule reg_apply_batch_ok)
  then show ?thesis by (simp add: max_ops_per_batch_def)
qed

lemma pending_batches_bounded_witness:
  "list_all batch_ok (rd_pending (reg_apply (RvDelete (replicate 450 (''chats'', ''c'')))
     (registry_new ''dev'' int))) \<and> max_ops_per_batch < 500"
  by (intro pending_batches_bounded reg_step reg_init)

text \<open>
  After a reconnect every unacknowledged batch is handed to the transport, in the order it was
  written, and exactly once: a second call on the same connection hands out nothing.
\<close>

theorem reconnect_pushes_all:
  "let (d', pushed) = take_pushable (mark_disconnected d)
   in map (\<lambda>b. (pb_batch b, pb_ops b)) pushed = queue_of d \<and> snd (take_pushable d') = []"
  by (simp add: take_pushable_def mark_disconnected_def queue_of_def o_def filter_empty_conv)

subsection \<open>Batch ids\<close>

definition doc_room :: "nat \<Rightarrow> registry_doc \<Rightarrow> bool" where
  "doc_room n d \<longleftrightarrow> hlc_room n (rd_clock d) \<and> (\<forall>i < n. hlc_sane n (rd_wall d i))"

abbreviation doc_stamp :: "registry_doc \<Rightarrow> string" where
  "doc_stamp d \<equiv> hlc_stamp (rd_device_id d) (rd_clock d)"

definition ids_inv :: "registry_doc \<Rightarrow> bool" where
  "ids_inv d \<longleftrightarrow>
     sorted_wrt (<) (map pb_batch (rd_pending d)) \<and>
     list_all (\<lambda>b. pb_batch b \<le> ''b-'' @ doc_stamp d) (rd_pending d)"

lemma hlc_sane_mono: "hlc_sane (Suc n) t \<Longrightarrow> hlc_sane n t"
  by (simp add: hlc_sane_def)

lemma next_hlc_room:
  assumes "doc_room (Suc n) d"
  shows "doc_room n (fst (next_hlc d))" "snd (next_hlc d) = doc_stamp (fst (next_hlc d))"
    "doc_stamp d < doc_stamp (fst (next_hlc d))"
    "rd_pending (fst (next_hlc d)) = rd_pending d"
proof -
  have r: "hlc_room (Suc n) (rd_clock d)" "hlc_sane (Suc n) (rd_wall d 0)"
    using assms by (simp_all add: doc_room_def)
  show "doc_room n (fst (next_hlc d))"
    using hlc.tick_room [OF r, of "rd_device_id d"] assms
    by (auto simp: next_hlc_def doc_room_def split: prod.split intro: hlc_sane_mono)
  show "snd (next_hlc d) = doc_stamp (fst (next_hlc d))"
    using hlc.tick_stamp [OF r, of "rd_device_id d"]
    by (simp add: next_hlc_def case_prod_beta)
  show "doc_stamp d < doc_stamp (fst (next_hlc d))"
    using hlc.tick_newer [OF r, of "rd_device_id d"]
    by (simp add: next_hlc_def case_prod_beta)
  show "rd_pending (fst (next_hlc d)) = rd_pending d"
    by (simp add: next_hlc_def split: prod.split)
qed

lemma ids_inv_next: "doc_room (Suc n) d \<Longrightarrow> ids_inv d \<Longrightarrow> ids_inv (fst (next_hlc d))"
  using next_hlc_room [of n d] by (auto simp: ids_inv_def list_all_iff intro: order_trans less_imp_le)

lemma ids_inv_push:
  assumes "ids_inv d" "doc_stamp d < h" "h = doc_stamp d'" "rd_pending d' = rd_pending d @ [b]"
    "pb_batch b = ''b-'' @ h"
  shows "ids_inv d'"
proof -
  have less: "pb_batch c < ''b-'' @ h" if "c \<in> set (rd_pending d)" for c
  proof -
    have "pb_batch c \<le> ''b-'' @ doc_stamp d"
      using assms(1) that by (simp add: ids_inv_def list_all_iff)
    also have "\<dots> < ''b-'' @ h" using assms(2) by simp
    finally show ?thesis .
  qed
  then show ?thesis
    using assms by (auto simp: ids_inv_def sorted_wrt_append list_all_iff intro: less_imp_le)
qed

lemma doc_room_pending: "doc_room n (d\<lparr>rd_pending := ps\<rparr>) = doc_room n d"
  by (simp add: doc_room_def)

lemma doc_room_mono: "doc_room n d \<Longrightarrow> m \<le> n \<Longrightarrow> doc_room m d"
  unfolding doc_room_def hlc_room_def hlc_sane_def
proof (elim conjE, intro conjI allI impI)
  fix i assume "\<forall>i < n. rd_wall d i + int n < 10 ^ 13" "m \<le> n" "i < m"
  then have "rd_wall d i + int n < 10 ^ 13" "int m \<le> int n" by simp_all
  then show "rd_wall d i + int m < 10 ^ 13" by linarith
qed auto

lemma enqueue_loop_ids:
  "doc_room (length ops) d \<Longrightarrow> ids_inv d \<Longrightarrow> ids_inv (enqueue_loop d ops)"
proof (induction d ops rule: enqueue_loop.induct)
  case (1 d ops)
  show ?case
  proof (cases "ops = []")
    case True
    with 1 show ?thesis by (simp add: enqueue_loop.simps)
  next
    case False
    define hd_ops where
      "hd_ops = (if length ops > max_ops_per_batch then take max_ops_per_batch ops else ops)"
    define tl_ops where
      "tl_ops = (if length ops > max_ops_per_batch then drop max_ops_per_batch ops else [])"
    obtain d1 hlc where hlc: "next_hlc d = (d1, hlc)" by (cases "next_hlc d")
    let ?d2 = "d1\<lparr>rd_pending := rd_pending d1 @
      [\<lparr>pb_batch = ''b-'' @ hlc, pb_ops = hd_ops, pb_in_flight = False\<rparr>]\<rparr>"
    have step: "enqueue_loop d ops = enqueue_loop ?d2 tl_ops"
      using False by (subst enqueue_loop.simps) (simp add: hlc hd_ops_def tl_ops_def Let_def)
    obtain n where n: "length ops = Suc n" using False by (cases ops) auto
    note t = next_hlc_room [of n d, unfolded hlc fst_conv snd_conv]
    have "length tl_ops \<le> n" using n by (auto simp: tl_ops_def max_ops_per_batch_def)
    then have room: "doc_room (length tl_ops) ?d2"
      using t(1) "1.prems"(1) n by (auto simp: doc_room_pending intro: doc_room_mono)
    have ids: "ids_inv ?d2"
    proof (rule ids_inv_push [where d = d and h = hlc])
      show "ids_inv d" by (rule "1.prems"(2))
      show "doc_stamp d < hlc" "hlc = doc_stamp ?d2" using t(2,3) "1.prems"(1) n by simp_all
      show "rd_pending ?d2 = rd_pending d @
          [\<lparr>pb_batch = ''b-'' @ hlc, pb_ops = hd_ops, pb_in_flight = False\<rparr>]"
        using t(4) "1.prems"(1) n by simp
    qed simp
    show ?thesis
      unfolding step
      by (rule "1.IH" [OF False tl_ops_def hd_ops_def hlc [symmetric] refl refl room ids])
  qed
qed

text \<open>
  Batch ids are never reused: enqueuing any number of operations keeps the ids of the queue
  strictly increasing, so an acknowledgement retires exactly the batch it names, whatever the wall
  clock does.
\<close>

theorem enqueue_ops_ids:
  assumes "doc_room (length ops) d" "ids_inv d"
  shows "ids_inv (enqueue_ops ops d) \<and> distinct (map pb_batch (rd_pending (enqueue_ops ops d)))"
proof -
  have "ids_inv (enqueue_ops ops d)"
    using enqueue_loop_ids [of ops "d\<lparr>rd_generation := rd_generation d + 1\<rparr>"] assms
    by (simp add: enqueue_ops_def doc_room_def ids_inv_def)
  then show ?thesis by (simp add: ids_inv_def strict_sorted_iff)
qed

lemma enqueue_ops_ids_witness:
  "ids_inv (enqueue_ops (replicate 900 (demo_op OpUpdate ''1'' [])) (registry_new ''dev'' int)) \<and>
   distinct (map pb_batch (rd_pending
     (enqueue_ops (replicate 900 (demo_op OpUpdate ''1'' [])) (registry_new ''dev'' int))))"
  by (rule enqueue_ops_ids)
    (simp_all add: doc_room_def hlc_room_def hlc_sane_def registry_new_def hlc_default_def
      ids_inv_def)

subsection \<open>The row tables\<close>

lemma table_get_Nil [simp]: "table_get [] k i = None"
  by (simp add: table_get_def)

lemma table_get_put [simp]:
  "table_get (table_put r t) k i =
     (if k = rw_kind r \<and> i = rw_id r then Some r else table_get t k i)"
  by (auto simp: table_get_def table_put_def Let_def update_conv' split: option.split)

definition at_key :: "string \<Rightarrow> string \<Rightarrow> registry_row \<Rightarrow> bool" where
  "at_key k i r \<longleftrightarrow> rw_kind r = k \<and> rw_id r = i"

lemma table_get_puts:
  "table_get (fold table_put rows t) k i =
     (case find (at_key k i) (rev rows) of Some r \<Rightarrow> Some r | None \<Rightarrow> table_get t k i)"
proof (induction rows rule: rev_induct)
  case (snoc r rows)
  then show ?case by (auto simp: at_key_def)
qed simp

text \<open>Every row sits under its own kind and id, once.\<close>

definition table_inv :: "row_table \<Rightarrow> bool" where
  "table_inv t \<longleftrightarrow>
     hm_wf t \<and> (\<forall>(k, m) \<in> set t. hm_wf m \<and> (\<forall>(i, r) \<in> set m. at_key k i r))"

lemma set_update: "set (AList.update k v m) \<subseteq> insert (k, v) (set m)"
  by (induction m) auto

lemma ball_update: "P (k, v) \<Longrightarrow> \<forall>x \<in> set m. P x \<Longrightarrow> \<forall>x \<in> set (AList.update k v m). P x"
  using set_update [of k v m] by blast

lemma table_inv_put:
  assumes "table_inv t"
  shows "table_inv (table_put r t)"
proof -
  define m where "m = (case map_of t (rw_kind r) of None \<Rightarrow> [] | Some m \<Rightarrow> m)"
  define ok where "ok = (\<lambda>(k, m). hm_wf m \<and> (\<forall>(i, q) \<in> set m. at_key k i q))"
  have t: "hm_wf t" "\<forall>x \<in> set t. ok x"
    using assms by (auto simp: table_inv_def ok_def)
  have "ok (rw_kind r, m)"
    using t(2) by (auto simp: m_def ok_def hm_wf_def split: option.split dest!: map_of_SomeD)
  then have "hm_wf m" "\<forall>(i, q) \<in> set m. at_key (rw_kind r) i q" by (simp_all add: ok_def)
  moreover have "(\<lambda>(i, q). at_key (rw_kind r) i q) (rw_id r, r)" by (simp add: at_key_def)
  ultimately have "ok (rw_kind r, AList.update (rw_id r) r m)"
    unfolding ok_def prod.case by (intro conjI hm.wf_put ball_update) simp_all
  with t have "hm_wf (table_put r t)" "\<forall>x \<in> set (table_put r t). ok x"
    unfolding table_put_def m_def [symmetric] Let_def using hm.wf_put by (auto dest: ball_update)
  then show ?thesis by (simp add: table_inv_def ok_def)
qed

lemma table_inv_puts: "table_inv t \<Longrightarrow> table_inv (fold table_put rows t)"
  by (induction rows arbitrary: t) (auto simp: table_inv_put)

lemma table_inv_Nil [simp]: "table_inv []"
  by (simp add: table_inv_def hm_wf_def)

lemma table_get_iff:
  assumes "table_inv t"
  shows "table_get t k i = Some r \<longleftrightarrow> r \<in> set (table_rows t) \<and> at_key k i r"
proof
  assume "table_get t k i = Some r"
  then obtain m where "map_of t k = Some m" "map_of m i = Some r"
    by (auto simp: table_get_def split: option.splits)
  then have "(k, m) \<in> set t" "(i, r) \<in> set m" by (simp_all add: map_of_SomeD)
  with assms show "r \<in> set (table_rows t) \<and> at_key k i r"
    by (force simp: table_inv_def table_rows_def)
next
  assume "r \<in> set (table_rows t) \<and> at_key k i r"
  then obtain k' m i' where *: "(k', m) \<in> set t" "(i', r) \<in> set m" "at_key k i r"
    by (auto simp: table_rows_def)
  with assms have "k' = k" "i' = i" "hm_wf m" "hm_wf t"
    by (auto simp: table_inv_def at_key_def)
  with * show "table_get t k i = Some r"
    by (simp add: table_get_def hm_wf_def)
qed

lemma table_rows_rebuild:
  assumes "table_inv t"
  shows "table_get (fold table_put (table_rows t) []) k i = table_get t k i"
proof (cases "find (at_key k i) (rev (table_rows t))")
  case None
  then have "\<forall>r \<in> set (table_rows t). \<not> at_key k i r" by (simp add: find_None_iff)
  then have "table_get t k i = None"
    using table_get_iff [OF assms, of k i] by (cases "table_get t k i") auto
  with None show ?thesis by (simp add: table_get_puts)
next
  case (Some r)
  then have "r \<in> set (table_rows t) \<and> at_key k i r" by (auto dest: find_SomeD)
  then have "table_get t k i = Some r" using table_get_iff [OF assms] by blast
  with Some show ?thesis by (simp add: table_get_puts)
qed

lemma reg_reach_table: "reg_reach d \<Longrightarrow> table_inv (rd_authoritative d)"
proof (induction rule: reg_reach.induct)
  case (reg_init device wall)
  then show ?case by (simp add: registry_new_def)
next
  case (reg_step d ev)
  have q: "table_inv (rd_authoritative d'')" if "queued d' d'' bs" "table_inv (rd_authoritative d')"
    for d' d'' bs using that by (simp add: queued_def)
  have e: "table_inv (rd_authoritative (enqueue_ops ops d'))" if "table_inv (rd_authoritative d')"
    for ops d' using enqueue_ops_queued [of d' ops] q that by blast
  show ?case
  proof (cases ev)
    case (RvWrite kind i k kvs)
    then show ?thesis using write_row_queued [of d kind i k kvs] q reg_step.IH by auto
  next
    case (RvDelete keys)
    then show ?thesis using delete_row_ops_queued [of d keys] q reg_step.IH by auto
  next
    case (RvState seq full gc rows)
    have "table_inv (rows_to_table rows)" by (simp add: rows_to_table_def table_inv_puts)
    with RvState reg_step.IH show ?thesis
      by (simp add: apply_state_def Let_def e table_inv_puts)
  qed (use reg_step.IH in \<open>auto simp: e apply_rows_def ack_batch_def take_pushable_def
      mark_disconnected_def Let_def table_inv_puts\<close>)
qed

subsection \<open>Full states lose nothing\<close>

definition pending_op :: "registry_doc \<Rightarrow> row_op \<Rightarrow> bool" where
  "pending_op d op \<longleftrightarrow> op \<in> set (concat (map pb_ops (rd_pending d)))"

lemma ne_if_mem: "x \<in> set xs \<Longrightarrow> xs \<noteq> []"
  by auto

lemma enqueue_pending_op:
  "op \<in> set ops \<Longrightarrow> pending_op (enqueue_ops ops d) op"
  using enqueue_ops_queued [of d ops]
  by (auto simp: pending_op_def queued_def batches_of_def)

lemma enqueue_ops_table [simp]: "rd_authoritative (enqueue_ops ops d) = rd_authoritative d"
  using enqueue_ops_queued [of d ops] by (auto simp: queued_def)

lemma mem_table:
  assumes "table_inv t" "table_get t k i = Some r"
  obtains m where "(k, m) \<in> set t" "(i, r) \<in> set m" "r \<in> set (table_rows t)"
proof -
  from assms(2) obtain m where "map_of t k = Some m" "map_of m i = Some r"
    by (auto simp: table_get_def split: option.splits)
  then have "(k, m) \<in> set t" "(i, r) \<in> set m" by (simp_all add: map_of_SomeD)
  with table_get_iff [OF assms(1)] assms(2) show thesis by (intro that) auto
qed

text \<open>
  A full state never loses a local row: whatever the server sends, even when it lost its own
  storage, each row this replica held is either among the rows the server sent or pending as a
  re-seed operation carrying the row's own clocks.
\<close>

theorem apply_state_keeps_rows:
  assumes "reg_reach d" "table_get (rd_authoritative d) k i = Some r"
    "d' = fst (apply_state seq True gc rows d)"
  shows "list_ex (at_key k i) rows \<and> table_get (rd_authoritative d') k i \<noteq> None \<or>
    pending_op d' (row_to_seed_op r)"
proof -
  have t: "table_inv (rd_authoritative d)" by (rule reg_reach_table [OF assms(1)])
  obtain m where m: "(k, m) \<in> set (rd_authoritative d)" "(i, r) \<in> set m"
    "r \<in> set (table_rows (rd_authoritative d))" using mem_table [OF t assms(2)] .
  show ?thesis
  proof (cases "seq < rd_server_seq d")
    case True
    let ?seed = "map row_to_seed_op (table_rows (rd_authoritative d))"
    let ?d = "(fold put_authoritative rows (d\<lparr>rd_generation := rd_generation d + 1\<rparr>))
      \<lparr>rd_server_seq := seq, rd_gc_floor := gc\<rparr>"
    have "?seed \<noteq> []" and "row_to_seed_op r \<in> set ?seed" using m(3) by auto
    with True have "d' = enqueue_ops ?seed ?d"
      by (simp add: assms(3) apply_state_def Let_def)
    with enqueue_pending_op [of "row_to_seed_op r" ?seed ?d] m(3) show ?thesis by simp
  next
    case False
    let ?in = "rows_to_table rows"
    let ?seed = "concat (map (\<lambda>(kind, by_id). map (\<lambda>(i, row). row_to_seed_op row)
        (filter (\<lambda>(i, row). table_get ?in kind i = None) by_id)) (rd_authoritative d))"
    let ?d = "d\<lparr>rd_generation := rd_generation d + 1, rd_authoritative := ?in,
      rd_server_seq := seq, rd_gc_floor := gc\<rparr>"
    have d': "d' = (if ?seed = [] then ?d else enqueue_ops ?seed ?d)"
      using False by (simp add: assms(3) apply_state_def Let_def del: concat_eq_Nil_conv)
    have auth: "rd_authoritative d' = ?in" by (simp add: d' del: concat_eq_Nil_conv)
    show ?thesis
    proof (cases "table_get ?in k i")
      case None
      with m have mem: "row_to_seed_op r \<in> set ?seed" by force
      then have "?seed \<noteq> []" by (rule ne_if_mem)
      with d' have "d' = enqueue_ops ?seed ?d" by (simp only: if_False)
      with enqueue_pending_op [OF mem, of ?d] show ?thesis by (simp only: simp_thms)
    next
      case (Some r')
      then have "find (at_key k i) (rev rows) \<noteq> None"
        by (auto simp: rows_to_table_def table_get_puts split: option.splits)
      then have "list_ex (at_key k i) rows" by (auto simp: list_ex_iff find_None_iff)
      with auth Some show ?thesis by simp
    qed
  qed
qed

definition demo_replica :: registry_doc where
  "demo_replica = reg_apply (RvRows 5 [demo_row]) (registry_new ''dev'' int)"

lemma demo_replica_reach: "reg_reach demo_replica"
  by (simp only: demo_replica_def reg_step reg_init)

lemma apply_state_keeps_rows_witness:
  "list_ex (at_key ''chats'' ''c1'') [] \<and>
     table_get (rd_authoritative (fst (apply_state 2 True 0 [] demo_replica))) ''chats'' ''c1'' \<noteq> None \<or>
   pending_op (fst (apply_state 2 True 0 [] demo_replica)) (row_to_seed_op demo_row)"
proof (rule apply_state_keeps_rows [OF demo_replica_reach _ refl])
  show "table_get (rd_authoritative demo_replica) ''chats'' ''c1'' = Some demo_row"
    by (simp add: demo_replica_def apply_rows_def registry_new_def demo_row_def new_row_def)
qed

subsection \<open>The overlay\<close>

text \<open>The row under the pending operations, tombstones included.\<close>

definition raw_row :: "registry_doc \<Rightarrow> string \<Rightarrow> string \<Rightarrow> registry_row option" where
  "raw_row d k i =
     foldl (\<lambda>row b. foldl (overlay_op k i) row (pb_ops b))
       (table_get (rd_authoritative d) k i) (rd_pending d)"

lemma overlay_row_raw:
  "overlay_row d k i =
     (case raw_row d k i of Some r \<Rightarrow> if rw_deleted r then None else Some r | None \<Rightarrow> None)"
  by (simp add: overlay_row_def raw_row_def)

lemma raw_row_queued:
  "queued d d' bs \<Longrightarrow>
     raw_row d' k i = foldl (\<lambda>row b. foldl (overlay_op k i) row (pb_ops b)) (raw_row d k i) bs"
  by (simp add: raw_row_def queued_def)

lemma overlay_op_merge:
  "overlay_op k i row op = (if ro_kind op = k \<and> ro_id op = i then merge_op op row else row)"
proof (cases row)
  case None
  then show ?thesis by (auto simp: overlay_op_def split: option.split prod.split)
next
  case (Some r)
  have "merge_op op (Some r) \<noteq> None"
  proof (cases "ro_op op = OpDelete")
    case True
    then show ?thesis by (simp add: apply_op_def apply_delete_def Let_def)
  next
    case False
    from apply_op_cases [OF this, of "Some r"] show ?thesis
      using apply_writes_live by (metis fst_conv option.distinct(1))
  qed
  with Some show ?thesis
    by (auto simp: overlay_op_def split: option.split prod.split)
qed

text \<open>The clock \<open>h\<close> is newer than every clock of the row.\<close>

definition ahead :: "string \<Rightarrow> registry_row option \<Rightarrow> bool" where
  "ahead h row =
     (case row of
        None \<Rightarrow> True
      | Some r \<Rightarrow> list_all (\<lambda>c. c < h) (map snd (rw_clocks r)) \<and> hlc_newer h (rw_del_hlc r))"

lemma ahead_clock:
  "ahead h (Some r) \<Longrightarrow> hlc_newer h (map_of (rw_clocks r) k)"
  by (cases "map_of (rw_clocks r) k")
    (auto simp: ahead_def hlc_newer_def list_all_iff dest!: map_of_SomeD)

definition field_is :: "json \<Rightarrow> json option" where
  "field_is v = (if v = JNull then None else Some v)"

lemma upsert_ahead:
  assumes "ro_op op = OpUpsert" "ro_clocks op = None" "ro_set op = Some kvs"
    "ahead (ro_hlc op) row" "map_of kvs key = Some v"
  shows "\<exists>r. merge_op op row = Some r \<and> \<not> rw_deleted r \<and> map_of (rw_fields r) key = field_is v"
proof -
  have w: "\<exists>r. fst (apply_writes op base ch) = Some r \<and> \<not> rw_deleted r \<and>
      map_of (rw_fields r) key = field_is v"
    if nd: "\<not> rw_deleted base" and n: "hlc_newer (ro_hlc op) (map_of (rw_clocks base) key)"
    for base ch
  proof -
    from apply_writes_live [OF nd, of op ch] obtain r where
      r: "fst (apply_writes op base ch) = Some r" "row_head r = row_head base"
        "\<And>k. row_cell r k = op_cell op k (row_cell base k)" by blast
    have "snd (row_cell r key) = field_is v"
      unfolding r(3) using assms n
      by (simp add: op_cell_def op_write_def lww_def row_cell_def clock_for_def field_is_def)
    then have "map_of (rw_fields r) key = field_is v" by (simp only: row_cell_def snd_conv)
    with r(1) row_deleted_head [OF r(2)] nd show ?thesis by simp
  qed
  show ?thesis
  proof (cases row)
    case None
    with w [of "new_row (ro_kind op) (ro_id op)" True] assms(1) show ?thesis
      by (simp add: apply_op_def new_row_def hlc_newer_def)
  next
    case (Some r)
    with w [of "revive r" True] w [of r False] ahead_clock [of "ro_hlc op" r key] assms(1,4)
    show ?thesis
      by (auto simp: apply_op_def revive_def hlc_newer_def ahead_def)
  qed
qed

text \<open>The operation that a write queues.\<close>

definition written_op :: "registry_doc \<Rightarrow> string \<Rightarrow> string \<Rightarrow> op_kind \<Rightarrow> (string, json) btree \<Rightarrow>
    row_op" where
  "written_op d kind i k kvs =
     \<lparr>ro_kind = kind, ro_id = i, ro_op = k, ro_set = Some kvs, ro_hlc = snd (next_hlc d),
      ro_clocks = None\<rparr>"

lemma raw_row_write:
  "raw_row (write_row kind i k kvs d) k' j =
     (if k' = kind \<and> j = i then merge_op (written_op d kind i k kvs) (raw_row d k' j)
      else raw_row d k' j)"
proof -
  obtain b op where q: "queued d (write_row kind i k kvs d) [b]" "pb_ops b = [op]"
    "op = written_op d kind i k kvs"
    using write_row_queued unfolding written_op_def by metis
  have "raw_row (write_row kind i k kvs d) k' j = overlay_op k' j (raw_row d k' j) op"
    using raw_row_queued [OF q(1)] q(2) by simp
  then show ?thesis by (auto simp: overlay_op_merge q(3) written_op_def)
qed

lemma upsert_overlay:
  assumes "ahead (snd (next_hlc d)) (raw_row d kind i)" "map_of kvs key = Some v"
  shows "\<exists>r. overlay_row (write_row kind i OpUpsert kvs d) kind i = Some r \<and>
    map_of (rw_fields r) key = field_is v"
proof -
  have "\<exists>r. merge_op (written_op d kind i OpUpsert kvs) (raw_row d kind i) = Some r \<and>
      \<not> rw_deleted r \<and> map_of (rw_fields r) key = field_is v"
    by (rule upsert_ahead) (use assms in \<open>simp_all add: written_op_def\<close>)
  then show ?thesis by (auto simp: overlay_row_raw raw_row_write)
qed

text \<open>An upsert of an unknown row: exactly the written fields, nulls apart.\<close>

lemma upsert_new_row:
  assumes "raw_row d kind i = None"
  obtains r where "overlay_row (write_row kind i OpUpsert kvs d) kind i = Some r"
    "\<And>k. map_of (rw_fields r) k = (case map_of kvs k of None \<Rightarrow> None | Some v \<Rightarrow> field_is v)"
proof -
  let ?op = "written_op d kind i OpUpsert kvs"
  have "\<not> rw_deleted (new_row kind i)" by (simp add: new_row_def)
  from apply_writes_live [OF this, of ?op True] obtain r where r:
    "fst (apply_writes ?op (new_row kind i) True) = Some r" "row_head r = row_head (new_row kind i)"
    "\<And>k. row_cell r k = op_cell ?op k (row_cell (new_row kind i) k)" by blast
  have "merge_op ?op None = Some r"
    using r(1) by (simp add: apply_op_def written_op_def)
  then have "overlay_row (write_row kind i OpUpsert kvs d) kind i = Some r"
    using row_deleted_head [OF r(2)] by (simp add: overlay_row_raw raw_row_write assms new_row_def)
  moreover have "map_of (rw_fields r) k = (case map_of kvs k of None \<Rightarrow> None | Some v \<Rightarrow> field_is v)" for k
  proof -
    have "snd (row_cell r k) = (case map_of kvs k of None \<Rightarrow> None | Some v \<Rightarrow> field_is v)"
      unfolding r(3) by (simp add: op_cell_def op_write_def lww_def row_cell_def clock_for_def
          field_is_def written_op_def new_row_def hlc_newer_def split: option.split)
    then show ?thesis by (simp only: row_cell_def snd_conv)
  qed
  ultimately show thesis by (rule that)
qed

lemma write_row_device: "rd_device_id (write_row kind i k kvs d) = rd_device_id d"
proof -
  obtain b op where "queued d (write_row kind i k kvs d) [b]" using write_row_queued by metis
  then show ?thesis by (simp add: queued_def)
qed

lemma write_other_rows:
  "(kind', i') \<noteq> (kind, i) \<Longrightarrow> overlay_row (write_row kind i k kvs d) kind' i' = overlay_row d kind' i'"
  by (auto simp: overlay_row_raw raw_row_write)

text \<open>
  Reads see local writes at once: after an upsert whose clock is newer than the row's clocks,
  the overlay shows the row, live, with every written field (a null removes it), before any server
  has acknowledged it, and no other row changes.
\<close>

theorem read_your_writes:
  assumes "ahead (snd (next_hlc d)) (raw_row d kind i)" "map_of kvs key = Some v"
  shows "(\<exists>r. overlay_row (write_row kind i OpUpsert kvs d) kind i = Some r \<and>
            map_of (rw_fields r) key = field_is v) \<and>
    ((kind', i') \<noteq> (kind, i) \<longrightarrow>
       overlay_row (write_row kind i OpUpsert kvs d) kind' i' = overlay_row d kind' i')"
  using upsert_overlay [OF assms] write_other_rows by blast

lemma read_your_writes_witness:
  "\<exists>r. overlay_row (write_row ''chats'' ''c1'' OpUpsert [(''title'', JStr ''hi'')]
       (registry_new ''dev'' (\<lambda>_. 5))) ''chats'' ''c1'' = Some r \<and>
     map_of (rw_fields r) ''title'' = Some (JStr ''hi'')"
proof -
  have "ahead (snd (next_hlc (registry_new ''dev'' (\<lambda>_. 5))))
      (raw_row (registry_new ''dev'' (\<lambda>_. 5)) ''chats'' ''c1'')"
    by (simp add: raw_row_def registry_new_def ahead_def)
  from read_your_writes [OF this, of "[(''title'', JStr ''hi'')]" "''title''" "JStr ''hi''"]
  show ?thesis by (simp add: field_is_def)
qed

text \<open>
  The clock is not a hybrid one: it never looks at the clocks of the rows it receives. A
  device that has seen a row stamped by a device whose wall clock runs ahead renames the row, and
  its own overlay keeps showing the old name although the write is causally later.
\<close>

theorem later_write_hidden:
  "\<exists>d op_row. reg_reach d \<and> overlay_row d ''chats'' ''c1'' = Some op_row \<and>
     map_of (rw_fields op_row) ''title'' = Some (JStr ''old'') \<and>
     overlay_row (write_row ''chats'' ''c1'' OpUpdate [(''title'', JStr ''new'')] d) ''chats'' ''c1'' =
       Some op_row"
proof -
  let ?row = "(new_row ''chats'' ''c1'')\<lparr>rw_fields := [(''title'', JStr ''old'')],
     rw_clocks := [(''title'', encode_hlc 99 0 ''other'')]\<rparr>"
  let ?d = "reg_apply (RvRows 1 [?row]) (registry_new ''dev'' (\<lambda>n. 7 + int n))"
  have "reg_reach ?d" by (simp only: reg_step reg_init)
  moreover have "overlay_row ?d ''chats'' ''c1'' = Some ?row"
    "overlay_row (write_row ''chats'' ''c1'' OpUpdate [(''title'', JStr ''new'')] ?d)
       ''chats'' ''c1'' = Some ?row" by code_simp+
  moreover have "map_of (rw_fields ?row) ''title'' = Some (JStr ''old'')" by simp
  ultimately show ?thesis by blast
qed

subsection \<open>Persistence\<close>

text \<open>What serialisation keeps of a snapshot: the in-flight marks are skipped.\<close>

definition unflighted :: "persisted_state \<Rightarrow> persisted_state" where
  "unflighted st = st\<lparr>ps_pending := map (\<lambda>b. b\<lparr>pb_in_flight := False\<rparr>) (ps_pending st)\<rparr>"

lemma from_bytes_restores:
  assumes "reg_reach d" "to_vec (persisted_of d) = Inr bs"
    "from_slice bs = Inr (unflighted (persisted_of d))"
  shows "\<exists>d'. to_bytes to_vec d = Inr bs \<and>
    from_bytes from_slice (rd_wall d) bs (rd_device_id d) = Inr d' \<and>
    rd_server_seq d' = rd_server_seq d \<and> rd_clock d' = rd_clock d \<and>
    rd_pending d' = rd_pending (mark_disconnected d) \<and>
    (\<forall>k i. overlay_row d' k i = overlay_row d k i)"
proof -
  let ?ps = "map (\<lambda>b. b\<lparr>pb_in_flight := False\<rparr>) (rd_pending d)"
  let ?d0 = "(registry_new (rd_device_id d) (rd_wall d))\<lparr>rd_server_seq := rd_server_seq d,
    rd_gc_floor := rd_gc_floor d, rd_clock := rd_clock d, rd_pending := ?ps\<rparr>"
  let ?d = "fold put_authoritative (table_rows (rd_authoritative d)) ?d0"
  have r: "from_bytes from_slice (rd_wall d) bs (rd_device_id d) = Inr ?d"
    by (simp add: from_bytes_def assms(3) unflighted_def persisted_of_def Let_def)
  have auth: "table_get (rd_authoritative ?d) k i = table_get (rd_authoritative d) k i" for k i
    using table_rows_rebuild [OF reg_reach_table [OF assms(1)]] by (simp add: registry_new_def)
  have pend: "foldl (\<lambda>row b. foldl (overlay_op k i) row (pb_ops b)) row ?ps =
      foldl (\<lambda>row b. foldl (overlay_op k i) row (pb_ops b)) row (rd_pending d)" for k i row
    by (simp add: foldl_map)
  have "overlay_row ?d k i = overlay_row d k i" for k i
    unfolding overlay_row_raw raw_row_def auth by (simp add: pend)
  then show ?thesis
    using r assms(2) by (intro exI [of _ ?d]) (simp add: to_bytes_def mark_disconnected_def)
qed

text \<open>
  A snapshot restores the replica: reading back what was written gives the same cursor, clock,
  queue (nothing in flight) and the same rows under every overlay read, for any encoding that
  reproduces the snapshot.
\<close>

theorem snapshot_roundtrip:
  assumes "reg_reach d" "to_vec (persisted_of d) = Inr bs"
    "from_slice bs = Inr (unflighted (persisted_of d))"
  shows "\<exists>d'. to_bytes to_vec d = Inr bs \<and>
    from_bytes from_slice (rd_wall d) bs (rd_device_id d) = Inr d' \<and>
    rd_server_seq d' = rd_server_seq d \<and> rd_clock d' = rd_clock d \<and>
    rd_pending d' = rd_pending (mark_disconnected d) \<and>
    (\<forall>k i. overlay_row d' k i = overlay_row d k i)"
  using from_bytes_restores [of d to_vec bs from_slice] assms by blast

lemma snapshot_roundtrip_witness:
  "\<exists>d'. to_bytes (\<lambda>_. Inr ''x'') demo_replica = Inr ''x'' \<and>
     from_bytes (\<lambda>_. Inr (unflighted (persisted_of demo_replica))) (rd_wall demo_replica) ''x''
       (rd_device_id demo_replica) = Inr d' \<and>
     rd_server_seq d' = rd_server_seq demo_replica \<and> rd_clock d' = rd_clock demo_replica \<and>
     rd_pending d' = rd_pending (mark_disconnected demo_replica) \<and>
     (\<forall>k i. overlay_row d' k i = overlay_row demo_replica k i)"
  by (rule snapshot_roundtrip [OF demo_replica_reach]) simp_all

subsection \<open>Deletes in the overlay\<close>

lemma foldl_batches:
  "foldl (\<lambda>row b. foldl f row (pb_ops b)) row bs = foldl f row (concat (map pb_ops bs))"
  by (induction bs arbitrary: row) simp_all

lemma raw_row_batches:
  "queued d d' bs \<Longrightarrow> batches_of ops bs \<Longrightarrow>
     raw_row d' k i = foldl (overlay_op k i) (raw_row d k i) ops"
  using raw_row_queued [of d d' bs k i] by (simp add: foldl_batches batches_of_def)

lemma newer_foldl:
  "hlc_newer h mx \<Longrightarrow> list_all (\<lambda>c. c < h) cs \<Longrightarrow>
     hlc_newer h (foldl (\<lambda>mx clock. case mx of None \<Rightarrow> Some clock
        | Some m \<Rightarrow> if clock > m then Some clock else mx) mx cs)"
proof (induction cs arbitrary: mx)
  case (Cons a cs)
  from Cons.prems show ?case
    unfolding foldl.simps
    by (intro Cons.IH) (auto simp: hlc_newer_def split: option.splits)
qed simp

lemma ahead_max_clock: "ahead h (Some r) \<Longrightarrow> hlc_newer h (max_clock r)"
  by (simp add: ahead_def max_clock_def newer_foldl)

lemma merge_delete_ahead:
  assumes "ro_op op = OpDelete" "ahead (ro_hlc op) row"
  shows "\<exists>t. merge_op op row = Some t \<and> rw_deleted t \<and> rw_del_hlc t = Some (ro_hlc op)"
proof (cases row)
  case None
  with assms(1) show ?thesis by (simp add: apply_op_def apply_delete_def tombstone_def)
next
  case (Some r)
  have "hlc_newer (ro_hlc op) (rw_del_hlc r)" using assms(2) Some by (simp add: ahead_def)
  moreover have "hlc_newer (ro_hlc op) (max_clock r)" using ahead_max_clock assms(2) Some by simp
  ultimately show ?thesis using assms(1) Some by (simp add: apply_op_def apply_delete_def)
qed

text \<open>A run of deletes with one clock: the named rows are tombstones, the others untouched.\<close>

lemma overlay_deletes:
  assumes "list_all (\<lambda>op. ro_op op = OpDelete \<and> ro_hlc op = h) ops"
  shows "rw_deleted t \<Longrightarrow> rw_del_hlc t = Some h \<Longrightarrow> foldl (overlay_op k i) (Some t) ops = Some t"
    and "ahead h row \<Longrightarrow> list_ex (\<lambda>op. ro_kind op = k \<and> ro_id op = i) ops \<Longrightarrow>
      \<exists>t. foldl (overlay_op k i) row ops = Some t \<and> rw_deleted t"
    and "\<not> list_ex (\<lambda>op. ro_kind op = k \<and> ro_id op = i) ops \<Longrightarrow>
      foldl (overlay_op k i) row ops = row"
proof -
  show stay: "rw_deleted t \<Longrightarrow> rw_del_hlc t = Some h \<Longrightarrow>
      foldl (overlay_op k i) (Some t) ops = Some t" for t
    using assms
    by (induction ops) (simp_all add: overlay_op_merge apply_op_def apply_delete_def)
  show "\<not> list_ex (\<lambda>op. ro_kind op = k \<and> ro_id op = i) ops \<Longrightarrow>
      foldl (overlay_op k i) row ops = row" for row
    by (induction ops) (auto simp: overlay_op_merge)
  show "ahead h row \<Longrightarrow> list_ex (\<lambda>op. ro_kind op = k \<and> ro_id op = i) ops \<Longrightarrow>
      \<exists>t. foldl (overlay_op k i) row ops = Some t \<and> rw_deleted t"
    using assms
  proof (induction ops arbitrary: row)
    case (Cons op ops)
    show ?case
    proof (cases "ro_kind op = k \<and> ro_id op = i")
      case True
      with Cons.prems merge_delete_ahead [of op row] obtain t where
        t: "overlay_op k i row op = Some t" "rw_deleted t" "rw_del_hlc t = Some h"
        by (auto simp: overlay_op_merge)
      have "foldl (overlay_op k i) (Some t) ops = Some t"
        using Cons.prems(3) t(2,3)
        by (induction ops) (simp_all add: overlay_op_merge apply_op_def apply_delete_def)
      with t show ?thesis by simp
    next
      case False
      with Cons show ?thesis by (auto simp: overlay_op_merge)
    qed
  qed simp
qed

lemma delete_row_ops_overlay:
  assumes "ahead (snd (next_hlc d)) (raw_row d k i)"
  shows "overlay_row (delete_row_ops keys d) k i =
    (if (k, i) \<in> set keys then None else overlay_row d k i)"
proof -
  let ?ops = "map (\<lambda>(kind, i). \<lparr>ro_kind = kind, ro_id = i, ro_op = OpDelete, ro_set = None,
       ro_hlc = snd (next_hlc d), ro_clocks = None\<rparr>) keys"
  obtain bs where bs: "queued d (delete_row_ops keys d) bs" "batches_of ?ops bs"
    using delete_row_ops_queued by blast
  have raw: "raw_row (delete_row_ops keys d) k i = foldl (overlay_op k i) (raw_row d k i) ?ops"
    by (rule raw_row_batches [OF bs])
  have all: "list_all (\<lambda>op. ro_op op = OpDelete \<and> ro_hlc op = snd (next_hlc d)) ?ops"
    by (auto simp: list_all_iff)
  have mem: "list_ex (\<lambda>op. ro_kind op = k \<and> ro_id op = i) ?ops \<longleftrightarrow> (k, i) \<in> set keys"
    by (force simp: list_ex_iff intro: bexI [of _ "(k, i)"])
  show ?thesis
  proof (cases "(k, i) \<in> set keys")
    case True
    with overlay_deletes(2) [OF all assms, of k i] mem raw show ?thesis
      by (auto simp: overlay_row_raw)
  next
    case False
    with overlay_deletes(3) [OF all, of k i] mem raw show ?thesis
      by (simp add: overlay_row_raw)
  qed
qed

end
