(* ===== verification/Doc_Registry_Api.thy ===== *)
theory Doc_Registry_Api
  imports Doc_Registry
begin

text \<open>
  The typed surface of the registry replica (\<^verbatim>\<open>crates/doc/src/registry.rs\<close>, from \<^verbatim>\<open>upsert_device\<close>
  on) and the row shapes it reads (\<^verbatim>\<open>RawDevice\<close> and the others of \<^verbatim>\<open>crates/doc/src/workspace.rs\<close>).
  The derived \<^verbatim>\<open>Deserialize\<close> of a raw shape is written out after its attributes: a missing field
  takes its default where it has one, a field of the wrong JSON type is an error, which the reads
  skip.
\<close>

subsection \<open>Field helpers\<close>

definition row_fields :: "(string \<times> json) list \<Rightarrow> (string, json) btree" where
  "row_fields kvs = bt_of_list kvs"

definition opt_str :: "string option \<Rightarrow> json" where
  "opt_str v = (case v of Some s \<Rightarrow> JStr s | None \<Rightarrow> JNull)"

definition opt_ms :: "datetime option \<Rightarrow> json" where
  "opt_ms v = (case v of Some at \<Rightarrow> JInt (timestamp_millis at) | None \<Rightarrow> JNull)"

definition newest :: "datetime option list \<Rightarrow> int" where
  "newest candidates =
     (case map timestamp_millis (List.map_filter id candidates) of
        [] \<Rightarrow> 1
      | m # ms \<Rightarrow> foldl max m ms)"

text \<open>chrono's range of representable instants, in milliseconds.\<close>

definition dt :: "int \<Rightarrow> datetime" where
  "dt ms = (if -8334601228800000 \<le> ms \<and> ms \<le> 8210266876799999 then ms * 1000000 else 0)"

subsection \<open>Enum names and the chat configuration\<close>

fun harness_name :: "harness_id \<Rightarrow> string" where
  "harness_name ClaudeCode = ''claude-code''"
| "harness_name Codex = ''codex''"
| "harness_name Cursor = ''cursor''"
| "harness_name Grok = ''grok''"
| "harness_name Hermes = ''hermes''"
| "harness_name Pi = ''pi''"
| "harness_name Mock = ''mock''"

fun reasoning_name :: "reasoning_level \<Rightarrow> string" where
  "reasoning_name Minimal = ''minimal''"
| "reasoning_name Low = ''low''"
| "reasoning_name Medium = ''medium''"
| "reasoning_name High = ''high''"
| "reasoning_name XHigh = ''xhigh''"
| "reasoning_name Max = ''max''"
| "reasoning_name Ultra = ''ultra''"
| "reasoning_name Ultracode = ''ultracode''"
| "reasoning_name Ultrathink = ''ultrathink''"

fun sandbox_name :: "sandbox_level \<Rightarrow> string" where
  "sandbox_name ReadOnly = ''read-only''"
| "sandbox_name WorkspaceWrite = ''workspace-write''"
| "sandbox_name DangerFullAccess = ''danger-full-access''"

fun session_status_name :: "session_status \<Rightarrow> string" where
  "session_status_name SsIdle = ''idle''"
| "session_status_name SsWorking = ''working''"
| "session_status_name SsAwaitingInput = ''awaitingInput''"
| "session_status_name SsErrored = ''errored''"

text \<open>The variant a name stands for, among the variants listed.\<close>

definition by_name :: "('a \<Rightarrow> string) \<Rightarrow> 'a list \<Rightarrow> json \<Rightarrow> 'a option" where
  "by_name name variants v = (case v of JStr s \<Rightarrow> find (\<lambda>x. name x = s) variants | _ \<Rightarrow> None)"

definition harness_of :: "json \<Rightarrow> harness_id option" where
  "harness_of = by_name harness_name [ClaudeCode, Codex, Cursor, Grok, Hermes, Pi, Mock]"

definition reasoning_of :: "json \<Rightarrow> reasoning_level option" where
  "reasoning_of = by_name reasoning_name
     [Minimal, Low, Medium, High, XHigh, Max, Ultra, Ultracode, Ultrathink]"

definition sandbox_of :: "json \<Rightarrow> sandbox_level option" where
  "sandbox_of = by_name sandbox_name [ReadOnly, WorkspaceWrite, DangerFullAccess]"

definition session_status_of :: "json \<Rightarrow> session_status option" where
  "session_status_of = by_name session_status_name [SsIdle, SsWorking, SsAwaitingInput, SsErrored]"

definition config_to_value :: "chat_config \<Rightarrow> json" where
  "config_to_value c =
     JObj (row_fields
       [(''harness'', JStr (harness_name (cc_harness c))),
        (''model'', opt_str (cc_model c)),
        (''reasoning'', opt_str (map_option reasoning_name (cc_reasoning c))),
        (''modelOptions'', JObj (cc_model_options c)),
        (''sandbox'', JStr (sandbox_name (cc_sandbox c)))])"

definition config_from_value :: "json \<Rightarrow> chat_config option" where
  "config_from_value v =
     (case v of
        JObj fs \<Rightarrow>
          (case (req_field harness_of fs ''harness'', opt_field as_str fs ''model'',
                 opt_field reasoning_of fs ''reasoning'', default_field [] as_obj fs ''modelOptions'',
                 req_field sandbox_of fs ''sandbox'') of
             (Some h, Some m, Some r, Some os, Some s) \<Rightarrow>
               Some \<lparr>cc_harness = h, cc_model = m, cc_reasoning = r, cc_model_options = os,
                     cc_sandbox = s\<rparr>
           | _ \<Rightarrow> None)
      | _ \<Rightarrow> None)"

subsection \<open>Raw rows\<close>

record raw_device =
  rv_id :: string
  rv_name :: string
  rv_platform :: string
  rv_last_seen_at :: "int option"
  rv_created_at :: "int option"
  rv_version :: "string option"

record raw_space =
  rp_id :: string
  rp_device_id :: string
  rp_path :: string
  rp_name :: "string option"
  rp_git_detected :: bool
  rp_git_checked_at :: "int option"
  rp_checkout_id :: "string option"
  rp_created_at :: int

record raw_chat =
  rc_id :: string
  rc_device_id :: string
  rc_title :: "string option"
  rc_archived :: bool
  rc_cwd :: "string option"
  rc_branch :: "string option"
  rc_checkout_id :: "string option"
  rc_config :: "chat_config option"
  rc_last_message_preview :: "string option"
  rc_last_message_at :: "int option"
  rc_created_at :: int
  rc_harness_session_id :: "string option"
  rc_harness_session_cwd :: "string option"
  rc_space_id :: "string option"
  rc_last_seen_at :: "int option"
  rc_room_gen :: "nat option"

record raw_session =
  rs_chat_id :: string
  rs_device_id :: string
  rs_status :: session_status
  rs_started_at :: "int option"
  rs_updated_at :: int

definition raw_device_of :: "(string \<times> json) list \<Rightarrow> raw_device option" where
  "raw_device_of fs =
     (case (req_field as_str fs ''id'', req_field as_str fs ''name'', req_field as_str fs ''platform'',
            opt_field as_i64 fs ''lastSeenAt'', opt_field as_i64 fs ''createdAt'',
            opt_field as_str fs ''version'') of
        (Some i, Some n, Some p, Some l, Some c, Some v) \<Rightarrow>
          Some \<lparr>rv_id = i, rv_name = n, rv_platform = p, rv_last_seen_at = l, rv_created_at = c,
                rv_version = v\<rparr>
      | _ \<Rightarrow> None)"

definition raw_space_of :: "(string \<times> json) list \<Rightarrow> raw_space option" where
  "raw_space_of fs =
     (case (req_field as_str fs ''id'', req_field as_str fs ''deviceId'',
            req_field as_str fs ''path'', opt_field as_str fs ''name'',
            default_field False as_bool fs ''gitDetected'', opt_field as_i64 fs ''gitCheckedAt'',
            opt_field as_str fs ''checkoutId'', default_field 0 as_i64 fs ''createdAt'') of
        (Some i, Some d, Some p, Some n, Some g, Some gc, Some co, Some cr) \<Rightarrow>
          Some \<lparr>rp_id = i, rp_device_id = d, rp_path = p, rp_name = n, rp_git_detected = g,
                rp_git_checked_at = gc, rp_checkout_id = co, rp_created_at = cr\<rparr>
      | _ \<Rightarrow> None)"

definition raw_chat_of :: "(string \<times> json) list \<Rightarrow> raw_chat option" where
  "raw_chat_of fs =
     (case (req_field as_str fs ''id'', req_field as_str fs ''deviceId'',
            opt_field as_str fs ''title'', default_field False as_bool fs ''archived'',
            opt_field as_str fs ''cwd'', opt_field as_str fs ''branch'',
            opt_field as_str fs ''checkoutId'', opt_field config_from_value fs ''config'') of
        (Some i, Some d, Some t, Some a, Some cwd, Some b, Some co, Some cf) \<Rightarrow>
          (case (opt_field as_str fs ''lastMessagePreview'', opt_field as_i64 fs ''lastMessageAt'',
                 default_field 0 as_i64 fs ''createdAt'', opt_field as_str fs ''harnessSessionId'',
                 opt_field as_str fs ''harnessSessionCwd'', opt_field as_str fs ''spaceId'',
                 opt_field as_i64 fs ''lastSeenAt'', opt_field as_u32 fs ''roomGen'') of
             (Some pv, Some lm, Some cr, Some hs, Some hc, Some sp, Some ls, Some rg) \<Rightarrow>
               Some \<lparr>rc_id = i, rc_device_id = d, rc_title = t, rc_archived = a, rc_cwd = cwd,
                     rc_branch = b, rc_checkout_id = co, rc_config = cf,
                     rc_last_message_preview = pv, rc_last_message_at = lm, rc_created_at = cr,
                     rc_harness_session_id = hs, rc_harness_session_cwd = hc, rc_space_id = sp,
                     rc_last_seen_at = ls, rc_room_gen = rg\<rparr>
           | _ \<Rightarrow> None)
      | _ \<Rightarrow> None)"

definition raw_session_of :: "(string \<times> json) list \<Rightarrow> raw_session option" where
  "raw_session_of fs =
     (case (req_field as_str fs ''chatId'', req_field as_str fs ''deviceId'',
            req_field session_status_of fs ''status'', opt_field as_i64 fs ''startedAt'',
            default_field 0 as_i64 fs ''updatedAt'') of
        (Some c, Some d, Some s, Some st, Some u) \<Rightarrow>
          Some \<lparr>rs_chat_id = c, rs_device_id = d, rs_status = s, rs_started_at = st,
                rs_updated_at = u\<rparr>
      | _ \<Rightarrow> None)"

definition device_of_raw :: "raw_device \<Rightarrow> device" where
  "device_of_raw r =
     \<lparr>dv_id = rv_id r, dv_name = rv_name r, dv_platform = rv_platform r,
      dv_last_seen_at = map_option dt (rv_last_seen_at r),
      dv_created_at = map_option dt (rv_created_at r), dv_version = rv_version r\<rparr>"

definition space_of_raw :: "raw_space \<Rightarrow> space" where
  "space_of_raw r =
     \<lparr>sp_id = rp_id r, sp_device_id = rp_device_id r, sp_path = rp_path r, sp_name = rp_name r,
      sp_git_detected = rp_git_detected r, sp_git_checked_at = map_option dt (rp_git_checked_at r),
      sp_checkout_id = rp_checkout_id r, sp_created_at = dt (rp_created_at r)\<rparr>"

definition chat_of_raw :: "raw_chat \<Rightarrow> chat" where
  "chat_of_raw r =
     \<lparr>ch_id = rc_id r, ch_device_id = rc_device_id r, ch_title = rc_title r,
      ch_archived = rc_archived r, ch_cwd = rc_cwd r, ch_branch = rc_branch r,
      ch_checkout_id = rc_checkout_id r, ch_config = rc_config r,
      ch_last_message_preview = rc_last_message_preview r,
      ch_last_message_at = map_option dt (rc_last_message_at r),
      ch_created_at = dt (rc_created_at r), ch_harness_session_id = rc_harness_session_id r,
      ch_harness_session_cwd = rc_harness_session_cwd r, ch_space_id = rc_space_id r,
      ch_last_seen_at = map_option dt (rc_last_seen_at r), ch_room_gen = rc_room_gen r\<rparr>"

definition session_of_raw :: "raw_session \<Rightarrow> session" where
  "session_of_raw r =
     \<lparr>se_chat_id = rs_chat_id r, se_device_id = rs_device_id r, se_status = rs_status r,
      se_started_at = map_option dt (rs_started_at r), se_updated_at = dt (rs_updated_at r)\<rparr>"

text \<open>\<^verbatim>\<open>row_to\<close>, and the reader each kind passes to \<open>read_kind\<close>.\<close>

definition row_to :: "((string \<times> json) list \<Rightarrow> 'a option) \<Rightarrow> registry_row \<Rightarrow> 'a option" where
  "row_to parse r = parse (rw_fields r)"

definition from_obj :: "((string \<times> json) list \<Rightarrow> 'a option) \<Rightarrow> json \<Rightarrow> 'a option" where
  "from_obj parse v = (case v of JObj fs \<Rightarrow> parse fs | _ \<Rightarrow> None)"

subsection \<open>Reads\<close>

definition read_devices :: "registry_doc \<Rightarrow> device list" where
  "read_devices d =
     sort_key dv_id (map device_of_raw (read_kind (from_obj raw_device_of) d kind_devices))"

definition read_spaces :: "registry_doc \<Rightarrow> space list" where
  "read_spaces d =
     sort_key sp_id (map space_of_raw (read_kind (from_obj raw_space_of) d kind_spaces))"

definition read_chats :: "registry_doc \<Rightarrow> chat list" where
  "read_chats d = sort_key ch_id (map chat_of_raw (read_kind (from_obj raw_chat_of) d kind_chats))"

definition read_sessions :: "registry_doc \<Rightarrow> session list" where
  "read_sessions d =
     sort_key se_chat_id (map session_of_raw (read_kind (from_obj raw_session_of) d kind_sessions))"

definition reg_space :: "registry_doc \<Rightarrow> string \<Rightarrow> space option" where
  "reg_space d space_id =
     (case overlay_row d kind_spaces space_id of
        None \<Rightarrow> None | Some r \<Rightarrow> map_option space_of_raw (row_to raw_space_of r))"

definition reg_chat :: "registry_doc \<Rightarrow> string \<Rightarrow> chat option" where
  "reg_chat d chat_id =
     (case overlay_row d kind_chats chat_id of
        None \<Rightarrow> None | Some r \<Rightarrow> map_option chat_of_raw (row_to raw_chat_of r))"

record workspace_state =
  ws_devices :: "device list"
  ws_spaces :: "space list"
  ws_chats :: "chat list"
  ws_sessions :: "session list"

definition read_all :: "registry_doc \<Rightarrow> workspace_state" where
  "read_all d =
     \<lparr>ws_devices = read_devices d, ws_spaces = read_spaces d, ws_chats = read_chats d,
      ws_sessions = read_sessions d\<rparr>"

subsection \<open>Writes\<close>

text \<open>The guard and the write that every field setter has: \<^const>\<open>False\<close> when no such row.\<close>

definition update_existing :: "string \<Rightarrow> string \<Rightarrow> (string \<times> json) list \<Rightarrow> registry_doc \<Rightarrow>
    registry_doc \<times> bool" where
  "update_existing kind i kvs d =
     (if \<not> row_exists d kind i then (d, False)
      else (write_row kind i OpUpdate (row_fields kvs) d, True))"

definition device_fields :: "device \<Rightarrow> (string, json) btree" where
  "device_fields v =
     row_fields
       [(''id'', JStr (dv_id v)), (''name'', JStr (dv_name v)), (''platform'', JStr (dv_platform v)),
        (''lastSeenAt'', opt_ms (dv_last_seen_at v)), (''createdAt'', opt_ms (dv_created_at v)),
        (''version'', opt_str (dv_version v))]"

definition upsert_device :: "device \<Rightarrow> registry_doc \<Rightarrow> registry_doc" where
  "upsert_device v d = write_row kind_devices (dv_id v) OpUpsert (device_fields v) d"

definition rename_device :: "string \<Rightarrow> string \<Rightarrow> registry_doc \<Rightarrow> registry_doc \<times> bool" where
  "rename_device device_id name d = update_existing kind_devices device_id [(''name'', JStr name)] d"

definition set_device_last_seen :: "string \<Rightarrow> datetime \<Rightarrow> registry_doc \<Rightarrow> registry_doc \<times> bool" where
  "set_device_last_seen device_id at d =
     update_existing kind_devices device_id [(''lastSeenAt'', JInt (timestamp_millis at))] d"

definition space_fields :: "space \<Rightarrow> (string, json) btree" where
  "space_fields s =
     row_fields
       [(''id'', JStr (sp_id s)), (''deviceId'', JStr (sp_device_id s)), (''path'', JStr (sp_path s)),
        (''name'', opt_str (sp_name s)), (''gitDetected'', JBool (sp_git_detected s)),
        (''gitCheckedAt'', opt_ms (sp_git_checked_at s)),
        (''checkoutId'', opt_str (sp_checkout_id s)),
        (''createdAt'', JInt (timestamp_millis (sp_created_at s)))]"

definition upsert_space :: "space \<Rightarrow> registry_doc \<Rightarrow> registry_doc" where
  "upsert_space s d = write_row kind_spaces (sp_id s) OpUpsert (space_fields s) d"

definition rename_space :: "string \<Rightarrow> string option \<Rightarrow> registry_doc \<Rightarrow> registry_doc \<times> bool" where
  "rename_space space_id name d = update_existing kind_spaces space_id [(''name'', opt_str name)] d"

definition set_space_git :: "string \<Rightarrow> bool \<Rightarrow> string option \<Rightarrow> datetime \<Rightarrow> registry_doc \<Rightarrow>
    registry_doc \<times> bool" where
  "set_space_git space_id detected checkout_id checked_at d =
     update_existing kind_spaces space_id
       [(''gitDetected'', JBool detected), (''checkoutId'', opt_str checkout_id),
        (''gitCheckedAt'', JInt (timestamp_millis checked_at))] d"

record deleted_space =
  ds_existed :: bool
  ds_chat_ids :: "string list"

definition delete_space :: "string \<Rightarrow> registry_doc \<Rightarrow> registry_doc \<times> deleted_space" where
  "delete_space space_id d =
     (let existed = row_exists d kind_spaces space_id;
          chat_ids = map ch_id (filter (\<lambda>c. ch_space_id c = Some space_id) (read_chats d));
          keys = concat (map (\<lambda>c. [(kind_chats, c), (kind_sessions, c)]) chat_ids)
                 @ [(kind_spaces, space_id)]
      in (delete_row_ops keys d, \<lparr>ds_existed = existed, ds_chat_ids = chat_ids\<rparr>))"

text \<open>The fields an upsert and the migration share; the upsert adds the room generation.\<close>

definition chat_entries :: "chat \<Rightarrow> (string \<times> json) list" where
  "chat_entries c =
     [(''id'', JStr (ch_id c)), (''deviceId'', JStr (ch_device_id c)),
      (''title'', opt_str (ch_title c)), (''archived'', JBool (ch_archived c)),
      (''cwd'', opt_str (ch_cwd c)), (''branch'', opt_str (ch_branch c)),
      (''checkoutId'', opt_str (ch_checkout_id c)),
      (''config'', (case ch_config c of Some cfg \<Rightarrow> config_to_value cfg | None \<Rightarrow> JNull)),
      (''lastMessagePreview'', opt_str (ch_last_message_preview c)),
      (''lastMessageAt'', opt_ms (ch_last_message_at c)),
      (''createdAt'', JInt (timestamp_millis (ch_created_at c))),
      (''harnessSessionId'', opt_str (ch_harness_session_id c)),
      (''harnessSessionCwd'', opt_str (ch_harness_session_cwd c)),
      (''spaceId'', opt_str (ch_space_id c)), (''lastSeenAt'', opt_ms (ch_last_seen_at c))]"

definition upsert_chat :: "chat \<Rightarrow> registry_doc \<Rightarrow> registry_doc" where
  "upsert_chat c d =
     write_row kind_chats (ch_id c) OpUpsert
       (row_fields (chat_entries c @
         [(''roomGen'', case ch_room_gen c of Some g \<Rightarrow> JInt (int g) | None \<Rightarrow> JNull)])) d"

definition claim_chat :: "string \<Rightarrow> string option \<Rightarrow> string option \<Rightarrow> datetime \<Rightarrow> registry_doc \<Rightarrow>
    registry_doc" where
  "claim_chat chat_id cwd space_id created_at d =
     (let s = row_fields [(''id'', JStr chat_id), (''deviceId'', JStr (rd_device_id d)),
                      (''createdAt'', JInt (timestamp_millis created_at))];
          s = (case cwd of Some c \<Rightarrow> bt_insert ''cwd'' (JStr c) s | None \<Rightarrow> s);
          s = (case space_id of Some i \<Rightarrow> bt_insert ''spaceId'' (JStr i) s | None \<Rightarrow> s)
      in write_row kind_chats chat_id OpUpsert s d)"

definition set_chat_seen :: "string \<Rightarrow> datetime \<Rightarrow> registry_doc \<Rightarrow> registry_doc \<times> bool" where
  "set_chat_seen chat_id at d =
     (case overlay_row d kind_chats chat_id of
        None \<Rightarrow> (d, False)
      | Some row \<Rightarrow>
          (let current = (case map_of (rw_fields row) ''lastSeenAt'' of
                            None \<Rightarrow> None | Some v \<Rightarrow> as_i64 v)
           in if (case current of None \<Rightarrow> False | Some ms \<Rightarrow> ms \<ge> timestamp_millis at)
              then (d, True)
              else (write_row kind_chats chat_id OpUpdate
                      (row_fields [(''lastSeenAt'', JInt (timestamp_millis at))]) d, True)))"

definition rename_chat :: "string \<Rightarrow> string \<Rightarrow> registry_doc \<Rightarrow> registry_doc \<times> bool" where
  "rename_chat chat_id title d = update_existing kind_chats chat_id [(''title'', JStr title)] d"

definition set_chat_archived :: "string \<Rightarrow> bool \<Rightarrow> registry_doc \<Rightarrow> registry_doc \<times> bool" where
  "set_chat_archived chat_id archived d =
     update_existing kind_chats chat_id [(''archived'', JBool archived)] d"

definition set_chat_room_gen :: "string \<Rightarrow> nat \<Rightarrow> registry_doc \<Rightarrow> registry_doc \<times> bool" where
  "set_chat_room_gen chat_id room_gen d =
     update_existing kind_chats chat_id [(''roomGen'', JInt (int room_gen))] d"

definition set_chat_branch :: "string \<Rightarrow> string \<Rightarrow> registry_doc \<Rightarrow> registry_doc \<times> bool" where
  "set_chat_branch chat_id branch d = update_existing kind_chats chat_id [(''branch'', JStr branch)] d"

definition set_chat_cwd :: "string \<Rightarrow> string \<Rightarrow> registry_doc \<Rightarrow> registry_doc \<times> bool" where
  "set_chat_cwd chat_id cwd d = update_existing kind_chats chat_id [(''cwd'', JStr cwd)] d"

definition set_chat_checkout :: "string \<Rightarrow> string \<Rightarrow> registry_doc \<Rightarrow> registry_doc \<times> bool" where
  "set_chat_checkout chat_id checkout_id d =
     update_existing kind_chats chat_id [(''checkoutId'', JStr checkout_id)] d"

definition set_chat_config :: "string \<Rightarrow> chat_config \<Rightarrow> registry_doc \<Rightarrow> registry_doc \<times> bool" where
  "set_chat_config chat_id config d =
     update_existing kind_chats chat_id [(''config'', config_to_value config)] d"

definition set_chat_harness_session :: "string \<Rightarrow> string \<Rightarrow> string \<Rightarrow> registry_doc \<Rightarrow>
    registry_doc \<times> bool" where
  "set_chat_harness_session chat_id session_id cwd d =
     update_existing kind_chats chat_id
       [(''harnessSessionId'', JStr session_id), (''harnessSessionCwd'', JStr cwd)] d"

definition set_chat_last_message :: "string \<Rightarrow> string \<Rightarrow> datetime \<Rightarrow> registry_doc \<Rightarrow>
    registry_doc \<times> bool" where
  "set_chat_last_message chat_id preview at d =
     update_existing kind_chats chat_id
       [(''lastMessagePreview'', JStr preview), (''lastMessageAt'', JInt (timestamp_millis at))] d"

definition delete_chat :: "string \<Rightarrow> registry_doc \<Rightarrow> registry_doc \<times> bool" where
  "delete_chat chat_id d =
     (let existed = row_exists d kind_chats chat_id
      in (delete_row_ops [(kind_chats, chat_id), (kind_sessions, chat_id)] d, existed))"

definition session_fields :: "session \<Rightarrow> (string, json) btree" where
  "session_fields s =
     row_fields
       [(''chatId'', JStr (se_chat_id s)), (''deviceId'', JStr (se_device_id s)),
        (''status'', JStr (session_status_name (se_status s))),
        (''startedAt'', opt_ms (se_started_at s)),
        (''updatedAt'', JInt (timestamp_millis (se_updated_at s)))]"

definition upsert_session :: "session \<Rightarrow> registry_doc \<Rightarrow> registry_doc" where
  "upsert_session s d = write_row kind_sessions (se_chat_id s) OpUpsert (session_fields s) d"

subsection \<open>Merging two devices\<close>

definition merge_chat_op :: "string \<Rightarrow> string \<Rightarrow> space list \<Rightarrow> space list \<Rightarrow> chat \<Rightarrow> row_op" where
  "merge_chat_op hlc target_device_id source_spaces target_spaces c =
     (let by_id = (\<lambda>i. find (\<lambda>s. sp_id s = i) (rev source_spaces));
          by_path = (\<lambda>p. find (\<lambda>s. sp_path s = p) (rev target_spaces));
          matching = (case ch_space_id c of
                        None \<Rightarrow> None
                      | Some i \<Rightarrow> (case by_id i of None \<Rightarrow> None | Some s \<Rightarrow> by_path (sp_path s)));
          s = row_fields [(''deviceId'', JStr target_device_id)];
          s = (case matching of
                 Some sp \<Rightarrow>
                   bt_insert ''checkoutId'' (opt_str (sp_checkout_id sp))
                     (bt_insert ''spaceId'' (JStr (sp_id sp)) s)
               | None \<Rightarrow>
                   if (case ch_space_id c of None \<Rightarrow> False | Some i \<Rightarrow> by_id i \<noteq> None)
                   then bt_insert ''checkoutId'' JNull s else s)
      in \<lparr>ro_kind = kind_chats, ro_id = ch_id c, ro_op = OpUpdate, ro_set = Some s, ro_hlc = hlc,
          ro_clocks = None\<rparr>)"

definition merge_space_op :: "string \<Rightarrow> string \<Rightarrow> space list \<Rightarrow> space \<Rightarrow> row_op" where
  "merge_space_op hlc target_device_id target_spaces s =
     (if list_ex (\<lambda>t. sp_path t = sp_path s) target_spaces
      then \<lparr>ro_kind = kind_spaces, ro_id = sp_id s, ro_op = OpDelete, ro_set = None, ro_hlc = hlc,
            ro_clocks = None\<rparr>
      else \<lparr>ro_kind = kind_spaces, ro_id = sp_id s, ro_op = OpUpdate,
            ro_set = Some (row_fields [(''deviceId'', JStr target_device_id),
                                       (''gitCheckedAt'', JNull), (''checkoutId'', JNull)]),
            ro_hlc = hlc, ro_clocks = None\<rparr>)"

definition delete_op :: "string \<Rightarrow> string \<Rightarrow> string \<Rightarrow> row_op" where
  "delete_op hlc kind i =
     \<lparr>ro_kind = kind, ro_id = i, ro_op = OpDelete, ro_set = None, ro_hlc = hlc, ro_clocks = None\<rparr>"

definition merge_device_ops :: "string \<Rightarrow> string \<Rightarrow> string \<Rightarrow> registry_doc \<Rightarrow> row_op list" where
  "merge_device_ops hlc source target d =
     (let source_spaces = filter (\<lambda>s. sp_device_id s = source) (read_spaces d);
          target_spaces = filter (\<lambda>s. sp_device_id s = target) (read_spaces d)
      in map (merge_chat_op hlc target source_spaces target_spaces)
           (filter (\<lambda>c. ch_device_id c = source) (read_chats d))
         @ map (merge_space_op hlc target target_spaces) source_spaces
         @ map (\<lambda>s. delete_op hlc kind_sessions (se_chat_id s))
             (filter (\<lambda>s. se_device_id s = source) (read_sessions d))
         @ [delete_op hlc kind_devices source])"

definition merge_device :: "string \<Rightarrow> string \<Rightarrow> registry_doc \<Rightarrow> registry_doc \<times> bool" where
  "merge_device source target d =
     (if source = target \<or> \<not> row_exists d kind_devices source \<or> \<not> row_exists d kind_devices target
      then (d, False)
      else
        let (d', hlc) = next_hlc d
        in (enqueue_ops (merge_device_ops hlc source target d) d', True))"

subsection \<open>Migration\<close>

definition seed_op :: "string \<Rightarrow> string \<Rightarrow> int \<Rightarrow> (string, json) btree \<Rightarrow> row_op" where
  "seed_op kind i ms kvs =
     \<lparr>ro_kind = kind, ro_id = i, ro_op = OpUpsert, ro_set = Some kvs,
      ro_hlc = encode_hlc (max ms 1) 0 ''migration'', ro_clocks = None\<rparr>"

definition seed_ops :: "workspace_state \<Rightarrow> row_op list" where
  "seed_ops st =
     map (\<lambda>v. seed_op kind_devices (dv_id v) (newest [dv_last_seen_at v, dv_created_at v])
            (device_fields v)) (ws_devices st)
     @ map (\<lambda>s. seed_op kind_spaces (sp_id s) (newest [sp_git_checked_at s, Some (sp_created_at s)])
              (space_fields s)) (ws_spaces st)
     @ map (\<lambda>c. seed_op kind_chats (ch_id c)
              (newest [ch_last_message_at c, ch_last_seen_at c, Some (ch_created_at c)])
              (row_fields (chat_entries c))) (ws_chats st)
     @ map (\<lambda>s. seed_op kind_sessions (se_chat_id s)
              (newest [Some (se_updated_at s), se_started_at s]) (session_fields s)) (ws_sessions st)"

text \<open>\<^verbatim>\<open>ops.chunks(400)\<close>\<close>

function chunks :: "nat \<Rightarrow> 'a list \<Rightarrow> 'a list list" where
  "chunks n xs = (if xs = [] \<or> n = 0 then [] else take n xs # chunks n (drop n xs))"
  by pat_completeness auto
termination
  by (relation "measure (\<lambda>(n, xs). length xs)") auto

declare chunks.simps [simp del]

definition seed_from_workspace :: "workspace_state \<Rightarrow> registry_doc \<Rightarrow> registry_doc \<times> nat" where
  "seed_from_workspace st d =
     (let ops = seed_ops st in (fold enqueue_ops (chunks 400 ops) d, length ops))"

subsection \<open>Field round trips\<close>

named_theorems field_simps \<open>reading a field back\<close>

lemma row_fields_map: "distinct (map fst kvs) \<Longrightarrow> map_of (row_fields kvs) = map_of kvs"
  by (simp add: row_fields_def map_of_bt_of_list)

lemma harness_of_name [field_simps]: "harness_of (JStr (harness_name h)) = Some h"
  by (cases h) (simp_all add: harness_of_def by_name_def)

lemma reasoning_of_name [field_simps]: "reasoning_of (JStr (reasoning_name r)) = Some r"
  by (cases r) (simp_all add: reasoning_of_def by_name_def)

lemma sandbox_of_name [field_simps]: "sandbox_of (JStr (sandbox_name s)) = Some s"
  by (cases s) (simp_all add: sandbox_of_def by_name_def)

lemma session_status_of_name [field_simps]:
  "session_status_of (JStr (session_status_name s)) = Some s"
  by (cases s) (simp_all add: session_status_of_def by_name_def)

lemma opt_field_str [field_simps]:
  "map_of fs k = field_is (opt_str x) \<Longrightarrow> opt_field as_str fs k = Some x"
  by (cases x) (auto simp: opt_field_def opt_str_def field_is_def as_str_def)

lemma opt_field_ms [field_simps]:
  "map_of fs k = field_is (opt_ms t) \<Longrightarrow> (\<And>x. t = Some x \<Longrightarrow> i64_ok (timestamp_millis x)) \<Longrightarrow>
     opt_field as_i64 fs k = Some (map_option timestamp_millis t)"
  by (cases t) (auto simp: opt_field_def opt_ms_def field_is_def as_i64_def)

lemma req_field_str [field_simps]:
  "map_of fs k = field_is (JStr x) \<Longrightarrow> req_field as_str fs k = Some x"
  by (simp add: req_field_def field_is_def as_str_def)

lemma default_field_bool [field_simps]:
  "map_of fs k = field_is (JBool b) \<Longrightarrow> default_field d as_bool fs k = Some b"
  by (simp add: default_field_def field_is_def as_bool_def)

lemma default_field_ms [field_simps]:
  "map_of fs k = field_is (JInt n) \<Longrightarrow> i64_ok n \<Longrightarrow> default_field d as_i64 fs k = Some n"
  by (simp add: default_field_def field_is_def as_i64_def)

text \<open>The configuration survives its JSON form.\<close>

lemma config_roundtrip: "config_from_value (config_to_value c) = Some c"
proof -
  define kvs where "kvs =
    [(''harness'', JStr (harness_name (cc_harness c))), (''model'', opt_str (cc_model c)),
     (''reasoning'', opt_str (map_option reasoning_name (cc_reasoning c))),
     (''modelOptions'', JObj (cc_model_options c)),
     (''sandbox'', JStr (sandbox_name (cc_sandbox c)))]"
  have "map_of (row_fields kvs) = map_of kvs"
    by (rule row_fields_map) (simp add: kvs_def)
  then have m: "map_of (row_fields kvs) ''harness'' = Some (JStr (harness_name (cc_harness c)))"
    "map_of (row_fields kvs) ''model'' = Some (opt_str (cc_model c))"
    "map_of (row_fields kvs) ''reasoning'' = Some (opt_str (map_option reasoning_name (cc_reasoning c)))"
    "map_of (row_fields kvs) ''modelOptions'' = Some (JObj (cc_model_options c))"
    "map_of (row_fields kvs) ''sandbox'' = Some (JStr (sandbox_name (cc_sandbox c)))"
    by (simp_all add: kvs_def)
  have v: "config_to_value c = JObj (row_fields kvs)" by (simp add: config_to_value_def kvs_def)
  have "req_field harness_of (row_fields kvs) ''harness'' = Some (cc_harness c)"
    "req_field sandbox_of (row_fields kvs) ''sandbox'' = Some (cc_sandbox c)"
    "default_field [] as_obj (row_fields kvs) ''modelOptions'' = Some (cc_model_options c)"
    by (simp_all add: req_field_def default_field_def m as_obj_def field_simps)
  moreover have "opt_field as_str (row_fields kvs) ''model'' = Some (cc_model c)"
    by (cases "cc_model c") (simp_all add: opt_field_def m opt_str_def as_str_def)
  moreover have "opt_field reasoning_of (row_fields kvs) ''reasoning'' = Some (cc_reasoning c)"
    by (cases "cc_reasoning c") (simp_all add: opt_field_def m opt_str_def field_simps)
  ultimately show ?thesis by (simp add: v config_from_value_def)
qed

subsection \<open>A chat written is a chat read\<close>

definition in_range :: "datetime \<Rightarrow> bool" where
  "in_range t \<longleftrightarrow> -8334601228800000 \<le> timestamp_millis t \<and> timestamp_millis t \<le> 8210266876799999"

definition to_millis :: "datetime \<Rightarrow> datetime" where
  "to_millis t = timestamp_millis t * 1000000"

lemma in_range_i64: "in_range t \<Longrightarrow> i64_ok (timestamp_millis t)"
  by (simp add: in_range_def i64_ok_def)

lemma dt_in_range: "in_range t \<Longrightarrow> dt (timestamp_millis t) = to_millis t"
  by (simp add: in_range_def dt_def to_millis_def)

text \<open>What the registry can hold of a chat: instants chrono can represent, a 32-bit generation.\<close>

definition chat_ok :: "chat \<Rightarrow> bool" where
  "chat_ok c \<longleftrightarrow> in_range (ch_created_at c) \<and> pred_option in_range (ch_last_message_at c) \<and>
     pred_option in_range (ch_last_seen_at c) \<and> pred_option (\<lambda>g. g < 2 ^ 32) (ch_room_gen c)"

definition chat_to_millis :: "chat \<Rightarrow> chat" where
  "chat_to_millis c =
     c\<lparr>ch_created_at := to_millis (ch_created_at c),
       ch_last_message_at := map_option to_millis (ch_last_message_at c),
       ch_last_seen_at := map_option to_millis (ch_last_seen_at c)\<rparr>"

lemma map_option_dt:
  "pred_option in_range t \<Longrightarrow> map_option dt (map_option timestamp_millis t) = map_option to_millis t"
  by (cases t) (simp_all add: dt_in_range)

lemma config_to_value_ne: "config_to_value c \<noteq> JNull"
  by (simp add: config_to_value_def)

lemma opt_field_config:
  "map_of fs k = field_is (case c of Some cfg \<Rightarrow> config_to_value cfg | None \<Rightarrow> JNull) \<Longrightarrow>
     opt_field config_from_value fs k = Some c"
  by (cases c) (simp_all add: opt_field_def field_is_def config_roundtrip config_to_value_ne)

lemma opt_field_gen:
  "map_of fs k = field_is (case g of Some g \<Rightarrow> JInt (int g) | None \<Rightarrow> JNull) \<Longrightarrow>
     pred_option (\<lambda>g. g < 2 ^ 32) g \<Longrightarrow> opt_field as_u32 fs k = Some g"
  by (cases g) (auto simp: opt_field_def field_is_def as_u32_def)

abbreviation chat_kvs :: "chat \<Rightarrow> (string \<times> json) list" where
  "chat_kvs c \<equiv> chat_entries c @
     [(''roomGen'', case ch_room_gen c of Some g \<Rightarrow> JInt (int g) | None \<Rightarrow> JNull)]"

lemma raw_chat_of_fields:
  assumes "\<And>k v. map_of (chat_kvs c) k = Some v \<Longrightarrow> map_of fs k = field_is v" "chat_ok c"
  shows "map_option chat_of_raw (raw_chat_of fs) = Some (chat_to_millis c)"
proof -
  note f = assms(1) [unfolded chat_entries_def]
  have "raw_chat_of fs = Some \<lparr>rc_id = ch_id c, rc_device_id = ch_device_id c, rc_title = ch_title c,
     rc_archived = ch_archived c, rc_cwd = ch_cwd c, rc_branch = ch_branch c,
     rc_checkout_id = ch_checkout_id c, rc_config = ch_config c,
     rc_last_message_preview = ch_last_message_preview c,
     rc_last_message_at = map_option timestamp_millis (ch_last_message_at c),
     rc_created_at = timestamp_millis (ch_created_at c),
     rc_harness_session_id = ch_harness_session_id c,
     rc_harness_session_cwd = ch_harness_session_cwd c, rc_space_id = ch_space_id c,
     rc_last_seen_at = map_option timestamp_millis (ch_last_seen_at c), rc_room_gen = ch_room_gen c\<rparr>"
  proof -
    have "req_field as_str fs ''id'' = Some (ch_id c)"
      "req_field as_str fs ''deviceId'' = Some (ch_device_id c)"
      by (rule req_field_str, rule f, simp)+
    moreover have "opt_field as_str fs ''title'' = Some (ch_title c)"
      "opt_field as_str fs ''cwd'' = Some (ch_cwd c)"
      "opt_field as_str fs ''branch'' = Some (ch_branch c)"
      "opt_field as_str fs ''checkoutId'' = Some (ch_checkout_id c)"
      "opt_field as_str fs ''lastMessagePreview'' = Some (ch_last_message_preview c)"
      "opt_field as_str fs ''harnessSessionId'' = Some (ch_harness_session_id c)"
      "opt_field as_str fs ''harnessSessionCwd'' = Some (ch_harness_session_cwd c)"
      "opt_field as_str fs ''spaceId'' = Some (ch_space_id c)"
      by (rule opt_field_str, rule f, simp)+
    moreover have "default_field False as_bool fs ''archived'' = Some (ch_archived c)"
      by (rule default_field_bool, rule f, simp)
    moreover have "default_field 0 as_i64 fs ''createdAt'' = Some (timestamp_millis (ch_created_at c))"
      using assms(2) by (intro default_field_ms f in_range_i64) (simp_all add: chat_ok_def)
    moreover have
      "opt_field as_i64 fs ''lastMessageAt'' = Some (map_option timestamp_millis (ch_last_message_at c))"
      "opt_field as_i64 fs ''lastSeenAt'' = Some (map_option timestamp_millis (ch_last_seen_at c))"
      using assms(2) by (intro opt_field_ms f in_range_i64; simp add: chat_ok_def)+
    moreover have "opt_field config_from_value fs ''config'' = Some (ch_config c)"
      by (rule opt_field_config, rule f, simp)
    moreover have "opt_field as_u32 fs ''roomGen'' = Some (ch_room_gen c)"
      using assms(2) by (intro opt_field_gen f) (simp_all add: chat_ok_def)
    ultimately show ?thesis by (simp add: raw_chat_of_def)
  qed
  then show ?thesis
    using assms(2) by (simp add: chat_of_raw_def chat_to_millis_def chat_ok_def dt_in_range map_option_dt)
qed

lemma write_row_fields:
  assumes "ahead (snd (next_hlc d)) (raw_row d kind i)" "kvs \<noteq> []" "distinct (map fst kvs)"
  obtains r where "overlay_row (write_row kind i OpUpsert (row_fields kvs) d) kind i = Some r"
    "\<And>k v. map_of kvs k = Some v \<Longrightarrow> map_of (rw_fields r) k = field_is v"
proof -
  let ?o = "overlay_row (write_row kind i OpUpsert (row_fields kvs) d) kind i"
  have *: "\<exists>r. ?o = Some r \<and> map_of (rw_fields r) k = field_is v" if "map_of kvs k = Some v" for k v
    using upsert_overlay [OF assms(1), of "row_fields kvs" k v] that
    by (simp add: row_fields_map [OF assms(3)])
  obtain k v where "(k, v) \<in> set kvs" using assms(2) by (cases kvs) auto
  then have "map_of kvs k = Some v" using assms(3) by simp
  then obtain r where "?o = Some r" using * by blast
  with * show thesis by (intro that) auto
qed

lemma upsert_chat_reads:
  assumes "ahead (snd (next_hlc d)) (raw_row d kind_chats (ch_id c))" "chat_ok c"
  shows "reg_chat (upsert_chat c d) (ch_id c) = Some (chat_to_millis c)"
proof -
  have "distinct (map fst (chat_kvs c))" "chat_kvs c \<noteq> []" by (simp_all add: chat_entries_def)
  from write_row_fields [OF assms(1) this(2,1)] obtain r where
    r: "overlay_row (upsert_chat c d) kind_chats (ch_id c) = Some r"
      "\<And>k v. map_of (chat_kvs c) k = Some v \<Longrightarrow> map_of (rw_fields r) k = field_is v"
    unfolding upsert_chat_def by blast
  from raw_chat_of_fields [OF r(2) assms(2)] r(1) show ?thesis
    by (simp add: reg_chat_def row_to_def)
qed

text \<open>
  A chat written is the chat read: after \<^verbatim>\<open>upsert_chat\<close> the typed read returns the same chat,
  configuration included, with its instants cut to milliseconds, and nothing of an older version
  of the row shines through.
\<close>

theorem upsert_chat_read:
  assumes "ahead (snd (next_hlc d)) (raw_row d kind_chats (ch_id c))" "chat_ok c"
  shows "reg_chat (upsert_chat c d) (ch_id c) = Some (chat_to_millis c)"
  using assms by (rule upsert_chat_reads)

definition demo_chat :: chat where
  "demo_chat = \<lparr>ch_id = ''c1'', ch_device_id = ''dev'', ch_title = Some ''T'', ch_archived = True,
     ch_cwd = None, ch_branch = None, ch_checkout_id = None,
     ch_config = Some \<lparr>cc_harness = Codex, cc_model = None, cc_reasoning = Some High,
       cc_model_options = [], cc_sandbox = ReadOnly\<rparr>,
     ch_last_message_preview = None, ch_last_message_at = Some 1234567, ch_created_at = 5,
     ch_harness_session_id = None, ch_harness_session_cwd = None, ch_space_id = Some ''s1'',
     ch_last_seen_at = None, ch_room_gen = Some 2\<rparr>"

lemma upsert_chat_read_witness:
  "reg_chat (upsert_chat demo_chat (registry_new ''dev'' int)) ''c1'' =
     Some (chat_to_millis demo_chat)"
proof -
  have i: "ch_id demo_chat = ''c1''" by (simp add: demo_chat_def)
  have "ahead (snd (next_hlc (registry_new ''dev'' int)))
      (raw_row (registry_new ''dev'' int) kind_chats (ch_id demo_chat))"
    by (simp add: raw_row_def registry_new_def ahead_def)
  moreover have "chat_ok demo_chat"
    by (simp add: chat_ok_def demo_chat_def in_range_def timestamp_millis_def)
  ultimately show ?thesis using upsert_chat_read [of _ demo_chat] unfolding i by blast
qed

subsection \<open>The seen marker\<close>

definition seen_ms :: "registry_doc \<Rightarrow> string \<Rightarrow> int option" where
  "seen_ms d chat_id =
     (case overlay_row d kind_chats chat_id of
        None \<Rightarrow> None
      | Some r \<Rightarrow> (case map_of (rw_fields r) ''lastSeenAt'' of None \<Rightarrow> None | Some v \<Rightarrow> as_i64 v))"

lemma overlay_row_Some:
  "overlay_row d k i = Some r \<longleftrightarrow> raw_row d k i = Some r \<and> \<not> rw_deleted r"
  by (auto simp: overlay_row_raw split: option.splits if_splits)

lemma update_overlay:
  assumes "overlay_row d kind i = Some row"
  obtains r where "overlay_row (write_row kind i OpUpdate kvs d) kind i = Some r"
    "\<And>k. map_of (rw_fields r) k = map_of (rw_fields row) k \<or>
       (\<exists>v. map_of kvs k = Some v \<and> map_of (rw_fields r) k = field_is v)"
proof -
  have row: "raw_row d kind i = Some row" "\<not> rw_deleted row"
    using assms by (simp_all add: overlay_row_Some)
  let ?op = "written_op d kind i OpUpdate kvs"
  have "ro_op ?op \<noteq> OpDelete" by (simp add: written_op_def)
  from merge_op_live [OF this row(2)] obtain r where
    r: "merge_op ?op (Some row) = Some r" "row_head r = row_head row"
      "\<And>k. row_cell r k = op_cell ?op k (row_cell row k)" by blast
  have "raw_row (write_row kind i OpUpdate kvs d) kind i = Some r"
    using row(1) r(1) by (simp add: raw_row_write)
  then have "overlay_row (write_row kind i OpUpdate kvs d) kind i = Some r"
    using row_deleted_head [OF r(2)] row(2) by (simp add: overlay_row_Some)
  moreover have "map_of (rw_fields r) k = map_of (rw_fields row) k \<or>
      (\<exists>v. map_of kvs k = Some v \<and> map_of (rw_fields r) k = field_is v)" for k
    using arg_cong [OF r(3) [of k], of snd]
    by (auto simp: row_cell_def op_cell_def op_write_def written_op_def lww_def field_is_def split: option.splits
        if_splits)
  ultimately show thesis by (rule that)
qed

text \<open>
  The seen marker never moves back: marking a chat seen at any instant, earlier ones and stale
  ones included, leaves the marker this device shows at its old value or at a later one.
\<close>

theorem set_chat_seen_monotone:
  assumes "seen_ms d chat_id = Some ms" "i64_ok (timestamp_millis at)"
  shows "\<exists>ms'. seen_ms (fst (set_chat_seen chat_id at d)) chat_id = Some ms' \<and> ms \<le> ms'"
proof -
  obtain row v where row: "overlay_row d kind_chats chat_id = Some row"
    "map_of (rw_fields row) ''lastSeenAt'' = Some v" "as_i64 v = Some ms"
    using assms(1) by (auto simp: seen_ms_def split: option.splits)
  show ?thesis
  proof (cases "timestamp_millis at \<le> ms")
    case True
    with row assms(1) show ?thesis by (simp add: set_chat_seen_def)
  next
    case False
    let ?kvs = "row_fields [(''lastSeenAt'', JInt (timestamp_millis at))]"
    have kvs: "map_of ?kvs = map_of [(''lastSeenAt'', JInt (timestamp_millis at))]"
      by (rule row_fields_map) simp
    from update_overlay [OF row(1)] obtain r where
      "overlay_row (write_row kind_chats chat_id OpUpdate ?kvs d) kind_chats chat_id = Some r"
      "map_of (rw_fields r) ''lastSeenAt'' = map_of (rw_fields row) ''lastSeenAt'' \<or>
       (\<exists>v. map_of ?kvs ''lastSeenAt'' = Some v \<and> map_of (rw_fields r) ''lastSeenAt'' = field_is v)"
      by blast
    with False row assms(2) show ?thesis
      by (auto simp: set_chat_seen_def seen_ms_def kvs field_is_def as_i64_def)
  qed
qed

lemma set_chat_seen_monotone_witness:
  "\<exists>ms'. seen_ms (fst (set_chat_seen ''c1'' 1000000
      (reg_apply (RvRows 1 [(new_row kind_chats ''c1'')\<lparr>rw_fields := [(''lastSeenAt'', JInt 7)]\<rparr>])
        (registry_new ''dev'' int)))) ''c1'' = Some ms' \<and> 7 \<le> ms'"
proof (rule set_chat_seen_monotone)
  show "seen_ms (reg_apply (RvRows 1 [(new_row kind_chats ''c1'')\<lparr>rw_fields := [(''lastSeenAt'', JInt 7)]\<rparr>])
      (registry_new ''dev'' int)) ''c1'' = Some 7"
    by (simp add: seen_ms_def overlay_row_def apply_rows_def registry_new_def new_row_def
        as_i64_def i64_ok_def)
qed (simp add: timestamp_millis_def i64_ok_def)

subsection \<open>The cascade of a deleted space\<close>

text \<open>
  Deleting a space removes, at once in this device's view, the space, every chat that was in
  it and the session row of each, reports exactly those chats, and removes no other chat.
\<close>

theorem delete_space_cascade:
  assumes "\<And>k i. ahead (snd (next_hlc d)) (raw_row d k i)" "(d', res) = delete_space s d"
  shows "overlay_row d' kind_spaces s = None \<and>
    ds_chat_ids res = map ch_id (filter (\<lambda>c. ch_space_id c = Some s) (read_chats d)) \<and>
    list_all (\<lambda>i. overlay_row d' kind_chats i = None \<and> overlay_row d' kind_sessions i = None)
      (ds_chat_ids res) \<and>
    (i \<notin> set (ds_chat_ids res) \<longrightarrow> overlay_row d' kind_chats i = overlay_row d kind_chats i)"
proof -
  let ?ids = "map ch_id (filter (\<lambda>c. ch_space_id c = Some s) (read_chats d))"
  let ?keys = "concat (map (\<lambda>c. [(kind_chats, c), (kind_sessions, c)]) ?ids) @ [(kind_spaces, s)]"
  have d: "d' = delete_row_ops ?keys d" "ds_chat_ids res = ?ids"
    using assms(2) by (simp_all add: delete_space_def Let_def)
  have k: "(kind_chats, c) \<in> set ?keys \<longleftrightarrow> c \<in> set ?ids" "(kind_spaces, s) \<in> set ?keys"
    "(kind_sessions, c) \<in> set ?keys \<longleftrightarrow> c \<in> set ?ids" for c
    by (auto simp: kind_chats_def kind_sessions_def kind_spaces_def)
  have o: "overlay_row d' kd c = (if (kd, c) \<in> set ?keys then None else overlay_row d kd c)" for kd c
    unfolding d(1) by (rule delete_row_ops_overlay [OF assms(1)])
  show ?thesis
    unfolding o d(2) using k by (simp only: list_all_iff) simp
qed

lemma raw_row_new [simp]: "raw_row (registry_new dev wall) k i = None"
  by (simp add: raw_row_def registry_new_def)

lemma delete_space_cascade_witness:
  "overlay_row (fst (delete_space ''s1'' (registry_new ''dev'' int))) kind_spaces ''s1'' = None"
proof -
  have a: "ahead (snd (next_hlc (registry_new ''dev'' int))) (raw_row (registry_new ''dev'' int) k i)"
    for k i by (simp add: ahead_def)
  show ?thesis
    using delete_space_cascade [OF a, of "fst (delete_space ''s1'' (registry_new ''dev'' int))"
        "snd (delete_space ''s1'' (registry_new ''dev'' int))" "''s1''"] by simp
qed

text \<open>
  A cascade over more than 400 rows is not one batch: the deletes are queued as at least two
  batches, which the server applies separately.
\<close>

theorem big_cascade_splits:
  assumes "length keys > max_ops_per_batch"
  shows "length (rd_pending d) + 2 \<le> length (rd_pending (delete_row_ops keys d))"
proof -
  let ?ops = "map (\<lambda>(kind, i). \<lparr>ro_kind = kind, ro_id = i, ro_op = OpDelete, ro_set = None,
       ro_hlc = snd (next_hlc d), ro_clocks = None\<rparr>) keys"
  obtain bs where bs: "queued d (delete_row_ops keys d) bs" "batches_of ?ops bs"
    using delete_row_ops_queued by blast
  have len: "length (concat (map pb_ops bs)) = length keys" using bs(2) by (simp add: batches_of_def)
  have "2 \<le> length bs"
  proof (rule ccontr)
    assume "\<not> 2 \<le> length bs"
    then consider "bs = []" | b where "bs = [b]" by (cases bs; cases "tl bs") auto
    then show False
    proof cases
      case 1
      with len assms show False by simp
    next
      case 2
      from bs(2) have "list_all batch_ok bs" by (simp add: batches_of_def)
      with 2 have "length (pb_ops b) \<le> max_ops_per_batch" by (simp add: batch_ok_def)
      with 2 len assms show False by simp
    qed
  qed
  with bs(1) show ?thesis by (simp add: queued_def)
qed

lemma big_cascade_splits_witness:
  "2 \<le> length (rd_pending (delete_row_ops (replicate 401 (kind_chats, ''c'')) (registry_new ''dev'' int)))"
  using big_cascade_splits [of "replicate 401 (kind_chats, ''c'')" "registry_new ''dev'' int"]
  by (simp add: max_ops_per_batch_def registry_new_def)

subsection \<open>The merge of two devices\<close>

lemma find_unique:
  assumes "x \<in> set xs" "P x" "\<And>y. y \<in> set xs \<Longrightarrow> P y \<Longrightarrow> y = x"
  shows "find P (rev xs) = Some x"
proof -
  obtain y where y: "find P (rev xs) = Some y"
    using assms(1,2) by (cases "find P (rev xs)") (auto simp: find_None_iff)
  then have "y = x" using find_SomeD [OF y] assms(3) by simp
  with y show ?thesis by simp
qed

definition spaces_of :: "string \<Rightarrow> registry_doc \<Rightarrow> space list" where
  "spaces_of dev d = filter (\<lambda>s. sp_device_id s = dev) (read_spaces d)"

text \<open>What the merge queues for a chat of the source device.\<close>

definition rehomes :: "string \<Rightarrow> string \<Rightarrow> string \<Rightarrow> registry_doc \<Rightarrow> chat \<Rightarrow> row_op \<Rightarrow> bool" where
  "rehomes hlc source target d c op \<longleftrightarrow>
     ro_kind op = kind_chats \<and> ro_id op = ch_id c \<and> ro_op op = OpUpdate \<and>
     op_write op ''deviceId'' = Some (JStr target) \<and>
     (\<forall>s \<in> set (spaces_of source d). ch_space_id c = Some (sp_id s) \<longrightarrow>
        (if list_ex (\<lambda>t. sp_path t = sp_path s) (spaces_of target d)
         then \<exists>t \<in> set (spaces_of target d). sp_path t = sp_path s \<and>
            op_write op ''spaceId'' = Some (JStr (sp_id t)) \<and>
            op_write op ''checkoutId'' = Some (opt_str (sp_checkout_id t))
         else op_write op ''spaceId'' = None \<and> op_write op ''checkoutId'' = Some JNull))"

text \<open>
  Merging an old installation into another one loses no chat: the queued operations delete no
  chat row, every chat of the old device is moved to the target device, and a chat whose space is
  coalesced (and so deleted) moves to the target's space with the same path and takes its checkout,
  while one whose space is kept only has its checkout cleared.
\<close>

theorem merge_device_keeps_chats:
  assumes "distinct (map sp_id (spaces_of source d))" "c \<in> set (read_chats d)" "ch_device_id c = source"
    "ops = merge_device_ops hlc source target d"
  shows "(\<exists>op \<in> set ops. rehomes hlc source target d c op) \<and>
    list_all (\<lambda>op. ro_op op = OpDelete \<longrightarrow> ro_kind op \<noteq> kind_chats) ops"
proof
  let ?op = "merge_chat_op hlc target (spaces_of source d) (spaces_of target d) c"
  have ops: "ops = map (merge_chat_op hlc target (spaces_of source d) (spaces_of target d))
        (filter (\<lambda>c. ch_device_id c = source) (read_chats d))
      @ map (merge_space_op hlc target (spaces_of target d)) (spaces_of source d)
      @ map (\<lambda>s. delete_op hlc kind_sessions (se_chat_id s))
          (filter (\<lambda>s. se_device_id s = source) (read_sessions d))
      @ [delete_op hlc kind_devices source]"
    by (simp add: assms(4) merge_device_ops_def spaces_of_def Let_def)
  show "list_all (\<lambda>op. ro_op op = OpDelete \<longrightarrow> ro_kind op \<noteq> kind_chats) ops"
    unfolding ops
    by (auto simp: list_all_iff merge_chat_op_def merge_space_op_def delete_op_def Let_def
        kind_chats_def kind_spaces_def kind_sessions_def kind_devices_def)
  have base: "map_of (row_fields [(''deviceId'', JStr target)]) = [''deviceId'' \<mapsto> JStr target]"
    by (simp add: row_fields_map)
  have "rehomes hlc source target d c ?op"
    unfolding rehomes_def
  proof (intro conjI ballI impI)
    show "ro_kind ?op = kind_chats" "ro_id ?op = ch_id c" "ro_op ?op = OpUpdate"
      by (simp_all add: merge_chat_op_def Let_def)
    show "op_write ?op ''deviceId'' = Some (JStr target)"
      by (auto simp: merge_chat_op_def op_write_def Let_def base split: option.split)
    fix s assume s: "s \<in> set (spaces_of source d)" "ch_space_id c = Some (sp_id s)"
    have by_id: "find (\<lambda>t. sp_id t = sp_id s) (rev (spaces_of source d)) = Some s"
      by (rule find_unique [OF s(1)]) (use assms(1) s(1) in \<open>auto simp: distinct_map inj_on_eq_iff\<close>)
    let ?t = "find (\<lambda>t. sp_path t = sp_path s) (rev (spaces_of target d))"
    show "if list_ex (\<lambda>t. sp_path t = sp_path s) (spaces_of target d)
         then \<exists>t \<in> set (spaces_of target d). sp_path t = sp_path s \<and>
            op_write ?op ''spaceId'' = Some (JStr (sp_id t)) \<and>
            op_write ?op ''checkoutId'' = Some (opt_str (sp_checkout_id t))
         else op_write ?op ''spaceId'' = None \<and> op_write ?op ''checkoutId'' = Some JNull"
    proof (cases "?t")
      case None
      then have "\<not> list_ex (\<lambda>t. sp_path t = sp_path s) (spaces_of target d)"
        by (auto simp: list_ex_iff find_None_iff)
      with None s(2) by_id show ?thesis
        by (simp add: merge_chat_op_def op_write_def Let_def base)
    next
      case (Some t)
      then have t: "t \<in> set (spaces_of target d)" "sp_path t = sp_path s" by (auto dest: find_SomeD)
      then have "list_ex (\<lambda>t. sp_path t = sp_path s) (spaces_of target d)" by (auto simp: list_ex_iff)
      with Some s(2) by_id t show ?thesis
        by (auto simp: merge_chat_op_def op_write_def Let_def base intro!: bexI [of _ t])
    qed
  qed
  then show "\<exists>op \<in> set ops. rehomes hlc source target d c op"
    unfolding ops using assms(2,3) by auto
qed

definition demo_merge_doc :: registry_doc where
  "demo_merge_doc =
     upsert_chat (demo_chat\<lparr>ch_device_id := ''old''\<rparr>) (registry_new ''dev'' (\<lambda>n. 7 + int n))"

lemma merge_device_keeps_chats_witness:
  "\<exists>c. c \<in> set (read_chats demo_merge_doc) \<and>
     (\<exists>op \<in> set (merge_device_ops ''h'' ''old'' ''dev'' demo_merge_doc).
        rehomes ''h'' ''old'' ''dev'' demo_merge_doc c op)"
proof -
  let ?c = "(chat_to_millis demo_chat)\<lparr>ch_device_id := ''old''\<rparr>"
  have "read_chats demo_merge_doc = [?c]" "read_spaces demo_merge_doc = []"
    by code_simp+
  then have "?c \<in> set (read_chats demo_merge_doc)" "ch_device_id ?c = ''old''"
    "distinct (map sp_id (spaces_of ''old'' demo_merge_doc))"
    by (simp_all add: spaces_of_def)
  with merge_device_keeps_chats [OF this(3,1,2) refl] show ?thesis by blast
qed

end
