(* ===== verification/Sync_Store.thy ===== *)
theory Sync_Store
  imports Prelude "HOL-Library.Word"
begin

text \<open>
  The local SQLite store, \<^verbatim>\<open>crates/sync/src/store.rs\<close>: document snapshots with their room cursor and
  epoch, the ledger of processed commands, and the schema migrations. A table with a primary key is
  an association list in insertion order; the statements of the source are written out as what they
  do to it. The database may refuse any statement: every operation takes the fault, if any, that the
  engine reports for it.
\<close>

subsection \<open>State\<close>

datatype store_error = Sqlite string | Io string

type_synonym sql_fault = "store_error option"

record snapshot_row =
  sn_bytes :: bytes
  sn_saved_at :: int
  sn_cursor :: "int option"
  sn_epoch :: "int option"

record docs_store =
  ds_snapshots :: "(string \<times> snapshot_row) list"
  ds_processed :: "(string \<times> int) list"

definition empty_store :: docs_store where
  "empty_store = \<lparr>ds_snapshots = [], ds_processed = []\<rparr>"

text \<open>A statement that reports a fault changes nothing.\<close>

definition exec_sql :: "sql_fault \<Rightarrow> (docs_store \<Rightarrow> 'a \<times> docs_store) \<Rightarrow> docs_store \<Rightarrow>
    (store_error + 'a) \<times> docs_store" where
  "exec_sql flt stmt s =
     (case flt of Some e \<Rightarrow> (Inl e, s) | None \<Rightarrow> (let (x, s') = stmt s in (Inr x, s')))"

definition query_sql :: "sql_fault \<Rightarrow> 'a \<Rightarrow> store_error + 'a" where
  "query_sql flt x = (case flt of Some e \<Rightarrow> Inl e | None \<Rightarrow> Inr x)"

subsection \<open>Snapshots\<close>

definition load_snapshot :: "sql_fault \<Rightarrow> docs_store \<Rightarrow> string \<Rightarrow> store_error + bytes option" where
  "load_snapshot flt s doc_id =
     query_sql flt (map_option sn_bytes (map_of (ds_snapshots s) doc_id))"

definition save_snapshot :: "sql_fault \<Rightarrow> string \<Rightarrow> bytes \<Rightarrow> int \<Rightarrow> docs_store \<Rightarrow>
    (store_error + unit) \<times> docs_store" where
  "save_snapshot flt doc_id bs now =
     exec_sql flt (\<lambda>s.
       ((), s\<lparr>ds_snapshots := AList.update doc_id
          (case map_of (ds_snapshots s) doc_id of
             None \<Rightarrow> \<lparr>sn_bytes = bs, sn_saved_at = now, sn_cursor = None, sn_epoch = None\<rparr>
           | Some r \<Rightarrow> r\<lparr>sn_bytes := bs, sn_saved_at := now\<rparr>) (ds_snapshots s)\<rparr>))"

text \<open>The casts \<^verbatim>\<open>cursor as i64\<close> and back reinterpret the bits; \<^verbatim>\<open>epoch as i64\<close> widens and reads back
  by truncation.\<close>

definition save_snapshot_with_cursor :: "sql_fault \<Rightarrow> string \<Rightarrow> bytes \<Rightarrow> 64 word \<Rightarrow> 32 word \<Rightarrow> int \<Rightarrow>
    docs_store \<Rightarrow> (store_error + unit) \<times> docs_store" where
  "save_snapshot_with_cursor flt doc_id bs cursor epoch now =
     exec_sql flt (\<lambda>s.
       ((), s\<lparr>ds_snapshots := AList.update doc_id
          \<lparr>sn_bytes = bs, sn_saved_at = now, sn_cursor = Some (sint cursor),
           sn_epoch = Some (uint epoch)\<rparr> (ds_snapshots s)\<rparr>))"

definition load_snapshot_with_cursor :: "sql_fault \<Rightarrow> docs_store \<Rightarrow> string \<Rightarrow>
    store_error + (bytes \<times> 64 word \<times> 32 word) option" where
  "load_snapshot_with_cursor flt s doc_id =
     query_sql flt (map_option
       (\<lambda>r. (sn_bytes r,
             word_of_int (case sn_cursor r of Some c \<Rightarrow> c | None \<Rightarrow> 0),
             word_of_int (case sn_epoch r of Some e \<Rightarrow> e | None \<Rightarrow> 0)))
       (map_of (ds_snapshots s) doc_id))"

definition delete_snapshot :: "sql_fault \<Rightarrow> string \<Rightarrow> docs_store \<Rightarrow> (store_error + unit) \<times> docs_store" where
  "delete_snapshot flt doc_id =
     exec_sql flt (\<lambda>s. ((), s\<lparr>ds_snapshots := AList.delete doc_id (ds_snapshots s)\<rparr>))"

definition has_snapshot :: "sql_fault \<Rightarrow> docs_store \<Rightarrow> string \<Rightarrow> store_error + bool" where
  "has_snapshot flt s doc_id = query_sql flt (map_of (ds_snapshots s) doc_id \<noteq> None)"

subsection \<open>The processed-command ledger\<close>

definition processed_commands :: "sql_fault \<Rightarrow> docs_store \<Rightarrow> store_error + (string \<times> int) list" where
  "processed_commands flt s = query_sql flt (ds_processed s)"

definition is_processed :: "sql_fault \<Rightarrow> docs_store \<Rightarrow> string \<Rightarrow> store_error + bool" where
  "is_processed flt s command_id = query_sql flt (map_of (ds_processed s) command_id \<noteq> None)"

text \<open>\<^verbatim>\<open>INSERT OR IGNORE\<close>: the number of changed rows, 0 when the key is taken.\<close>

definition insert_or_ignore :: "string \<Rightarrow> int \<Rightarrow> docs_store \<Rightarrow> nat \<times> docs_store" where
  "insert_or_ignore command_id at s =
     (case map_of (ds_processed s) command_id of
        Some _ \<Rightarrow> (0, s)
      | None \<Rightarrow> (1, s\<lparr>ds_processed := ds_processed s @ [(command_id, at)]\<rparr>))"

definition mark_processed :: "sql_fault \<Rightarrow> string \<Rightarrow> int \<Rightarrow> docs_store \<Rightarrow>
    (store_error + bool) \<times> docs_store" where
  "mark_processed flt command_id now s =
     (case exec_sql flt (insert_or_ignore command_id now) s of
        (Inl e, s') \<Rightarrow> (Inl e, s')
      | (Inr changed, s') \<Rightarrow> (Inr (changed > 0), s'))"

text \<open>The import runs one statement per row, outside a transaction: the rows before a refused one
  stay inserted.\<close>

fun import_processed_commands :: "sql_fault list \<Rightarrow> (string \<times> int) list \<Rightarrow> docs_store \<Rightarrow>
    (store_error + nat) \<times> docs_store" where
  "import_processed_commands flts [] s = (Inr 0, s)"
| "import_processed_commands flts ((command_id, processed_at) # rows) s =
     (case exec_sql (if flts = [] then None else hd flts) (insert_or_ignore command_id processed_at) s of
        (Inl e, s') \<Rightarrow> (Inl e, s')
      | (Inr changed, s') \<Rightarrow>
          (case import_processed_commands (tl flts) rows s' of
             (Inl e, s'') \<Rightarrow> (Inl e, s'')
           | (Inr inserted, s'') \<Rightarrow> (Inr (changed + inserted), s'')))"

subsection \<open>Migrations\<close>

text \<open>
  The database during a migration: the versions recorded in \<^verbatim>\<open>schema_migrations\<close> and the tables, of
  type \<open>'d\<close>, on which a script runs by \<open>run\<close>. Each step is one transaction: when the script or the
  commit is refused, neither the tables nor the record change and the open fails.
\<close>

definition current_version :: "nat list \<Rightarrow> nat" where
  "current_version applied = fold max applied 0"

fun migrate_from :: "(string \<Rightarrow> 'd \<Rightarrow> store_error + 'd) \<Rightarrow> (nat \<Rightarrow> sql_fault) \<Rightarrow> nat \<Rightarrow> nat \<Rightarrow>
    string list \<Rightarrow> nat list \<times> 'd \<Rightarrow> (store_error + unit) \<times> nat list \<times> 'd" where
  "migrate_from run commit current index [] db = (Inr (), db)"
| "migrate_from run commit current index (sql # rest) (applied, d) =
     (let version = index + 1
      in if version \<le> current then migrate_from run commit current (Suc index) rest (applied, d)
         else (case run sql d of
                 Inl e \<Rightarrow> (Inl e, applied, d)
               | Inr d' \<Rightarrow>
                   (case commit version of
                      Some e \<Rightarrow> (Inl e, applied, d)
                    | None \<Rightarrow> migrate_from run commit current (Suc index) rest
                                (applied @ [version], d'))))"

definition migrate :: "(string \<Rightarrow> 'd \<Rightarrow> store_error + 'd) \<Rightarrow> (nat \<Rightarrow> sql_fault) \<Rightarrow> string list \<Rightarrow>
    nat list \<times> 'd \<Rightarrow> (store_error + unit) \<times> nat list \<times> 'd" where
  "migrate run commit migrations db =
     migrate_from run commit (current_version (fst db)) 0 migrations db"

subsection \<open>Snapshot laws\<close>

lemma exec_sql_simps [simp]:
  "exec_sql None stmt s = (Inr (fst (stmt s)), snd (stmt s))"
  "exec_sql (Some e) stmt s = (Inl e, s)"
  by (simp_all add: exec_sql_def split_beta)

lemma query_sql_simps [simp]: "query_sql None x = Inr x" "query_sql (Some e) x = Inl e"
  by (simp_all add: query_sql_def)

lemma map_of_update: "map_of (AList.update k v xs) j = (if j = k then Some v else map_of xs j)"
  by (simp add: AList.update_conv')

lemma map_of_delete: "map_of (AList.delete k xs) j = (if j = k then None else map_of xs j)"
  by (simp add: AList.delete_conv')

lemma word_of_sint: "word_of_int (sint (w :: 64 word)) = w"
  by simp

text \<open>
A save with a cursor reads back bit for bit, the whole range of \<^verbatim>\<open>u64\<close> and \<^verbatim>\<open>u32\<close> included, and
  touches no other document; a later plain save replaces the bytes and keeps cursor and epoch; a
  refused statement changes nothing.
\<close>

theorem snapshot_cursor_roundtrip:
  "load_snapshot_with_cursor None (snd (save_snapshot_with_cursor None i bs c e now s)) j =
     (if j = i then Inr (Some (bs, c, e)) else load_snapshot_with_cursor None s j) \<and>
   load_snapshot_with_cursor None
     (snd (save_snapshot None i bs' now'
        (snd (save_snapshot_with_cursor None i bs c e now s)))) j =
     (if j = i then Inr (Some (bs', c, e)) else load_snapshot_with_cursor None s j) \<and>
   save_snapshot_with_cursor (Some flt) i bs c e now s = (Inl flt, s)"
  by (simp add: save_snapshot_with_cursor_def save_snapshot_def load_snapshot_with_cursor_def
      map_of_update)

lemma delete_snapshot_gone:
  "has_snapshot None (snd (delete_snapshot None i s)) j =
     (if j = i then Inr False else has_snapshot None s j)"
  by (simp add: delete_snapshot_def has_snapshot_def map_of_delete)

subsection \<open>Claims\<close>

text \<open>The contract of a ledger: a claim wins exactly when nobody claimed before it, and lasts.\<close>

locale claim_ledger =
  fixes claimed :: "'s \<Rightarrow> string \<Rightarrow> bool"
    and claim :: "string \<Rightarrow> 's \<Rightarrow> bool \<times> 's"
  assumes claim_wins: "fst (claim i s) \<longleftrightarrow> \<not> claimed s i"
    and claim_lasts: "claimed (snd (claim i s)) j \<longleftrightarrow> j = i \<or> claimed s j"

text \<open>A sequence of claims; the winners, in order.\<close>

fun claim_all :: "(string \<Rightarrow> 's \<Rightarrow> bool \<times> 's) \<Rightarrow> string list \<Rightarrow> 's \<Rightarrow> string list \<times> 's" where
  "claim_all claim [] s = ([], s)"
| "claim_all claim (i # is) s =
     (let (won, s') = claim i s; (ws, s'') = claim_all claim is s'
      in (if won then i # ws else ws, s''))"

context claim_ledger
begin

lemma winners: "set (fst (claim_all claim is s)) = {i \<in> set is. \<not> claimed s i}"
  by (induction "is" arbitrary: s) (auto simp: split_beta Let_def claim_wins claim_lasts)

lemma winners_distinct: "distinct (fst (claim_all claim is s))"
  by (induction "is" arbitrary: s) (auto simp: split_beta Let_def winners claim_lasts)

lemma claimed_all: "claimed (snd (claim_all claim is s)) j \<longleftrightarrow> j \<in> set is \<or> claimed s j"
  by (induction "is" arbitrary: s) (auto simp: split_beta Let_def claim_lasts)

end

definition ledger_has :: "docs_store \<Rightarrow> string \<Rightarrow> bool" where
  "ledger_has s i \<longleftrightarrow> map_of (ds_processed s) i \<noteq> None"

definition try_claim :: "int \<Rightarrow> string \<Rightarrow> docs_store \<Rightarrow> bool \<times> docs_store" where
  "try_claim now i s =
     (case mark_processed None i now s of (Inr b, s') \<Rightarrow> (b, s') | (Inl _, s') \<Rightarrow> (False, s'))"

lemma is_processed_ok: "is_processed None s i = Inr (ledger_has s i)"
  by (simp add: is_processed_def ledger_has_def)

lemma insert_or_ignore_has:
  "ledger_has (snd (insert_or_ignore i t s)) j \<longleftrightarrow> j = i \<or> ledger_has s j"
  by (auto simp: insert_or_ignore_def ledger_has_def map_add_def split: option.splits)

lemma mark_processed_ok:
  "mark_processed None i now s = (Inr (\<not> ledger_has s i), snd (insert_or_ignore i now s))"
  by (auto simp: mark_processed_def insert_or_ignore_def ledger_has_def split: option.splits)

interpretation ledger: claim_ledger ledger_has "try_claim now"
  by unfold_locales (simp_all add: try_claim_def mark_processed_ok insert_or_ignore_has)

text \<open>
Of any sequence of claims, whoever makes them, each command is won at most once, exactly those
  not claimed before are won, and every command of the sequence is claimed afterwards.
\<close>

theorem claims_won_once:
  "distinct (fst (claim_all (try_claim now) is s)) \<and>
   set (fst (claim_all (try_claim now) is s)) = {i \<in> set is. \<not> ledger_has s i} \<and>
   (ledger_has (snd (claim_all (try_claim now) is s)) j \<longleftrightarrow> j \<in> set is \<or> ledger_has s j)"
  by (intro conjI ledger.winners_distinct ledger.winners ledger.claimed_all)

lemma insert_or_ignore_map:
  "map_of (ds_processed (snd (insert_or_ignore i t s))) j =
     (case map_of (ds_processed s) j of Some u \<Rightarrow> Some u | None \<Rightarrow> if j = i then Some t else None)"
  by (auto simp: insert_or_ignore_def map_add_def split: option.splits)

lemma insert_or_ignore_length:
  "length (ds_processed (snd (insert_or_ignore i t s))) =
     length (ds_processed s) + fst (insert_or_ignore i t s)"
  by (auto simp: insert_or_ignore_def split: option.splits)

lemma import_ok:
  "\<exists>n s'. import_processed_commands [] rows s = (Inr n, s') \<and>
     (\<forall>j. map_of (ds_processed s') j =
        (case map_of (ds_processed s) j of Some u \<Rightarrow> Some u | None \<Rightarrow> map_of rows j)) \<and>
     length (ds_processed s') = length (ds_processed s) + n"
proof (induction rows arbitrary: s)
  case Nil
  then show ?case by (simp split: option.splits)
next
  case (Cons r rows)
  obtain i t where [simp]: "r = (i, t)" by (cases r)
  from Cons obtain n s' where
    n: "import_processed_commands [] rows (snd (insert_or_ignore i t s)) = (Inr n, s')"
      "\<And>j. map_of (ds_processed s') j =
        (case map_of (ds_processed (snd (insert_or_ignore i t s))) j of
           Some u \<Rightarrow> Some u | None \<Rightarrow> map_of rows j)"
      "length (ds_processed s') = length (ds_processed (snd (insert_or_ignore i t s))) + n"
    by metis
  then show ?case
    by (simp add: insert_or_ignore_map insert_or_ignore_length split: option.splits)
qed

text \<open>
An import that no fault interrupts adds the foreign claims it lacks, keeps its own time stamps
  for the others and returns how many rows it added; importing the same rows again adds none.
\<close>

theorem import_merges_claims:
  "case import_processed_commands [] rows s of
     (Inr n, s') \<Rightarrow>
       map_of (ds_processed s') = map_of rows ++ map_of (ds_processed s) \<and>
       length (ds_processed s') = length (ds_processed s) + n \<and>
       fst (import_processed_commands [] rows s') = Inr 0
   | (Inl _, _) \<Rightarrow> False"
proof -
  obtain n s' where 1: "import_processed_commands [] rows s = (Inr n, s')"
    "\<And>j. map_of (ds_processed s') j =
        (case map_of (ds_processed s) j of Some u \<Rightarrow> Some u | None \<Rightarrow> map_of rows j)"
    "length (ds_processed s') = length (ds_processed s) + n"
    using import_ok [of rows s] by auto
  have again: "import_processed_commands [] rs s' = (Inr 0, s')"
    if "\<forall>r \<in> set rs. map_of (ds_processed s') (fst r) \<noteq> None" for rs
    using that by (induction rs) (auto simp: insert_or_ignore_def)
  have "map_of rows (fst r) \<noteq> None" if "r \<in> set rows" for r
    using that by (simp add: map_of_eq_None_iff)
  then have "import_processed_commands [] rows s' = (Inr 0, s')"
    by (intro again ballI) (simp add: 1 split: option.splits)
  with 1 show ?thesis by (auto simp: map_add_def)
qed

subsection \<open>Migrations resume\<close>

lemma current_version_upt: "current_version [1..<Suc k] = k"
proof -
  have "fold max [1..<Suc k] 0 = k"
    by (induction k) auto
  then show ?thesis by (simp add: current_version_def)
qed

lemma migrate_from_skip:
  "i + length ms \<le> k \<Longrightarrow> migrate_from run commit k i ms db = (Inr (), db)"
  by (induction ms arbitrary: i db) (auto simp: Let_def)

text \<open>From version \<open>k\<close> on, a run only looks at the scripts it has not applied.\<close>

lemma migrate_from_drop:
  "i \<le> k \<Longrightarrow> migrate_from run commit k i ms db = migrate_from run commit k k (drop (k - i) ms) db"
proof (induction ms arbitrary: i)
  case (Cons m ms)
  obtain a d where [simp]: "db = (a, d)" by (cases db)
  show ?case
  proof (cases "i = k")
    case False
    with Cons have "migrate_from run commit k (Suc i) ms db =
        migrate_from run commit k k (drop (k - Suc i) ms) db" by simp
    moreover have "drop (k - i) (m # ms) = drop (k - Suc i) ms"
      using False Cons.prems by (simp add: drop_Cons' )
    ultimately show ?thesis using False Cons.prems by (simp add: Let_def)
  qed simp
qed simp

text \<open>Past its own version, the current version no longer matters.\<close>

lemma migrate_from_current:
  "k \<le> i \<Longrightarrow> k' \<le> i \<Longrightarrow> migrate_from run commit k i ms db = migrate_from run commit k' i ms db"
  by (induction ms arbitrary: i db) (auto simp: Let_def split: sum.splits option.splits)

lemma migrate_from_prefix:
  assumes "migrate_from run commit k i ms ([1..<Suc i], d) = (r, a, d')" "k \<le> i"
    "\<And>n. ok n = None"
  shows "\<exists>j \<le> length ms. a = [1..<Suc (i + j)] \<and>
    migrate_from run ok k i ms ([1..<Suc i], d) =
      migrate_from run ok k (i + j) (drop j ms) (a, d')"
  using assms(1,2)
proof (induction ms arbitrary: i d)
  case Nil
  then show ?case by auto
next
  case (Cons m ms)
  show ?case
  proof (cases "\<exists>d1. run m d = Inr d1 \<and> commit (i + 1) = None")
    case False
    with Cons.prems have "a = [1..<Suc i]" "d' = d"
      by (auto simp: Let_def split: sum.splits option.splits)
    then show ?thesis by (intro exI [of _ 0]) auto
  next
    case True
    then obtain d1 where d1: "run m d = Inr d1" "commit (i + 1) = None" by blast
    have u: "[1..<Suc i] @ [Suc i] = [1..<Suc (Suc i)]" by simp
    from Cons.prems d1 have "migrate_from run commit k (Suc i) ms ([1..<Suc (Suc i)], d1) = (r, a, d')"
      by (simp add: Let_def flip: u)
    from Cons.IH [OF this] Cons.prems obtain j where j: "j \<le> length ms"
      "a = [1..<Suc (Suc i + j)]"
      "migrate_from run ok k (Suc i) ms ([1..<Suc (Suc i)], d1) =
         migrate_from run ok k (Suc i + j) (drop j ms) (a, d')" by auto
    have "migrate_from run ok k i (m # ms) ([1..<Suc i], d) =
        migrate_from run ok k (Suc i) ms ([1..<Suc (Suc i)], d1)"
      using d1 Cons.prems assms(3) by (simp add: Let_def flip: u)
    with j show ?thesis by (intro exI [of _ "Suc j"]) simp
  qed
qed

text \<open>
An open that fails in the middle of the migrations loses nothing: whatever the faults were, the
  next open, without faults, ends in the database that one uninterrupted migration would have
  reached, every script having run once.
\<close>

theorem migrate_resumes:
  assumes "migrate run commit ms ([1..<Suc k], d) = (r, db')" "k \<le> length ms"
  shows "migrate run (\<lambda>_. None) ms db' = migrate run (\<lambda>_. None) ms ([1..<Suc k], d)"
proof -
  obtain a d' where [simp]: "db' = (a, d')" by (cases db')
  have m: "migrate run c ms ([1..<Suc j], e) = migrate_from run c j j (drop j ms) ([1..<Suc j], e)"
    for c j e
    unfolding migrate_def fst_conv current_version_upt using migrate_from_drop [of 0 j run c ms] by (simp del: upt_Suc)
  have "migrate_from run commit k k (drop k ms) ([1..<Suc k], d) = (r, a, d')"
    using assms(1) unfolding m by (simp del: upt_Suc)
  from migrate_from_prefix [OF this order_refl, of "\<lambda>_. None"] obtain j where j:
    "a = [1..<Suc (k + j)]"
    "migrate_from run (\<lambda>_. None) k k (drop k ms) ([1..<Suc k], d) =
       migrate_from run (\<lambda>_. None) k (k + j) (drop j (drop k ms)) (a, d')"
    by blast
  have "migrate run (\<lambda>_. None) ms db' =
      migrate_from run (\<lambda>_. None) (k + j) (k + j) (drop (k + j) ms) (a, d')"
    unfolding j(1) \<open>db' = (a, d')\<close> m by (rule refl)
  also have "\<dots> = migrate run (\<lambda>_. None) ms ([1..<Suc k], d)"
    unfolding m j(2) by (simp add: migrate_from_current [of "j + k" "j + k" k] add.commute)
  finally show ?thesis .
qed

lemma migrate_resumes_witness:
  "migrate (\<lambda>sql d. Inr (d @ [sql])) (\<lambda>_. None) [''a'', ''b'']
     (snd (migrate (\<lambda>sql d. Inr (d @ [sql])) (\<lambda>v. if v = 2 then Some (Sqlite ''full'') else None)
        [''a'', ''b''] ([], []))) = (Inr (), [1, 2], [''a'', ''b''])"
  using migrate_resumes [of "\<lambda>sql d. Inr (d @ [sql])"
      "\<lambda>v. if v = 2 then Some (Sqlite ''full'') else None" "[''a'', ''b'']" 0 "[]"]
  by (simp add: migrate_def current_version_def)

end
