(* ===== verification/Engine_Workspace.thy ===== *)
theory Engine_Workspace
  imports Doc_Parts Doc_Registry_Api Sync_Store "HOL-Library.Option_ord"
begin

text \<open>
  The engine's workspace host, \<^verbatim>\<open>crates/engine/src/workspace_host.rs\<close>: opening the registry from the
  store, the writer discipline (a chat's host is its row's device), the row operations behind the
  client calls, and presence. The registry, store and entity operations are those of the theories
  imported. A new identifier, the present instant and what the file system says of a path are
  arguments; the room client is the list of the calls it received.
\<close>

subsection \<open>State\<close>

record workspace_host_config =
  wc_device_id :: string
  wc_device_name :: string
  wc_platform :: string

record presence_watch =
  pw_armed :: bool
  pw_dark_since_ms :: int
  pw_probed :: bool

definition presence_watch_default :: presence_watch where
  "presence_watch_default = \<lparr>pw_armed = False, pw_dark_since_ms = 0, pw_probed = False\<rparr>"

datatype room_call = RcNudge | RcProbe | RcRedial

record workspace_host =
  wh_config :: workspace_host_config
  wh_reg :: registry_doc
  wh_room :: "room_call list option"
  wh_changed :: "64 word"
  wh_presence_seen :: "(string, int) hashmap"
  wh_presence_watch :: presence_watch

datatype engine_error =
    EeDoc doc_error | EeJournal string | EeStore store_error | EeHarness string | EeIo string
  | EeOther string

fun doc_error_text :: "doc_error \<Rightarrow> string" where
  "doc_error_text (DeLoro e) = ''loro: '' @ e"
| "doc_error_text (DeSchema e) = ''schema: '' @ e"
| "doc_error_text (DeJson e) = ''json: '' @ e"

fun store_error_text :: "store_error \<Rightarrow> string" where
  "store_error_text (Sqlite e) = ''sqlite: '' @ e"
| "store_error_text (Io e) = ''io: '' @ e"

fun engine_error_text :: "engine_error \<Rightarrow> string" where
  "engine_error_text (EeDoc e) = ''doc: '' @ doc_error_text e"
| "engine_error_text (EeJournal e) = ''journal: '' @ e"
| "engine_error_text (EeStore e) = ''store: '' @ store_error_text e"
| "engine_error_text (EeHarness e) = ''harness: '' @ e"
| "engine_error_text (EeIo e) = ''io: '' @ e"
| "engine_error_text (EeOther e) = e"

definition workspace_doc_id :: string where "workspace_doc_id = ''workspace2''"
definition legacy_workspace_doc_id :: string where "legacy_workspace_doc_id = ''workspace''"
definition registry_doc_id :: string where "registry_doc_id = ''registry1''"
definition presence_fresh_ms :: int where "presence_fresh_ms = 45000"
definition presence_deaf_redial_ms :: int where "presence_deaf_redial_ms = 60000"
definition legacy_unknown_device_name :: string where
  "legacy_unknown_device_name = ''unknown-device''"

definition call_room :: "room_call \<Rightarrow> workspace_host \<Rightarrow> workspace_host" where
  "call_room c h = h\<lparr>wh_room := map_option (\<lambda>cs. cs @ [c]) (wh_room h)\<rparr>"

definition bump_changed :: "workspace_host \<Rightarrow> workspace_host" where
  "bump_changed h = h\<lparr>wh_changed := wh_changed h + 1\<rparr>"

text \<open>Run a mutation under the lock, wake the publish task, push to the room.\<close>

definition mutate :: "(registry_doc \<Rightarrow> registry_doc \<times> 'a) \<Rightarrow> workspace_host \<Rightarrow> workspace_host \<times> 'a" where
  "mutate f h =
     (let (reg, result) = f (wh_reg h)
      in (call_room RcNudge (bump_changed (h\<lparr>wh_reg := reg\<rparr>)), result))"

abbreviation mutate_unit :: "(registry_doc \<Rightarrow> registry_doc) \<Rightarrow> workspace_host \<Rightarrow> workspace_host" where
  "mutate_unit f h \<equiv> fst (mutate (\<lambda>d. (f d, ())) h)"

subsection \<open>Opening\<close>

definition device_name_on_boot :: "string option \<Rightarrow> string \<Rightarrow> string" where
  "device_name_on_boot existing_name detected_name =
     (case existing_name of
        None \<Rightarrow> detected_name
      | Some name \<Rightarrow>
          if str_trim name \<noteq> [] \<and> str_trim name \<noteq> legacy_unknown_device_name then name
          else detected_name)"

text \<open>The boot upsert of this device's row.\<close>

definition boot_device :: "workspace_host_config \<Rightarrow> string \<Rightarrow> datetime \<Rightarrow> registry_doc \<Rightarrow> device" where
  "boot_device cfg version now d =
     (let existing = find (\<lambda>v. dv_id v = wc_device_id cfg) (read_devices d)
      in \<lparr>dv_id = wc_device_id cfg,
          dv_name = device_name_on_boot (map_option dv_name existing) (wc_device_name cfg),
          dv_platform = wc_platform cfg, dv_last_seen_at = Some now,
          dv_created_at =
            (case (case existing of None \<Rightarrow> None | Some v \<Rightarrow> dv_created_at v) of
               Some t \<Rightarrow> Some t | None \<Rightarrow> Some now),
          dv_version = Some version\<rparr>)"

text \<open>Load the registry, or seed it from the legacy document. \<open>legacy\<close> stands for the import of a
  Loro snapshot and its typed read.\<close>

definition open_registry :: "(bytes \<Rightarrow> doc_error + persisted_state) \<Rightarrow>
    (bytes \<Rightarrow> workspace_state option) \<Rightarrow> (nat \<Rightarrow> int) \<Rightarrow> sql_fault \<Rightarrow> sql_fault \<Rightarrow> docs_store \<Rightarrow>
    workspace_host_config \<Rightarrow> engine_error + registry_doc" where
  "open_registry from_slice legacy wall flt1 flt2 store cfg =
     (case load_snapshot flt1 store registry_doc_id of
        Inl e \<Rightarrow> Inl (EeStore e)
      | Inr (Some bs) \<Rightarrow>
          (case from_bytes from_slice wall bs (wc_device_id cfg) of
             Inl e \<Rightarrow> Inl (EeOther (''registry snapshot load failed: '' @ doc_error_text e))
           | Inr d \<Rightarrow> Inr d)
      | Inr None \<Rightarrow>
          (let d = registry_new (wc_device_id cfg) wall
           in case load_snapshot flt2 store workspace_doc_id of
                Inr (Some bs) \<Rightarrow>
                  (case legacy bs of
                     None \<Rightarrow> Inr d
                   | Some st \<Rightarrow> Inr (fst (seed_from_workspace st d)))
              | _ \<Rightarrow> Inr d))"

definition ws_save_snapshot :: "(persisted_state \<Rightarrow> doc_error + bytes) \<Rightarrow> sql_fault \<Rightarrow> int \<Rightarrow>
    registry_doc \<Rightarrow> docs_store \<Rightarrow> docs_store" where
  "ws_save_snapshot to_vec flt now d store =
     (case to_bytes to_vec d of
        Inl _ \<Rightarrow> store
      | Inr bs \<Rightarrow> snd (save_snapshot flt registry_doc_id bs now store))"

definition host_open :: "(bytes \<Rightarrow> doc_error + persisted_state) \<Rightarrow>
    (persisted_state \<Rightarrow> doc_error + bytes) \<Rightarrow> (bytes \<Rightarrow> workspace_state option) \<Rightarrow> (nat \<Rightarrow> int) \<Rightarrow>
    (nat \<Rightarrow> sql_fault) \<Rightarrow> string \<Rightarrow> datetime \<Rightarrow> docs_store \<Rightarrow> workspace_host_config \<Rightarrow>
    (engine_error + workspace_host) \<times> docs_store" where
  "host_open from_slice to_vec legacy wall flts version now store cfg =
     (case open_registry from_slice legacy wall (flts 0) (flts 1) store cfg of
        Inl e \<Rightarrow> (Inl e, store)
      | Inr d \<Rightarrow>
          (let store = snd (delete_snapshot (flts 2) legacy_workspace_doc_id store);
               d = upsert_device (boot_device cfg version now d) d;
               store = ws_save_snapshot to_vec (flts 3) (timestamp_millis now) d store
           in (Inr \<lparr>wh_config = cfg, wh_reg = d, wh_room = None, wh_changed = 0,
                   wh_presence_seen = [], wh_presence_watch = presence_watch_default\<rparr>, store)))"

subsection \<open>Chat ownership\<close>

definition is_host :: "workspace_host \<Rightarrow> string \<Rightarrow> bool" where
  "is_host h chat_id =
     (case reg_chat (wh_reg h) chat_id of
        Some c \<Rightarrow> ch_device_id c = wc_device_id (wh_config h)
      | None \<Rightarrow> True)"

definition space_for_path :: "(string \<Rightarrow> string option) \<Rightarrow> string \<Rightarrow> datetime \<Rightarrow> string \<Rightarrow>
    workspace_host \<Rightarrow> workspace_host \<times> string" where
  "space_for_path worktree_root new_id now path h =
     (let device_id = wc_device_id (wh_config h);
          spaces = read_spaces (wh_reg h);
          own = (\<lambda>p. find (\<lambda>s. sp_device_id s = device_id \<and> sp_path s = p) spaces)
      in case own path of
           Some s \<Rightarrow> (h, sp_id s)
         | None \<Rightarrow>
             (case (case worktree_root path of None \<Rightarrow> None | Some r \<Rightarrow> own r) of
                Some s \<Rightarrow> (h, sp_id s)
              | None \<Rightarrow>
                  (mutate_unit (upsert_space
                     \<lparr>sp_id = new_id, sp_device_id = device_id,
                      sp_path = (case worktree_root path of Some r \<Rightarrow> r | None \<Rightarrow> path),
                      sp_name = None, sp_git_detected = False, sp_git_checked_at = None,
                      sp_checkout_id = None, sp_created_at = now\<rparr>) h, new_id)))"

definition ws_claim_chat :: "(string \<Rightarrow> string option) \<Rightarrow> string \<Rightarrow> datetime \<Rightarrow> string \<Rightarrow>
    string option \<Rightarrow> workspace_host \<Rightarrow> workspace_host" where
  "ws_claim_chat worktree_root new_id now chat_id cwd h =
     (if reg_chat (wh_reg h) chat_id \<noteq> None then h
      else (let (h, space_id) =
                  (case cwd of
                     Some c \<Rightarrow> (let (h, i) = space_for_path worktree_root new_id now c h in (h, Some i))
                   | None \<Rightarrow> (h, None))
            in mutate_unit (claim_chat chat_id cwd space_id now) h))"

definition ws_chat_config :: "workspace_host \<Rightarrow> string \<Rightarrow> chat_config option" where
  "ws_chat_config h chat_id =
     (case reg_chat (wh_reg h) chat_id of None \<Rightarrow> None | Some c \<Rightarrow> ch_config c)"

subsection \<open>Row writes\<close>

definition note_message :: "datetime \<Rightarrow> string \<Rightarrow> string \<Rightarrow> workspace_host \<Rightarrow> workspace_host" where
  "note_message now chat_id message h =
     fst (mutate (set_chat_last_message chat_id (take_chars 120 message) now)
            (ws_claim_chat (\<lambda>_. None) [] now chat_id None h))"

definition chat_harness_session :: "workspace_host \<Rightarrow> string \<Rightarrow> (string \<times> string option) option" where
  "chat_harness_session h chat_id =
     (case reg_chat (wh_reg h) chat_id of
        None \<Rightarrow> None
      | Some c \<Rightarrow> map_option (\<lambda>i. (i, ch_harness_session_cwd c)) (ch_harness_session_id c))"

definition record_session :: "session \<Rightarrow> workspace_host \<Rightarrow> workspace_host" where
  "record_session s h = mutate_unit (upsert_session s) h"

definition create_chat :: "datetime \<Rightarrow> string \<Rightarrow> string option \<Rightarrow> string option \<Rightarrow>
    chat_config option \<Rightarrow> string option \<Rightarrow> workspace_host \<Rightarrow> (engine_error + workspace_host)" where
  "create_chat now chat_id space_id device_id config cwd h =
     (if reg_chat (wh_reg h) chat_id \<noteq> None then Inr h
      else
        (case (case space_id of
                 None \<Rightarrow> Inr None
               | Some i \<Rightarrow>
                   (case reg_space (wh_reg h) i of
                      Some s \<Rightarrow> Inr (Some s)
                    | None \<Rightarrow> Inl (EeOther (''no such space: '' @ i)))) of
           Inl e \<Rightarrow> Inl e
         | Inr space \<Rightarrow>
             (case (case (space, device_id) of
                      (Some s, _) \<Rightarrow> Inr (sp_device_id s)
                    | (None, Some i) \<Rightarrow> Inr i
                    | (None, None) \<Rightarrow>
                        Inl (EeOther ''createChat needs a spaceId or a deviceId'')) of
                Inl e \<Rightarrow> Inl e
              | Inr host_device \<Rightarrow>
                  Inr (mutate_unit (upsert_chat
                    \<lparr>ch_id = chat_id, ch_device_id = host_device, ch_title = None,
                     ch_archived = False,
                     ch_cwd = Some (case cwd of Some c \<Rightarrow> c | None \<Rightarrow>
                       (case space of Some s \<Rightarrow> sp_path s | None \<Rightarrow> ''~'')),
                     ch_branch = None, ch_checkout_id = None, ch_config = config,
                     ch_last_message_preview = None, ch_last_message_at = None,
                     ch_created_at = now, ch_harness_session_id = None,
                     ch_harness_session_cwd = None, ch_space_id = map_option sp_id space,
                     ch_last_seen_at = None, ch_room_gen = Some 2\<rparr>) h))))"

definition create_space :: "datetime \<Rightarrow> string \<Rightarrow> string \<Rightarrow> string \<Rightarrow> string option \<Rightarrow> bool \<Rightarrow>
    workspace_host \<Rightarrow> workspace_host" where
  "create_space now space_id device_id path name git_detected h =
     (if list_ex (\<lambda>s. sp_id s = space_id \<or> (sp_device_id s = device_id \<and> sp_path s = path))
           (read_spaces (wh_reg h)) then h
      else mutate_unit (upsert_space
        \<lparr>sp_id = space_id, sp_device_id = device_id, sp_path = path, sp_name = name,
         sp_git_detected = git_detected, sp_git_checked_at = None, sp_checkout_id = None,
         sp_created_at = now\<rparr>) h)"

definition ws_rename_space :: "string \<Rightarrow> string option \<Rightarrow> workspace_host \<Rightarrow> workspace_host \<times> bool" where
  "ws_rename_space space_id name = mutate (rename_space space_id name)"

definition ws_delete_space :: "string \<Rightarrow> workspace_host \<Rightarrow> workspace_host \<times> deleted_space" where
  "ws_delete_space space_id = mutate (delete_space space_id)"

definition mark_chat_seen :: "string \<Rightarrow> datetime \<Rightarrow> workspace_host \<Rightarrow> workspace_host \<times> bool" where
  "mark_chat_seen chat_id at = mutate (set_chat_seen chat_id at)"

definition ws_set_space_git :: "datetime \<Rightarrow> string \<Rightarrow> bool \<Rightarrow> string option \<Rightarrow> workspace_host \<Rightarrow>
    workspace_host \<times> bool" where
  "ws_set_space_git now space_id detected checkout_id h =
     (case reg_space (wh_reg h) space_id of
        Some s \<Rightarrow>
          if sp_device_id s = wc_device_id (wh_config h)
          then mutate (set_space_git space_id detected checkout_id now) h
          else (h, False)
      | None \<Rightarrow> (h, False))"

definition from_timestamp_millis :: "int \<Rightarrow> datetime option" where
  "from_timestamp_millis ms =
     (if -8334601228800000 \<le> ms \<and> ms \<le> 8210266876799999 then Some (ms * 1000000) else None)"

definition set_chat_activity :: "string \<Rightarrow> int option \<Rightarrow> int option \<Rightarrow> workspace_host \<Rightarrow>
    workspace_host \<times> bool" where
  "set_chat_activity chat_id last_message_at created_at h =
     (case reg_chat (wh_reg h) chat_id of
        None \<Rightarrow> (h, False)
      | Some c \<Rightarrow>
          (let c = (case last_message_at of
                      Some ms \<Rightarrow> c\<lparr>ch_last_message_at := from_timestamp_millis ms\<rparr> | None \<Rightarrow> c);
               c = (case created_at of
                      Some ms \<Rightarrow>
                        (case from_timestamp_millis ms of
                           Some at \<Rightarrow> c\<lparr>ch_created_at := at\<rparr> | None \<Rightarrow> c)
                    | None \<Rightarrow> c)
           in (mutate_unit (upsert_chat c) h, True)))"

definition set_chat_host :: "string \<Rightarrow> string \<Rightarrow> workspace_host \<Rightarrow> workspace_host \<times> bool" where
  "set_chat_host chat_id device_id h =
     (case reg_chat (wh_reg h) chat_id of
        None \<Rightarrow> (h, False)
      | Some c \<Rightarrow> (mutate_unit (upsert_chat (c\<lparr>ch_device_id := device_id\<rparr>)) h, True))"

definition ws_set_chat_harness_session :: "string \<Rightarrow> string \<Rightarrow> string \<Rightarrow> workspace_host \<Rightarrow>
    workspace_host" where
  "ws_set_chat_harness_session chat_id session_id cwd h =
     fst (mutate (set_chat_harness_session chat_id session_id cwd) h)"

definition ws_rename_chat :: "string \<Rightarrow> string \<Rightarrow> workspace_host \<Rightarrow> workspace_host \<times> bool" where
  "ws_rename_chat chat_id title = mutate (rename_chat chat_id title)"

definition import_chat_row :: "chat \<Rightarrow> workspace_host \<Rightarrow> workspace_host" where
  "import_chat_row c h = mutate_unit (upsert_chat c) h"

definition import_space_row :: "space \<Rightarrow> workspace_host \<Rightarrow> workspace_host" where
  "import_space_row s h = mutate_unit (upsert_space s) h"

definition ws_set_chat_room_gen :: "string \<Rightarrow> nat \<Rightarrow> workspace_host \<Rightarrow> workspace_host \<times> bool" where
  "ws_set_chat_room_gen chat_id room_gen = mutate (set_chat_room_gen chat_id room_gen)"

definition ws_set_chat_archived :: "string \<Rightarrow> bool \<Rightarrow> workspace_host \<Rightarrow> workspace_host \<times> bool" where
  "ws_set_chat_archived chat_id archived = mutate (set_chat_archived chat_id archived)"

definition ws_rename_device :: "string \<Rightarrow> string \<Rightarrow> workspace_host \<Rightarrow> workspace_host \<times> bool" where
  "ws_rename_device device_id name = mutate (rename_device device_id name)"

definition ws_set_chat_branch :: "string \<Rightarrow> string \<Rightarrow> workspace_host \<Rightarrow> workspace_host \<times> bool" where
  "ws_set_chat_branch chat_id branch = mutate (set_chat_branch chat_id branch)"

definition ws_set_chat_cwd :: "string \<Rightarrow> string \<Rightarrow> workspace_host \<Rightarrow> workspace_host \<times> bool" where
  "ws_set_chat_cwd chat_id cwd = mutate (set_chat_cwd chat_id cwd)"

definition ws_set_chat_checkout :: "string \<Rightarrow> string \<Rightarrow> workspace_host \<Rightarrow> workspace_host \<times> bool" where
  "ws_set_chat_checkout chat_id checkout_id = mutate (set_chat_checkout chat_id checkout_id)"

definition ws_set_chat_config :: "string \<Rightarrow> chat_config \<Rightarrow> workspace_host \<Rightarrow>
    workspace_host \<times> bool" where
  "ws_set_chat_config chat_id config = mutate (set_chat_config chat_id config)"

definition ws_delete_chat :: "string \<Rightarrow> workspace_host \<Rightarrow> workspace_host \<times> bool" where
  "ws_delete_chat chat_id = mutate (delete_chat chat_id)"

definition ws_merge_device :: "string \<Rightarrow> string \<Rightarrow> workspace_host \<Rightarrow> workspace_host \<times> bool" where
  "ws_merge_device source target = mutate (merge_device source target)"

definition ws_shutdown :: "(persisted_state \<Rightarrow> doc_error + bytes) \<Rightarrow> sql_fault \<Rightarrow> datetime \<Rightarrow>
    workspace_host \<Rightarrow> docs_store \<Rightarrow> workspace_host \<times> docs_store" where
  "ws_shutdown to_vec flt now h store =
     (let h = fst (mutate (set_device_last_seen (wc_device_id (wh_config h)) now) h)
      in (h, ws_save_snapshot to_vec flt (timestamp_millis now) (wh_reg h) store))"

subsection \<open>Presence\<close>

text \<open>One turn of the deaf-socket tripwire: the new state and the call it makes, if any.\<close>

definition presence_deafness :: "nat \<Rightarrow> int \<Rightarrow> presence_watch \<Rightarrow> presence_watch \<times> room_call option" where
  "presence_deafness live_fresh_peers now w =
     (if live_fresh_peers > 0
      then (\<lparr>pw_armed = True, pw_dark_since_ms = 0, pw_probed = False\<rparr>, None)
      else if \<not> pw_armed w then (w, None)
      else
        (let w = (if pw_dark_since_ms w = 0 then w\<lparr>pw_dark_since_ms := now\<rparr> else w)
         in if \<not> pw_probed w then (w\<lparr>pw_probed := True\<rparr>, Some RcProbe)
            else if i64_sat_sub now (pw_dark_since_ms w) > presence_deaf_redial_ms
              then (\<lparr>pw_armed = False, pw_dark_since_ms = 0, pw_probed = False\<rparr>, Some RcRedial)
            else (w, None)))"

definition check_presence_deafness :: "nat \<Rightarrow> int \<Rightarrow> workspace_host \<Rightarrow> workspace_host" where
  "check_presence_deafness live_fresh_peers now h =
     (let (w, call) = presence_deafness live_fresh_peers now (wh_presence_watch h);
          h = h\<lparr>wh_presence_watch := w\<rparr>
      in case call of None \<Rightarrow> h | Some c \<Rightarrow> call_room c h)"

text \<open>One device row: the row as published, the cache, and whether the peer is alive.\<close>

definition max_opt :: "int option \<Rightarrow> int option \<Rightarrow> int option" where
  "max_opt a b =
     (case (a, b) of (None, _) \<Rightarrow> b | (_, None) \<Rightarrow> a | (Some x, Some y) \<Rightarrow> Some (max x y))"

definition fresh_at :: "int \<Rightarrow> int option \<Rightarrow> bool" where
  "fresh_at now ms = (case ms of None \<Rightarrow> False | Some t \<Rightarrow> i64_sat_sub now t < presence_fresh_ms)"

definition overlay_device :: "string \<Rightarrow> (string \<Rightarrow> int option) \<Rightarrow> int \<Rightarrow> (string, int) hashmap \<Rightarrow>
    device \<Rightarrow> device \<times> (string, int) hashmap \<times> bool" where
  "overlay_device self live now seen v =
     (case max_opt (live (dv_id v)) (map_of seen (dv_id v)) of
        None \<Rightarrow> (v, seen, False)
      | Some ms \<Rightarrow>
          ((case from_timestamp_millis ms of
              None \<Rightarrow> v
            | Some at \<Rightarrow>
                if (case dv_last_seen_at v of None \<Rightarrow> True | Some prev \<Rightarrow> prev < at)
                then v\<lparr>dv_last_seen_at := Some at\<rparr> else v),
           AList.update (dv_id v) ms seen,
           dv_id v \<noteq> self \<and> fresh_at now (Some ms)))"

fun overlay_devices :: "string \<Rightarrow> (string \<Rightarrow> int option) \<Rightarrow> int \<Rightarrow> (string, int) hashmap \<Rightarrow>
    device list \<Rightarrow> device list \<times> (string, int) hashmap \<times> string list" where
  "overlay_devices self live now seen [] = ([], seen, [])"
| "overlay_devices self live now seen (v # vs) =
     (let (v', seen, alive) = overlay_device self live now seen v;
          (vs', seen, peers) = overlay_devices self live now seen vs
      in (v' # vs', seen, if alive then dv_id v # peers else peers))"

definition live_fresh_peers :: "string \<Rightarrow> (string \<Rightarrow> int option) \<Rightarrow> int \<Rightarrow> device list \<Rightarrow> nat" where
  "live_fresh_peers self live now devices =
     length (filter (\<lambda>v. dv_id v \<noteq> self \<and> fresh_at now (live (dv_id v))) devices)"

text \<open>\<open>presence\<close> is the room's presence map; without a room it is empty and the tripwire rests. The
  last component is the list of peers the alive hook is called with.\<close>

definition overlay_presence :: "(string \<Rightarrow> int option) \<Rightarrow> int \<Rightarrow> device list \<Rightarrow> workspace_host \<Rightarrow>
    device list \<times> workspace_host \<times> string list" where
  "overlay_presence presence now devices h =
     (let self = wc_device_id (wh_config h);
          live = (case wh_room h of None \<Rightarrow> (\<lambda>_. None) | Some _ \<Rightarrow> presence);
          (devices', seen, alive_peers) = overlay_devices self live now (wh_presence_seen h) devices;
          h = h\<lparr>wh_presence_seen := seen\<rparr>;
          h = (case wh_room h of
                 None \<Rightarrow> h
               | Some _ \<Rightarrow> check_presence_deafness (live_fresh_peers self live now devices) now h)
      in (devices', h, alive_peers))"

definition merge_sessions :: "string \<Rightarrow> session list \<Rightarrow> session list \<Rightarrow> session list" where
  "merge_sessions device_id rows locals =
     sort_key se_chat_id (map snd
       (fold (\<lambda>s m. AList.update (se_chat_id s) s m) locals
         (fold (\<lambda>s m. AList.update (se_chat_id s) s m)
            (filter (\<lambda>s. se_device_id s \<noteq> device_id) rows) [])))"

subsection \<open>Mutations\<close>

lemma mutate_simps [simp]:
  "wh_reg (fst (mutate f h)) = fst (f (wh_reg h))"
  "snd (mutate f h) = snd (f (wh_reg h))"
  "wh_config (fst (mutate f h)) = wh_config h"
  "wh_presence_seen (fst (mutate f h)) = wh_presence_seen h"
  "wh_presence_watch (fst (mutate f h)) = wh_presence_watch h"
  by (simp_all add: mutate_def split_beta Let_def call_room_def bump_changed_def)

lemma space_for_path_config [simp]:
  "wh_config (fst (space_for_path root new_id now p h)) = wh_config h"
  by (simp add: space_for_path_def Let_def split: option.split)

text \<open>Resolving a space writes at most a row of the spaces table.\<close>

lemma space_for_path_chats:
  "raw_row (wh_reg (fst (space_for_path root new_id now p h))) kind_chats i =
     raw_row (wh_reg h) kind_chats i"
  by (simp add: space_for_path_def Let_def upsert_space_def raw_row_write kind_chats_def
      kind_spaces_def split: option.split)

lemma find_space:
  "find P xs = Some x \<Longrightarrow> P x \<and> x \<in> set xs"
  by (meson find_SomeD)

subsection \<open>Claiming a chat\<close>

definition claim_kvs :: "string \<Rightarrow> string \<Rightarrow> datetime \<Rightarrow> string option \<Rightarrow> string option \<Rightarrow>
    (string \<times> json) list" where
  "claim_kvs device_id chat_id now cwd space_id =
     [(''id'', JStr chat_id), (''deviceId'', JStr device_id),
      (''createdAt'', JInt (timestamp_millis now))] @
     (case cwd of Some c \<Rightarrow> [(''cwd'', JStr c)] | None \<Rightarrow> []) @
     (case space_id of Some i \<Rightarrow> [(''spaceId'', JStr i)] | None \<Rightarrow> [])"

lemma claim_chat_write:
  "claim_chat chat_id cwd space_id now d =
     write_row kind_chats chat_id OpUpsert
       (row_fields (claim_kvs (rd_device_id d) chat_id now cwd space_id)) d"
proof -
  have "row_fields (xs @ [(k, v)]) = bt_insert k v (row_fields xs)" for xs k v
    by (simp add: row_fields_def bt_of_list_def)
  from this [of "[(''id'', JStr chat_id), (''deviceId'', JStr (rd_device_id d)),
      (''createdAt'', JInt (timestamp_millis now))]"]
    this [of "[(''id'', JStr chat_id), (''deviceId'', JStr (rd_device_id d)),
      (''createdAt'', JInt (timestamp_millis now)), (''cwd'', JStr (the cwd))]"]
  show ?thesis
    by (cases cwd; cases space_id) (simp_all add: claim_chat_def claim_kvs_def)
qed

lemma claimed_chat_read:
  assumes "raw_row d kind_chats i = None" "in_range now"
  shows "\<exists>c. reg_chat (claim_chat i cwd space_id now d) i = Some c \<and> ch_id c = i \<and>
    ch_device_id c = rd_device_id d \<and> ch_cwd c = cwd \<and> ch_space_id c = space_id \<and>
    ch_title c = None \<and> ch_config c = None \<and> ch_created_at c = to_millis now"
proof -
  let ?kvs = "claim_kvs (rd_device_id d) i now cwd space_id"
  have dist: "distinct (map fst ?kvs)"
    by (simp add: claim_kvs_def split: option.split)
  obtain r where r: "overlay_row (claim_chat i cwd space_id now d) kind_chats i = Some r"
    "\<And>k. map_of (rw_fields r) k = (case map_of ?kvs k of None \<Rightarrow> None | Some v \<Rightarrow> field_is v)"
    using upsert_new_row [OF assms(1), of "row_fields ?kvs"]
    unfolding claim_chat_write row_fields_map [OF dist] by metis
  have f: "map_of (rw_fields r) k = map_of ?kvs k" for k
    unfolding r(2) claim_kvs_def field_is_def by (simp split: option.split)
  have "i64_ok (timestamp_millis now)" by (rule in_range_i64 [OF assms(2)])
  then have "\<exists>x. raw_chat_of (rw_fields r) = Some x \<and> rc_id x = i \<and>
      rc_device_id x = rd_device_id d \<and> rc_cwd x = cwd \<and> rc_space_id x = space_id \<and>
      rc_title x = None \<and> rc_config x = None \<and> rc_created_at x = timestamp_millis now"
    unfolding raw_chat_of_def req_field_def opt_field_def default_field_def f claim_kvs_def
    by (cases cwd; cases space_id) (simp_all add: as_str_def as_i64_def)
  then show ?thesis
    using dt_in_range [OF assms(2)]
    by (auto simp: reg_chat_def r(1) row_to_def chat_of_raw_def)
qed

text \<open>
A run command for a chat nobody has recorded makes this device its host: the claim reads back as
  a row of ours with the command's working directory, in a space when there is a directory, and
  with neither title nor configuration, so that a late \<^verbatim>\<open>createChat\<close> can still write them; a chat
  that exists is left exactly as it is.
\<close>

theorem claim_takes_host:
  assumes "raw_row (wh_reg h) kind_chats i = None" "in_range now"
    "rd_device_id (wh_reg h) = wc_device_id (wh_config h)"
  shows "let h' = ws_claim_chat root new_id now i cwd h in
    is_host h' i \<and>
    (\<exists>c. reg_chat (wh_reg h') i = Some c \<and> ch_device_id c = wc_device_id (wh_config h) \<and>
       ch_cwd c = cwd \<and> (ch_space_id c = None \<longleftrightarrow> cwd = None) \<and> ch_title c = None \<and>
       ch_config c = None) \<and>
    ws_claim_chat root new_id' now' i cwd' h' = h'"
proof -
  define h' where "h' = ws_claim_chat root new_id now i cwd h"
  have dev: "rd_device_id (wh_reg (fst (space_for_path root new_id now p h))) = rd_device_id (wh_reg h)"
    for p
    by (simp add: space_for_path_def Let_def upsert_space_def write_row_device split: option.split)
  obtain g sid where g: "(case cwd of Some c \<Rightarrow> (let (h, i) = space_for_path root new_id now c h
                          in (h, Some i)) | None \<Rightarrow> (h, None)) = (g, sid)" by force
  have g': "raw_row (wh_reg g) kind_chats i = None" "wh_config g = wh_config h"
    "rd_device_id (wh_reg g) = rd_device_id (wh_reg h)" "sid = None \<longleftrightarrow> cwd = None"
    using g assms(1) space_for_path_chats space_for_path_config dev
    by (auto simp: split_beta split: option.splits)
  have "reg_chat (wh_reg h) i = None"
    using assms(1) by (simp add: reg_chat_def overlay_row_raw)
  then have h': "h' = mutate_unit (claim_chat i cwd sid now) g"
    by (simp add: h'_def ws_claim_chat_def g)
  from claimed_chat_read [OF g'(1) assms(2), of cwd sid] obtain c where
    c: "reg_chat (wh_reg h') i = Some c" "ch_device_id c = rd_device_id (wh_reg g)" "ch_cwd c = cwd"
      "ch_space_id c = sid" "ch_title c = None" "ch_config c = None"
    by (auto simp: h')
  have "wh_config h' = wh_config h" by (simp add: h' g')
  with c g' assms(3) show ?thesis
    unfolding h'_def [symmetric] Let_def by (auto simp: is_host_def ws_claim_chat_def)
qed

definition demo_host :: workspace_host where
  "demo_host =
     \<lparr>wh_config = \<lparr>wc_device_id = ''dev'', wc_device_name = ''Mac'', wc_platform = ''macos''\<rparr>,
      wh_reg = registry_new ''dev'' (\<lambda>n. 7 + int n), wh_room = None, wh_changed = 0,
      wh_presence_seen = [], wh_presence_watch = presence_watch_default\<rparr>"

lemma demo_host_rows [simp]:
  "raw_row (wh_reg demo_host) k i = None" "overlay_row (wh_reg demo_host) k i = None"
  "rd_device_id (wh_reg demo_host) = wc_device_id (wh_config demo_host)"
  by (simp_all add: demo_host_def registry_new_def raw_row_def overlay_row_def table_get_def)

lemma claim_takes_host_witness:
  "is_host (ws_claim_chat (\<lambda>_. None) ''s1'' 5 ''c1'' (Some ''/p'') demo_host) ''c1'' \<and>
   (\<exists>c. reg_chat (wh_reg (ws_claim_chat (\<lambda>_. None) ''s1'' 5 ''c1'' (Some ''/p'') demo_host)) ''c1'' =
      Some c \<and> ch_cwd c = Some ''/p'' \<and> ch_space_id c \<noteq> None)"
  using claim_takes_host [of demo_host "''c1''" 5 "\<lambda>_. None" "''s1''" "Some ''/p''"]
  by (simp add: Let_def in_range_def timestamp_millis_def) blast

subsection \<open>Creating a chat\<close>

text \<open>
A chat created in a project lands on the project's device, whoever creates it: the typed read
  shows it there with the project's path as working directory unless one was given and with room
  generation 2, only that device hosts it, and a retry of the call changes nothing. Without a known
  project or a device the call fails and nothing is written.
\<close>

theorem create_chat_hosted:
  assumes "reg_chat (wh_reg h) i = None" "reg_space (wh_reg h) sid = Some s"
    "ahead (snd (next_hlc (wh_reg h))) (raw_row (wh_reg h) kind_chats i)" "in_range now"
  shows "\<exists>h'. create_chat now i (Some sid) device_id config cwd h = Inr h' \<and>
    (\<exists>c. reg_chat (wh_reg h') i = Some c \<and> ch_device_id c = sp_device_id s \<and>
       ch_space_id c = Some (sp_id s) \<and> ch_config c = config \<and> on_chat2 c \<and>
       ch_cwd c = Some (case cwd of Some p \<Rightarrow> p | None \<Rightarrow> sp_path s)) \<and>
    (is_host h' i \<longleftrightarrow> sp_device_id s = wc_device_id (wh_config h)) \<and>
    create_chat now' i space' device' config' cwd' h' = Inr h' \<and>
    (reg_space (wh_reg h) other = None \<longrightarrow>
       create_chat now i (Some other) device_id config cwd h =
         Inl (EeOther (''no such space: '' @ other))) \<and>
    create_chat now i None None config cwd h =
      Inl (EeOther ''createChat needs a spaceId or a deviceId'')"
proof -
  let ?c = "\<lparr>ch_id = i, ch_device_id = sp_device_id s, ch_title = None, ch_archived = False,
     ch_cwd = Some (case cwd of Some p \<Rightarrow> p | None \<Rightarrow> sp_path s), ch_branch = None,
     ch_checkout_id = None, ch_config = config, ch_last_message_preview = None,
     ch_last_message_at = None, ch_created_at = now, ch_harness_session_id = None,
     ch_harness_session_cwd = None, ch_space_id = Some (sp_id s), ch_last_seen_at = None,
     ch_room_gen = Some 2\<rparr>"
  let ?h = "mutate_unit (upsert_chat ?c) h"
  have "reg_chat (wh_reg ?h) i = Some (chat_to_millis ?c)"
    using upsert_chat_reads [of "wh_reg h" ?c] assms(3,4) by (simp add: chat_ok_def)
  moreover have "create_chat now i (Some sid) device_id config cwd h = Inr ?h"
    using assms(1,2) by (cases cwd) (simp_all add: create_chat_def)
  moreover have "create_chat now i (Some other) device_id config cwd h =
      Inl (EeOther (''no such space: '' @ other))" if "reg_space (wh_reg h) other = None"
    using assms(1) that by (simp add: create_chat_def)
  moreover have "create_chat now i None None config cwd h =
      Inl (EeOther ''createChat needs a spaceId or a deviceId'')"
    using assms(1) by (simp add: create_chat_def)
  ultimately show ?thesis
    by (intro exI [of _ ?h])
      (simp add: is_host_def chat_to_millis_def on_chat2_def create_chat_def [of now'])
qed

lemma create_chat_hosted_witness:
  defines "d \<equiv> upsert_space
     \<lparr>sp_id = ''s1'', sp_device_id = ''other'', sp_path = ''/p'', sp_name = None,
      sp_git_detected = False, sp_git_checked_at = None, sp_checkout_id = None, sp_created_at = 5\<rparr>
     (wh_reg demo_host)"
  shows "\<exists>h'. create_chat 5 ''c1'' (Some ''s1'') None None None (demo_host\<lparr>wh_reg := d\<rparr>) = Inr h' \<and>
    \<not> is_host h' ''c1''"
proof -
  let ?h = "demo_host\<lparr>wh_reg := d\<rparr>"
  have raw: "raw_row (wh_reg ?h) kind_chats ''c1'' = None"
    by (simp add: d_def upsert_space_def raw_row_write kind_chats_def kind_spaces_def)
  have "map_option sp_device_id (reg_space (wh_reg ?h) ''s1'') = Some ''other''"
    unfolding d_def by code_simp
  then obtain s where s: "reg_space (wh_reg ?h) ''s1'' = Some s" "sp_device_id s = ''other''" by auto
  have "reg_chat (wh_reg ?h) ''c1'' = None"
    using raw by (simp add: reg_chat_def overlay_row_raw)
  moreover have "ahead (snd (next_hlc (wh_reg ?h))) (raw_row (wh_reg ?h) kind_chats ''c1'')"
    unfolding raw by (simp add: ahead_def)
  moreover have "in_range 5" by (simp add: in_range_def timestamp_millis_def)
  moreover have "sp_device_id s \<noteq> wc_device_id (wh_config ?h)" by (simp add: s(2) demo_host_def)
  ultimately show ?thesis
    using create_chat_hosted [of ?h "''c1''" "''s1''" s 5 None None None] s(1) by blast
qed

subsection \<open>The tripwire\<close>

text \<open>A run of observations: the number of live fresh peers and the time of each.\<close>

fun tripwire_run :: "(nat \<times> int) list \<Rightarrow> presence_watch \<Rightarrow> presence_watch \<times> room_call list" where
  "tripwire_run [] w = (w, [])"
| "tripwire_run ((n, now) # obs) w =
     (let (w, call) = presence_deafness n now w; (w, calls) = tripwire_run obs w
      in (w, (case call of None \<Rightarrow> [] | Some c \<Rightarrow> [c]) @ calls))"

lemma tripwire_disarmed:
  "\<not> pw_armed w \<Longrightarrow> tripwire_run (map (Pair 0) ts) w = (w, [])"
  by (induction ts) (simp_all add: presence_deafness_def)

lemma tripwire_probed:
  "dark \<noteq> 0 \<Longrightarrow>
     snd (tripwire_run (map (Pair 0) ts) \<lparr>pw_armed = True, pw_dark_since_ms = dark, pw_probed = True\<rparr>) =
       (if list_ex (\<lambda>t. presence_deaf_redial_ms < i64_sat_sub t dark) ts then [RcRedial] else [])"
  by (induction ts) (simp_all add: presence_deafness_def tripwire_disarmed split_beta)

text \<open>
After a live peer was seen, a fleet that goes dark costs one probe, at the first dark
  observation, and one redial, at the first later observation more than 60 seconds on, however
  often the tripwire looks again.
\<close>

theorem tripwire_one_probe_one_redial:
  assumes "0 \<notin> set ts"
  shows "snd (tripwire_run ((Suc n, t0) # map (Pair 0) ts) w) =
    (case ts of
       [] \<Rightarrow> []
     | t # ts' \<Rightarrow>
         RcProbe # (if list_ex (\<lambda>u. presence_deaf_redial_ms < i64_sat_sub u t) ts'
                    then [RcRedial] else []))"
  using assms tripwire_probed
  by (cases ts) (simp_all add: presence_deafness_def split_beta)

lemma tripwire_one_probe_one_redial_witness:
  "snd (tripwire_run ((1, 10) # map (Pair 0) [20, 60020, 60021, 200000, 300000]) presence_watch_default) =
     [RcProbe, RcRedial]"
  using tripwire_one_probe_one_redial
    [of "[20, 60020, 60021, 200000, 300000]" 0 10 presence_watch_default]
  by (simp add: presence_deaf_redial_ms_def i64_sat_sub_def)

subsection \<open>Presence never goes back\<close>

lemma max_opt_max: "max_opt a b = max a b"
  by (cases a; cases b) (simp_all add: max_opt_def max_def)

lemma overlay_device_grows:
  assumes "overlay_device self live now seen v = (v', seen', alive)"
  shows "v' = v\<lparr>dv_last_seen_at := dv_last_seen_at v'\<rparr>" "dv_last_seen_at v \<le> dv_last_seen_at v'"
    "map_of seen' = (map_of seen)(dv_id v := max (live (dv_id v)) (map_of seen (dv_id v)))"
    "alive \<longleftrightarrow> dv_id v \<noteq> self \<and> fresh_at now (max (live (dv_id v)) (map_of seen (dv_id v)))"
proof -
  have l: "Some (b :: int) \<le> Some a" if "\<not> a < b" "a = a" for a b using that by simp
  consider "max (live (dv_id v)) (map_of seen (dv_id v)) = None"
    | ms where "max (live (dv_id v)) (map_of seen (dv_id v)) = Some ms" by (metis option.exhaust)
  then have "v' = v\<lparr>dv_last_seen_at := dv_last_seen_at v'\<rparr> \<and> dv_last_seen_at v \<le> dv_last_seen_at v' \<and>
    map_of seen' = (map_of seen)(dv_id v := max (live (dv_id v)) (map_of seen (dv_id v))) \<and>
    (alive \<longleftrightarrow> dv_id v \<noteq> self \<and> fresh_at now (max (live (dv_id v)) (map_of seen (dv_id v))))"
  proof cases
    case 1
    then have "map_of seen (dv_id v) = None" by (simp add: max_def split: if_splits)
    then show ?thesis
      using assms 1 by (auto simp: overlay_device_def max_opt_max fresh_at_def fun_upd_idem)
  next
    case 2
    then show ?thesis
      using assms
      by (auto simp: overlay_device_def max_opt_max update_conv' split: option.splits if_splits)
  qed
  then show "v' = v\<lparr>dv_last_seen_at := dv_last_seen_at v'\<rparr>" "dv_last_seen_at v \<le> dv_last_seen_at v'"
    "map_of seen' = (map_of seen)(dv_id v := max (live (dv_id v)) (map_of seen (dv_id v)))"
    "alive \<longleftrightarrow> dv_id v \<noteq> self \<and> fresh_at now (max (live (dv_id v)) (map_of seen (dv_id v)))"
    by blast+
qed

lemma overlay_devices_grow:
  assumes "overlay_devices self live now seen vs = (vs', seen', peers)"
  shows "list_all2 (\<lambda>v v'. v' = v\<lparr>dv_last_seen_at := dv_last_seen_at v'\<rparr> \<and>
      dv_last_seen_at v \<le> dv_last_seen_at v') vs vs' \<and>
    (\<forall>k. map_of seen' k =
       (if k \<in> dv_id ` set vs then max (live k) (map_of seen k) else map_of seen k)) \<and>
    set peers = {k \<in> dv_id ` set vs. k \<noteq> self \<and> fresh_at now (max (live k) (map_of seen k))}"
  using assms
proof (induction vs arbitrary: seen vs' seen' peers)
  case (Cons v vs)
  obtain v1 s1 alive where v: "overlay_device self live now seen v = (v1, s1, alive)"
    by (metis prod_cases3)
  obtain vs1 s2 peers1 where vs: "overlay_devices self live now s1 vs = (vs1, s2, peers1)"
    by (metis prod_cases3)
  note IH = Cons.IH [OF vs]
  note G = overlay_device_grows [OF v]
  have o: "vs' = v1 # vs1" "seen' = s2" "peers = (if alive then dv_id v # peers1 else peers1)"
    using Cons.prems v vs by simp_all
  have m: "max (live k) (map_of s1 k) = max (live k) (map_of seen k)" for k
    by (simp add: G(3))
  have "map_of seen' k =
      (if k \<in> dv_id ` set (v # vs) then max (live k) (map_of seen k) else map_of seen k)" for k
    using IH by (auto simp: o m) (simp_all add: G(3))
  moreover have "set peers = {k \<in> dv_id ` set (v # vs). k \<noteq> self \<and>
      fresh_at now (max (live k) (map_of seen k))}"
    using IH by (auto simp: o m G(4))
  ultimately show ?case using IH G(1,2) by (simp add: o)
qed simp

lemma check_presence_keeps:
  "wh_presence_seen (check_presence_deafness n now h) = wh_presence_seen h"
  by (simp add: check_presence_deafness_def split_beta Let_def call_room_def split: option.split)

text \<open>
Publishing the devices never makes one look older: only \<^verbatim>\<open>lastSeenAt\<close> changes and it never goes
  back, the cache of heartbeats only moves forward (to the newer of the cache and the live entry of
  every listed device), and the peers announced alive are the other devices whose newest heartbeat is
  younger than 45 seconds.
\<close>

theorem overlay_presence_monotone:
  "case overlay_presence presence now devices h of (devices', h', peers) \<Rightarrow>
     list_all2 (\<lambda>v v'. v' = v\<lparr>dv_last_seen_at := dv_last_seen_at v'\<rparr> \<and>
       dv_last_seen_at v \<le> dv_last_seen_at v') devices devices' \<and>
     (\<forall>k. map_of (wh_presence_seen h) k \<le> map_of (wh_presence_seen h') k) \<and>
     set peers = {k \<in> dv_id ` set devices. k \<noteq> wc_device_id (wh_config h) \<and>
       fresh_at now (map_of (wh_presence_seen h') k)}"
proof -
  let ?live = "case wh_room h of None \<Rightarrow> (\<lambda>_. None) | Some _ \<Rightarrow> presence"
  obtain vs' seen' peers where o:
    "overlay_devices (wc_device_id (wh_config h)) ?live now (wh_presence_seen h) devices =
       (vs', seen', peers)" by (metis prod_cases3)
  note G = overlay_devices_grow [OF o, THEN conjunct1]
    overlay_devices_grow [OF o, THEN conjunct2, THEN conjunct1, rule_format]
    overlay_devices_grow [OF o, THEN conjunct2, THEN conjunct2]
  obtain h' where h': "overlay_presence presence now devices h = (vs', h', peers)"
    "wh_presence_seen h' = seen'"
    by (cases "wh_room h")
      (use o in \<open>simp_all add: overlay_presence_def Let_def check_presence_keeps\<close>)
  have "map_of (wh_presence_seen h) k \<le> map_of seen' k" for k
    unfolding G(2) by simp
  moreover have "set peers = {k \<in> dv_id ` set devices. k \<noteq> wc_device_id (wh_config h) \<and>
      fresh_at now (map_of seen' k)}"
    unfolding G(3) by (auto simp: G(2))
  ultimately show ?thesis using G(1) by (simp add: h')
qed

subsection \<open>Merged session rows\<close>

lemma fold_update_map:
  "map_of (fold (\<lambda>s m. AList.update (f s) s m) xs m) =
     map_of m ++ map_of (map (\<lambda>s. (f s, s)) xs)" if "distinct (map f xs)"
  using that
proof (induction xs arbitrary: m)
  case (Cons x xs)
  then have "map_of (map (\<lambda>s. (f s, s)) xs) (f x) = None"
    by (simp add: map_of_eq_None_iff image_image)
  with Cons show ?case by (auto simp: update_conv' map_add_def split: option.split)
qed simp

lemma fold_update_keys:
  "(\<forall>(k, s) \<in> set m. k = f s) \<Longrightarrow> distinct (map fst m) \<Longrightarrow>
     (\<forall>(k, s) \<in> set (fold (\<lambda>s m. AList.update (f s) s m) xs m). k = f s) \<and>
     distinct (map fst (fold (\<lambda>s m. AList.update (f s) s m) xs m))"
proof (induction xs arbitrary: m)
  case (Cons x xs)
  have "set (AList.update (f x) x m) \<subseteq> insert (f x, x) (set m)"
    by (induction m) auto
  then have "\<forall>(k, s) \<in> set (AList.update (f x) x m). k = f s" using Cons.prems(1) by auto
  with Cons show ?case by (simp add: distinct_update)
qed simp

text \<open>
The session stream holds one row per chat, sorted by chat: for a chat with a local status that
  status, otherwise the registry's row, unless the registry says the chat runs here, in which case
  the stale row is dropped.
\<close>

theorem merge_sessions_spec:
  assumes "distinct (map se_chat_id rows)" "distinct (map se_chat_id locals)"
  shows "sorted (map se_chat_id (merge_sessions device_id rows locals)) \<and>
    distinct (map se_chat_id (merge_sessions device_id rows locals)) \<and>
    set (merge_sessions device_id rows locals) =
      set locals \<union> {s \<in> set rows. se_device_id s \<noteq> device_id \<and>
        se_chat_id s \<notin> se_chat_id ` set locals}"
proof -
  let ?rows = "filter (\<lambda>s. se_device_id s \<noteq> device_id) rows"
  let ?upd = "\<lambda>s m. AList.update (se_chat_id s) s m"
  let ?m = "fold ?upd locals (fold ?upd ?rows [])"
  have k: "\<forall>(k, s) \<in> set ?m. k = se_chat_id s" "distinct (map fst ?m)"
    using fold_update_keys [of "fold ?upd ?rows []" se_chat_id locals]
      fold_update_keys [of "[]" se_chat_id ?rows] by simp_all
  have ids: "map se_chat_id (map snd ?m) = map fst ?m"
    using k(1) by (auto simp: split_beta)
  have dr: "distinct (map se_chat_id ?rows)" using assms(1) by (simp add: distinct_map_filter)
  have m: "map_of ?m = map_of (map (\<lambda>s. (se_chat_id s, s)) ?rows) ++
      map_of (map (\<lambda>s. (se_chat_id s, s)) locals)"
    using fold_update_map [OF assms(2)] fold_update_map [OF dr, of "[]"] by simp
  have mem: "map_of (map (\<lambda>s. (se_chat_id s, s)) xs) (se_chat_id x) = Some x \<longleftrightarrow> x \<in> set xs"
    if "distinct (map se_chat_id xs)" for xs :: "session list" and x
    using map_of_eq_Some_iff [of "map (\<lambda>s. (se_chat_id s, s)) xs" "se_chat_id x" x] that
    by (auto simp: o_def)
  have "s \<in> snd ` set ?m \<longleftrightarrow> map_of ?m (se_chat_id s) = Some s" for s
    using map_of_eq_Some_iff [OF k(2), of "se_chat_id s" s] k(1) by force
  moreover have "map_of ?m (se_chat_id s) = Some s \<longleftrightarrow>
      s \<in> set locals \<or> s \<in> set ?rows \<and> se_chat_id s \<notin> se_chat_id ` set locals" for s
    unfolding m map_add_Some_iff mem [OF assms(2)] mem [OF dr]
    by (auto simp: map_of_eq_None_iff image_image)
  ultimately have "set (merge_sessions device_id rows locals) =
      set locals \<union> {s \<in> set rows. se_device_id s \<noteq> device_id \<and>
        se_chat_id s \<notin> se_chat_id ` set locals}"
    by (auto simp: merge_sessions_def)
  moreover have "distinct (map se_chat_id (merge_sessions device_id rows locals))"
  proof -
    have "distinct (map se_chat_id (map snd ?m))" unfolding ids by (rule k(2))
    then show ?thesis
      unfolding merge_sessions_def distinct_map distinct_sort set_sort .
  qed
  ultimately show ?thesis by (simp add: merge_sessions_def)
qed

definition demo_session :: "string \<Rightarrow> string \<Rightarrow> session" where
  "demo_session i device = \<lparr>se_chat_id = i, se_device_id = device, se_status = SsWorking,
     se_started_at = None, se_updated_at = 1\<rparr>"

lemma merge_sessions_spec_witness:
  "set (merge_sessions ''me'' [demo_session ''b'' ''you'', demo_session ''c'' ''me'']
      [demo_session ''a'' ''me'']) = {demo_session ''a'' ''me'', demo_session ''b'' ''you''}"
proof -
  have "set (merge_sessions ''me'' [demo_session ''b'' ''you'', demo_session ''c'' ''me'']
      [demo_session ''a'' ''me'']) = set [demo_session ''a'' ''me''] \<union>
      {s \<in> set [demo_session ''b'' ''you'', demo_session ''c'' ''me'']. se_device_id s \<noteq> ''me'' \<and>
        se_chat_id s \<notin> se_chat_id ` set [demo_session ''a'' ''me'']}"
    using merge_sessions_spec [of "[demo_session ''b'' ''you'', demo_session ''c'' ''me'']"
        "[demo_session ''a'' ''me'']" "''me''"] by (simp add: demo_session_def)
  also have "\<dots> = {demo_session ''a'' ''me'', demo_session ''b'' ''you''}"
    by (auto simp: demo_session_def)
  finally show ?thesis .
qed

subsection \<open>Reopening\<close>

lemma fold_put_device: "rd_device_id (fold put_authoritative rs d) = rd_device_id d"
  by (induction rs arbitrary: d) (simp_all add: put_authoritative_def)

lemma fold_enqueue_device: "rd_device_id (fold enqueue_ops opss d) = rd_device_id d"
proof (induction opss arbitrary: d)
  case (Cons ops opss)
  have "rd_device_id (enqueue_ops ops d) = rd_device_id d"
    using enqueue_ops_queued [of d ops] by (auto simp: queued_def)
  with Cons show ?case by simp
qed simp

lemma open_registry_device:
  "open_registry from_slice legacy wall flt1 flt2 store cfg = Inr d \<Longrightarrow>
     rd_device_id d = wc_device_id cfg"
  by (auto simp: open_registry_def from_bytes_def Let_def fold_put_device fold_enqueue_device
      seed_from_workspace_def registry_new_def split: sum.splits option.splits if_splits)

text \<open>
Once an open has succeeded the registry is on disk: the next open, even after a crash before
  any other save, reads the same rows with the local writes still pending, and never looks at the
  legacy document again, so that a migration runs once.
\<close>

theorem open_then_reopen:
  assumes "host_open from_slice to_vec legacy wall (\<lambda>_. None) version now store cfg = (Inr h, store')"
    and "reg_reach (wh_reg h)" "to_vec (persisted_of (wh_reg h)) = Inr bs"
      "from_slice bs = Inr (unflighted (persisted_of (wh_reg h)))"
  shows "\<exists>d. open_registry from_slice legacy' (rd_wall (wh_reg h)) None flt store' cfg = Inr d \<and>
    rd_pending d = rd_pending (mark_disconnected (wh_reg h)) \<and>
    (\<forall>k i. overlay_row d k i = overlay_row (wh_reg h) k i)"
proof -
  from assms(1) obtain d0 where d0:
    "open_registry from_slice legacy wall None None store cfg = Inr d0"
    "wh_reg h = upsert_device (boot_device cfg version now d0) d0"
    "store' = ws_save_snapshot to_vec None (timestamp_millis now) (wh_reg h)
       (snd (delete_snapshot None legacy_workspace_doc_id store))"
    by (auto simp: host_open_def Let_def split: sum.splits)
  have dev: "rd_device_id (wh_reg h) = wc_device_id cfg"
    using open_registry_device [OF d0(1)] by (simp add: d0(2) upsert_device_def write_row_device)
  from from_bytes_restores [of "wh_reg h" to_vec bs from_slice] assms(2-4) obtain d where
    d: "to_bytes to_vec (wh_reg h) = Inr bs"
      "from_bytes from_slice (rd_wall (wh_reg h)) bs (wc_device_id cfg) = Inr d"
      "rd_pending d = rd_pending (mark_disconnected (wh_reg h))"
      "\<And>k i. overlay_row d k i = overlay_row (wh_reg h) k i"
    unfolding dev by blast
  have "load_snapshot None store' registry_doc_id = Inr (Some bs)"
    by (simp add: d0(3) ws_save_snapshot_def d(1) save_snapshot_def load_snapshot_def
        map_of_update split: option.split)
  with d(2) have "open_registry from_slice legacy' (rd_wall (wh_reg h)) None flt store' cfg = Inr d"
    by (simp add: open_registry_def)
  with d(3,4) show ?thesis by blast
qed

text \<open>A first boot on an empty store, with a codec that knows one snapshot.\<close>

definition demo_booted :: registry_doc where
  "demo_booted = upsert_device
     (boot_device (wh_config demo_host) ''1'' 5 (registry_new ''dev'' (\<lambda>n. 7 + int n)))
     (registry_new ''dev'' (\<lambda>n. 7 + int n))"

lemma open_then_reopen_witness:
  "\<exists>h store' d. host_open (\<lambda>_. Inr (unflighted (persisted_of demo_booted))) (\<lambda>_. Inr ''x'') (\<lambda>_. None)
       (\<lambda>n. 7 + int n) (\<lambda>_. None) ''1'' 5 empty_store (wh_config demo_host) = (Inr h, store') \<and>
     open_registry (\<lambda>_. Inr (unflighted (persisted_of demo_booted))) (\<lambda>_. None)
       (rd_wall (wh_reg h)) None None store' (wh_config demo_host) = Inr d \<and>
     (\<forall>k i. overlay_row d k i = overlay_row demo_booted k i)"
proof -
  let ?from = "\<lambda>_ :: bytes. Inr (unflighted (persisted_of demo_booted)) :: doc_error + persisted_state"
  let ?to = "\<lambda>_ :: persisted_state. Inr ''x'' :: doc_error + bytes"
  have reach: "reg_reach demo_booted"
    unfolding demo_booted_def upsert_device_def
    using reg_step [OF reg_init, of "RvWrite k i w kvs" for k i w kvs] by simp
  obtain h store' where h: "host_open ?from ?to (\<lambda>_. None) (\<lambda>n. 7 + int n) (\<lambda>_. None) ''1'' 5
      empty_store (wh_config demo_host) = (Inr h, store')" "wh_reg h = demo_booted"
    by (simp add: host_open_def open_registry_def load_snapshot_def empty_store_def Let_def
        demo_booted_def demo_host_def)
  from open_then_reopen [OF h(1), of "''x''" "\<lambda>_. None" None] reach h show ?thesis by auto
qed

end
