(* ===== verification/Engine_Drain.thy ===== *)
theory Engine_Drain
  imports Doc_Commands Doc_Schema Engine_Workspace
begin

text \<open>
  The host's command plane, \<^verbatim>\<open>crates/engine/src/doc_host.rs\<close>: the drain of pending commands
  (evaluate, claim in the ledger, execute, write the outcome), the execution of each kind of command
  with its fallbacks, and the snapshot save. The sessions engine, which drives the agent processes,
  is an interface: a record of functions on the world. They may change all of it, the command list
  included, since other devices write to the document while a command runs; the ledger is the
  store's and theirs to leave alone.
\<close>

subsection \<open>The world and the sessions engine\<close>

record 's world =
  wd_commands :: "session_command_entry list"
  wd_entries :: "session_message_entry list"
  wd_workspace :: "workspace_host option"
  wd_engine :: 's

datatype steer_outcome = Accepted | NotSteerable

record 's sessions_api =
  sx_dispatch :: "string \<Rightarrow> harness_id \<Rightarrow> run_request \<Rightarrow> string option \<Rightarrow> 's world \<Rightarrow>
    (engine_error + string) \<times> 's world"
  sx_steer :: "string \<Rightarrow> string \<Rightarrow> string option \<Rightarrow> 's world \<Rightarrow>
    (engine_error + steer_outcome) \<times> 's world"
  sx_interrupt :: "string \<Rightarrow> 's world \<Rightarrow> (engine_error + bool) \<times> 's world"
  sx_respond_input :: "string \<Rightarrow> string \<Rightarrow> user_input_answer list \<Rightarrow> 's world \<Rightarrow>
    (engine_error + bool) \<times> 's world"
  sx_last_request :: "'s world \<Rightarrow> string \<Rightarrow> run_request option"

record drain_env =
  de_chat_id :: string
  de_default_harness :: harness_id
  de_worktree_root :: "string \<Rightarrow> string option"

text \<open>What one iteration reads of the outside: the instant, a new identifier, and the faults of the
  ledger's statements.\<close>

record drain_tick =
  tk_now :: datetime
  tk_new_id :: string
  tk_read_fault :: "string \<Rightarrow> sql_fault"
  tk_mark_fault :: sql_fault

subsection \<open>Document writes\<close>

definition has_id :: "string \<Rightarrow> session_command_entry \<Rightarrow> bool" where
  "has_id i c \<longleftrightarrow> ce_id c = i"

fun set_command_status :: "string \<Rightarrow> session_command_status \<Rightarrow> string option \<Rightarrow>
    session_command_entry list \<Rightarrow> session_command_entry list option" where
  "set_command_status command_id status resolution [] = None"
| "set_command_status command_id status resolution (c # cs) =
     (if has_id command_id c
      then Some (c\<lparr>ce_status := status,
                   ce_resolution := (case resolution of Some r \<Rightarrow> Some r | None \<Rightarrow> ce_resolution c)\<rparr> # cs)
      else map_option (Cons c) (set_command_status command_id status resolution cs))"

definition is_input :: "string \<Rightarrow> message_part \<Rightarrow> bool" where
  "is_input request_id p \<longleftrightarrow> (case p of PInput i _ _ _ \<Rightarrow> i = request_id | _ \<Rightarrow> False)"

fun mark_resolved :: "message_part \<Rightarrow> message_part" where
  "mark_resolved (PInput i rid qs r) = PInput i rid qs True"
| "mark_resolved p = p"

fun resolve_part :: "string \<Rightarrow> message_part list \<Rightarrow> message_part list option" where
  "resolve_part request_id [] = None"
| "resolve_part request_id (p # ps) =
     (if is_input request_id p then Some (mark_resolved p # ps)
      else map_option (Cons p) (resolve_part request_id ps))"

fun doc_resolve_input :: "string \<Rightarrow> session_message_entry list \<Rightarrow> session_message_entry list option" where
  "doc_resolve_input request_id [] = None"
| "doc_resolve_input request_id (e # es) =
     (case resolve_part request_id (me_parts e) of
        Some ps \<Rightarrow> Some (e\<lparr>me_parts := ps\<rparr> # es)
      | None \<Rightarrow> map_option (Cons e) (doc_resolve_input request_id es))"

definition resolve_command :: "string \<Rightarrow> session_command_status \<Rightarrow> string option \<Rightarrow>
    's world \<Rightarrow> 's world" where
  "resolve_command command_id status resolution w =
     (case set_command_status command_id status resolution (wd_commands w) of
        Some cs \<Rightarrow> w\<lparr>wd_commands := cs\<rparr>
      | None \<Rightarrow> w)"

subsection \<open>Execution\<close>

definition host_is_host :: "'s world \<Rightarrow> string \<Rightarrow> bool" where
  "host_is_host w chat_id = (case wd_workspace w of None \<Rightarrow> True | Some ws \<Rightarrow> is_host ws chat_id)"

definition harness_for :: "drain_env \<Rightarrow> 's world \<Rightarrow> string \<Rightarrow> harness_id" where
  "harness_for env w chat_id =
     (case (case wd_workspace w of None \<Rightarrow> None | Some ws \<Rightarrow> ws_chat_config ws chat_id) of
        Some config \<Rightarrow> cc_harness config
      | None \<Rightarrow> de_default_harness env)"

definition harness_for_request :: "drain_env \<Rightarrow> 's world \<Rightarrow> string \<Rightarrow> run_request \<Rightarrow> harness_id" where
  "harness_for_request env w chat_id request =
     (case rq_harness request of Some h \<Rightarrow> h | None \<Rightarrow> harness_for env w chat_id)"

definition request_from_chat_row :: "'s world \<Rightarrow> string \<Rightarrow> string \<Rightarrow> run_request option" where
  "request_from_chat_row w chat_id prompt =
     (case wd_workspace w of
        None \<Rightarrow> None
      | Some ws \<Rightarrow>
          (case reg_chat (wh_reg ws) chat_id of
             None \<Rightarrow> None
           | Some c \<Rightarrow>
               (let config = ch_config c
                in Some
                  \<lparr>rq_prompt = prompt, rq_harness = map_option cc_harness config,
                   rq_model = Option.bind config cc_model,
                   rq_reasoning = Option.bind config cc_reasoning,
                   rq_model_options = (case config of Some g \<Rightarrow> cc_model_options g | None \<Rightarrow> []),
                   rq_cwd = (case ch_cwd c of Some d \<Rightarrow> d | None \<Rightarrow> []),
                   rq_sandbox = (case config of Some g \<Rightarrow> cc_sandbox g | None \<Rightarrow> WorkspaceWrite),
                   rq_auto_approve = False, rq_resume = None, rq_attachments = []\<rparr>)))"

text \<open>The em dash of \<^verbatim>\<open>format!\<close>, in UTF-8, between spaces.\<close>

definition dash :: string where
  "dash = [CHR '' '', char_of (226 :: nat), char_of (128 :: nat), char_of (148 :: nat), CHR '' '']"

definition respond_input_prompt :: "user_input_question list \<Rightarrow> user_input_answer list \<Rightarrow> string" where
  "respond_input_prompt questions answers =
     str_join [CHR 0x0A] (''Answering your earlier question:'' #
       map (\<lambda>answer.
              let picked = str_join '', '' (ua_labels answer);
                  question = (case find (\<lambda>q. uq_id q = ua_question_id answer) questions of
                                None \<Rightarrow> None
                              | Some q \<Rightarrow> (let t = str_trim (uq_question q)
                                           in if t = [] then None else Some t))
              in case question of Some q \<Rightarrow> q @ dash @ picked | None \<Rightarrow> picked) answers)"

definition open_question :: "string \<Rightarrow> session_message_entry list \<Rightarrow>
    user_input_question list option" where
  "open_question request_id entries =
     find_map (\<lambda>e. find_map (\<lambda>p. case p of
                                    PInput _ rid questions resolved \<Rightarrow>
                                      if rid = request_id \<and> \<not> resolved then Some questions else None
                                  | _ \<Rightarrow> None) (me_parts e))
       (filter (\<lambda>e. me_status e \<noteq> Some MsStreaming) (rev entries))"

type_synonym command_outcome = "session_command_status \<times> string option"

text \<open>A prior request, or one rebuilt from the chat's row.\<close>

definition prior_request :: "'s sessions_api \<Rightarrow> 's world \<Rightarrow> string \<Rightarrow> string \<Rightarrow> run_request option" where
  "prior_request api w chat_id prompt =
     (case sx_last_request api w chat_id of
        Some r \<Rightarrow> Some r
      | None \<Rightarrow> request_from_chat_row w chat_id prompt)"

definition fresh_turn :: "string \<Rightarrow> run_request \<Rightarrow> run_request" where
  "fresh_turn prompt r = r\<lparr>rq_prompt := prompt, rq_resume := None, rq_attachments := []\<rparr>"

definition dispatch_turn :: "'s sessions_api \<Rightarrow> drain_env \<Rightarrow> harness_id \<Rightarrow> run_request \<Rightarrow> string option \<Rightarrow>
    string option \<Rightarrow> 's world \<Rightarrow> (engine_error + command_outcome) \<times> 's world" where
  "dispatch_turn api env harness request message_id resolution w =
     (case sx_dispatch api (de_chat_id env) harness request message_id w of
        (Inl e, w) \<Rightarrow> (Inl e, w)
      | (Inr _, w) \<Rightarrow> (Inr (CsApplied, resolution), w))"

text \<open>The run's workspace side: claim the chat, stamp the configuration it runs with.\<close>

definition prepare_run :: "drain_env \<Rightarrow> drain_tick \<Rightarrow> run_request \<Rightarrow> 's world \<Rightarrow>
    harness_id \<times> 's world" where
  "prepare_run env tk request w =
     (case wd_workspace w of
        None \<Rightarrow> (harness_for_request env w (de_chat_id env) request, w)
      | Some ws \<Rightarrow>
          (let chat_id = de_chat_id env;
               ws = ws_claim_chat (de_worktree_root env) (tk_new_id tk) (tk_now tk) chat_id
                      (Some (rq_cwd request)) ws;
               harness = harness_for_request env (w\<lparr>wd_workspace := Some ws\<rparr>) chat_id request;
               ws = (if ws_chat_config ws chat_id = None
                     then fst (ws_set_chat_config chat_id
                       \<lparr>cc_harness = harness, cc_model = rq_model request,
                        cc_reasoning = rq_reasoning request,
                        cc_model_options = rq_model_options request,
                        cc_sandbox = rq_sandbox request\<rparr> ws)
                     else ws)
           in (harness, w\<lparr>wd_workspace := Some ws\<rparr>)))"

definition execute_run :: "'s sessions_api \<Rightarrow> drain_env \<Rightarrow> drain_tick \<Rightarrow> run_request \<Rightarrow> string \<Rightarrow>
    's world \<Rightarrow> (engine_error + command_outcome) \<times> 's world" where
  "execute_run api env tk request message_id w =
     (let (harness, w) = prepare_run env tk request w
      in dispatch_turn api env harness request (Some message_id) None w)"

definition execute_steer :: "'s sessions_api \<Rightarrow> drain_env \<Rightarrow> string \<Rightarrow> string option \<Rightarrow>
    's world \<Rightarrow> (engine_error + command_outcome) \<times> 's world" where
  "execute_steer api env prompt message_id w =
     (case sx_steer api (de_chat_id env) prompt message_id w of
        (Inl e, w) \<Rightarrow> (Inl e, w)
      | (Inr Accepted, w) \<Rightarrow> (Inr (CsApplied, None), w)
      | (Inr NotSteerable, w) \<Rightarrow>
          (case prior_request api w (de_chat_id env) prompt of
             None \<Rightarrow> (Inr (CsRejected, Some ''no live run and no prior run config''), w)
           | Some request \<Rightarrow>
               (let request = fresh_turn prompt request
                in dispatch_turn api env (harness_for_request env w (de_chat_id env) request) request
                     message_id (Some ''queued as new turn'') w)))"

definition execute_interrupt :: "'s sessions_api \<Rightarrow> drain_env \<Rightarrow> 's world \<Rightarrow>
    (engine_error + command_outcome) \<times> 's world" where
  "execute_interrupt api env w =
     (case sx_interrupt api (de_chat_id env) w of
        (Inl e, w) \<Rightarrow> (Inl e, w)
      | (Inr _, w) \<Rightarrow> (Inr (CsApplied, None), w))"

definition execute_respond_input :: "'s sessions_api \<Rightarrow> drain_env \<Rightarrow> string \<Rightarrow>
    user_input_answer list \<Rightarrow> 's world \<Rightarrow> (engine_error + command_outcome) \<times> 's world" where
  "execute_respond_input api env request_id answers w =
     (case sx_respond_input api (de_chat_id env) request_id answers w of
        (Inl e, w) \<Rightarrow> (Inl e, w)
      | (Inr True, w) \<Rightarrow> (Inr (CsApplied, None), w)
      | (Inr False, w) \<Rightarrow>
          (case open_question request_id (wd_entries w) of
             None \<Rightarrow> (Inr (CsRejected, Some ''no pending input request''), w)
           | Some questions \<Rightarrow>
               (case prior_request api w (de_chat_id env) [] of
                  None \<Rightarrow>
                    (Inr (CsRejected, Some ''no pending input request and no prior run config''), w)
                | Some request \<Rightarrow>
                    (let request = fresh_turn (respond_input_prompt questions answers) request;
                         w = (case doc_resolve_input request_id (wd_entries w) of
                                Some es \<Rightarrow> w\<lparr>wd_entries := es\<rparr> | None \<Rightarrow> w)
                     in dispatch_turn api env (harness_for_request env w (de_chat_id env) request)
                          request None (Some ''answered as new turn'') w))))"

definition execute :: "'s sessions_api \<Rightarrow> drain_env \<Rightarrow> drain_tick \<Rightarrow> session_command_entry \<Rightarrow>
    's world \<Rightarrow> (engine_error + command_outcome) \<times> 's world" where
  "execute api env tk entry w =
     (case ce_payload entry of
        CpRun request message_id \<Rightarrow> execute_run api env tk request message_id w
      | CpSteer prompt message_id \<Rightarrow> execute_steer api env prompt message_id w
      | CpInterrupt \<Rightarrow> execute_interrupt api env w
      | CpRespondInput request_id answers \<Rightarrow> execute_respond_input api env request_id answers w)"

subsection \<open>The drain\<close>

text \<open>\<^verbatim>\<open>is_processed(id).unwrap_or(false)\<close>: a refused read counts as not processed.\<close>

definition reads_processed :: "drain_tick \<Rightarrow> docs_store \<Rightarrow> string \<Rightarrow> bool" where
  "reads_processed tk store i =
     (case is_processed (tk_read_fault tk i) store i of Inr b \<Rightarrow> b | Inl _ \<Rightarrow> False)"

definition next_command :: "(string \<Rightarrow> bool) \<Rightarrow> string list \<Rightarrow> session_command_entry list \<Rightarrow>
    session_command_entry option" where
  "next_command processed skipped commands =
     find (\<lambda>c. ce_status c = CsPending \<and> \<not> List.member skipped (ce_id c) \<and> \<not> processed (ce_id c))
       commands"

definition dispose :: "drain_tick \<Rightarrow> (string \<Rightarrow> bool) \<Rightarrow> 's world \<Rightarrow> session_command_entry \<Rightarrow>
    command_disposition" where
  "dispose tk processed w entry =
     evaluate_command entry
       \<lparr>cx_is_processed = processed, cx_now_ms = timestamp_millis (tk_now tk),
        cx_entries = wd_commands w,
        cx_current_turn_id =
          (if wd_entries w = [] then None else Some (me_id (last (wd_entries w)))),
        cx_turn_is_past = (\<lambda>t. list_ex (\<lambda>m. me_id m = t) (wd_entries w))\<rparr>"

text \<open>Execute and write the outcome; an error is a rejection with its text.\<close>

definition run_command :: "'s sessions_api \<Rightarrow> drain_env \<Rightarrow> drain_tick \<Rightarrow> session_command_entry \<Rightarrow>
    's world \<Rightarrow> 's world" where
  "run_command api env tk entry w =
     (let (outcome, w) = execute api env tk entry w;
          (status, resolution) = (case outcome of
             Inr r \<Rightarrow> r
           | Inl e \<Rightarrow> (CsRejected, Some (engine_error_text e)))
      in resolve_command (ce_id entry) status resolution w)"

text \<open>What follows the claim: the skipped set, the world, and the id executed, if one was.\<close>

definition settle :: "'s sessions_api \<Rightarrow> drain_env \<Rightarrow> drain_tick \<Rightarrow> command_disposition \<Rightarrow>
    session_command_entry \<Rightarrow> string list \<Rightarrow> 's world \<Rightarrow> string list \<times> 's world \<times> string list" where
  "settle api env tk d entry skipped w =
     (case d of
        Skip \<Rightarrow> (ce_id entry # skipped, w, [])
      | Expired \<Rightarrow> (skipped, resolve_command (ce_id entry) CsExpired None w, [])
      | Superseded \<Rightarrow> (skipped, resolve_command (ce_id entry) CsSuperseded None w, [])
      | Execute \<Rightarrow> (skipped, run_command api env tk entry w, [ce_id entry]))"

text \<open>One turn of the loop; \<^const>\<open>None\<close> is its return.\<close>

definition drain_iter :: "'s sessions_api \<Rightarrow> drain_env \<Rightarrow> drain_tick \<Rightarrow> string list \<Rightarrow> 's world \<Rightarrow>
    docs_store \<Rightarrow> (string list \<times> 's world \<times> docs_store \<times> string list) option" where
  "drain_iter api env tk skipped w store =
     (case next_command (reads_processed tk store) skipped (wd_commands w) of
        None \<Rightarrow> None
      | Some entry \<Rightarrow>
          (let d = dispose tk (reads_processed tk store) w entry
           in case mark_processed (tk_mark_fault tk) (ce_id entry) (timestamp_millis (tk_now tk)) store of
                (Inl _, _) \<Rightarrow> None
              | (Inr _, store) \<Rightarrow>
                  (let (skipped, w, executed) = settle api env tk d entry skipped w
                   in Some (skipped, w, store, executed))))"

text \<open>The loop with fuel: \<^const>\<open>None\<close> when it is used up. The last component lists the commands
  executed.\<close>

fun drain_loop :: "'s sessions_api \<Rightarrow> drain_env \<Rightarrow> (nat \<Rightarrow> drain_tick) \<Rightarrow> nat \<Rightarrow> string list \<Rightarrow>
    's world \<Rightarrow> docs_store \<Rightarrow> ('s world \<times> docs_store \<times> string list) option" where
  "drain_loop api env tick 0 skipped w store = None"
| "drain_loop api env tick (Suc n) skipped w store =
     (case drain_iter api env (tick n) skipped w store of
        None \<Rightarrow> Some (w, store, [])
      | Some (skipped, w, store, executed) \<Rightarrow>
          map_option (\<lambda>(w, store, rest). (w, store, executed @ rest))
            (drain_loop api env tick n skipped w store))"

text \<open>\<open>api\<close> is \<^const>\<open>None\<close> while the sessions engine is not wired.\<close>

definition drain_commands :: "'s sessions_api option \<Rightarrow> drain_env \<Rightarrow> (nat \<Rightarrow> drain_tick) \<Rightarrow> nat \<Rightarrow>
    's world \<Rightarrow> docs_store \<Rightarrow> ('s world \<times> docs_store \<times> string list) option" where
  "drain_commands api env tick fuel w store =
     (case api of
        None \<Rightarrow> Some (w, store, [])
      | Some api \<Rightarrow>
          if \<not> host_is_host w (de_chat_id env) then Some (w, store, [])
          else drain_loop api env tick fuel [] w store)"

subsection \<open>Snapshots and part references\<close>

definition chat2_doc_epoch :: nat where
  "chat2_doc_epoch = 2"

text \<open>A handle whose lineage was replaced on disk must not overwrite the thin document.\<close>

definition host_save_snapshot :: "sql_fault \<Rightarrow> sql_fault \<Rightarrow> bool \<Rightarrow> doc_error + bytes \<Rightarrow> string \<Rightarrow> int \<Rightarrow>
    docs_store \<Rightarrow> docs_store" where
  "host_save_snapshot flt1 flt2 retired exported chat_id now store =
     (if retired \<and>
         (case load_snapshot_with_cursor flt1 store chat_id of
            Inr (Some (_, _, epoch)) \<Rightarrow> unat epoch \<ge> chat2_doc_epoch
          | _ \<Rightarrow> False)
      then store
      else (case exported of
              Inr bs \<Rightarrow> snd (save_snapshot flt2 chat_id bs now store)
            | Inl _ \<Rightarrow> store))"

definition hex_digit :: "nat \<Rightarrow> char" where
  "hex_digit n = (if n < 10 then digit_char n else char_of (55 + n))"

definition unreserved :: "char \<Rightarrow> bool" where
  "unreserved c \<longleftrightarrow>
     CHR ''A'' \<le> c \<and> c \<le> CHR ''Z'' \<or> CHR ''a'' \<le> c \<and> c \<le> CHR ''z'' \<or>
     CHR ''0'' \<le> c \<and> c \<le> CHR ''9'' \<or> c \<in> {CHR ''-'', CHR ''_'', CHR ''.'', CHR ''~''}"

definition encode_byte :: "char \<Rightarrow> string" where
  "encode_byte c =
     (if unreserved c then [c]
      else [CHR ''%'', hex_digit (of_char c div 16), hex_digit (of_char c mod 16)])"

definition encode_part_segment :: "string \<Rightarrow> string" where
  "encode_part_segment key = concat (map encode_byte key)"

subsection \<open>Drains as steps\<close>

text \<open>
  A drain between two of its atomic actions: it looked and chose a command, it claimed it, it is
  executing it. Several drains of a chat can run at once (one task per open chat, one worker when
  the sessions engine is wired); \<open>hr_phase k\<close> is that of the \<open>k\<close>th. The log lists the executions
  that were started.
\<close>

datatype drain_phase =
    Idle
  | Picked session_command_entry command_disposition
  | Claimed session_command_entry command_disposition
  | Running session_command_entry

record 's host_run =
  hr_world :: "'s world"
  hr_store :: docs_store
  hr_phase :: "nat \<Rightarrow> drain_phase"
  hr_log :: "string list"

text \<open>Ledger statements succeed here. The world may change at any time: other devices write to the
  document. In a crash every drain dies and the document comes back as anything, from a snapshot of
  whatever age; the ledger stays.\<close>

inductive host_step :: "'s sessions_api \<Rightarrow> drain_env \<Rightarrow> nat \<Rightarrow> 's host_run \<Rightarrow> 's host_run \<Rightarrow> bool"
  for api env n where
  step_pick:
    "k < n \<Longrightarrow> hr_phase r k = Idle \<Longrightarrow>
     next_command (ledger_has (hr_store r)) skipped (wd_commands (hr_world r)) = Some e \<Longrightarrow>
     d = dispose tk (ledger_has (hr_store r)) (hr_world r) e \<Longrightarrow>
     host_step api env n r (r\<lparr>hr_phase := (hr_phase r)(k := Picked e d)\<rparr>)"
| step_claim:
    "k < n \<Longrightarrow> hr_phase r k = Picked e d \<Longrightarrow>
     mark_processed None (ce_id e) now (hr_store r) = (Inr won, store) \<Longrightarrow>
     host_step api env n r (r\<lparr>hr_store := store, hr_phase := (hr_phase r)(k := Claimed e d)\<rparr>)"
| step_settle:
    "k < n \<Longrightarrow> hr_phase r k = Claimed e d \<Longrightarrow> d \<noteq> Execute \<Longrightarrow>
     settle api env tk d e skipped (hr_world r) = (skipped', w, []) \<Longrightarrow>
     host_step api env n r (r\<lparr>hr_world := w, hr_phase := (hr_phase r)(k := Idle)\<rparr>)"
| step_start:
    "k < n \<Longrightarrow> hr_phase r k = Claimed e Execute \<Longrightarrow>
     host_step api env n r
       (r\<lparr>hr_log := hr_log r @ [ce_id e], hr_phase := (hr_phase r)(k := Running e)\<rparr>)"
| step_finish:
    "k < n \<Longrightarrow> hr_phase r k = Running e \<Longrightarrow>
     host_step api env n r
       (r\<lparr>hr_world := run_command api env tk e (hr_world r), hr_phase := (hr_phase r)(k := Idle)\<rparr>)"
| step_world: "host_step api env n r (r\<lparr>hr_world := w\<rparr>)"
| step_crash: "host_step api env n r (r\<lparr>hr_world := w, hr_phase := \<lambda>_. Idle\<rparr>)"

inductive_cases host_stepE: "host_step api env n r r'"

abbreviation host_steps :: "'s sessions_api \<Rightarrow> drain_env \<Rightarrow> nat \<Rightarrow> 's host_run \<Rightarrow> 's host_run \<Rightarrow> bool" where
  "host_steps api env n \<equiv> (host_step api env n)\<^sup>*\<^sup>*"

definition fresh_run :: "'s world \<Rightarrow> docs_store \<Rightarrow> 's host_run" where
  "fresh_run w store = \<lparr>hr_world = w, hr_store = store, hr_phase = \<lambda>_. Idle, hr_log = []\<rparr>"

lemma next_command_SomeD:
  "next_command processed skipped cs = Some e \<Longrightarrow>
     e \<in> set cs \<and> ce_status e = CsPending \<and> \<not> processed (ce_id e)"
  unfolding next_command_def using find_SomeD by fastforce

subsection \<open>At most one execution\<close>

text \<open>The invariant of one drain: what ran is claimed, and what it holds has not run.\<close>

definition phase_ok :: "docs_store \<Rightarrow> string list \<Rightarrow> drain_phase \<Rightarrow> bool" where
  "phase_ok store log p =
     (case p of
        Picked e d \<Rightarrow> \<not> ledger_has store (ce_id e)
      | Claimed e d \<Rightarrow> ledger_has store (ce_id e) \<and> ce_id e \<notin> set log
      | _ \<Rightarrow> True)"

definition run_inv :: "docs_store \<Rightarrow> 's host_run \<Rightarrow> bool" where
  "run_inv store0 r \<longleftrightarrow>
     distinct (hr_log r) \<and>
     (\<forall>i. ledger_has store0 i \<longrightarrow> ledger_has (hr_store r) i) \<and>
     (\<forall>i \<in> set (hr_log r). ledger_has (hr_store r) i \<and> \<not> ledger_has store0 i) \<and>
     phase_ok (hr_store r) (hr_log r) (hr_phase r 0) \<and>
     (\<forall>e d. hr_phase r 0 = Claimed e d \<longrightarrow> \<not> ledger_has store0 (ce_id e))"

lemma mark_ledger:
  "mark_processed None i now store = (Inr won, store') \<Longrightarrow>
     ledger_has store' j \<longleftrightarrow> j = i \<or> ledger_has store j"
  by (auto simp: mark_processed_ok insert_or_ignore_has)

lemma host_step_inv:
  assumes "host_step api env 1 r r'" "run_inv store0 r"
  shows "run_inv store0 r'"
  using assms
proof (cases rule: host_step.cases)
  case (step_pick k skipped e d tk)
  with assms(2) next_command_SomeD [OF step_pick(4)] show ?thesis
    by (simp add: run_inv_def phase_ok_def)
next
  case (step_claim k e d now won store)
  with assms(2) show ?thesis
    by (auto simp: run_inv_def phase_ok_def mark_ledger [OF step_claim(4)])
next
  case (step_settle k e d tk skipped skipped' w)
  with assms(2) show ?thesis by (simp add: run_inv_def phase_ok_def)
next
  case (step_start k e)
  with assms(2) show ?thesis by (simp add: run_inv_def phase_ok_def)
next
  case (step_finish k e tk)
  with assms(2) show ?thesis by (simp add: run_inv_def phase_ok_def)
next
  case (step_world w)
  with assms(2) show ?thesis by (simp add: run_inv_def)
next
  case (step_crash w)
  with assms(2) show ?thesis by (simp add: run_inv_def phase_ok_def)
qed

lemma host_steps_inv:
  "host_steps api env 1 r r' \<Longrightarrow> run_inv store0 r \<Longrightarrow> run_inv store0 r'"
  by (induction rule: rtranclp_induct) (auto intro: host_step_inv)

lemma fresh_run_inv: "run_inv store (fresh_run w store)"
  by (simp add: run_inv_def fresh_run_def phase_ok_def)


subsection \<open>The loop is a chain of steps\<close>

definition no_faults :: "drain_tick \<Rightarrow> bool" where
  "no_faults tk \<longleftrightarrow> (\<forall>i. tk_read_fault tk i = None) \<and> tk_mark_fault tk = None"

lemma reads_no_faults: "no_faults tk \<Longrightarrow> reads_processed tk store = ledger_has store"
  by (rule ext) (simp add: reads_processed_def no_faults_def is_processed_ok)

lemma settle_executed:
  "settle api env tk d e skipped w = (skipped', w', ran') \<Longrightarrow>
     ran' = (if d = Execute then [ce_id e] else [])"
  by (cases d) (auto simp: settle_def)

lemma drain_iter_SomeE:
  assumes "no_faults tk" "drain_iter api env tk skipped w store = Some (skipped', w', store', ran')"
  obtains e won where "next_command (ledger_has store) skipped (wd_commands w) = Some e"
    "mark_processed None (ce_id e) (timestamp_millis (tk_now tk)) store = (Inr won, store')"
    "settle api env tk (dispose tk (ledger_has store) w e) e skipped w = (skipped', w', ran')"
proof -
  from assms(2) obtain e where e:
    "next_command (ledger_has store) skipped (wd_commands w) = Some e"
    by (auto simp: drain_iter_def reads_no_faults [OF assms(1)] split: option.splits)
  obtain won store1 where m: "mark_processed None (ce_id e) (timestamp_millis (tk_now tk)) store =
      (Inr won, store1)" by (simp add: mark_processed_ok)
  with assms e have "store' = store1"
    "settle api env tk (dispose tk (ledger_has store) w e) e skipped w = (skipped', w', ran')"
    by (auto simp: drain_iter_def reads_no_faults no_faults_def split_beta Let_def)
  with e m show thesis by (intro that) simp_all
qed

lemma drain_iter_steps:
  assumes "no_faults tk" "drain_iter api env tk skipped w store = Some (skipped', w', store', ran')"
  shows "host_steps api env 1
    \<lparr>hr_world = w, hr_store = store, hr_phase = \<lambda>_. Idle, hr_log = log\<rparr>
    \<lparr>hr_world = w', hr_store = store', hr_phase = \<lambda>_. Idle, hr_log = log @ ran'\<rparr>"
proof -
  from drain_iter_SomeE [OF assms] obtain e won where e:
    "next_command (ledger_has store) skipped (wd_commands w) = Some e"
    "mark_processed None (ce_id e) (timestamp_millis (tk_now tk)) store = (Inr won, store')"
    "settle api env tk (dispose tk (ledger_has store) w e) e skipped w = (skipped', w', ran')" .
  define d where "d = dispose tk (ledger_has store) w e"
  note st = e(3) [folded d_def]
  let ?r = "\<lambda>w store p log. \<lparr>hr_world = w, hr_store = store, hr_phase = (\<lambda>_. Idle)(0 := p),
    hr_log = log\<rparr>"
  have idle: "(\<lambda>_. Idle)(0 := Idle) = (\<lambda>_. Idle)" by (simp add: fun_eq_iff)
  have 1: "host_step api env 1 (?r w store Idle log) (?r w store (Picked e d) log)"
    using step_pick [of 0 1 "?r w store Idle log" skipped e d tk api env] e
    by (simp add: d_def)
  have 2: "host_step api env 1 (?r w store (Picked e d) log) (?r w store' (Claimed e d) log)"
    using step_claim [of 0 1 "?r w store (Picked e d) log" e d _ won store' api env] e(2) by simp
  have 3: "host_steps api env 1 (?r w store' (Claimed e d) log) (?r w' store' Idle (log @ ran'))"
  proof (cases "d = Execute")
    case True
    have "host_step api env 1 (?r w store' (Claimed e d) log)
        (?r w store' (Running e) (log @ [ce_id e]))"
      using step_start [of 0 1 "?r w store' (Claimed e d) log" e api env] True by simp
    moreover have "host_step api env 1 (?r w store' (Running e) (log @ [ce_id e]))
        (?r (run_command api env tk e w) store' Idle (log @ [ce_id e]))"
      using step_finish [of 0 1 "?r w store' (Running e) (log @ [ce_id e])" e api env tk] by simp
    ultimately show ?thesis using st True by (auto simp: settle_def)
  next
    case False
    have "host_step api env 1 (?r w store' (Claimed e d) log) (?r w' store' Idle log)"
      using step_settle [of 0 1 "?r w store' (Claimed e d) log" e d api env tk skipped skipped' w']
        st False settle_executed [OF st] by simp
    then show ?thesis using settle_executed [OF st] False by auto
  qed
  from 1 2 3 show ?thesis unfolding idle by (meson converse_rtranclp_into_rtranclp)
qed

lemma drain_loop_steps:
  assumes "\<And>n. no_faults (tick n)"
    "drain_loop api env tick n skipped w store = Some (w', store', ran')"
  shows "host_steps api env 1
    \<lparr>hr_world = w, hr_store = store, hr_phase = \<lambda>_. Idle, hr_log = log\<rparr>
    \<lparr>hr_world = w', hr_store = store', hr_phase = \<lambda>_. Idle, hr_log = log @ ran'\<rparr>"
  using assms(2)
proof (induction n arbitrary: skipped w store log ran')
  case (Suc n)
  show ?case
  proof (cases "drain_iter api env (tick n) skipped w store")
    case None
    with Suc.prems show ?thesis by simp
  next
    case (Some r)
    obtain sk1 w1 store1 ran1 where r: "r = (sk1, w1, store1, ran1)" by (metis prod_cases4)
    from Suc.prems Some r obtain rest where rest:
      "drain_loop api env tick n sk1 w1 store1 = Some (w', store', rest)" "ran' = ran1 @ rest"
      by auto
    from drain_iter_steps [OF assms(1) Some [unfolded r]] Suc.IH [OF rest(1)]
    show ?thesis unfolding rest(2) append_assoc [symmetric] by (rule rtranclp_trans)
  qed
qed simp


text \<open>An engine that accepts everything and leaves the world alone.\<close>

definition demo_api :: "unit sessions_api" where
  "demo_api =
     \<lparr>sx_dispatch = (\<lambda>_ _ _ _ w. (Inr ''run'', w)), sx_steer = (\<lambda>_ _ _ w. (Inr NotSteerable, w)),
      sx_interrupt = (\<lambda>_ w. (Inr True, w)), sx_respond_input = (\<lambda>_ _ _ w. (Inr False, w)),
      sx_last_request = (\<lambda>_ _. None)\<rparr>"

definition demo_env :: drain_env where
  "demo_env = \<lparr>de_chat_id = ''c1'', de_default_harness = Codex, de_worktree_root = (\<lambda>_. None)\<rparr>"

definition demo_tick :: drain_tick where
  "demo_tick = \<lparr>tk_now = 0, tk_new_id = ''n'', tk_read_fault = (\<lambda>_. None), tk_mark_fault = None\<rparr>"

definition demo_command :: "string \<Rightarrow> session_command_payload \<Rightarrow> session_command_entry" where
  "demo_command i p =
     \<lparr>ce_id = i, ce_payload = p, ce_issued_by = ''dev'', ce_issued_at = 0, ce_based_on = None,
      ce_expires_at = None, ce_status = CsPending, ce_resolution = None\<rparr>"

definition demo_world :: "unit world" where
  "demo_world =
     \<lparr>wd_commands = [demo_command ''k1'' CpInterrupt, demo_command ''k2'' (CpSteer ''go'' None)],
      wd_entries = [], wd_workspace = None, wd_engine = ()\<rparr>"

lemmas demo_defs =
  demo_api_def demo_env_def demo_tick_def demo_command_def demo_world_def empty_store_def

text \<open>The steer finds no run and no earlier request, so it is rejected.\<close>

lemma demo_drain:
  "\<exists>w' store'. drain_loop demo_api demo_env (\<lambda>_. demo_tick) 3 [] demo_world empty_store =
     Some (w', store', [''k1'', ''k2'']) \<and>
   map ce_status (wd_commands w') = [CsApplied, CsRejected]"
  by (simp add: eval_nat_numeral drain_iter_def next_command_def reads_processed_def demo_defs
      is_processed_ok ledger_has_def dispose_def evaluate_command_def has_newer_same_kind_def
      interrupt_moot_def effective_expiry_def command_default_ttl_ms_def i64_wrap_def
      timestamp_millis_def mark_processed_ok insert_or_ignore_def settle_def run_command_def
      execute_def execute_interrupt_def execute_steer_def prior_request_def
      request_from_chat_row_def resolve_command_def has_id_def)



subsection \<open>The drain completes\<close>

definition command_ids :: "'s world \<Rightarrow> string set" where
  "command_ids w = ce_id ` set (wd_commands w)"

definition todo :: "'s world \<Rightarrow> docs_store \<Rightarrow> string set" where
  "todo w store = {i \<in> command_ids w. \<not> ledger_has store i}"

lemma set_command_status_ids:
  "set_command_status i st r cs = Some cs' \<Longrightarrow> map ce_id cs' = map ce_id cs"
  by (induction cs arbitrary: cs') (auto split: if_splits)

lemma resolve_command_ids [simp]: "command_ids (resolve_command i st r w) = command_ids w"
  unfolding resolve_command_def command_ids_def
  using set_command_status_ids [of i st r "wd_commands w"]
  by (auto split: option.split) (metis image_set imageI list.set_map)+

lemma settle_ids:
  assumes "\<And>tk e w. command_ids (snd (execute api env tk e w)) \<subseteq> command_ids w"
    "settle api env tk d e skipped w = (skipped', w', ran')"
  shows "command_ids w' \<subseteq> command_ids w" "set skipped' \<subseteq> insert (ce_id e) (set skipped)"
  using assms(2) assms(1) [of tk e w]
  by (cases d; auto simp: settle_def run_command_def split_beta Let_def split: sum.splits)+

lemma drain_iter_todo:
  assumes "no_faults tk"
    "\<And>tk e w. command_ids (snd (execute api env tk e w)) \<subseteq> command_ids w"
    "drain_iter api env tk skipped w store = Some (skipped', w', store', ran')"
    "\<forall>i \<in> set skipped. ledger_has store i"
  shows "card (todo w' store') < card (todo w store)" "\<forall>i \<in> set skipped'. ledger_has store' i"
proof -
  from drain_iter_SomeE [OF assms(1,3)] obtain e won where e:
    "next_command (ledger_has store) skipped (wd_commands w) = Some e"
    "mark_processed None (ce_id e) (timestamp_millis (tk_now tk)) store = (Inr won, store')"
    "settle api env tk (dispose tk (ledger_has store) w e) e skipped w = (skipped', w', ran')" .
  have led: "ledger_has store' j \<longleftrightarrow> j = ce_id e \<or> ledger_has store j" for j
    by (rule mark_ledger [OF e(2)])
  note ids = settle_ids [OF assms(2) e(3)]
  have mem: "ce_id e \<in> todo w store"
    using next_command_SomeD [OF e(1)] by (auto simp: todo_def command_ids_def)
  have "todo w' store' \<subseteq> todo w store - {ce_id e}"
    using ids(1) by (auto simp: todo_def led)
  moreover have "finite (todo w store)" by (simp add: todo_def command_ids_def)
  ultimately show "card (todo w' store') < card (todo w store)"
    using mem by (meson card_Diff1_less card_mono finite_Diff le_less_trans)
  show "\<forall>i \<in> set skipped'. ledger_has store' i"
    using ids(2) assms(4) by (auto simp: led)
qed

text \<open>
C22. A drain ends and leaves nothing behind: when the ledger answers and no new command arrives while
  it runs, fuel above the number of unclaimed commands is enough, and afterwards every command still
  pending in the document is claimed in the ledger.
\<close>

theorem drain_completes:
  assumes "\<And>n. no_faults (tick n)"
    "\<And>tk e w. command_ids (snd (execute api env tk e w)) \<subseteq> command_ids w"
    "card (todo w store) < n"
  shows "\<exists>w' store' ran'. drain_loop api env tick n [] w store = Some (w', store', ran') \<and>
    (\<forall>c \<in> set (wd_commands w'). ce_status c = CsPending \<longrightarrow> ledger_has store' (ce_id c))"
proof -
  have "\<exists>w' store' ran'. drain_loop api env tick n skipped w store = Some (w', store', ran') \<and>
      (\<forall>c \<in> set (wd_commands w'). ce_status c = CsPending \<longrightarrow> ledger_has store' (ce_id c))"
    if "card (todo w store) < n" "\<forall>i \<in> set skipped. ledger_has store i" for skipped w store
    using that
  proof (induction n arbitrary: skipped w store)
    case (Suc n)
    show ?case
    proof (cases "drain_iter api env (tick n) skipped w store")
      case None
      then have "next_command (ledger_has store) skipped (wd_commands w) = None"
        using assms(1) [of n]
        by (auto simp: drain_iter_def reads_no_faults no_faults_def mark_processed_ok split_beta Let_def
            split: option.splits)
      then have "\<forall>c \<in> set (wd_commands w). ce_status c = CsPending \<longrightarrow> ledger_has store (ce_id c)"
        using Suc.prems(2) by (auto simp: next_command_def find_None_iff)
      with None show ?thesis by simp
    next
      case (Some r)
      obtain sk1 w1 store1 ran1 where r: "r = (sk1, w1, store1, ran1)" by (metis prod_cases4)
      note d = drain_iter_todo [OF assms(1) assms(2) Some [unfolded r] Suc.prems(2)]
      from Suc.IH [OF _ d(2)] d(1) Suc.prems(1) obtain w' store' rest where
        "drain_loop api env tick n sk1 w1 store1 = Some (w', store', rest)"
        "\<forall>c \<in> set (wd_commands w'). ce_status c = CsPending \<longrightarrow> ledger_has store' (ce_id c)"
        by (metis less_le_trans less_Suc_eq_le)
      with Some r show ?thesis by simp
    qed
  qed simp
  from this [OF assms(3), of "[]"] show ?thesis by simp
qed

lemma demo_api_quiet: "command_ids (snd (execute demo_api demo_env tk e w)) \<subseteq> command_ids w"
  by (auto simp: execute_def execute_run_def execute_steer_def execute_interrupt_def
      execute_respond_input_def dispatch_turn_def prepare_run_def demo_api_def command_ids_def
      Let_def split: session_command_payload.splits option.splits)

lemma drain_completes_witness:
  "\<exists>w' store' ran'. drain_loop demo_api demo_env (\<lambda>_. demo_tick) 3 [] demo_world empty_store =
     Some (w', store', ran') \<and>
   (\<forall>c \<in> set (wd_commands w'). ce_status c = CsPending \<longrightarrow> ledger_has store' (ce_id c))"
proof (rule drain_completes)
  show "no_faults demo_tick" by (simp add: no_faults_def demo_tick_def)
  have "todo demo_world empty_store \<subseteq> {''k1'', ''k2''}"
    by (auto simp: todo_def command_ids_def demo_world_def demo_command_def)
  from card_mono [OF _ this] show "card (todo demo_world empty_store) < 3" by simp
qed (rule demo_api_quiet)

subsection \<open>What the claim does not cover\<close>

definition phases2 :: "drain_phase \<Rightarrow> drain_phase \<Rightarrow> nat \<Rightarrow> drain_phase" where
  "phases2 p q k = (if k = 0 then p else if k = 1 then q else Idle)"

lemma phases2_simps [simp]:
  "phases2 p q 0 = p" "phases2 p q (Suc 0) = q" "(phases2 p q)(0 := p') = phases2 p' q"
  "(phases2 p q)(Suc 0 := q') = phases2 p q'" "(\<lambda>_. Idle) = phases2 Idle Idle"
  by (auto simp: phases2_def fun_eq_iff)

text \<open>
Two drains at once can execute a command twice: both look before either claims, and the drain
  does not look at the answer of the claim, which tells the second that it lost.
\<close>

theorem two_drains_execute_twice:
  "\<exists>r. host_steps demo_api demo_env 2 (fresh_run demo_world empty_store) r \<and>
     hr_log r = [''k1'', ''k1'']"
proof -
  let ?e = "demo_command ''k1'' CpInterrupt"
  let ?st = "snd (insert_or_ignore ''k1'' 0 empty_store)"
  let ?r = "\<lambda>store p q log. \<lparr>hr_world = demo_world, hr_store = store,
    hr_phase = phases2 p q, hr_log = log\<rparr>"
  let ?P = "Picked ?e Execute" and ?C = "Claimed ?e Execute"
  have nxt: "next_command (ledger_has empty_store) [] (wd_commands demo_world) = Some ?e"
    by (simp add: next_command_def demo_defs ledger_has_def)
  have disp: "Execute = dispose demo_tick (ledger_has empty_store) demo_world ?e"
    by (simp add: dispose_def evaluate_command_def has_newer_same_kind_def interrupt_moot_def
        demo_defs ledger_has_def effective_expiry_def command_default_ttl_ms_def i64_wrap_def
        timestamp_millis_def)
  have e: "ce_id ?e = ''k1''" by (simp add: demo_command_def)
  have init: "fresh_run demo_world empty_store = ?r empty_store Idle Idle []"
    by (simp add: fresh_run_def)
  note steps = step_pick [of 0 2 "?r empty_store Idle Idle []" "[]" ?e Execute demo_tick demo_api demo_env]
    step_pick [of 1 2 "?r empty_store ?P Idle []" "[]" ?e Execute demo_tick demo_api demo_env]
    step_claim [of 0 2 "?r empty_store ?P ?P []" ?e Execute 0 True ?st demo_api demo_env]
    step_claim [of 1 2 "?r ?st ?C ?P []" ?e Execute 0 False ?st demo_api demo_env]
    step_start [of 0 2 "?r ?st ?C ?C []" ?e demo_api demo_env]
    step_start [of 1 2 "?r ?st (Running ?e) ?C [''k1'']" ?e demo_api demo_env]
  have m: "mark_processed None ''k1'' 0 empty_store = (Inr True, ?st)"
    "mark_processed None ''k1'' 0 ?st = (Inr False, ?st)"
    by (simp_all add: mark_processed_ok insert_or_ignore_def empty_store_def ledger_has_def)
  have 1: "host_step demo_api demo_env 2 (?r empty_store Idle Idle []) (?r empty_store ?P Idle [])"
    using steps(1) nxt disp by simp
  have 2: "host_step demo_api demo_env 2 (?r empty_store ?P Idle []) (?r empty_store ?P ?P [])"
    using steps(2) nxt disp by simp
  have 3: "host_step demo_api demo_env 2 (?r empty_store ?P ?P []) (?r ?st ?C ?P [])"
    using steps(3) m(1) by (simp add: e)
  have 4: "host_step demo_api demo_env 2 (?r ?st ?C ?P []) (?r ?st ?C ?C [])"
    using steps(4) m(2) by (simp add: e)
  have 5: "host_step demo_api demo_env 2 (?r ?st ?C ?C []) (?r ?st (Running ?e) ?C [''k1''])"
    using steps(5) by (simp add: e)
  have 6: "host_step demo_api demo_env 2 (?r ?st (Running ?e) ?C [''k1''])
      (?r ?st (Running ?e) (Running ?e) [''k1'', ''k1''])"
    using steps(6) by (simp add: e)
  have "host_steps demo_api demo_env 2 (fresh_run demo_world empty_store)
      (?r ?st (Running ?e) (Running ?e) [''k1'', ''k1''])"
    unfolding init using 1 2 3 4 5 6 by (meson converse_rtranclp_into_rtranclp rtranclp.rtrancl_refl)
  then show ?thesis by (intro exI conjI) (assumption, simp)
qed

text \<open>
A ledger read that fails counts as not processed, and the claim's answer is not looked at: a
  command that ran before a crash and is pending again in the restored document runs once more.
\<close>

theorem read_fault_reexecutes:
  "\<exists>store w' store'. ledger_has store ''k1'' \<and>
     drain_loop demo_api demo_env (\<lambda>_. demo_tick\<lparr>tk_read_fault := \<lambda>_. Some (Sqlite ''busy'')\<rparr>) 2 []
       (demo_world\<lparr>wd_commands := [demo_command ''k1'' CpInterrupt]\<rparr>) store =
       Some (w', store', [''k1''])"
proof -
  let ?store = "empty_store\<lparr>ds_processed := [(''k1'', 0)]\<rparr>"
  have "\<exists>w' store'. drain_loop demo_api demo_env
       (\<lambda>_. demo_tick\<lparr>tk_read_fault := \<lambda>_. Some (Sqlite ''busy'')\<rparr>) 2 []
       (demo_world\<lparr>wd_commands := [demo_command ''k1'' CpInterrupt]\<rparr>) ?store =
       Some (w', store', [''k1''])"
    by (simp add: eval_nat_numeral drain_iter_def next_command_def reads_processed_def demo_defs
        is_processed_def dispose_def evaluate_command_def has_newer_same_kind_def
        interrupt_moot_def effective_expiry_def command_default_ttl_ms_def i64_wrap_def
        timestamp_millis_def mark_processed_ok insert_or_ignore_def settle_def run_command_def
        execute_def execute_interrupt_def resolve_command_def has_id_def)
  moreover have "ledger_has ?store ''k1''" by (simp add: ledger_has_def)
  ultimately show ?thesis by blast
qed

subsection \<open>Answers to orphaned questions\<close>

definition input_keys :: "session_message_entry list \<Rightarrow> string list" where
  "input_keys es = List.map_filter
     (\<lambda>p. case p of PInput i _ _ _ \<Rightarrow> Some i | _ \<Rightarrow> None) (concat (map me_parts es))"

definition part_open :: "string \<Rightarrow> message_part \<Rightarrow> bool" where
  "part_open rid p \<longleftrightarrow> (case p of PInput _ rid' _ r \<Rightarrow> rid' = rid \<and> \<not> r | _ \<Rightarrow> False)"

text \<open>What a document read gives: an input part's identifier is its request.\<close>

definition inputs_keyed :: "session_message_entry list \<Rightarrow> bool" where
  "inputs_keyed es \<longleftrightarrow>
     (\<forall>p \<in> set (concat (map me_parts es)). case p of PInput i rid _ _ \<Rightarrow> i = rid | _ \<Rightarrow> True)"

lemma open_part_None:
  "(case p of PInput _ rid' qs r \<Rightarrow> if rid' = rid \<and> \<not> r then Some qs else None | _ \<Rightarrow> None) = None \<longleftrightarrow>
     \<not> part_open rid p"
  by (cases p) (simp_all add: part_open_def)

lemma open_question_None:
  "open_question rid es = None \<longleftrightarrow>
     (\<forall>e \<in> set es. me_status e \<noteq> Some MsStreaming \<longrightarrow> (\<forall>p \<in> set (me_parts e). \<not> part_open rid p))"
  by (auto simp: open_question_def find_map_None open_part_None)

text \<open>Resolving in the flat list of parts.\<close>

lemma resolve_part_None: "resolve_part rid ps = None \<longleftrightarrow> (\<forall>p \<in> set ps. \<not> is_input rid p)"
  by (induction ps) auto

lemma resolve_part_split:
  "resolve_part rid ps = Some ps' \<Longrightarrow>
     \<exists>xs p ys. ps = xs @ p # ys \<and> is_input rid p \<and> ps' = xs @ mark_resolved p # ys"
proof (induction ps arbitrary: ps')
  case (Cons q ps)
  show ?case
  proof (cases "is_input rid q")
    case True
    with Cons.prems show ?thesis by (intro exI [of _ "[]"]) auto
  next
    case False
    with Cons.prems obtain ps1 where "resolve_part rid ps = Some ps1" "ps' = q # ps1" by auto
    with Cons.IH obtain xs p ys where "ps = xs @ p # ys" "is_input rid p"
      "ps' = q # xs @ mark_resolved p # ys" by blast
    then show ?thesis by (intro exI [of _ "q # xs"]) auto
  qed
qed simp

lemma doc_resolve_split:
  "doc_resolve_input rid es = Some es' \<Longrightarrow>
     \<exists>us e vs xs p ys. es = us @ e # vs \<and> me_parts e = xs @ p # ys \<and> is_input rid p \<and>
       es' = us @ e\<lparr>me_parts := xs @ mark_resolved p # ys\<rparr> # vs"
proof (induction es arbitrary: es')
  case (Cons e es)
  show ?case
  proof (cases "resolve_part rid (me_parts e)")
    case (Some ps)
    from resolve_part_split [OF this] Some Cons.prems show ?thesis
      by (intro exI [of _ "[]"]) auto
  next
    case None
    with Cons.prems obtain es1 where "doc_resolve_input rid es = Some es1" "es' = e # es1" by auto
    with Cons.IH obtain us f vs xs p ys where "es = us @ f # vs" "me_parts f = xs @ p # ys"
      "is_input rid p" "es' = e # us @ f\<lparr>me_parts := xs @ mark_resolved p # ys\<rparr> # vs" by blast
    then show ?thesis by (intro exI [of _ "e # us"]) auto
  qed
qed simp

lemma doc_resolve_None:
  "doc_resolve_input rid es = None \<longleftrightarrow> (\<forall>p \<in> set (concat (map me_parts es)). \<not> is_input rid p)"
proof (induction es)
  case (Cons e es)
  then show ?case
    using resolve_part_None [of rid "me_parts e"]
    by (cases "resolve_part rid (me_parts e)") auto
qed simp

lemma map_filter_append: "List.map_filter f (xs @ ys) = List.map_filter f xs @ List.map_filter f ys"
  by (simp add: List.map_filter_def)

lemma map_filter_mem: "y \<in> set (List.map_filter f xs) \<longleftrightarrow> (\<exists>x \<in> set xs. f x = Some y)"
  by (auto simp: List.map_filter_def intro: rev_image_eqI)

lemma is_input_key: "is_input rid p \<longleftrightarrow> (case p of PInput i _ _ _ \<Rightarrow> Some i | _ \<Rightarrow> None) = Some rid"
  by (cases p) (auto simp: is_input_def)

lemma mark_resolved_closed: "\<not> part_open rid (mark_resolved p)"
  by (cases p) (simp_all add: part_open_def)

lemma part_open_is_input:
  "part_open rid p \<Longrightarrow> (case p of PInput i r _ _ \<Rightarrow> i = r | _ \<Rightarrow> True) \<Longrightarrow> is_input rid p"
  by (cases p) (simp_all add: part_open_def is_input_def)

text \<open>
An open question of a dead run is answered once: the fallback can always stamp the question it
  found, and when question identifiers are unique the document then shows no open question with that
  identifier, so a second answer is refused with \<^verbatim>\<open>no pending input request\<close> and starts no turn.
\<close>

theorem orphan_answer_once:
  assumes "inputs_keyed es" "distinct (input_keys es)" "open_question rid es \<noteq> None"
  shows "\<exists>es'. doc_resolve_input rid es = Some es' \<and> open_question rid es' = None \<and>
    (\<forall>w. wd_entries w = es' \<and> sx_respond_input api (de_chat_id env) rid answers w = (Inr False, w) \<longrightarrow>
       execute_respond_input api env rid answers w =
         (Inr (CsRejected, Some ''no pending input request''), w))"
proof -
  have keyed: "case p of PInput i r _ _ \<Rightarrow> i = r | _ \<Rightarrow> True" if "e \<in> set es" "p \<in> set (me_parts e)" for e p
    using assms(1) that by (auto simp: inputs_keyed_def)
  from assms(3) obtain e0 p0 where "e0 \<in> set es" "p0 \<in> set (me_parts e0)" "part_open rid p0"
    by (auto simp: open_question_None simp del: not_None_eq)
  with part_open_is_input keyed have "doc_resolve_input rid es \<noteq> None"
    unfolding doc_resolve_None by fastforce
  then obtain es' where r: "doc_resolve_input rid es = Some es'" by blast
  from doc_resolve_split [OF r] obtain us e vs xs p ys where s: "es = us @ e # vs"
    "me_parts e = xs @ p # ys" "is_input rid p"
    "es' = us @ e\<lparr>me_parts := xs @ mark_resolved p # ys\<rparr> # vs" by blast
  let ?key = "\<lambda>p. case p of PInput i _ _ _ \<Rightarrow> Some i | _ \<Rightarrow> None"
  let ?pre = "concat (map me_parts us) @ xs" and ?post = "ys @ concat (map me_parts vs)"
  have "input_keys es = List.map_filter ?key ?pre @ rid # List.map_filter ?key ?post"
    using s(3) [unfolded is_input_key]
    by (simp add: input_keys_def s(1,2) map_filter_append List.map_filter_def)
  with assms(2) have "rid \<notin> set (List.map_filter ?key (?pre @ ?post))"
    by (simp add: map_filter_append)
  then have other: "\<not> is_input rid q" if "q \<in> set (?pre @ ?post)" for q
    using that unfolding is_input_key map_filter_mem by blast
  have "\<not> part_open rid q" if "f \<in> set es'" "q \<in> set (me_parts f)" for f q
  proof (cases "q = mark_resolved p")
    case False
    with that s(4) have "q \<in> set (?pre @ ?post)" by auto
    moreover from this have "case q of PInput i r _ _ \<Rightarrow> i = r | _ \<Rightarrow> True"
      using keyed [of e q] keyed by (auto simp: s(1,2))
    ultimately show ?thesis using other part_open_is_input by blast
  qed (simp add: mark_resolved_closed)
  then have "open_question rid es' = None" unfolding open_question_None by blast
  with r show ?thesis by (auto simp: execute_respond_input_def)
qed

lemma orphan_answer_once_witness:
  defines "es \<equiv> [\<lparr>me_id = ''m'', me_role = MrAssistant, me_parts = [PInput ''q'' ''q'' [] False],
     me_created_at = 0, me_device_id = ''dev'', me_status = Some MsAborted, me_continuation_of = None\<rparr>]"
  shows "\<exists>es'. doc_resolve_input ''q'' es = Some es' \<and> open_question ''q'' es' = None"
proof -
  have "inputs_keyed es" "distinct (input_keys es)" "open_question ''q'' es \<noteq> None"
    by (simp_all add: es_def inputs_keyed_def input_keys_def List.map_filter_def open_question_def)
  from orphan_answer_once [OF this, of demo_api demo_env "[]"] show ?thesis by blast
qed

subsection \<open>Part references\<close>

lemma of_char_hex_digit: "n < 16 \<Longrightarrow> of_char (hex_digit n) = (if n < 10 then 48 + n else 55 + n)"
  by (simp add: hex_digit_def digit_char_def)

lemma hex_digit_inj:
  assumes "m < 16" "n < 16" "hex_digit m = hex_digit n"
  shows "m = n"
proof -
  have "(if m < 10 then 48 + m else 55 + m) = (if n < 10 then 48 + n else 55 + n)"
    using of_char_hex_digit [OF assms(1)] of_char_hex_digit [OF assms(2)] assms(3) by metis
  then show ?thesis using assms(1,2) by (simp split: if_splits)
qed

lemma unreserved_hex:
  assumes "n < 16"
  shows "unreserved (hex_digit n)"
proof -
  have "(of_char (hex_digit n) :: nat) = (if n < 10 then 48 + n else 55 + n)"
    by (rule of_char_hex_digit [OF assms])
  then show ?thesis
    using assms unfolding unreserved_def less_eq_char_def by (simp split: if_splits)
qed

lemma byte_div: "(of_char (c :: char) :: nat) div 16 < 16"
proof -
  have "(of_char c :: nat) < 16 * 16" using nat_of_char_less_256 [of c] by simp
  then show ?thesis by (rule less_mult_imp_div_less)
qed

lemma percent_reserved: "\<not> unreserved (CHR ''%'')"
  by (simp add: unreserved_def less_eq_char_def)

lemma encode_byte_prefix:
  assumes "encode_byte a @ u = encode_byte b @ v"
  shows "a = b \<and> u = v"
proof -
  note p = percent_reserved
  consider "unreserved a" "unreserved b" | "\<not> unreserved a" "\<not> unreserved b"
    | "unreserved a \<noteq> unreserved b" by blast
  then show ?thesis
  proof cases
    case 2
    then have "(of_char a :: nat) div 16 = of_char b div 16" "(of_char a :: nat) mod 16 = of_char b mod 16"
      "u = v"
      using assms hex_digit_inj [OF byte_div [of a] byte_div [of b]]
        hex_digit_inj [of "of_char a mod 16" "of_char b mod 16"]
      by (simp_all add: encode_byte_def)
    then show ?thesis by (metis div_mult_mod_eq of_char_eq_iff)
  next
    case 3
    with assms p show ?thesis by (auto simp: encode_byte_def split: if_splits)
  qed (use assms in \<open>auto simp: encode_byte_def\<close>)
qed

text \<open>
Percent encoding of a part's key loses nothing: two keys with the same encoding are equal, and
  the encoding holds no character that means something in a URL.
\<close>

theorem encode_part_segment_inj:
  "(encode_part_segment a = encode_part_segment b \<longleftrightarrow> a = b) \<and>
   (\<forall>c \<in> set (encode_part_segment a). unreserved c \<or> c = CHR ''%'')"
proof
  have "encode_part_segment a = encode_part_segment b \<Longrightarrow> a = b"
  proof (induction a arbitrary: b)
    case Nil
    then show ?case by (cases b) (auto simp: encode_part_segment_def encode_byte_def split: if_splits)
  next
    case (Cons x a)
    then obtain y b' where b: "b = y # b'"
      by (cases b) (auto simp: encode_part_segment_def encode_byte_def split: if_splits)
    from Cons.prems encode_byte_prefix have "x = y" "encode_part_segment a = encode_part_segment b'"
      unfolding b encode_part_segment_def list.map concat.simps by blast+
    with Cons.IH b show ?case by blast
  qed
  then show "encode_part_segment a = encode_part_segment b \<longleftrightarrow> a = b" by blast
  have "unreserved c \<or> c = CHR ''%''" if "c \<in> set (encode_byte x)" for c x
    using that byte_div [of x] unreserved_hex
    by (auto simp: encode_byte_def split: if_splits)
  then show "\<forall>c \<in> set (encode_part_segment a). unreserved c \<or> c = CHR ''%''"
    by (auto simp: encode_part_segment_def)
qed

end
