(* ===== verification/Engine_Chat_Sink.thy ===== *)
theory Engine_Chat_Sink
  imports Sync_Chat_Client Engine_Drain "HOL-Library.Sublist"
begin

text \<open>
  The engine's side of a chat room, \<^verbatim>\<open>crates/engine/src/chat2_host.rs\<close>: the sink that imports remote
  bytes and persists document and cursor together, and the resumable download of a checkpoint. The
  document library (\<^verbatim>\<open>loro\<close>) is a parameter: its import, export and version-vector test. The database
  reports its faults from a list.
\<close>

subsection \<open>The sink\<close>

record ('l, 'v) loro_api =
  lo_import :: "bytes \<Rightarrow> 'l \<Rightarrow> (string + unit) \<times> 'l"
  lo_export :: "'l \<Rightarrow> string + bytes"
  lo_vv_decode :: "bytes \<Rightarrow> 'v option"
  lo_includes :: "'l \<Rightarrow> 'v \<Rightarrow> bool"

text \<open>\<^verbatim>\<open>es_doc\<close> is what the weak reference upgrades to.\<close>

record 'l engine_sink =
  es_doc :: "'l option"
  es_store :: docs_store
  es_faults :: "sql_fault list"
  es_now :: int
  es_chat_id :: string

definition sink_fault :: "'l engine_sink \<Rightarrow> sql_fault" where
  "sink_fault d = (if es_faults d = [] then None else hd (es_faults d))"

definition persist_with_cursor :: "('l, 'v) loro_api \<Rightarrow> nat \<Rightarrow> 'l engine_sink \<Rightarrow> 'l engine_sink" where
  "persist_with_cursor L cursor d =
     (case es_doc d of
        None \<Rightarrow> d
      | Some l \<Rightarrow>
          (case lo_export L l of
             Inl _ \<Rightarrow> d
           | Inr bs \<Rightarrow>
               d\<lparr>es_store := snd (save_snapshot_with_cursor (sink_fault d) (es_chat_id d) bs
                    (of_nat cursor) (of_nat chat2_doc_epoch) (es_now d) (es_store d)),
                 es_faults := tl (es_faults d)\<rparr>))"

definition apply_row :: "('l, 'v) loro_api \<Rightarrow> bytes \<Rightarrow> nat \<Rightarrow> 'l engine_sink \<Rightarrow> 'l engine_sink" where
  "apply_row L bs cursor d =
     (case es_doc d of
        None \<Rightarrow> d
      | Some l \<Rightarrow> persist_with_cursor L cursor (d\<lparr>es_doc := Some (snd (lo_import L bs l))\<rparr>))"

definition apply_checkpoint :: "('l, 'v) loro_api \<Rightarrow> bytes \<Rightarrow> nat \<Rightarrow> 'l engine_sink \<Rightarrow>
    (string + unit) \<times> 'l engine_sink" where
  "apply_checkpoint L bs cursor d =
     (case es_doc d of
        None \<Rightarrow> (Inl ''doc evicted'', d)
      | Some l \<Rightarrow>
          (case lo_import L bs l of
             (Inl e, l') \<Rightarrow> (Inl (''checkpoint import: '' @ e), d\<lparr>es_doc := Some l'\<rparr>)
           | (Inr _, l') \<Rightarrow> (Inr (), persist_with_cursor L cursor (d\<lparr>es_doc := Some l'\<rparr>))))"

definition contains_frontier :: "('l, 'v) loro_api \<Rightarrow> bytes \<Rightarrow> 'l engine_sink \<Rightarrow> bool" where
  "contains_frontier L frontier d =
     (case es_doc d of
        None \<Rightarrow> True
      | Some l \<Rightarrow>
          if frontier = [] then True
          else (case lo_vv_decode L frontier of None \<Rightarrow> False | Some vv \<Rightarrow> lo_includes L l vv))"

definition advance_cursor :: "('l, 'v) loro_api \<Rightarrow> nat \<Rightarrow> 'l engine_sink \<Rightarrow> 'l engine_sink" where
  "advance_cursor L cursor d = persist_with_cursor L cursor d"

definition engine_chat_sink :: "('l, 'v) loro_api \<Rightarrow> 'l engine_sink chat_doc_sink" where
  "engine_chat_sink L =
     \<lparr>sk_apply_row = apply_row L, sk_apply_checkpoint = apply_checkpoint L,
      sk_contains_frontier = contains_frontier L, sk_advance_cursor = advance_cursor L\<rparr>"

subsection \<open>The checkpoint download\<close>

text \<open>
  One attempt of the download: the bearer at that moment, and what the server answers to a request
  with or without a range, that is, nothing, or the value of the sequence header, the status and the
  chunks of the body, which may break off.
\<close>

datatype http_answer = SendFailed | Answered "string option" nat "bytes list" bool

type_synonym fetch_attempt = "bytes option \<times> (nat option \<Rightarrow> http_answer)"

fun fetch_loop :: "fetch_attempt list \<Rightarrow> bytes \<Rightarrow> string option \<Rightarrow> sync_error + bytes" where
  "fetch_loop [] got seen_seq = Inl (Protocol ''checkpoint fetch exhausted resume attempts'')"
| "fetch_loop ((bearer, server) # attempts) got seen_seq =
     (case bearer of
        None \<Rightarrow> Inl (Auth ''signed out'')
      | Some _ \<Rightarrow>
          (case server (if got = [] then None else Some (length got)) of
             SendFailed \<Rightarrow> fetch_loop attempts got seen_seq
           | Answered seq status body whole \<Rightarrow>
               if seq \<noteq> None \<and> seen_seq \<noteq> None \<and> seq \<noteq> seen_seq then fetch_loop attempts [] seq
               else
                 let seen_seq = (if seq \<noteq> None then seq else seen_seq)
                 in if status = 416 then Inl (Protocol ''checkpoint range beyond end'')
                    else if status = 404 then Inl (Protocol ''no checkpoint'')
                    else if status \<noteq> 200 \<and> status \<noteq> 206
                    then Inl (Protocol (''checkpoint HTTP '' @ dec status))
                    else
                      let got = (if status = 200 then [] else got) @ concat body
                      in if whole then Inr got else fetch_loop attempts got seen_seq))"

definition fetch :: "fetch_attempt list \<Rightarrow> sync_error + bytes" where
  "fetch attempts = fetch_loop (take 4 attempts) [] None"

subsection \<open>The engine's sink is a sink\<close>

text \<open>The cursor a restart reads back.\<close>

definition stored_cursor :: "'l engine_sink \<Rightarrow> nat option" where
  "stored_cursor d =
     (case load_snapshot_with_cursor None (es_store d) (es_chat_id d) of
        Inr (Some (_, cursor, _)) \<Rightarrow> Some (unat cursor)
      | _ \<Rightarrow> None)"

definition sink_ok :: "('l, 'v) loro_api \<Rightarrow> 'l engine_sink \<Rightarrow> bool" where
  "sink_ok L d \<longleftrightarrow> es_doc d \<noteq> None \<and> (\<forall>l. \<not> isl (lo_export L l)) \<and> sink_fault d = None"

lemma saved_reads_back:
  "load_snapshot_with_cursor None (snd (save_snapshot_with_cursor None i bs c e now s)) i = Inr (Some (bs, c, e))"
  by (simp add: load_snapshot_with_cursor_def save_snapshot_with_cursor_def exec_sql_def query_sql_def update_conv')

lemma refused_save: "snd (save_snapshot_with_cursor (Some e) i bs c ep now s) = s"
  by (simp add: save_snapshot_with_cursor_def exec_sql_def)

lemma persist_cases:
  assumes "es_doc d = Some l"
  shows "(lo_export L l = Inr bs \<and> sink_fault d = None \<longrightarrow>
      load_snapshot_with_cursor None (es_store (persist_with_cursor L c d)) (es_chat_id d) =
        Inr (Some (bs, of_nat c, of_nat chat2_doc_epoch))) \<and>
    (isl (lo_export L l) \<or> sink_fault d \<noteq> None \<longrightarrow> es_store (persist_with_cursor L c d) = es_store d)"
  using assms by (auto simp: persist_with_cursor_def saved_reads_back refused_save split: sum.splits)

lemma persist_keeps [simp]:
  "es_chat_id (persist_with_cursor L c d) = es_chat_id d" "es_doc (persist_with_cursor L c d) = es_doc d"
  by (simp_all add: persist_with_cursor_def split: option.splits sum.splits)

lemma unat_cursor: "c < 2 ^ 64 \<Longrightarrow> unat (of_nat c :: 64 word) = c"
  by (simp add: unat_of_nat)

lemma persist_stored: "sink_ok L d \<Longrightarrow> c < 2 ^ 64 \<Longrightarrow> stored_cursor (persist_with_cursor L c d) = Some c"
proof -
  assume ok: "sink_ok L d" and c: "c < 2 ^ 64"
  then obtain l bs where "es_doc d = Some l" "lo_export L l = Inr bs" "sink_fault d = None"
    by (metis sink_ok_def not_Some_eq isl_def sum.exhaust)
  with persist_cases [of d l L bs c] c show ?thesis by (simp add: stored_cursor_def unat_cursor)
qed

lemma persist_weak: "c < 2 ^ 64 \<Longrightarrow> stored_cursor (persist_with_cursor L c d) \<in> {stored_cursor d, Some c}"
proof (cases "es_doc d")
  case None
  then show ?thesis by (simp add: persist_with_cursor_def)
next
  case (Some l)
  assume c: "c < 2 ^ 64"
  show ?thesis
  proof (cases "isl (lo_export L l) \<or> sink_fault d \<noteq> None")
    case True
    with persist_cases [OF Some] have "es_store (persist_with_cursor L c d) = es_store d" by blast
    then show ?thesis by (simp add: stored_cursor_def)
  next
    case False
    then obtain bs where "lo_export L l = Inr bs" "sink_fault d = None" by (cases "lo_export L l") auto
    with persist_cases [OF Some, of L bs c] c show ?thesis by (simp add: stored_cursor_def unat_cursor)
  qed
qed

lemma stored_doc_update [simp]: "stored_cursor (d\<lparr>es_doc := x\<rparr>) = stored_cursor d"
  by (simp add: stored_cursor_def)

lemma ok_doc_update: "sink_ok L d \<Longrightarrow> sink_ok L (d\<lparr>es_doc := Some l\<rparr>)"
  by (simp add: sink_ok_def sink_fault_def split: if_splits)

interpretation eng: doc_sink "engine_chat_sink L" stored_cursor "sink_ok L" for L
proof
  fix d :: "'a engine_sink" and c :: nat and b :: bytes
  assume ok: "sink_ok L d" and c: "c < 2 ^ 64"
  then obtain l where l: "es_doc d = Some l" by (auto simp: sink_ok_def)
  show "stored_cursor (sk_apply_row (engine_chat_sink L) b c d) = Some c"
    using persist_stored [OF ok_doc_update [OF ok] c] by (simp add: engine_chat_sink_def apply_row_def l)
  show "stored_cursor (sk_advance_cursor (engine_chat_sink L) c d) = Some c"
    using persist_stored [OF ok c] by (simp add: engine_chat_sink_def advance_cursor_def)
next
  fix d :: "'a engine_sink" and c :: nat and b :: bytes
  assume c: "c < 2 ^ 64"
  show "stored_cursor (sk_apply_row (engine_chat_sink L) b c d) \<in> {stored_cursor d, Some c}"
  proof (cases "es_doc d")
    case (Some l)
    then show ?thesis
      using persist_weak [OF c, of L "d\<lparr>es_doc := Some (snd (lo_import L b l))\<rparr>"]
      by (simp add: engine_chat_sink_def apply_row_def)
  qed (simp add: engine_chat_sink_def apply_row_def)
  show "stored_cursor (sk_advance_cursor (engine_chat_sink L) c d) \<in> {stored_cursor d, Some c}"
    using persist_weak [OF c] by (simp add: engine_chat_sink_def advance_cursor_def)
next
  fix b c d u d'
  assume a: "sk_apply_checkpoint (engine_chat_sink L) b c d = (Inr u, d')" and c: "c < 2 ^ 64"
  then obtain l l' v where l: "es_doc d = Some l" "lo_import L b l = (Inr v, l')"
    and d': "d' = persist_with_cursor L c (d\<lparr>es_doc := Some l'\<rparr>)"
    by (auto simp: engine_chat_sink_def apply_checkpoint_def split: option.splits prod.splits sum.splits)
  show "stored_cursor d' \<in> {stored_cursor d, Some c}"
    unfolding d' using persist_weak [OF c, of L "d\<lparr>es_doc := Some l'\<rparr>"] by simp
next
  fix b c d e d'
  assume "sk_apply_checkpoint (engine_chat_sink L) b c d = (Inl e, d')"
  then show "stored_cursor d' = stored_cursor d"
    by (auto simp: engine_chat_sink_def apply_checkpoint_def split: option.splits prod.splits sum.splits)
qed

subsection \<open>Document and cursor in one write\<close>

text \<open>
C34. A row is persisted whole or not at all: when the sink takes a row, a restart reads either the
  snapshot of before, or the export of the document after the import together with the row's sequence
  number and the current epoch. It is the second when the export succeeds and the database takes the
  write, also when the import itself was refused.
\<close>

theorem row_persists_whole:
  assumes "es_doc d = Some l"
  shows "let d' = sk_apply_row (engine_chat_sink L) bs seq d in
    (\<exists>out. lo_export L (snd (lo_import L bs l)) = Inr out \<and>
      load_snapshot_with_cursor None (es_store d') (es_chat_id d) =
        Inr (Some (out, of_nat seq, of_nat chat2_doc_epoch)))
    \<or> (es_store d' = es_store d \<and>
       (isl (lo_export L (snd (lo_import L bs l))) \<or> sink_fault d \<noteq> None))"
proof -
  let ?l = "snd (lo_import L bs l)"
  let ?d = "d\<lparr>es_doc := Some ?l\<rparr>"
  have d': "sk_apply_row (engine_chat_sink L) bs seq d = persist_with_cursor L seq ?d"
    using assms(1) by (simp add: engine_chat_sink_def apply_row_def)
  have s: "es_doc ?d = Some ?l" by simp
  have f: "sink_fault ?d = sink_fault d" by (simp add: sink_fault_def)
  show ?thesis
  proof (cases "isl (lo_export L ?l) \<or> sink_fault d \<noteq> None")
    case True
    have "es_store (persist_with_cursor L seq ?d) = es_store ?d"
      using persist_cases [OF s, of L undefined seq] True unfolding f by blast
    with True show ?thesis by (simp add: d' Let_def)
  next
    case False
    then obtain out where out: "lo_export L ?l = Inr out" "sink_fault d = None" by (cases "lo_export L ?l") auto
    have "load_snapshot_with_cursor None (es_store (persist_with_cursor L seq ?d)) (es_chat_id ?d) =
        Inr (Some (out, of_nat seq, of_nat chat2_doc_epoch))"
      using persist_cases [OF s, of L out seq] out unfolding f by blast
    with out show ?thesis by (simp add: d' Let_def)
  qed
qed

definition demo_loro :: "(bytes list, unit) loro_api" where
  "demo_loro = \<lparr>lo_import = (\<lambda>b l. if b = '''' then (Inl ''malformed'', l) else (Inr (), l @ [b])),
     lo_export = (\<lambda>l. Inr (concat l)), lo_vv_decode = (\<lambda>_. Some ()), lo_includes = (\<lambda>_ _. True)\<rparr>"

definition demo_sink_state :: "bytes list engine_sink" where
  "demo_sink_state = \<lparr>es_doc = Some [''ab''], es_store = empty_store, es_faults = [], es_now = 7, es_chat_id = ''c''\<rparr>"

lemma row_persists_whole_witness:
  "load_snapshot_with_cursor None
     (es_store (sk_apply_row (engine_chat_sink demo_loro) ''cd'' 4 demo_sink_state)) ''c'' =
   Inr (Some (''abcd'', 4, of_nat chat2_doc_epoch))"
  using row_persists_whole [of demo_sink_state "[''ab'']" demo_loro "''cd''" 4]
  by (simp add: demo_sink_state_def demo_loro_def sink_fault_def Let_def)

subsection \<open>The stored cursor and the client's\<close>

text \<open>The client is not behind what a restart would read, and the checkpoint it waits for has a
  64-bit number.\<close>

definition sink_inv :: "'l engine_sink run_state \<Rightarrow> bool" where
  "sink_inv r \<longleftrightarrow>
     cc_cursor (rs_client r) < 2 ^ 64 \<and>
     (case stored_cursor (cc_doc (rs_client r)) of None \<Rightarrow> True | Some n \<Rightarrow> n \<le> cc_cursor (rs_client r)) \<and>
     (case rs_phase r of InSession (Fetching _ st) \<Rightarrow> st_checkpoint_seq st < 2 ^ 64 | _ \<Rightarrow> True)"

lemma sink_inv_behind: "sink_inv r \<Longrightarrow> eng.behind (rs_client r)"
  by (simp add: sink_inv_def eng.behind_def)

lemma plan_bound:
  "plan_catch_up c st has = RowsOnly after \<Longrightarrow> after < c \<Longrightarrow> st_checkpoint_seq st < 2 ^ 64 \<Longrightarrow> after < 2 ^ 64"
  by (auto simp: plan_catch_up_def Let_def split: if_splits)

lemma request_rows_phase: "fst (request_rows env c a s) \<in> {Inl Reconnect, Inr Backfilling}"
  by (auto simp: request_rows_def Let_def split: prod.splits bool.splits)

lemma fetched_phase: "fst (on_fetched env c st r s) \<in> {Inl Reconnect, Inr Backfilling}"
proof -
  have "fst (request_rows env c a s) = Inl Reconnect \<or> fst (request_rows env c a s) = Inr Backfilling" for a s
    using request_rows_phase [of env c a s] by simp
  then show ?thesis by (simp add: on_fetched_def split: sum.split prod.split)
qed

lemma state_behind:
  assumes "eng.behind s" "cc_cursor s \<le> cc_cursor (snd (on_state env c f s))"
  shows "eng.behind (snd (on_state env c f s)) \<and>
    (\<forall>c' st. fst (on_state env c f s) = Inr (Fetching c' st) \<longrightarrow> st_checkpoint_seq st < 2 ^ 64)"
proof (cases "state_header_of (wf_header f)")
  case None
  with assms show ?thesis by (simp add: on_state_def)
next
  case (Some st)
  let ?s = "joined c st s"
  let ?has = "st_checkpoint_size st = 0 \<or> sk_contains_frontier (ce_sink env) (wf_payload f) (cc_doc s)"
  note b = state_header_seq [OF Some]
  show ?thesis
  proof (cases "plan_catch_up c st ?has")
    case (RowsOnly after)
    have e: "on_state env c f s = request_rows env c after ?s"
      by (simp add: on_state_def Some Let_def RowsOnly)
    have "cc_cursor (snd (on_state env c f s)) < 2 ^ 64"
      using assms(1) plan_bound [OF RowsOnly _ b] unfolding e request_rows_frame
      by (auto simp: eng.behind_def)
    moreover have "cc_doc (snd (on_state env c f s)) = cc_doc s" by (rule on_state_frame)
    ultimately have "eng.behind (snd (on_state env c f s))"
      using eng.behind_step [OF assms(1), of "snd (on_state env c f s)" 0] assms(2) by simp
    moreover have "fst (on_state env c f s) \<noteq> Inr (Fetching c' st')" for c' st'
      using request_rows_phase [of env c after ?s] unfolding e by auto
    ultimately show ?thesis by blast
  next
    case (CheckpointThenRows after)
    have e: "on_state env c f s = (Inr (Fetching c st), ?s)"
      by (simp add: on_state_def Some Let_def CheckpointThenRows)
    show ?thesis unfolding e using eng.behind_same [OF assms(1), of ?s] b by simp
  qed
qed

lemma backfill_behind:
  assumes "ce_sink env = engine_chat_sink L" "eng.behind s"
  shows "eng.behind (snd (on_backfill_bytes env now bs s)) \<and>
    (\<forall>c' st. fst (on_backfill_bytes env now bs s) \<noteq> Inr (Fetching c' st))"
proof (cases "decode (ce_from_slice env) bs")
  case (Some f)
  obtain b s' where h: "handle_frame env now f s = (b, s')" by fastforce
  have "eng.behind s'" using eng.frame_behind [OF assms, of now f] h by simp
  moreover have "eng.behind (snd (caught_up env now q s))" for q
    by (rule eng.behind_same [OF assms(2)]) (simp_all add: caught_up_frame)
  moreover have "fst (caught_up env now q s) \<noteq> Inr (Fetching c' st)" for q c' st
    by (simp add: caught_up_def Let_def split: prod.splits bool.splits)
  ultimately show ?thesis
    using assms(2) by (cases b) (auto simp: on_backfill_bytes_def Some h split: option.splits)
qed (use assms in \<open>simp add: on_backfill_bytes_def\<close>)

lemma steady_phase: "steady_step env now i l d t s = Some res \<Longrightarrow> fst res \<noteq> Inr (Fetching c st)"
  by (cases i) (auto simp: on_steady_bytes_def keep_def probe_turn_def
      split: option.splits if_splits list.splits prod.splits bool.splits)

lemma session_behind:
  assumes env: "ce_sink env = engine_chat_sink L" and st: "session_step env now i ph s = Some res"
    and b: "eng.behind s" and le: "cc_cursor s \<le> cc_cursor (snd res)"
    and cp: "\<And>c q. ph = Fetching c q \<Longrightarrow> st_checkpoint_seq q < 2 ^ 64"
  shows "eng.behind (snd res) \<and> (\<forall>c q. fst res = Inr (Fetching c q) \<longrightarrow> st_checkpoint_seq q < 2 ^ 64)"
proof (cases ph)
  case (Handshake c)
  show ?thesis
  proof (cases "\<exists>bs f. i = InBytes bs \<and> decode (ce_from_slice env) bs = Some f \<and> wf_kind f = ft_state")
    case True
    then obtain bs f where "res = on_state env c f s"
      using st Handshake by (auto simp: on_handshake_bytes_def)
    with state_behind [OF b] le show ?thesis by simp
  next
    case False
    with st Handshake b show ?thesis
      by (auto simp: on_handshake_bytes_def split: session_input.splits option.splits if_splits)
  qed
next
  case (Fetching c q)
  show ?thesis
  proof (cases "\<exists>r. i = InFetched r")
    case True
    then obtain r where res: "res = on_fetched env c q r s" using st Fetching by auto
    have "fst res \<noteq> Inr (Fetching c' q')" for c' q'
      using fetched_phase [of env c q r s] by (auto simp: res)
    with eng.fetched_behind [OF env b _ cp [OF Fetching], of c r] le show ?thesis by (simp add: res)
  next
    case False
    with st Fetching b show ?thesis by (auto split: session_input.splits if_splits)
  qed
next
  case Backfilling
  show ?thesis
  proof (cases "\<exists>bs. i = InBytes bs")
    case True
    then obtain bs where "res = on_backfill_bytes env now bs s" using st Backfilling by auto
    with backfill_behind [OF env b] show ?thesis by simp
  next
    case False
    with st Backfilling b show ?thesis by (auto split: session_input.splits)
  qed
next
  case (Steady l d t)
  with st have "steady_step env now i l d t s = Some res" by simp
  from eng.steady_behind [OF env b this] steady_phase [OF this] show ?thesis by simp
qed

lemma enter_session_phase:
  "rs_phase (enter_session res r) = InSession ph \<Longrightarrow> fst res = Inr ph"
  by (auto simp: enter_session_def session_over_def Let_def split: prod.splits sum.splits session_end.splits if_splits)

lemma sink_inv_enter:
  assumes "eng.behind (snd res)" "\<forall>c q. fst res = Inr (Fetching c q) \<longrightarrow> st_checkpoint_seq q < 2 ^ 64"
  shows "sink_inv (enter_session res r)"
proof -
  have "eng.behind (rs_client (enter_session res r))"
    by (rule eng.behind_same [OF assms(1)]) (simp_all add: enter_session_client)
  moreover have "case rs_phase (enter_session res r) of InSession (Fetching _ st) \<Rightarrow>
      st_checkpoint_seq st < 2 ^ 64 | _ \<Rightarrow> True"
    using enter_session_phase [of res r] assms(2) by (auto split: run_phase.splits session_phase.splits)
  ultimately show ?thesis by (simp add: sink_inv_def eng.behind_def)
qed

lemma sink_inv_host:
  assumes "sink_inv r" "cc_doc (rs_client r') = cc_doc (rs_client r)"
    "cc_cursor (rs_client r') = cc_cursor (rs_client r)"
    "rs_phase r' = rs_phase r \<or> rs_phase r' \<in> {Dialing, BackingOff, Returned}"
  shows "sink_inv r'"
  using assms(1,4) unfolding sink_inv_def assms(2,3) by auto

lemma sink_inv_host_op:
  assumes "sink_inv r" "cc_doc (f (rs_client r)) = cc_doc (rs_client r)"
    "cc_cursor (f (rs_client r)) = cc_cursor (rs_client r)"
  shows "sink_inv (host_op f r)"
  using assms by (intro sink_inv_host [OF assms(1)]) (simp_all add: host_op_def)

text \<open>
C10. With the engine's sink the cursor a restart reads is never ahead of the client's: every step of the
  client that does not lower its cursor keeps the stored cursor at or below it, whatever the frames,
  the faults of the database and the failures of the document library, so a crash repeats rows at
  worst. (A step lowers the cursor when the server is behind it or offers an older checkpoint.)
\<close>

theorem stored_never_ahead:
  assumes "ce_sink env = engine_chat_sink L" "run_step env i r = Some r'" "sink_inv r"
    "cc_cursor (rs_client r) \<le> cc_cursor (rs_client r')"
  shows "sink_inv r'"
proof -
  obtain now j where i: "i = (now, j)" by fastforce
  show ?thesis
  proof (cases j)
    case (Dialed n)
    let ?s = "(rs_client r)\<lparr>cc_sends_left := n\<rparr>"
    from Dialed assms(2) i have r': "r' = enter_session (start_session env ?s) r" by (simp split: if_splits)
    have "eng.behind (snd (start_session env ?s))"
      by (rule eng.behind_same [OF sink_inv_behind [OF assms(3)]]) (simp_all add: start_session_frame)
    moreover have "fst (start_session env ?s) \<noteq> Inr (Fetching c q)" for c q
      by (simp add: start_session_def Let_def split: prod.splits bool.splits)
    ultimately show ?thesis unfolding r' by (intro sink_inv_enter) auto
  next
    case (Session k)
    with assms(2) i obtain ph res where d: "rs_phase r = InSession ph"
      and st: "session_step env now k ph (rs_client r) = Some res"
      and r': "r' = enter_session res r" by (auto split: run_phase.splits)
    have "cc_cursor (rs_client r) \<le> cc_cursor (snd res)"
      using assms(4) by (simp add: r' enter_session_client)
    moreover have "ph = Fetching c q \<Longrightarrow> st_checkpoint_seq q < 2 ^ 64" for c q
      using assms(3) d by (simp add: sink_inv_def)
    ultimately have "eng.behind (snd res) \<and>
        (\<forall>c q. fst res = Inr (Fetching c q) \<longrightarrow> st_checkpoint_seq q < 2 ^ 64)"
      by (rule session_behind [OF assms(1) st sink_inv_behind [OF assms(3)]])
    then show ?thesis unfolding r' by (intro sink_inv_enter) auto
  next
    case (WaitEnds w)
    with assms(2) i have "r' = wait_ends w r" by (simp split: if_splits)
    then show ?thesis by (intro sink_inv_host [OF assms(3)]) (auto simp: wait_ends_def)
  next
    case (DialFailed e)
    with assms(2) i have "r' = dial_failed e r" by (simp split: if_splits)
    then show ?thesis by (intro sink_inv_host [OF assms(3)]) (auto simp: dial_failed_def)
  next
    case DialTimedOut
    with assms(2) i have "r' = dial_failed (WebSocket ''connect timeout'') r" by (simp split: if_splits)
    then show ?thesis by (intro sink_inv_host [OF assms(3)]) (auto simp: dial_failed_def)
  qed (use assms(2) i in \<open>auto intro!: sink_inv_host_op [OF assms(3)] simp: enqueue_update_def
      send_presence_def probe_now_def redial_now_def note_checkpoint_def shutdown_now_def\<close>)
qed

lemma stored_never_ahead_witness:
  "sink_inv (host_op (enqueue_update ''b'' ''x'') (run_start 4 (apply_row demo_loro ''cd'' 4 demo_sink_state)))"
proof (rule stored_never_ahead [of "demo_chat_env (engine_chat_sink demo_loro)"])
  show "ce_sink (demo_chat_env (engine_chat_sink demo_loro)) = engine_chat_sink demo_loro" by simp
  show "run_step (demo_chat_env (engine_chat_sink demo_loro)) (0, HostUpdate ''b'' ''x'')
      (run_start 4 (apply_row demo_loro ''cd'' 4 demo_sink_state)) =
    Some (host_op (enqueue_update ''b'' ''x'') (run_start 4 (apply_row demo_loro ''cd'' 4 demo_sink_state)))"
    by simp
  have "stored_cursor (apply_row demo_loro ''cd'' 4 demo_sink_state) = Some 4"
    using eng.row_stored [of demo_loro demo_sink_state 4 "''cd''"]
    by (simp add: engine_chat_sink_def sink_ok_def demo_sink_state_def demo_loro_def sink_fault_def)
  then show "sink_inv (run_start 4 (apply_row demo_loro ''cd'' 4 demo_sink_state))"
    by (simp add: sink_inv_def run_start_def connect_with_tuned_def)
qed (simp add: host_op_def enqueue_update_def)

subsection \<open>A reset room and a restart\<close>

text \<open>
When the server is found behind the cursor, the client starts over from 0 in memory, but nothing is
  written: the stored cursor keeps its old value until the next row or acknowledgement. A restart
  before that reads it back, and when other devices have meanwhile brought the room past it, the
  client asks for the rows after it: here the client with stored cursor 2 joins an emptied room and
  stops; the room grows to three new rows; the next client requests the third only.
\<close>

definition reset_sink_state :: "bytes list engine_sink" where
  "reset_sink_state = apply_row demo_loro ''cd'' 2 demo_sink_state"

lemma reset_stored: "stored_cursor reset_sink_state = Some 2"
  unfolding reset_sink_state_def
  using eng.row_stored [of demo_loro demo_sink_state 2 "''cd''"]
  by (simp add: engine_chat_sink_def sink_ok_def demo_sink_state_def demo_loro_def sink_fault_def)

lemma reset_not_persisted:
  "\<exists>r1 r2. run_all (demo_chat_env (engine_chat_sink demo_loro))
      [(0, Dialed 9), (0, Session (InBytes (demo_frame ft_state ''empty room'' '''')))]
      (run_start 2 reset_sink_state) = Some r1 \<and>
    cc_cursor (rs_client r1) = 0 \<and> cc_server_resets (rs_client r1) = 1 \<and>
    stored_cursor (cc_doc (rs_client r1)) = Some 2 \<and>
    run_all (demo_chat_env (engine_chat_sink demo_loro))
      [(9, Dialed 9), (9, Session (InBytes (demo_frame ft_state ''room at 3'' '''')))]
      (run_start (the (stored_cursor (cc_doc (rs_client r1)))) (cc_doc (rs_client r1))) = Some r2 \<and>
    cc_server_resets (rs_client r2) = 0 \<and>
    last (cc_sent (rs_client r2)) =
      encode (ce_to_vec (demo_chat_env (engine_chat_sink demo_loro))) ft_rows_req (rows_req_header 2 False) []"
  by (simp add: run_start_def connect_with_tuned_def decode_demo_num frame_types demo_reads
      enter_session_def start_session_def pipe_send_def on_handshake_bytes_def on_state_def joined_def
      plan_catch_up_def request_rows_def emit_def Let_def reset_stored)

subsection \<open>The download never splices\<close>

text \<open>
  What the room promises of a checkpoint answer: it carries the sequence of the checkpoint it serves;
  a 200 brings a prefix of that blob and a 206 a prefix of its rest from the requested byte, all of it
  when the body is whole.
\<close>

definition honest :: "(string \<Rightarrow> bytes) \<Rightarrow> fetch_attempt \<Rightarrow> bool" where
  "honest blob a \<longleftrightarrow>
     (\<forall>range. case snd a range of
        SendFailed \<Rightarrow> True
      | Answered sq status body whole \<Rightarrow>
          (\<exists>q. sq = Some q \<and>
            (let full = (if status = 206 then drop (case range of None \<Rightarrow> 0 | Some n \<Rightarrow> n) (blob q) else blob q)
             in status \<in> {200, 206} \<longrightarrow> prefix (concat body) full \<and> (whole \<longrightarrow> concat body = full))))"

lemma prefix_resume:
  "prefix got b \<Longrightarrow> prefix xs (drop (length got) b) \<Longrightarrow> prefix (got @ xs) b"
  by (auto simp: prefix_def)

lemma fetch_loop_whole:
  assumes "\<forall>a \<in> set attempts. honest blob a" "got = [] \<or> (\<exists>q. seen = Some q \<and> prefix got (blob q))"
    "fetch_loop attempts got seen = Inr bs"
  shows "\<exists>q. bs = blob q"
  using assms
proof (induction attempts arbitrary: got seen)
  case (Cons a attempts)
  obtain bearer server where a: "a = (bearer, server)" by fastforce
  let ?range = "if got = [] then None else Some (length got)"
  from Cons.prems(3) obtain tok where b: "bearer = Some tok" by (auto simp: a split: option.splits)
  have rest: "\<forall>a \<in> set attempts. honest blob a" using Cons.prems(1) by simp
  show ?case
  proof (cases "server ?range")
    case SendFailed
    with Cons.prems(3) b have "fetch_loop attempts got seen = Inr bs" by (simp add: a)
    from Cons.IH [OF rest Cons.prems(2) this] show ?thesis .
  next
    case (Answered sq status body whole)
    from Cons.prems(1) have "honest blob (bearer, server)" by (simp add: a)
    with Answered obtain q where sq: "sq = Some q"
      and h: "status = 200 \<Longrightarrow> prefix (concat body) (blob q) \<and> (whole \<longrightarrow> concat body = blob q)"
        "status = 206 \<Longrightarrow> prefix (concat body) (drop (length got) (blob q)) \<and>
          (whole \<longrightarrow> concat body = drop (length got) (blob q))"
      unfolding honest_def by (auto simp: Let_def dest!: spec [of _ ?range] split: if_splits)
    show ?thesis
    proof (cases "seen \<noteq> None \<and> seen \<noteq> Some q")
      case True
      then obtain y where "seen = Some y" "q \<noteq> y" by auto
      with Cons.prems(3) b Answered sq have "fetch_loop attempts [] (Some q) = Inr bs" by (simp add: a)
      from Cons.IH [OF rest _ this] show ?thesis by simp
    next
      case False
      let ?got = "(if status = 200 then [] else got) @ concat body"
      from False Cons.prems(3) b Answered sq have st: "status = 200 \<or> status = 206"
        and r: "(if whole then Inr ?got else fetch_loop attempts ?got (Some q)) = Inr bs"
        by (auto simp: a split: if_splits)
      have old: "prefix got (blob q)" using Cons.prems(2) False by auto
      have new: "prefix ?got (blob q)" using st h old prefix_resume by auto
      show ?thesis
      proof (cases whole)
        case True
        have "?got = blob q"
          using st h True old by (auto simp: prefix_def)
        with r True show ?thesis by auto
      next
        case False
        with r have "fetch_loop attempts ?got (Some q) = Inr bs" by simp
        from Cons.IH [OF rest _ this] new show ?thesis by blast
      qed
    qed
  qed
qed simp


definition demo_attempt :: "nat \<Rightarrow> fetch_attempt" where
  "demo_attempt n = (Some ''token'', \<lambda>range.
     Answered (Some ''7'') (if range = None then 200 else 206)
       [take n (drop (case range of None \<Rightarrow> 0 | Some k \<Rightarrow> k) ''abcd'')]
       (length (drop (case range of None \<Rightarrow> 0 | Some k \<Rightarrow> k) ''abcd'') \<le> n))"


end
