(* ===== verification/Sync_Registry_Client.thy ===== *)
theory Sync_Registry_Client
  imports Doc_Registry Sync_Chat_Client
begin

text \<open>
  The client of the workspace registry room, \<^verbatim>\<open>crates/sync/src/registry.rs\<close>: hello and state, pushes
  and acknowledgements of the replica's pending batches, merged rows, presence beats, probes, and the
  reconnect loop. It works on the replica of the theory \<open>Doc_Registry\<close>. Conventions are those of the
  chat client: the socket is the frames sent and the sends left, everything that arrives is an input.
  The JSON text codec of the frames is a parameter; \<open>wall\<close> is the reading of \<^verbatim>\<open>epoch_ms()\<close>.
\<close>

subsection \<open>Data\<close>

definition presence_ttl :: nat where "presence_ttl = 30000"
definition reg_probe_deadline :: nat where "reg_probe_deadline = 10000"
definition reg_backoff_base :: nat where "reg_backoff_base = 250"
definition reg_backoff_cap :: nat where "reg_backoff_cap = 30000"
definition reg_probe_quiet_default :: nat where "reg_probe_quiet_default = 900000"

datatype registry_notice = RnConnected | RnDisconnected | RnApplied | RnPresence

datatype client_frame = CfHello "nat option" string | CfPush string "row_op list" | CfPresence int
  | CfProbe

datatype server_frame = SfState nat bool nat "registry_row list" "(string \<times> int) list"
  | SfRows nat "registry_row list" | SfAck string nat nat | SfPresence string int | SfProbeOk nat
  | SfError string string

record reg_env =
  re_to_string :: "client_frame \<Rightarrow> string"
  re_from_str :: "string \<Rightarrow> server_frame option"
  re_device :: string
  re_probe_quiet :: nat

record reg_client =
  rc_doc :: registry_doc
  rc_presence :: "(string \<times> int \<times> nat) list"
  rc_connected :: bool
  rc_last_pushed_ms :: int
  rc_last_ack_ms :: int
  rc_rejoins :: nat
  rc_probes :: nat
  rc_full_resyncs :: nat
  rc_disconnects :: nat
  rc_rejected :: nat
  rc_nudge :: bool
  rc_probe :: bool
  rc_redial :: bool
  rc_shutdown :: bool
  rc_presence_out :: "int list"
  rc_ready :: "(sync_error + unit) option"
  rc_events :: "registry_notice list"
  rc_sent :: "string list"
  rc_sends_left :: nat

definition reg_connect :: "registry_doc \<Rightarrow> reg_client" where
  "reg_connect d =
     \<lparr>rc_doc = d, rc_presence = [], rc_connected = False, rc_last_pushed_ms = 0, rc_last_ack_ms = 0,
      rc_rejoins = 0, rc_probes = 0, rc_full_resyncs = 0, rc_disconnects = 0, rc_rejected = 0,
      rc_nudge = False, rc_probe = False, rc_redial = False, rc_shutdown = False,
      rc_presence_out = [], rc_ready = None, rc_events = [], rc_sent = [], rc_sends_left = 0\<rparr>"

subsection \<open>Operations of the host\<close>

definition reg_emit :: "registry_notice \<Rightarrow> reg_client \<Rightarrow> reg_client" where
  "reg_emit e s = s\<lparr>rc_events := rc_events s @ [e]\<rparr>"

definition nudge :: "reg_client \<Rightarrow> reg_client" where
  "nudge s = s\<lparr>rc_nudge := True\<rparr>"

definition set_presence :: "int \<Rightarrow> reg_client \<Rightarrow> reg_client" where
  "set_presence at s =
     (if length (rc_presence_out s) < 4 then s\<lparr>rc_presence_out := rc_presence_out s @ [at]\<rparr> else s)"

definition presence :: "nat \<Rightarrow> reg_client \<Rightarrow> (string \<times> int) list" where
  "presence now s =
     map (\<lambda>(device, at, seen). (device, at))
       (filter (\<lambda>(device, at, seen). now - seen < presence_ttl) (rc_presence s))"

definition reg_probe_now :: "reg_client \<Rightarrow> reg_client" where
  "reg_probe_now s = s\<lparr>rc_probe := True\<rparr>"

definition reg_redial_now :: "reg_client \<Rightarrow> reg_client" where
  "reg_redial_now s = s\<lparr>rc_redial := True\<rparr>"

definition reg_shutdown_now :: "reg_client \<Rightarrow> reg_client" where
  "reg_shutdown_now s = s\<lparr>rc_shutdown := True\<rparr>"

record room_stats =
  rm_connected :: bool
  rm_last_pushed_ms :: int
  rm_last_ack_ms :: int
  rm_rejoins :: nat
  rm_probes :: nat
  rm_full_resyncs :: nat
  rm_disconnects :: nat
  rm_rejected :: nat

definition reg_stats :: "reg_client \<Rightarrow> room_stats" where
  "reg_stats s =
     \<lparr>rm_connected = rc_connected s, rm_last_pushed_ms = rc_last_pushed_ms s,
      rm_last_ack_ms = rc_last_ack_ms s, rm_rejoins = rc_rejoins s, rm_probes = rc_probes s,
      rm_full_resyncs = rc_full_resyncs s, rm_disconnects = rc_disconnects s,
      rm_rejected = rc_rejected s\<rparr>"

subsection \<open>Sending\<close>

definition reg_send :: "string \<Rightarrow> reg_client \<Rightarrow> bool \<times> reg_client" where
  "reg_send frame s =
     (case rc_sends_left s of
        0 \<Rightarrow> (False, s)
      | Suc n \<Rightarrow> (True, s\<lparr>rc_sends_left := n, rc_sent := rc_sent s @ [frame]\<rparr>))"

fun reg_send_all :: "string list \<Rightarrow> reg_client \<Rightarrow> bool \<times> reg_client" where
  "reg_send_all [] s = (True, s)"
| "reg_send_all (f # fs) s =
     (case reg_send f s of (False, s') \<Rightarrow> (False, s') | (True, s') \<Rightarrow> reg_send_all fs s')"

definition push_text :: "reg_env \<Rightarrow> pending_batch \<Rightarrow> string" where
  "push_text env b = re_to_string env (CfPush (pb_batch b) (pb_ops b))"

definition reg_push_pending :: "reg_env \<Rightarrow> reg_client \<Rightarrow> bool \<times> reg_client" where
  "reg_push_pending env s =
     (let (d, batches) = take_pushable (rc_doc s)
      in reg_send_all (map (push_text env) batches) (s\<lparr>rc_doc := d\<rparr>))"

definition reg_send_probe :: "reg_env \<Rightarrow> nat \<Rightarrow> nat option \<Rightarrow> reg_client \<Rightarrow>
    bool \<times> nat option \<times> reg_client" where
  "reg_send_probe env now deadline s =
     (case reg_send (re_to_string env CfProbe) (s\<lparr>rc_probes := rc_probes s + 1\<rparr>) of
        (False, s') \<Rightarrow> (False, deadline, s')
      | (True, s') \<Rightarrow>
          (True, (if deadline = None then Some (now + reg_probe_deadline) else deadline), s'))"

subsection \<open>Inbound frames\<close>

definition note_presence :: "nat \<Rightarrow> (string \<times> int) list \<Rightarrow> reg_client \<Rightarrow> reg_client" where
  "note_presence now beats s =
     s\<lparr>rc_presence := fold (\<lambda>(device, at). AList.update device (at, now)) beats (rc_presence s)\<rparr>"

fun on_server_frame :: "nat \<Rightarrow> int \<Rightarrow> server_frame \<Rightarrow> reg_client \<Rightarrow> reg_client" where
  "on_server_frame now wall (SfRows seq rows) s =
     reg_emit RnApplied (s\<lparr>rc_doc := apply_rows seq rows (rc_doc s), rc_last_pushed_ms := wall\<rparr>)"
| "on_server_frame now wall (SfAck batch seq applied) s =
     reg_emit RnApplied (s\<lparr>rc_doc := fst (ack_batch batch seq (rc_doc s)), rc_last_ack_ms := wall\<rparr>)"
| "on_server_frame now wall (SfPresence device at) s =
     reg_emit RnPresence (note_presence now [(device, at)] s)"
| "on_server_frame now wall (SfProbeOk seq) s = s\<lparr>rc_last_pushed_ms := wall\<rparr>"
| "on_server_frame now wall (SfState seq full gc_floor rows beats) s =
     reg_emit RnApplied
       (note_presence now beats (s\<lparr>rc_doc := fst (apply_state seq full gc_floor rows (rc_doc s))\<rparr>))"
| "on_server_frame now wall (SfError code message) s = s\<lparr>rc_rejected := rc_rejected s + 1\<rparr>"

definition reg_handle_frame :: "reg_env \<Rightarrow> nat \<Rightarrow> int \<Rightarrow> string \<Rightarrow> reg_client \<Rightarrow> bool \<times> reg_client" where
  "reg_handle_frame env now wall msg s =
     (case re_from_str env msg of
        None \<Rightarrow> (False, s)
      | Some frame \<Rightarrow> (True, on_server_frame now wall frame s))"

subsection \<open>One session\<close>

datatype reg_phase = RegHandshake | RegSteady nat "nat option" nat

type_synonym reg_result = "(session_end + reg_phase) \<times> reg_client"

definition hello_cursor :: "registry_doc \<Rightarrow> nat option" where
  "hello_cursor d =
     (if rd_server_seq d = 0 \<and> pending_len d = 0 \<and> rd_generation d = 0 then None
      else Some (rd_server_seq d))"

definition reg_start_session :: "reg_env \<Rightarrow> reg_client \<Rightarrow> reg_result" where
  "reg_start_session env s =
     (case reg_send (re_to_string env (CfHello (hello_cursor (rc_doc s)) (re_device env))) s of
        (False, s') \<Rightarrow> (Inl Reconnect, s')
      | (True, s') \<Rightarrow> (Inr RegHandshake, s'))"

definition reg_joined :: "nat \<Rightarrow> int \<Rightarrow> nat \<Rightarrow> bool \<Rightarrow> nat \<Rightarrow> registry_row list \<Rightarrow>
    (string \<times> int) list \<Rightarrow> reg_client \<Rightarrow> reg_client" where
  "reg_joined now wall seq full gc_floor rows beats s =
     (let s = s\<lparr>rc_doc := fst (apply_state seq full gc_floor rows (rc_doc s))\<rparr>;
          s = (if full then s\<lparr>rc_full_resyncs := rc_full_resyncs s + 1\<rparr> else s);
          s = note_presence now beats s;
          s = s\<lparr>rc_connected := True, rc_last_pushed_ms := wall\<rparr>;
          s = (if rc_ready s = None then s\<lparr>rc_ready := Some (Inr ())\<rparr>
               else s\<lparr>rc_rejoins := rc_rejoins s + 1\<rparr>)
      in reg_emit RnApplied (reg_emit RnConnected s))"

definition reg_keep :: "reg_phase \<Rightarrow> bool \<times> reg_client \<Rightarrow> reg_result" where
  "reg_keep ph r = (case r of (True, s) \<Rightarrow> (Inr ph, s) | (False, s) \<Rightarrow> (Inl Reconnect, s))"

definition reg_handshake_text :: "reg_env \<Rightarrow> nat \<Rightarrow> int \<Rightarrow> string \<Rightarrow> reg_client \<Rightarrow> reg_result" where
  "reg_handshake_text env now wall msg s =
     (case re_from_str env msg of
        None \<Rightarrow> (Inl Reconnect, s)
      | Some (SfState seq full gc_floor rows beats) \<Rightarrow>
          reg_keep (RegSteady now None now)
            (reg_push_pending env (reg_joined now wall seq full gc_floor rows beats s))
      | Some _ \<Rightarrow> (Inr RegHandshake, s))"

definition reg_probe_turn :: "reg_env \<Rightarrow> nat \<Rightarrow> nat \<Rightarrow> nat option \<Rightarrow> reg_client \<Rightarrow> reg_result" where
  "reg_probe_turn env now last_frame deadline s =
     (case reg_send_probe env now deadline s of
        (ok, deadline', s') \<Rightarrow> reg_keep (RegSteady last_frame deadline' now) (ok, s'))"

text \<open>A turn of the steady loop; a branch whose guard does not hold is not enabled.\<close>

fun reg_steady_step :: "reg_env \<Rightarrow> nat \<Rightarrow> int \<Rightarrow> session_input \<Rightarrow> nat \<Rightarrow> nat option \<Rightarrow> nat \<Rightarrow>
    reg_client \<Rightarrow> reg_result option" where
  "reg_steady_step env now wall (InBytes msg) last_frame deadline turn s =
     Some (reg_keep (RegSteady now None now) (reg_handle_frame env now wall msg s))"
| "reg_steady_step env now wall InClosed last_frame deadline turn s = Some (Inl Reconnect, s)"
| "reg_steady_step env now wall InNudge last_frame deadline turn s =
     (if rc_nudge s
      then Some (reg_keep (RegSteady last_frame deadline now) (reg_push_pending env (s\<lparr>rc_nudge := False\<rparr>)))
      else None)"
| "reg_steady_step env now wall InBeat last_frame deadline turn s =
     (case rc_presence_out s of
        [] \<Rightarrow> None
      | at # rest \<Rightarrow>
          Some (reg_keep (RegSteady last_frame deadline now)
                 (reg_send (re_to_string env (CfPresence at)) (s\<lparr>rc_presence_out := rest\<rparr>))))"
| "reg_steady_step env now wall InProbe last_frame deadline turn s =
     (if rc_probe s then Some (reg_probe_turn env now last_frame deadline (s\<lparr>rc_probe := False\<rparr>))
      else None)"
| "reg_steady_step env now wall InRedial last_frame deadline turn s =
     (if rc_redial s then Some (Inl Reconnect, s\<lparr>rc_redial := False\<rparr>) else None)"
| "reg_steady_step env now wall InQuiet last_frame deadline turn s =
     (if last_frame + re_probe_quiet env \<le> now then Some (reg_probe_turn env now now deadline s)
      else None)"
| "reg_steady_step env now wall InDeadline last_frame deadline turn s =
     (if (case deadline of Some t \<Rightarrow> t | None \<Rightarrow> turn + a_day) \<le> now
      then Some (Inl Reconnect, s) else None)"
| "reg_steady_step env now wall InShutdown last_frame deadline turn s =
     (if rc_shutdown s then Some (Inl Stop, s) else None)"
| "reg_steady_step env now wall i last_frame deadline turn s = None"

fun reg_session_step :: "reg_env \<Rightarrow> nat \<Rightarrow> int \<Rightarrow> session_input \<Rightarrow> reg_phase \<Rightarrow> reg_client \<Rightarrow>
    reg_result option" where
  "reg_session_step env now wall i RegHandshake s =
     (case i of
        InBytes msg \<Rightarrow> Some (reg_handshake_text env now wall msg s)
      | InClosed \<Rightarrow> Some (Inl Reconnect, s)
      | InTimeout \<Rightarrow> Some (Inl Reconnect, s)
      | _ \<Rightarrow> None)"
| "reg_session_step env now wall i (RegSteady last_frame deadline turn) s =
     reg_steady_step env now wall i last_frame deadline turn s"

subsection \<open>The reconnect loop\<close>

datatype reg_run_phase = RegDialing | RegSession reg_phase | RegBackingOff | RegReturned

datatype reg_input = RegDialed nat | RegDialFailed sync_error | RegDialTimedOut
  | RegInput session_input | RegWaitEnds waited | RegEdit registry_event | RegNudge | RegBeat int
  | RegProbe | RegRedial | RegShutdown

record reg_run =
  rr_phase :: reg_run_phase
  rr_backoff :: nat
  rr_client :: reg_client

fun reg_next_backoff :: "waited \<Rightarrow> nat \<Rightarrow> nat" where
  "reg_next_backoff Elapsed backoff = min (backoff * 2) reg_backoff_cap"
| "reg_next_backoff Woke backoff = reg_backoff_base"
| "reg_next_backoff Shutdown backoff = backoff"

definition reg_dial_failed :: "sync_error \<Rightarrow> reg_run \<Rightarrow> reg_run" where
  "reg_dial_failed err r =
     (if rc_ready (rr_client r) = None
      then r\<lparr>rr_phase := RegReturned, rr_client := (rr_client r)\<lparr>rc_ready := Some (Inl err)\<rparr>\<rparr>
      else r\<lparr>rr_phase := RegBackingOff\<rparr>)"

definition reg_session_over :: "session_end \<Rightarrow> reg_run \<Rightarrow> reg_run" where
  "reg_session_over e r =
     (case e of
        Stop \<Rightarrow> r\<lparr>rr_phase := RegReturned\<rparr>
      | Reconnect \<Rightarrow>
          let s = (rr_client r)\<lparr>rc_doc := mark_disconnected (rc_doc (rr_client r))\<rparr>;
              was_joined = rc_connected s;
              s = reg_emit RnDisconnected
                    (s\<lparr>rc_connected := False, rc_disconnects := rc_disconnects s + 1\<rparr>)
          in if rc_ready s = None
             then r\<lparr>rr_phase := RegReturned,
                    rr_client := s\<lparr>rc_ready := Some (Inl (Protocol ''registry handshake failed''))\<rparr>\<rparr>
             else r\<lparr>rr_phase := RegBackingOff, rr_client := s,
                    rr_backoff := (if was_joined then reg_backoff_base else rr_backoff r)\<rparr>)"

definition reg_enter :: "reg_result \<Rightarrow> reg_run \<Rightarrow> reg_run" where
  "reg_enter res r =
     (case res of
        (Inl e, s) \<Rightarrow> reg_session_over e (r\<lparr>rr_client := s\<rparr>)
      | (Inr ph, s) \<Rightarrow> r\<lparr>rr_phase := RegSession ph, rr_client := s\<rparr>)"

definition reg_wait_ends :: "waited \<Rightarrow> reg_run \<Rightarrow> reg_run" where
  "reg_wait_ends w r =
     (if w = Shutdown \<or> rc_shutdown (rr_client r) then r\<lparr>rr_phase := RegReturned\<rparr>
      else r\<lparr>rr_phase := RegDialing, rr_backoff := reg_next_backoff w (rr_backoff r)\<rparr>)"

definition reg_host_op :: "(reg_client \<Rightarrow> reg_client) \<Rightarrow> reg_run \<Rightarrow> reg_run" where
  "reg_host_op f r = r\<lparr>rr_client := f (rr_client r)\<rparr>"

text \<open>The host edits the replica under its own lock: local writes only.\<close>

fun local_edit :: "registry_event \<Rightarrow> bool" where
  "local_edit (RvWrite _ _ _ _) = True"
| "local_edit (RvDelete _) = True"
| "local_edit (RvEnqueue _) = True"
| "local_edit _ = False"

definition edit_doc :: "registry_event \<Rightarrow> reg_client \<Rightarrow> reg_client" where
  "edit_doc ev s = s\<lparr>rc_doc := reg_apply ev (rc_doc s)\<rparr>"

fun reg_run_step :: "reg_env \<Rightarrow> nat \<times> int \<times> reg_input \<Rightarrow> reg_run \<Rightarrow> reg_run option" where
  "reg_run_step env (now, wall, RegEdit ev) r =
     (if local_edit ev then Some (reg_host_op (edit_doc ev) r) else None)"
| "reg_run_step env (now, wall, RegNudge) r = Some (reg_host_op nudge r)"
| "reg_run_step env (now, wall, RegBeat at) r = Some (reg_host_op (set_presence at) r)"
| "reg_run_step env (now, wall, RegProbe) r = Some (reg_host_op reg_probe_now r)"
| "reg_run_step env (now, wall, RegRedial) r = Some (reg_host_op reg_redial_now r)"
| "reg_run_step env (now, wall, RegShutdown) r = Some (reg_host_op reg_shutdown_now r)"
| "reg_run_step env (now, wall, RegDialed sends) r =
     (if rr_phase r = RegDialing
      then Some (reg_enter (reg_start_session env ((rr_client r)\<lparr>rc_sends_left := sends\<rparr>)) r)
      else None)"
| "reg_run_step env (now, wall, RegDialFailed err) r =
     (if rr_phase r = RegDialing then Some (reg_dial_failed err r) else None)"
| "reg_run_step env (now, wall, RegDialTimedOut) r =
     (if rr_phase r = RegDialing then Some (reg_dial_failed (WebSocket ''connect timeout'') r) else None)"
| "reg_run_step env (now, wall, RegWaitEnds w) r =
     (if rr_phase r = RegBackingOff \<and> (w = Shutdown \<longrightarrow> rc_shutdown (rr_client r))
      then Some (reg_wait_ends w r) else None)"
| "reg_run_step env (now, wall, RegInput i) r =
     (case rr_phase r of
        RegSession ph \<Rightarrow>
          map_option (\<lambda>res. reg_enter res r) (reg_session_step env now wall i ph (rr_client r))
      | _ \<Rightarrow> None)"

fun reg_run_all :: "reg_env \<Rightarrow> (nat \<times> int \<times> reg_input) list \<Rightarrow> reg_run \<Rightarrow> reg_run option" where
  "reg_run_all env [] r = Some r"
| "reg_run_all env (i # is) r =
     (case reg_run_step env i r of None \<Rightarrow> None | Some r' \<Rightarrow> reg_run_all env is r')"

definition reg_run_start :: "registry_doc \<Rightarrow> reg_run" where
  "reg_run_start d = \<lparr>rr_phase = RegDialing, rr_backoff = reg_backoff_base, rr_client = reg_connect d\<rparr>"

subsection \<open>The client runs its replica\<close>

text \<open>The acknowledgements an input carries.\<close>

definition acked :: "reg_env \<Rightarrow> reg_input \<Rightarrow> string \<Rightarrow> bool" where
  "acked env i b \<longleftrightarrow>
     (case i of
        RegInput (InBytes msg) \<Rightarrow>
          (case re_from_str env msg of Some (SfAck b' _ _) \<Rightarrow> b' = b | _ \<Rightarrow> False)
      | _ \<Rightarrow> False)"

text \<open>\<open>evs\<close> leads from one document to another and acknowledges only what \<open>i\<close> does.\<close>

definition replica_steps :: "reg_env \<Rightarrow> reg_input \<Rightarrow> registry_event list \<Rightarrow> registry_doc \<Rightarrow>
    registry_doc \<Rightarrow> bool" where
  "replica_steps env i evs d d' \<longleftrightarrow>
     d' = fold reg_apply evs d \<and> (\<forall>b sq. RvAck b sq \<in> set evs \<longrightarrow> acked env i b)"

lemma reg_send_frame [simp]:
  "rc_doc (snd (reg_send f s)) = rc_doc s" "rc_ready (snd (reg_send f s)) = rc_ready s"
  by (simp_all add: reg_send_def split: nat.splits)

lemma reg_send_doc: "reg_send f s = (b, s') \<Longrightarrow> rc_doc s' = rc_doc s"
  by (metis reg_send_frame(1) snd_conv)

lemma reg_send_all_frame [simp]:
  "rc_doc (snd (reg_send_all fs s)) = rc_doc s \<and> rc_ready (snd (reg_send_all fs s)) = rc_ready s"
proof (induction fs arbitrary: s)
  case (Cons f fs)
  obtain b s' where b: "reg_send f s = (b, s')" by fastforce
  with reg_send_frame [of f s] Cons.IH [of s'] show ?case by (cases b) simp_all
qed simp

lemma push_doc [simp]: "rc_doc (snd (reg_push_pending env s)) = fst (take_pushable (rc_doc s))"
  by (simp add: reg_push_pending_def split: prod.split)

lemma probe_doc:
  "reg_send_probe env now d s = (b, d', s') \<Longrightarrow> rc_doc s' = rc_doc s"
  by (auto simp: reg_send_probe_def dest: reg_send_doc split: prod.splits bool.splits)

lemma note_presence_doc [simp]: "rc_doc (note_presence now beats s) = rc_doc s"
  by (simp add: note_presence_def)

lemma reg_emit_doc [simp]: "rc_doc (reg_emit e s) = rc_doc s"
  by (simp add: reg_emit_def)

lemma reg_joined_doc [simp]:
  "rc_doc (reg_joined now wall seq full gc rows beats s) = fst (apply_state seq full gc rows (rc_doc s))"
  by (simp add: reg_joined_def Let_def)

lemma reg_keep_snd [simp]: "snd (reg_keep ph r) = snd r"
  by (simp add: reg_keep_def split: prod.splits bool.splits)

lemma reg_start_doc [simp]: "rc_doc (snd (reg_start_session env s)) = rc_doc s"
  by (auto simp: reg_start_session_def dest: reg_send_doc split: prod.splits bool.splits)

lemma frame_steps:
  assumes "re_from_str env msg = Some f"
  shows "\<exists>evs. replica_steps env (RegInput (InBytes msg)) evs (rc_doc s) (rc_doc (on_server_frame now wall f s))"
proof (cases f)
  case (SfState seq full gc rows beats)
  then show ?thesis by (intro exI [of _ "[RvState seq full gc rows]"]) (simp add: replica_steps_def)
next
  case (SfRows seq rows)
  then show ?thesis by (intro exI [of _ "[RvRows seq rows]"]) (simp add: replica_steps_def)
next
  case (SfAck b seq n)
  then show ?thesis
    using assms by (intro exI [of _ "[RvAck b seq]"]) (simp add: replica_steps_def acked_def)
qed (use assms in \<open>intro exI [of _ "[]"], simp add: replica_steps_def\<close>)+

lemma steady_steps:
  assumes "reg_steady_step env now wall i l d t s = Some res"
  shows "\<exists>evs. replica_steps env (RegInput i) evs (rc_doc s) (rc_doc (snd res))"
proof (cases i)
  case (InBytes msg)
  show ?thesis
  proof (cases "re_from_str env msg")
    case None
    with assms InBytes show ?thesis
      by (intro exI [of _ "[]"]) (auto simp: replica_steps_def reg_handle_frame_def)
  next
    case (Some f)
    with assms InBytes frame_steps [OF Some, of s now wall] show ?thesis
      by (auto simp: reg_handle_frame_def)
  qed
next
  case InNudge
  with assms show ?thesis
    by (intro exI [of _ "[RvTake]"]) (auto simp: replica_steps_def split: if_splits)
next
  case InProbe
  with assms show ?thesis
    by (intro exI [of _ "[]"])
      (auto simp: replica_steps_def reg_probe_turn_def dest: probe_doc split: if_splits prod.splits)
next
  case InQuiet
  with assms show ?thesis
    by (intro exI [of _ "[]"])
      (auto simp: replica_steps_def reg_probe_turn_def dest: probe_doc split: if_splits prod.splits)
qed (use assms in \<open>intro exI [of _ "[]"], auto simp: replica_steps_def split: if_splits list.splits\<close>)+

lemma handshake_steps:
  assumes "reg_session_step env now wall i RegHandshake s = Some res"
  shows "\<exists>evs. replica_steps env (RegInput i) evs (rc_doc s) (rc_doc (snd res))"
proof (cases "\<exists>msg seq full gc rows beats. i = InBytes msg \<and>
    re_from_str env msg = Some (SfState seq full gc rows beats)")
  case True
  then obtain msg seq full gc rows beats where
    i: "i = InBytes msg" "re_from_str env msg = Some (SfState seq full gc rows beats)" by blast
  with assms show ?thesis
    by (intro exI [of _ "[RvState seq full gc rows, RvTake]"])
      (auto simp: replica_steps_def reg_handshake_text_def)
next
  case False
  with assms show ?thesis
    by (intro exI [of _ "[]"])
      (auto simp: replica_steps_def reg_handshake_text_def
        split: session_input.splits option.splits server_frame.splits)
qed

lemma replica_steps_snoc:
  "replica_steps env i evs d d' \<Longrightarrow> \<exists>evs'. replica_steps env i evs' d (mark_disconnected d')"
  by (intro exI [of _ "evs @ [RvDisconnect]"]) (auto simp: replica_steps_def)

lemma enter_doc:
  "rc_doc (rr_client (reg_enter res r)) =
     (case fst res of Inl Reconnect \<Rightarrow> mark_disconnected (rc_doc (snd res)) | _ \<Rightarrow> rc_doc (snd res))"
  by (auto simp: reg_enter_def reg_session_over_def Let_def split: prod.splits sum.splits session_end.splits)

lemma enter_steps:
  "\<exists>evs. replica_steps env i evs d (rc_doc (snd res)) \<Longrightarrow>
     \<exists>evs. replica_steps env i evs d (rc_doc (rr_client (reg_enter res r)))"
  using replica_steps_snoc unfolding enter_doc by (auto split: sum.splits session_end.splits)

lemma run_step_steps:
  assumes "reg_run_step env (now, wall, i) r = Some r'"
  shows "\<exists>evs. replica_steps env i evs (rc_doc (rr_client r)) (rc_doc (rr_client r'))"
proof (cases i)
  case (RegDialed n)
  with assms have r': "r' = reg_enter (reg_start_session env ((rr_client r)\<lparr>rc_sends_left := n\<rparr>)) r"
    by (simp split: if_splits)
  show ?thesis unfolding r'
    by (rule enter_steps, intro exI [of _ "[]"]) (simp add: replica_steps_def)
next
  case (RegInput j)
  with assms obtain ph res where st: "reg_session_step env now wall j ph (rr_client r) = Some res"
    and r': "r' = reg_enter res r" by (auto split: reg_run_phase.splits)
  have "\<exists>evs. replica_steps env i evs (rc_doc (rr_client r)) (rc_doc (snd res))"
    using st steady_steps handshake_steps RegInput by (cases ph) auto
  then show ?thesis unfolding r' by (rule enter_steps)
next
  case (RegEdit ev)
  with assms show ?thesis
    by (intro exI [of _ "[ev]"]) (auto simp: replica_steps_def reg_host_op_def edit_doc_def split: if_splits)
qed (use assms in \<open>intro exI [of _ "[]"], auto simp: replica_steps_def reg_host_op_def nudge_def
  set_presence_def reg_probe_now_def reg_redial_now_def reg_shutdown_now_def reg_dial_failed_def
  reg_wait_ends_def split: if_splits\<close>)+


subsection \<open>Pending batches\<close>

lemma queue_of_event:
  "\<exists>Q bs. queue_of (reg_apply ev d) = filter Q (queue_of d) @ bs \<and>
     (\<forall>p. \<not> Q p \<longrightarrow> (\<exists>sq. ev = RvAck (fst p) sq))"
proof (cases ev)
  case (RvAck b sq)
  with queue_of_apply [of ev d] show ?thesis
    by (intro exI [of _ "\<lambda>(b', ops). b' \<noteq> b"] exI [of _ "[]"]) auto
qed (use queue_of_apply [of ev d] in \<open>intro exI [of _ "\<lambda>_. True"], simp\<close>)+

lemma queue_of_events:
  "\<exists>Q bs. queue_of (fold reg_apply evs d) = filter Q (queue_of d) @ bs \<and>
     (\<forall>p. \<not> Q p \<longrightarrow> (\<exists>sq. RvAck (fst p) sq \<in> set evs))"
proof (induction evs arbitrary: d)
  case Nil
  then show ?case by (intro exI [of _ "\<lambda>_. True"] exI [of _ "[]"]) simp
next
  case (Cons ev evs)
  obtain Q bs where 1: "queue_of (reg_apply ev d) = filter Q (queue_of d) @ bs"
    "\<And>p. \<not> Q p \<Longrightarrow> \<exists>sq. ev = RvAck (fst p) sq" using queue_of_event by blast
  obtain Q' bs' where 2: "queue_of (fold reg_apply evs (reg_apply ev d)) =
      filter Q' (queue_of (reg_apply ev d)) @ bs'"
    "\<And>p. \<not> Q' p \<Longrightarrow> \<exists>sq. RvAck (fst p) sq \<in> set evs" using Cons.IH by blast
  have "queue_of (fold reg_apply (ev # evs) d) =
      filter (\<lambda>p. Q p \<and> Q' p) (queue_of d) @ filter Q' bs @ bs'"
    by (simp add: 2(1) 1(1) conj_commute)
  moreover have "\<forall>p. \<not> (Q p \<and> Q' p) \<longrightarrow> (\<exists>sq. RvAck (fst p) sq \<in> set (ev # evs))"
    using 1(2) 2(2) by (metis list.set_intros)
  ultimately show ?case by blast
qed

text \<open>
C26. A write to the workspace waits for its own acknowledgement: in every step of the client a batch that
  leaves the queue was acknowledged by a frame received in that step, and the others keep their order
  and their operations. Reconnects, server states, merged rows, rejections and the host's further
  writes lose nothing.
\<close>

theorem registry_batch_kept:
  assumes "reg_run_step env (now, wall, i) r = Some r'"
  shows "\<exists>Q bs. queue_of (rc_doc (rr_client r')) = filter Q (queue_of (rc_doc (rr_client r))) @ bs \<and>
    (\<forall>p. \<not> Q p \<longrightarrow> acked env i (fst p))"
proof -
  from run_step_steps [OF assms] obtain evs where
    e: "rc_doc (rr_client r') = fold reg_apply evs (rc_doc (rr_client r))"
    and a: "\<forall>b sq. RvAck b sq \<in> set evs \<longrightarrow> acked env i b"
    by (auto simp: replica_steps_def)
  from queue_of_events [of evs "rc_doc (rr_client r)"] a show ?thesis unfolding e by blast
qed

subsection \<open>Pushing after a join\<close>

text \<open>Outside a joined session nothing is in flight.\<close>

definition landed :: "registry_doc \<Rightarrow> bool" where
  "landed d \<longleftrightarrow> (\<forall>b \<in> set (rd_pending d). \<not> pb_in_flight b)"

definition flight_inv :: "reg_run \<Rightarrow> bool" where
  "flight_inv r \<longleftrightarrow>
     (case rr_phase r of RegSession (RegSteady _ _ _) \<Rightarrow> True | RegReturned \<Rightarrow> True
      | _ \<Rightarrow> landed (rc_doc (rr_client r)))"

lemma landed_event:
  assumes "landed d" "ev \<noteq> RvTake"
  shows "landed (reg_apply ev d)"
proof (cases "(\<exists>b sq. ev = RvAck b sq) \<or> ev = RvDisconnect")
  case True
  with assms(1) show ?thesis
    by (auto simp: landed_def mark_disconnected_def pending_ack)
next
  case False
  with assms(2) obtain ops bs where "rd_pending (reg_apply ev d) = rd_pending d @ bs" "batches_of ops bs"
    using reg_apply_pending [of ev d] by blast
  with assms(1) show ?thesis by (auto simp: landed_def batches_of_def list_all_iff)
qed

lemma landed_disconnected [simp]: "landed (mark_disconnected d)"
  by (auto simp: landed_def mark_disconnected_def)

lemma flight_enter:
  assumes "fst res = Inr RegHandshake \<Longrightarrow> landed (rc_doc (snd res))"
  shows "flight_inv (reg_enter res r)"
proof -
  obtain out s where res: "res = (out, s)" by fastforce
  show ?thesis
  proof (cases out)
    case (Inl e)
    then show ?thesis
      by (cases e) (auto simp: res flight_inv_def reg_enter_def reg_session_over_def Let_def)
  next
    case (Inr ph)
    with assms show ?thesis by (cases ph) (auto simp: res flight_inv_def reg_enter_def)
  qed
qed

lemma handshake_landed:
  assumes "reg_session_step env now wall i RegHandshake s = Some res" "landed (rc_doc s)"
    "fst res = Inr RegHandshake"
  shows "landed (rc_doc (snd res))"
  using assms by (auto simp: reg_handshake_text_def reg_keep_def
      split: session_input.splits option.splits server_frame.splits prod.splits bool.splits)

lemma steady_not_handshake:
  "reg_steady_step env now wall i l d t s = Some res \<Longrightarrow> fst res \<noteq> Inr RegHandshake"
  by (cases i) (auto simp: reg_keep_def reg_probe_turn_def
      split: if_splits list.splits prod.splits bool.splits)

lemma start_phase: "fst (reg_start_session env s) \<in> {Inl Reconnect, Inr RegHandshake}"
  by (auto simp: reg_start_session_def split: prod.splits bool.splits)

lemma flight_same:
  "flight_inv r \<Longrightarrow> rr_phase r' = rr_phase r \<Longrightarrow>
     (landed (rc_doc (rr_client r)) \<Longrightarrow> landed (rc_doc (rr_client r'))) \<Longrightarrow> flight_inv r'"
  by (simp add: flight_inv_def split: reg_run_phase.splits reg_phase.splits)

lemma run_step_flight:
  assumes "reg_run_step env i r = Some r'" "flight_inv r"
  shows "flight_inv r'"
proof -
  obtain now wall j where i: "i = (now, wall, j)" by (cases i) auto
  show ?thesis
  proof (cases j)
    case (RegDialed n)
    with assms(1) i have r': "r' = reg_enter (reg_start_session env ((rr_client r)\<lparr>rc_sends_left := n\<rparr>)) r"
      and d: "rr_phase r = RegDialing" by (simp_all split: if_splits)
    have "landed (rc_doc (rr_client r))" using assms(2) d by (simp add: flight_inv_def)
    then show ?thesis unfolding r' by (intro flight_enter) simp
  next
    case (RegInput k)
    with assms(1) i obtain ph res where st: "reg_session_step env now wall k ph (rr_client r) = Some res"
      and d: "rr_phase r = RegSession ph" and r': "r' = reg_enter res r" by (auto split: reg_run_phase.splits)
    show ?thesis unfolding r'
    proof (rule flight_enter)
      assume h: "fst res = Inr RegHandshake"
      with st have ph: "ph = RegHandshake" using steady_not_handshake by (cases ph) auto
      with assms(2) d have "landed (rc_doc (rr_client r))" by (simp add: flight_inv_def)
      with st ph h show "landed (rc_doc (snd res))" using handshake_landed by blast
    qed
  next
    case (RegEdit ev)
    with assms(1) i have ev: "local_edit ev" "r' = reg_host_op (edit_doc ev) r" by (simp_all split: if_splits)
    have "ev \<noteq> RvTake" using ev(1) by auto
    from landed_event [OF _ this] show ?thesis
      by (intro flight_same [OF assms(2)]) (simp_all add: ev(2) reg_host_op_def edit_doc_def)
  next
    case (RegWaitEnds w)
    with assms i show ?thesis by (auto simp: reg_wait_ends_def flight_inv_def split: if_splits)
  next
    case (RegDialFailed e)
    with assms i show ?thesis by (auto simp: reg_dial_failed_def flight_inv_def split: if_splits)
  next
    case RegDialTimedOut
    with assms i show ?thesis by (auto simp: reg_dial_failed_def flight_inv_def split: if_splits)
  qed (use assms(1) i in \<open>auto intro!: flight_same [OF assms(2)] simp: reg_host_op_def nudge_def
      set_presence_def reg_probe_now_def reg_redial_now_def reg_shutdown_now_def\<close>)
qed

lemma reg_send_all_ok:
  "length fs \<le> rc_sends_left s \<Longrightarrow>
     \<exists>s'. reg_send_all fs s = (True, s') \<and> rc_sent s' = rc_sent s @ fs \<and> rc_doc s' = rc_doc s"
proof (induction fs arbitrary: s)
  case (Cons f fs)
  then obtain n where n: "rc_sends_left s = Suc n" "length fs \<le> n" by (cases "rc_sends_left s") auto
  let ?s = "s\<lparr>rc_sends_left := n, rc_sent := rc_sent s @ [f]\<rparr>"
  have "reg_send f s = (True, ?s)" by (simp add: reg_send_def n)
  with Cons.IH [of ?s] n(2) show ?case by auto
qed simp

lemma landed_run:
  assumes "reg_run_all env is q = Some r" "flight_inv q"
  shows "flight_inv r"
  using assms
proof (induction "is" arbitrary: q)
  case (Cons j js)
  then obtain p where "reg_run_step env j q = Some p" "reg_run_all env js p = Some r"
    by (auto split: option.splits)
  with Cons run_step_flight show ?case by blast
qed simp

lemma take_landed:
  "landed d \<Longrightarrow> map (push_text env) (snd (take_pushable d)) = map (\<lambda>p. re_to_string env (CfPush (fst p) (snd p))) (queue_of d)"
proof -
  assume "landed d"
  then have "filter (\<lambda>b. \<not> pb_in_flight b) (rd_pending d) = rd_pending d" by (simp add: landed_def)
  then show ?thesis by (simp add: take_pushable_def queue_of_def push_text_def)
qed

lemma joined_sends [simp]:
  "rc_sends_left (reg_joined now wall seq full gc rows beats s) = rc_sends_left s"
  "rc_sent (reg_joined now wall seq full gc rows beats s) = rc_sent s"
  by (simp_all add: reg_joined_def Let_def reg_emit_def note_presence_def)

text \<open>
C24. Offline work reaches the room on the next join: in any run of the client from a replica with nothing
  in flight, when the answer to its hello arrives and the socket takes the sends, the client pushes
  every batch that is then pending, each once, oldest first, including those that the answer itself
  made it re-seed, and goes on in the steady state.
\<close>

theorem join_pushes_all:
  assumes "reg_run_all env is (reg_run_start d) = Some r" "landed d"
    "rr_phase r = RegSession RegHandshake"
    "re_from_str env msg = Some (SfState seq full gc rows beats)"
    "length (rd_pending (fst (apply_state seq full gc rows (rc_doc (rr_client r))))) \<le> rc_sends_left (rr_client r)"
  shows "\<exists>r'. reg_run_step env (now, wall, RegInput (InBytes msg)) r = Some r' \<and>
    rr_phase r' = RegSession (RegSteady now None now) \<and>
    queue_of (rc_doc (rr_client r')) = queue_of (fst (apply_state seq full gc rows (rc_doc (rr_client r)))) \<and>
    rc_sent (rr_client r') = rc_sent (rr_client r) @
      map (\<lambda>p. re_to_string env (CfPush (fst p) (snd p))) (queue_of (rc_doc (rr_client r')))"
proof -
  let ?s = "reg_joined now wall seq full gc rows beats (rr_client r)"
  let ?d = "fst (apply_state seq full gc rows (rc_doc (rr_client r)))"
  have "flight_inv (reg_run_start d)"
    using assms(2) by (simp add: flight_inv_def reg_run_start_def reg_connect_def)
  from landed_run [OF assms(1) this] assms(3) have "landed (rc_doc (rr_client r))"
    by (simp add: flight_inv_def)
  from landed_event [OF this, of "RvState seq full gc rows"] have l: "landed ?d" by simp
  obtain d' bs where t: "take_pushable ?d = (d', bs)" by fastforce
  have q: "queue_of d' = queue_of ?d"
    using t by (auto simp: take_pushable_def queue_of_def)
  have bs: "map (push_text env) bs = map (\<lambda>p. re_to_string env (CfPush (fst p) (snd p))) (queue_of ?d)"
    using take_landed [OF l, of env] t by simp
  then have "length bs = length (rd_pending ?d)"
    by (metis length_map queue_of_def)
  with assms(5) reg_send_all_ok [of "map (push_text env) bs" "?s\<lparr>rc_doc := d'\<rparr>"]
  obtain s' where s': "reg_send_all (map (push_text env) bs) (?s\<lparr>rc_doc := d'\<rparr>) = (True, s')"
    "rc_sent s' = rc_sent (rr_client r) @ map (push_text env) bs" "rc_doc s' = d'" by auto
  then have "reg_push_pending env ?s = (True, s')" by (simp add: reg_push_pending_def t)
  then have "reg_run_step env (now, wall, RegInput (InBytes msg)) r =
      Some (r\<lparr>rr_phase := RegSession (RegSteady now None now), rr_client := s'\<rparr>)"
    using assms(3,4) by (simp add: reg_handshake_text_def reg_keep_def reg_enter_def)
  with s' q bs show ?thesis by simp
qed

definition demo_reg_env :: reg_env where
  "demo_reg_env = \<lparr>re_to_string = (\<lambda>f. case f of CfPush b ops \<Rightarrow> b | _ \<Rightarrow> ''hello''),
     re_from_str = (\<lambda>m. if m = ''state'' then Some (SfState 0 False 0 [] []) else None),
     re_device = ''dev'', re_probe_quiet = reg_probe_quiet_default\<rparr>"

definition demo_offline :: registry_doc where
  "demo_offline = (registry_new ''dev'' (\<lambda>n. 7 + int n))\<lparr>rd_pending :=
     [\<lparr>pb_batch = ''b1'', pb_ops = [], pb_in_flight = False\<rparr>, \<lparr>pb_batch = ''b2'', pb_ops = [], pb_in_flight = False\<rparr>]\<rparr>"

lemma join_pushes_all_witness:
  "\<exists>r r'. reg_run_all demo_reg_env [(0, 0, RegDialed 5)] (reg_run_start demo_offline) = Some r \<and>
     reg_run_step demo_reg_env (1, 1, RegInput (InBytes ''state'')) r = Some r' \<and>
     rr_phase r' = RegSession (RegSteady 1 None 1) \<and> rc_sent (rr_client r') = [''hello'', ''b1'', ''b2'']"
proof -
  let ?s = "(reg_connect demo_offline)\<lparr>rc_sends_left := 4, rc_sent := [''hello'']\<rparr>"
  let ?r = "\<lparr>rr_phase = RegSession RegHandshake, rr_backoff = reg_backoff_base, rr_client = ?s\<rparr>"
  have 1: "reg_run_all demo_reg_env [(0, 0, RegDialed 5)] (reg_run_start demo_offline) = Some ?r"
    by (simp add: reg_run_start_def reg_connect_def reg_enter_def reg_start_session_def reg_send_def demo_reg_env_def)
  have 2: "landed demo_offline" by (simp add: landed_def demo_offline_def)
  have 3: "re_from_str demo_reg_env ''state'' = Some (SfState 0 False 0 [] [])" by (simp add: demo_reg_env_def)
  have d: "rc_doc (rr_client ?r) = demo_offline" "rc_sends_left (rr_client ?r) = 4"
    "rc_sent (rr_client ?r) = [''hello'']" "rr_phase ?r = RegSession RegHandshake"
    by (simp_all add: reg_connect_def)
  have q: "queue_of (fst (apply_state 0 False 0 [] (rc_doc (rr_client ?r)))) = [(''b1'', []), (''b2'', [])]"
    and l: "length (rd_pending (fst (apply_state 0 False 0 [] (rc_doc (rr_client ?r))))) \<le> rc_sends_left (rr_client ?r)"
    unfolding d by (simp_all add: apply_state_def demo_offline_def queue_of_def Let_def)
  from join_pushes_all [OF 1 2 d(4) 3 l, of 1 1] obtain r' where
    "reg_run_step demo_reg_env (1, 1, RegInput (InBytes ''state'')) ?r = Some r'"
    "rr_phase r' = RegSession (RegSteady 1 None 1)" "queue_of (rc_doc (rr_client r')) = [(''b1'', []), (''b2'', [])]"
    "rc_sent (rr_client r') = [''hello''] @
      map (\<lambda>p. re_to_string demo_reg_env (CfPush (fst p) (snd p))) (queue_of (rc_doc (rr_client r')))"
    unfolding q d(3) by blast
  with 1 show ?thesis by (simp add: demo_reg_env_def)
qed

subsection \<open>Presence\<close>

lemma map_of_fresh:
  "distinct (map fst m) \<Longrightarrow>
     map_of (map (\<lambda>(device, at, seen). (device, at)) (filter (\<lambda>(device, at, seen). now - seen < n) m)) k =
       (case map_of m k of None \<Rightarrow> None | Some (b, t) \<Rightarrow> if now - t < n then Some b else None)"
  by (induction m) (auto simp: map_of_eq_None_iff [symmetric] split: option.splits)

text \<open>
A beat is shown for thirty seconds after it arrived and not longer, and the latest beat of a device
  is the one shown.
\<close>

theorem presence_fresh:
  assumes "distinct (map fst (rc_presence s))"
  shows "map_of (presence now (note_presence at [(device, beat)] s)) device =
    (if now - at < 30000 then Some beat else None)"
proof -
  let ?m = "AList.update device (beat, at) (rc_presence s)"
  have "distinct (map fst ?m)" using assms by (rule distinct_update)
  moreover have "map_of ?m device = Some (beat, at)" by (simp add: update_conv')
  ultimately show ?thesis by (simp add: presence_def note_presence_def map_of_fresh presence_ttl_def)
qed

lemma presence_fresh_witness:
  "map_of (presence 31000 (note_presence 1500 [(''phone'', 77)]
      ((reg_connect demo_offline)\<lparr>rc_presence := [(''phone'', 5, 100), (''mac'', 6, 200)]\<rparr>))) ''phone'' = Some 77"
  using presence_fresh [of "(reg_connect demo_offline)\<lparr>rc_presence := [(''phone'', 5, 100), (''mac'', 6, 200)]\<rparr>"
      31000 1500 "''phone''" 77]
  by simp

lemma registry_batch_kept_witness:
  "\<exists>Q bs. queue_of (rc_doc (rr_client (reg_host_op nudge (reg_run_start demo_offline)))) =
      filter Q [(''b1'', []), (''b2'', [])] @ bs \<and> (\<forall>p. \<not> Q p \<longrightarrow> acked demo_reg_env RegNudge (fst p))"
  using registry_batch_kept [of demo_reg_env 0 0 RegNudge "reg_run_start demo_offline"
      "reg_host_op nudge (reg_run_start demo_offline)"]
  by (simp add: queue_of_def demo_offline_def reg_run_start_def reg_connect_def)


text \<open>
A batch the server refuses is not retired: the error frame names no batch, the queue is as before, and
  the batch goes out again with every join.
\<close>

lemma rejected_batch_stays:
  "rc_doc (on_server_frame now wall (SfError code message) s) = rc_doc s"
  by simp

end
