(* ===== verification/Engine_Journal.thy ===== *)
theory Engine_Journal
  imports Proto_Types
begin

text \<open>
  The per-chat event journal, \<^verbatim>\<open>crates/engine/src/run_journal.rs\<close>: append-only files of JSON lines,
  the replay, the crash-recovery scan and the resume budget. The directory is an association list
  from file names to contents; the JSON codec of a line is a parameter. A write that fails half-way
  leaves a prefix of its bytes. Reads fail on bytes that are not UTF-8, as \<^verbatim>\<open>BufRead::lines\<close> does.
\<close>

subsection \<open>UTF-8\<close>

text \<open>Well-formed byte sequences, as \<^verbatim>\<open>std::str::from_utf8\<close> accepts them.\<close>

definition byte_in :: "nat \<Rightarrow> nat \<Rightarrow> char \<Rightarrow> bool" where
  "byte_in lo hi c \<longleftrightarrow> lo \<le> of_char c \<and> of_char c \<le> hi"

function utf8_valid :: "bytes \<Rightarrow> bool" where
  "utf8_valid s =
     (case s of
        [] \<Rightarrow> True
      | a # r \<Rightarrow>
          if byte_in 0 127 a then utf8_valid r
          else if byte_in 0xC2 0xDF a then
            (case r of b # r' \<Rightarrow> byte_in 128 191 b \<and> utf8_valid r' | _ \<Rightarrow> False)
          else if byte_in 0xE0 0xEF a then
            (case r of b # c # r' \<Rightarrow>
               byte_in (if byte_in 0xE0 0xE0 a then 0xA0 else 128) (if byte_in 0xED 0xED a then 0x9F else 191) b \<and>
               byte_in 128 191 c \<and> utf8_valid r' | _ \<Rightarrow> False)
          else if byte_in 0xF0 0xF4 a then
            (case r of b # c # d # r' \<Rightarrow>
               byte_in (if byte_in 0xF0 0xF0 a then 0x90 else 128) (if byte_in 0xF4 0xF4 a then 0x8F else 191) b \<and>
               byte_in 128 191 c \<and> byte_in 128 191 d \<and> utf8_valid r' | _ \<Rightarrow> False)
          else False)"
  by pat_completeness auto
termination
  by (relation "measure length") auto

declare utf8_valid.simps [simp del]

subsection \<open>State\<close>

datatype journal_error = JIo string | JJson string

record journal_codec =
  jc_to_string :: "nat \<times> agent_event \<Rightarrow> string + bytes"
  jc_from_str :: "bytes \<Rightarrow> (nat \<times> agent_event) option"

record chat_journal =
  cj_next_seq :: nat
  cj_needs_newline :: bool

record run_journal =
  rj_dir :: "(string \<times> bytes) list"
  rj_open_files :: "(string \<times> chat_journal) list"

definition journal_open :: "(string \<times> bytes) list \<Rightarrow> run_journal" where
  "journal_open dir = \<lparr>rj_dir = dir, rj_open_files = []\<rparr>"

definition newline :: char where "newline = CHR 0x0A"

text \<open>A character outside ASCII becomes one underscore.\<close>

definition id_char :: "char \<Rightarrow> bool" where
  "id_char c \<longleftrightarrow> byte_in 48 57 c \<or> byte_in 65 90 c \<or> byte_in 97 122 c \<or> c = CHR ''-'' \<or> c = CHR ''_''"

definition sanitize_id :: "string \<Rightarrow> string" where
  "sanitize_id chat_id =
     map (\<lambda>c. if id_char c then c else CHR ''_'') (filter (\<lambda>c. \<not> is_cont c) chat_id)"

definition path_for :: "string \<Rightarrow> string" where
  "path_for chat_id = sanitize_id chat_id @ ''.jsonl''"

definition attempts_path :: "string \<Rightarrow> string" where
  "attempts_path chat_id = sanitize_id chat_id @ ''.resume''"

definition journal_paths :: "string \<Rightarrow> string \<times> string" where
  "journal_paths chat_id = (let stem = sanitize_id chat_id in (stem @ ''.jsonl'', stem @ ''.resume''))"

subsection \<open>Reading\<close>

definition read_lines :: "journal_codec \<Rightarrow> bytes option \<Rightarrow> journal_error + (nat \<times> agent_event) list" where
  "read_lines C content =
     (case content of
        None \<Rightarrow> Inr []
      | Some bs \<Rightarrow>
          if list_all utf8_valid (str_lines bs)
          then Inr (List.map_filter (jc_from_str C) (filter (\<lambda>l. \<not> is_blank l) (str_lines bs)))
          else Inl (JIo ''stream did not contain valid UTF-8''))"

definition scan_tail :: "journal_codec \<Rightarrow> bytes option \<Rightarrow> journal_error + nat \<times> bool" where
  "scan_tail C content =
     (case content of
        None \<Rightarrow> Inr (1, False)
      | Some bs \<Rightarrow>
          (let needs_newline = (bs \<noteq> [] \<and> last bs \<noteq> newline)
           in case read_lines C content of
                Inl e \<Rightarrow> Inl e
              | Inr evs \<Rightarrow> Inr (if evs = [] then 1 else fst (last evs) + 1, needs_newline)))"

definition replay :: "journal_codec \<Rightarrow> string \<Rightarrow> nat \<Rightarrow> run_journal \<Rightarrow>
    journal_error + (nat \<times> agent_event) list" where
  "replay C chat_id after_seq j =
     (case read_lines C (map_of (rj_dir j) (path_for chat_id)) of
        Inl e \<Rightarrow> Inl e
      | Inr evs \<Rightarrow>
          (let last_seq = (if evs = [] then 0 else fst (last evs));
               from_seq = (if after_seq > last_seq then 0 else after_seq)
           in Inr (filter (\<lambda>(sq, _). sq > from_seq) evs)))"

definition last_event :: "journal_codec \<Rightarrow> string \<Rightarrow> run_journal \<Rightarrow>
    journal_error + (nat \<times> agent_event) option" where
  "last_event C chat_id j =
     (case read_lines C (map_of (rj_dir j) (path_for chat_id)) of
        Inl e \<Rightarrow> Inl e
      | Inr evs \<Rightarrow> Inr (if evs = [] then None else Some (last evs)))"

text \<open>\<^verbatim>\<open>file_stem\<close> of a name whose \<^verbatim>\<open>extension\<close> is \<^verbatim>\<open>jsonl\<close>.\<close>

definition jsonl_stem :: "string \<Rightarrow> string option" where
  "jsonl_stem name =
     (if length name > 6 \<and> drop (length name - 6) name = ''.jsonl'' then Some (take (length name - 6) name)
      else None)"

definition is_done :: "agent_event \<Rightarrow> bool" where
  "is_done ev = (case ev of Done _ _ _ _ \<Rightarrow> True | _ \<Rightarrow> False)"

fun stale_scan :: "journal_codec \<Rightarrow> (string \<times> bytes) list \<Rightarrow> journal_error + string list" where
  "stale_scan C [] = Inr []"
| "stale_scan C ((name, bs) # entries) =
     (case jsonl_stem name of
        None \<Rightarrow> stale_scan C entries
      | Some chat_id \<Rightarrow>
          (case read_lines C (Some bs) of
             Inl e \<Rightarrow> Inl e
           | Inr evs \<Rightarrow>
               (case stale_scan C entries of
                  Inl e \<Rightarrow> Inl e
                | Inr stale \<Rightarrow>
                    Inr (if evs = [] \<or> is_done (snd (last evs)) then stale else chat_id # stale))))"

definition stale_sessions :: "journal_codec \<Rightarrow> run_journal \<Rightarrow> journal_error + string list" where
  "stale_sessions C j = (case stale_scan C (rj_dir j) of Inl e \<Rightarrow> Inl e | Inr stale \<Rightarrow> Inr (sort stale))"

subsection \<open>Appending\<close>

definition open_file_cap :: nat where "open_file_cap = 16"

definition ensure_open :: "journal_codec \<Rightarrow> string \<Rightarrow> run_journal \<Rightarrow>
    (journal_error + chat_journal) \<times> run_journal" where
  "ensure_open C chat_id j =
     (case map_of (rj_open_files j) chat_id of
        Some cj \<Rightarrow> (Inr cj, j)
      | None \<Rightarrow>
          (let j = (if length (rj_open_files j) \<ge> open_file_cap then j\<lparr>rj_open_files := []\<rparr> else j);
               path = path_for chat_id
           in case scan_tail C (map_of (rj_dir j) path) of
                Inl e \<Rightarrow> (Inl e, j)
              | Inr (next_seq, needs_newline) \<Rightarrow>
                  let cj = \<lparr>cj_next_seq = next_seq, cj_needs_newline = needs_newline\<rparr>
                  in (Inr cj,
                      j\<lparr>rj_dir := (if map_of (rj_dir j) path = None then AList.update path [] (rj_dir j)
                                  else rj_dir j),
                        rj_open_files := AList.update chat_id cj (rj_open_files j)\<rparr>)))"

text \<open>\<open>fault\<close> is the number of bytes after which the write fails, if it does.\<close>

definition journal_append :: "journal_codec \<Rightarrow> nat option \<Rightarrow> string \<Rightarrow> agent_event \<Rightarrow> run_journal \<Rightarrow>
    (journal_error + nat) \<times> run_journal" where
  "journal_append C fault chat_id event j =
     (case ensure_open C chat_id j of
        (Inl e, j) \<Rightarrow> (Inl e, j)
      | (Inr cj, j) \<Rightarrow>
          (let sq = cj_next_seq cj
           in case jc_to_string C (sq, event) of
                Inl e \<Rightarrow> (Inl (JJson e), j)
              | Inr line \<Rightarrow>
                  let buf = (if cj_needs_newline cj then [newline] else []) @ line @ [newline];
                      path = path_for chat_id;
                      bs = (case map_of (rj_dir j) path of None \<Rightarrow> [] | Some bs \<Rightarrow> bs)
                  in case fault of
                       Some k \<Rightarrow>
                         (Inl (JIo ''write failed''),
                          j\<lparr>rj_dir := AList.update path (bs @ take k buf) (rj_dir j)\<rparr>)
                     | None \<Rightarrow>
                         (Inr sq,
                          j\<lparr>rj_dir := AList.update path (bs @ buf) (rj_dir j),
                            rj_open_files := AList.update chat_id
                              \<lparr>cj_next_seq = sq + 1, cj_needs_newline = False\<rparr> (rj_open_files j)\<rparr>)))"

definition discard :: "string \<Rightarrow> run_journal \<Rightarrow> run_journal" where
  "discard chat_id j =
     j\<lparr>rj_dir := AList.delete (path_for chat_id) (rj_dir j),
       rj_open_files := AList.delete chat_id (rj_open_files j)\<rparr>"

subsection \<open>The resume budget\<close>

text \<open>\<^verbatim>\<open>parse::<u32>\<close>\<close>

definition parse_u32 :: "string \<Rightarrow> nat option" where
  "parse_u32 s =
     (let ds = (if s \<noteq> [] \<and> hd s = CHR ''+'' then tl s else s)
      in if ds = [] \<or> \<not> list_all (byte_in 48 57) ds then None
         else let n = foldl (\<lambda>n c. 10 * n + (of_char c - 48)) 0 ds in if n < 2 ^ 32 then Some n else None)"

definition resume_attempts :: "string \<Rightarrow> run_journal \<Rightarrow> nat" where
  "resume_attempts chat_id j =
     (case map_of (rj_dir j) (attempts_path chat_id) of
        None \<Rightarrow> 0
      | Some bs \<Rightarrow>
          if \<not> utf8_valid bs then 0
          else (case parse_u32 (str_trim bs) of None \<Rightarrow> 0 | Some n \<Rightarrow> n))"

definition note_resume_attempt :: "bool \<Rightarrow> string \<Rightarrow> run_journal \<Rightarrow> nat \<times> run_journal" where
  "note_resume_attempt write_ok chat_id j =
     (let next = resume_attempts chat_id j + 1
      in (next, if write_ok then j\<lparr>rj_dir := AList.update (attempts_path chat_id) (dec next) (rj_dir j)\<rparr>
                else j))"

definition clear_resume_attempts :: "string \<Rightarrow> run_journal \<Rightarrow> run_journal" where
  "clear_resume_attempts chat_id j = j\<lparr>rj_dir := AList.delete (attempts_path chat_id) (rj_dir j)\<rparr>"

subsection \<open>The text of a journal\<close>

definition journal_text :: "bytes list \<Rightarrow> bytes \<Rightarrow> bytes" where
  "journal_text ls t = concat (map (\<lambda>l. l @ [newline]) ls) @ t"

definition torn_lines :: "bytes \<Rightarrow> bytes list" where
  "torn_lines t = (if t = [] then [] else [t])"

text \<open>A line of the codec: no line breaks, UTF-8, not blank.\<close>

definition clean :: "bytes \<Rightarrow> bool" where
  "clean l \<longleftrightarrow> newline \<notin> set l \<and> CHR 0x0D \<notin> set l \<and> utf8_valid l \<and> \<not> is_blank l"

lemma strip_cr_clean: "CHR 0x0D \<notin> set l \<Longrightarrow> strip_cr l = l"
  by (auto simp: strip_cr_def dest: last_in_set)

lemma str_lines_cons:
  assumes "newline \<notin> set l" "CHR 0x0D \<notin> set l"
  shows "str_lines (l @ newline # r) = l # str_lines r"
proof -
  have t: "takeWhile (\<lambda>c. c \<noteq> newline) (l @ newline # r) = l"
    "dropWhile (\<lambda>c. c \<noteq> newline) (l @ newline # r) = newline # r"
    using assms(1) by (induction l) auto
  show ?thesis
    using t unfolding newline_def
    by (subst str_lines.simps) (simp add: Let_def strip_cr_clean assms(2))
qed

lemma str_lines_last: "newline \<notin> set t \<Longrightarrow> str_lines t = torn_lines t"
proof -
  assume "newline \<notin> set t"
  then have "takeWhile (\<lambda>c. c \<noteq> newline) t = t" "dropWhile (\<lambda>c. c \<noteq> newline) t = []"
    by (auto simp: takeWhile_eq_all_conv dropWhile_eq_Nil_conv)
  then show ?thesis unfolding newline_def torn_lines_def by (subst str_lines.simps) (simp add: Let_def)
qed

lemma str_lines_text:
  "list_all clean ls \<Longrightarrow> newline \<notin> set t \<Longrightarrow> str_lines (journal_text ls t) = ls @ torn_lines t"
proof (induction ls)
  case (Cons l ls)
  have "str_lines (l @ newline # journal_text ls t) = l # str_lines (journal_text ls t)"
    by (rule str_lines_cons) (use Cons.prems in \<open>simp_all add: clean_def\<close>)
  with Cons show ?case by (simp add: journal_text_def)
qed (simp add: journal_text_def str_lines_last)

lemma text_snoc: "journal_text (ls @ [l]) t = journal_text ls l @ newline # t"
  by (simp add: journal_text_def)

lemma text_torn: "journal_text ls [] @ t = journal_text ls t"
  by (simp add: journal_text_def)

definition evs_of :: "journal_codec \<Rightarrow> bytes list \<Rightarrow> bytes \<Rightarrow> (nat \<times> agent_event) list" where
  "evs_of C ls t = List.map_filter (jc_from_str C) (ls @ torn_lines t)"

lemma read_text:
  assumes "list_all clean ls" "t = [] \<or> clean t"
  shows "read_lines C (Some (journal_text ls t)) = Inr (evs_of C ls t)"
proof -
  have n: "newline \<notin> set t" using assms(2) by (auto simp: clean_def)
  have a: "list_all clean (ls @ torn_lines t)" using assms by (auto simp: torn_lines_def)
  then have "list_all utf8_valid (ls @ torn_lines t)" "filter (\<lambda>l. \<not> is_blank l) (ls @ torn_lines t) = ls @ torn_lines t"
    by (auto simp: list_all_iff clean_def filter_id_conv)
  then show ?thesis
    unfolding read_lines_def option.case str_lines_text [OF assms(1) n] evs_of_def by simp
qed

lemma text_tail: "journal_text ls t \<noteq> [] \<and> last (journal_text ls t) \<noteq> newline \<longleftrightarrow> t \<noteq> []"
  if "newline \<notin> set t"
proof (cases "t = []")
  case True
  have "ls \<noteq> [] \<Longrightarrow> last (journal_text ls []) = newline"
    by (cases ls rule: rev_cases) (simp_all add: journal_text_def)
  then show ?thesis using True by (cases ls) (auto simp: journal_text_def)
next
  case False
  with that have "last t \<noteq> newline" by (metis last_in_set)
  with False show ?thesis by (simp add: journal_text_def)
qed

subsection \<open>Runs of a journal\<close>

text \<open>
  What the codec promises: a serialised line is one clean line that reads back, and no proper part of
  it from the start does, blank or not (a truncated JSON object is not JSON).
\<close>

definition codec_ok :: "journal_codec \<Rightarrow> bool" where
  "codec_ok C \<longleftrightarrow>
     (\<forall>p l. jc_to_string C p = Inr l \<longrightarrow>
        clean l \<and> jc_from_str C l = Some p \<and>
        (\<forall>m. 0 < m \<and> m < length l \<longrightarrow> jc_from_str C (take m l) = None \<and> \<not> is_blank (take m l)))"

text \<open>
  The history of one chat's journal: successful appends, restarts of the process, and crashes that cut
  a write after some bytes of the line, between two characters.
\<close>

definition restart :: "run_journal \<Rightarrow> run_journal" where
  "restart j = journal_open (rj_dir j)"

inductive journal_run :: "journal_codec \<Rightarrow> string \<Rightarrow> (nat \<times> agent_event) list \<Rightarrow> run_journal \<Rightarrow> bool"
  for C chat_id where
  run_new: "map_of dir (path_for chat_id) = None \<Longrightarrow> journal_run C chat_id [] (journal_open dir)"
| run_append: "journal_run C chat_id evs j \<Longrightarrow> journal_append C None chat_id ev j = (Inr sq, j') \<Longrightarrow>
    journal_run C chat_id (evs @ [(sq, ev)]) j'"
| run_restart: "journal_run C chat_id evs j \<Longrightarrow> journal_run C chat_id evs (restart j)"
| run_torn: "journal_run C chat_id evs j \<Longrightarrow> ensure_open C chat_id j = (Inr cj, j1) \<Longrightarrow>
    jc_to_string C (cj_next_seq cj, ev) = Inr line \<Longrightarrow> m < length line \<Longrightarrow> utf8_valid (take m line) \<Longrightarrow>
    k = 0 \<and> m = 0 \<or> k = (if cj_needs_newline cj then 1 else 0) + m \<Longrightarrow>
    journal_run C chat_id evs (restart (snd (journal_append C (Some k) chat_id ev j)))"

definition journal_inv :: "journal_codec \<Rightarrow> string \<Rightarrow> (nat \<times> agent_event) list \<Rightarrow> run_journal \<Rightarrow> bytes list \<Rightarrow>
    bytes \<Rightarrow> bool" where
  "journal_inv C chat_id evs j ls t \<longleftrightarrow>
     list_all clean ls \<and> (t = [] \<or> clean t) \<and> evs_of C ls t = evs \<and> map fst evs = [1..<Suc (length evs)] \<and>
     (case map_of (rj_dir j) (path_for chat_id) of None \<Rightarrow> ls = [] \<and> t = [] | Some bs \<Rightarrow> bs = journal_text ls t) \<and>
     (case map_of (rj_open_files j) chat_id of None \<Rightarrow> True
      | Some cj \<Rightarrow> cj = \<lparr>cj_next_seq = Suc (length evs), cj_needs_newline = (t \<noteq> [])\<rparr> \<and>
          map_of (rj_dir j) (path_for chat_id) \<noteq> None)"

lemma last_seq: "map fst evs = [1..<Suc (length evs)] \<Longrightarrow> evs \<noteq> [] \<Longrightarrow> fst (last evs) = length evs"
  by (metis One_nat_def Suc_neq_Zero last_map last_upt length_greater_0_conv less_Suc_eq_le nat_less_le
      One_nat_def Suc_le_eq diff_Suc_1)

lemma evs_of_append:
  "evs_of C (ls @ torn_lines t @ [l]) [] = evs_of C ls t @ (case jc_from_str C l of None \<Rightarrow> [] | Some p \<Rightarrow> [p])"
  by (simp add: evs_of_def torn_lines_def List.map_filter_def split: option.splits)

lemma evs_of_torn: "t' = [] \<or> jc_from_str C t' = None \<Longrightarrow> evs_of C (ls @ torn_lines t) t' = evs_of C ls t"
  by (auto simp: evs_of_def torn_lines_def List.map_filter_def)

lemma next_text:
  "journal_text ls t @ (if t \<noteq> [] then [newline] else []) @ u = journal_text (ls @ torn_lines t) u"
  by (simp add: journal_text_def torn_lines_def)

lemma ensure_open_inv:
  assumes "journal_inv C chat_id evs j ls t" "ensure_open C chat_id j = (r, j1)"
  shows "r = Inr \<lparr>cj_next_seq = Suc (length evs), cj_needs_newline = (t \<noteq> [])\<rparr> \<and>
    map_of (rj_dir j1) (path_for chat_id) = Some (journal_text ls t)"
proof (cases "map_of (rj_open_files j) chat_id")
  case (Some cj)
  with assms show ?thesis by (auto simp: journal_inv_def ensure_open_def split: option.splits)
next
  case None
  let ?j = "if length (rj_open_files j) \<ge> open_file_cap then j\<lparr>rj_open_files := []\<rparr> else j"
  have dir: "rj_dir ?j = rj_dir j" by simp
  have inv: "list_all clean ls" "t = [] \<or> clean t" "evs_of C ls t = evs" "map fst evs = [1..<Suc (length evs)]"
    using assms(1) by (simp_all add: journal_inv_def)
  have n: "newline \<notin> set t" using inv(2) by (auto simp: clean_def)
  have scan: "scan_tail C (map_of (rj_dir j) (path_for chat_id)) = Inr (Suc (length evs), t \<noteq> [])"
  proof (cases "map_of (rj_dir j) (path_for chat_id)")
    case None
    with assms(1) have "ls = []" "t = []" by (simp_all add: journal_inv_def)
    with inv(3) None show ?thesis by (auto simp: scan_tail_def evs_of_def torn_lines_def List.map_filter_def)
  next
    case (Some bs)
    with assms(1) have bs: "bs = journal_text ls t" by (simp add: journal_inv_def)
    show ?thesis
      unfolding Some bs scan_tail_def option.case read_text [OF inv(1,2)] inv(3) Let_def text_tail [OF n]
      using last_seq [OF inv(4)] by simp
  qed
  then have r: "ensure_open C chat_id j =
      (Inr \<lparr>cj_next_seq = Suc (length evs), cj_needs_newline = (t \<noteq> [])\<rparr>,
       ?j\<lparr>rj_dir := (if map_of (rj_dir j) (path_for chat_id) = None then AList.update (path_for chat_id) [] (rj_dir j)
                    else rj_dir j),
         rj_open_files := AList.update chat_id \<lparr>cj_next_seq = Suc (length evs), cj_needs_newline = (t \<noteq> [])\<rparr>
           (rj_open_files ?j)\<rparr>)"
    by (simp add: ensure_open_def None Let_def)
  have "map_of (if map_of (rj_dir j) (path_for chat_id) = None then AList.update (path_for chat_id) [] (rj_dir j)
      else rj_dir j) (path_for chat_id) = Some (journal_text ls t)"
    using assms(1) by (auto simp: journal_inv_def update_conv' journal_text_def split: option.splits)
  with r assms(2) show ?thesis by auto
qed

lemma append_inv:
  assumes "codec_ok C" "journal_inv C chat_id evs j ls t"
    "journal_append C None chat_id ev j = (Inr sq, j')"
  shows "\<exists>ls' t'. journal_inv C chat_id (evs @ [(sq, ev)]) j' ls' t'"
proof -
  obtain r j1 where e: "ensure_open C chat_id j = (r, j1)" by fastforce
  note o = ensure_open_inv [OF assms(2) e]
  from o e assms(3) obtain line where l: "jc_to_string C (Suc (length evs), ev) = Inr line" "sq = Suc (length evs)"
    by (auto simp: journal_append_def Let_def split: sum.splits)
  let ?nl = "if t \<noteq> [] then [newline] else []"
  have j': "j' = j1\<lparr>rj_dir := AList.update (path_for chat_id) (journal_text ls t @ ?nl @ line @ [newline]) (rj_dir j1),
      rj_open_files := AList.update chat_id \<lparr>cj_next_seq = Suc (Suc (length evs)), cj_needs_newline = False\<rparr>
        (rj_open_files j1)\<rparr>"
    using assms(3) o e l by (auto simp: journal_append_def Let_def)
  from assms(1) l(1) have c: "clean line" "jc_from_str C line = Some (Suc (length evs), ev)"
    by (auto simp: codec_ok_def)
  let ?ls = "ls @ torn_lines t @ [line]"
  have text_eq: "journal_text ls t @ ?nl @ line @ [newline] = journal_text ?ls []"
    unfolding next_text by (simp add: journal_text_def)
  have old: "list_all clean ls" "t = [] \<or> clean t" "evs_of C ls t = evs" "map fst evs = [1..<Suc (length evs)]"
    using assms(2) by (simp_all add: journal_inv_def)
  have "journal_inv C chat_id (evs @ [(sq, ev)]) j' ?ls []"
    unfolding journal_inv_def
  proof (intro conjI)
    show "list_all clean ?ls" using old c(1) by (auto simp: torn_lines_def)
    show "evs_of C ?ls [] = evs @ [(sq, ev)]" using old(3) c(2) l(2) by (simp add: evs_of_append)
    show "map fst (evs @ [(sq, ev)]) = [1..<Suc (length (evs @ [(sq, ev)]))]" using old(4) l(2) by simp
  qed (auto simp: j' update_conv' text_eq)
  then show ?thesis by blast
qed

lemma torn_inv:
  assumes "codec_ok C" "journal_inv C chat_id evs j ls t" "ensure_open C chat_id j = (Inr cj, j1)"
    "jc_to_string C (cj_next_seq cj, ev) = Inr line" "m < length line" "utf8_valid (take m line)"
    "k = 0 \<and> m = 0 \<or> k = (if cj_needs_newline cj then 1 else 0) + m"
  shows "\<exists>ls' t'. journal_inv C chat_id evs (restart (snd (journal_append C (Some k) chat_id ev j))) ls' t'"
proof -
  note o = ensure_open_inv [OF assms(2,3)]
  then have cj: "cj = \<lparr>cj_next_seq = Suc (length evs), cj_needs_newline = (t \<noteq> [])\<rparr>" by simp
  let ?nl = "if t \<noteq> [] then [newline] else []"
  have old: "list_all clean ls" "t = [] \<or> clean t" "evs_of C ls t = evs" "map fst evs = [1..<Suc (length evs)]"
    using assms(2) by (simp_all add: journal_inv_def)
  have dir: "map_of (rj_dir (snd (journal_append C (Some k) chat_id ev j))) (path_for chat_id) =
      Some (journal_text ls t @ take k (?nl @ line @ [newline]))"
    using o assms(3,4) cj by (simp add: journal_append_def Let_def update_conv')
  have line: "clean line" using assms(1,4) by (auto simp: codec_ok_def)
  have tk: "take k (?nl @ line @ [newline]) = ?nl @ take m line \<or> k = 0"
    using assms(5,7) cj by (auto simp: take_Cons')
  show ?thesis
  proof (cases "k = 0")
    case True
    then have "journal_inv C chat_id evs (restart (snd (journal_append C (Some k) chat_id ev j))) ls t"
      using assms(2) dir by (simp add: journal_inv_def restart_def journal_open_def)
    then show ?thesis by blast
  next
    case False
    let ?u = "take m line"
    have u: "?u = [] \<or> clean ?u" "?u = [] \<or> jc_from_str C ?u = None"
      using assms(1,4,5,6) line by (auto simp: codec_ok_def clean_def dest: in_set_takeD)
    have "journal_text ls t @ ?nl @ ?u = journal_text (ls @ torn_lines t) ?u" by (rule next_text)
    moreover have "list_all clean (ls @ torn_lines t)" using old by (auto simp: torn_lines_def)
    ultimately have "journal_inv C chat_id evs (restart (snd (journal_append C (Some k) chat_id ev j)))
        (ls @ torn_lines t) ?u"
      using dir tk False old u evs_of_torn [OF u(2), of ls t]
      by (simp add: journal_inv_def restart_def journal_open_def)
    then show ?thesis by blast
  qed
qed

lemma run_inv:
  assumes "codec_ok C" "journal_run C chat_id evs j"
  shows "\<exists>ls t. journal_inv C chat_id evs j ls t"
  using assms(2)
proof induction
  case (run_new dir)
  then have "journal_inv C chat_id [] (journal_open dir) [] []"
    by (simp add: journal_inv_def journal_open_def evs_of_def torn_lines_def)
  then show ?case by blast
next
  case (run_append evs j ev sq j')
  then show ?case using append_inv [OF assms(1)] by blast
next
  case (run_restart evs j)
  then obtain ls t where "journal_inv C chat_id evs j ls t" by blast
  then have "journal_inv C chat_id evs (restart j) ls t"
    by (simp add: journal_inv_def restart_def journal_open_def)
  then show ?case by blast
next
  case (run_torn evs j cj j1 ev line m k)
  then obtain ls t where "journal_inv C chat_id evs j ls t" by blast
  from torn_inv [OF assms(1) this run_torn(2-6)] show ?case .
qed

lemma inv_reads:
  assumes "journal_inv C chat_id evs j ls t"
  shows "read_lines C (map_of (rj_dir j) (path_for chat_id)) = Inr evs"
proof (cases "map_of (rj_dir j) (path_for chat_id)")
  case None
  with assms show ?thesis by (auto simp: journal_inv_def read_lines_def evs_of_def torn_lines_def)
next
  case (Some bs)
  with assms read_text [of ls t C] show ?thesis by (simp add: journal_inv_def)
qed

lemma filter_seq:
  "map fst evs = [a..<a + length evs] \<Longrightarrow> filter (\<lambda>(sq, _). sq > m) evs = drop (Suc m - a) evs"
proof (induction evs arbitrary: a)
  case (Cons p evs)
  have "[a..<a + length (p # evs)] = a # [Suc a..<Suc a + length evs]"
    by (subst upt_conv_Cons) simp_all
  with Cons.prems have p: "fst p = a" and r: "map fst evs = [Suc a..<Suc a + length evs]" by auto
  from Cons.IH [OF r] p show ?case
    by (cases p) (auto simp: Suc_diff_le)
qed simp


subsection \<open>Examples\<close>

definition demo_codec :: journal_codec where
  "demo_codec = \<lparr>jc_to_string = (\<lambda>p. if p = (1, TextDelta ''a'') then Inr ''{1''
       else if p = (2, TextDelta ''b'') then Inr ''{2'' else Inl ''unsupported''),
     jc_from_str = (\<lambda>l. if l = ''{1'' then Some (1, TextDelta ''a'')
       else if l = ''{2'' then Some (2, TextDelta ''b'') else None)\<rparr>"

lemma trim_ascii [simp]: "str_trim ''{1'' = ''{1''" "str_trim ''{2'' = ''{2''" "str_trim ''{'' = ''{''"
  by (simp_all add: str_trim_def trim_start.simps trim_end.simps ws_at_start_def ws_at_end_def ws_enc_def suffix_def)

lemma utf8_ascii [simp]: "utf8_valid ''{1''" "utf8_valid ''{2''" "utf8_valid ''{''" "utf8_valid ''''"
  by (simp_all add: utf8_valid.simps byte_in_def)

lemma demo_codec_ok: "codec_ok demo_codec"
proof -
  have "clean ''{1''" "clean ''{2''" by (simp_all add: clean_def newline_def is_blank_def)
  moreover have "m = 1" if "0 < m" "m < length ''{1''" for m using that by simp
  ultimately show ?thesis
    by (auto simp: codec_ok_def demo_codec_def is_blank_def less_Suc_eq split: if_splits)
qed


text \<open>
A write that breaks off inside a character of more than one byte leaves a line that is not UTF-8, and
  then every read of the file fails: the chat's journal takes no more events, and the recovery scan
  fails for all chats, although the torn line is meant to be skipped.
\<close>

lemma torn_character_blocks:
  assumes "\<not> list_all utf8_valid (str_lines bs)" "map_of (rj_dir j) (path_for chat_id) = Some bs"
    "map_of (rj_open_files j) chat_id = None" "sanitize_id chat_id \<noteq> []"
  shows "(\<exists>e. fst (journal_append C fault chat_id ev j) = Inl e) \<and> (\<exists>e. stale_sessions C j = Inl e)"
proof
  have "\<exists>e. read_lines C (Some bs) = Inl e" using assms(1) by (simp add: read_lines_def)
  then obtain e where e: "read_lines C (Some bs) = Inl e" by blast
  then show "\<exists>e. fst (journal_append C fault chat_id ev j) = Inl e"
    using assms(2,3) by (simp add: journal_append_def ensure_open_def scan_tail_def Let_def)
  have stem: "jsonl_stem (path_for chat_id) \<noteq> None \<or> sanitize_id chat_id = []"
    by (auto simp: jsonl_stem_def path_for_def)
  show "\<exists>e. stale_sessions C j = Inl e"
  proof -
    have "(path_for chat_id, bs) \<in> set es \<Longrightarrow> \<exists>e. stale_scan C es = Inl e" for es
      using stem e assms(4) by (induction es) (auto split: option.splits sum.splits)
    from this [OF map_of_SomeD [OF assms(2)]] show ?thesis by (auto simp: stale_sessions_def)
  qed
qed

lemma torn_character_example:
  "let bs = ''{1'' @ [newline, CHR ''{'', CHR 0xC3] in
     \<not> list_all utf8_valid (str_lines bs) \<and> jc_from_str demo_codec ''{1'' = Some (1, TextDelta ''a'')"
proof -
  have "str_lines (''{1'' @ newline # [CHR ''{'', CHR 0xC3]) = ''{1'' # str_lines [CHR ''{'', CHR 0xC3]"
    by (rule str_lines_cons) (simp_all add: newline_def)
  moreover have "str_lines [CHR ''{'', CHR 0xC3] = [[CHR ''{'', CHR 0xC3]]"
    by (simp add: str_lines_last newline_def torn_lines_def)
  moreover have "\<not> utf8_valid [CHR ''{'', CHR 0xC3]" by (simp add: utf8_valid.simps byte_in_def)
  ultimately show ?thesis by (simp add: Let_def demo_codec_def)
qed

text \<open>
A write that breaks off while the process lives on costs another event: the open file keeps its
  marks, so the next append is glued to the broken line. It reports success and the event is in no
  replay. Here the second append fails after one byte and the third succeeds.
\<close>

definition demo_after :: "bytes \<Rightarrow> nat \<Rightarrow> run_journal" where
  "demo_after bs n = \<lparr>rj_dir = [(path_for ''c'', bs)],
     rj_open_files = [(''c'', \<lparr>cj_next_seq = n, cj_needs_newline = False\<rparr>)]\<rparr>"

lemma demo_append1:
  "journal_append demo_codec None ''c'' (TextDelta ''a'') (journal_open []) = (Inr 1, demo_after (''{1'' @ [newline]) 2)"
  by (simp add: journal_append_def ensure_open_def journal_open_def scan_tail_def open_file_cap_def
      demo_codec_def Let_def demo_after_def)

lemma demo_append2:
  "journal_append demo_codec fault ''c'' (TextDelta ''b'') (demo_after bs 2) =
     (case fault of Some k \<Rightarrow> (Inl (JIo ''write failed''), demo_after (bs @ take k (''{2'' @ [newline])) 2)
      | None \<Rightarrow> (Inr 2, demo_after (bs @ ''{2'' @ [newline]) 3))"
  by (simp add: journal_append_def ensure_open_def demo_codec_def Let_def demo_after_def split: option.split)

lemma demo_line: "read_lines demo_codec (Some (''{1'' @ [newline])) = Inr [(1, TextDelta ''a'')]"
proof -
  have "list_all clean [''{1'']" by (simp add: clean_def newline_def is_blank_def)
  from read_text [OF this, of "[]" demo_codec] show ?thesis
    by (simp add: journal_text_def evs_of_def torn_lines_def List.map_filter_def demo_codec_def)
qed

lemma failed_write_loses_next:
  "\<exists>j1 j2 j3. journal_append demo_codec None ''c'' (TextDelta ''a'') (journal_open []) = (Inr 1, j1) \<and>
     journal_append demo_codec (Some 1) ''c'' (TextDelta ''b'') j1 = (Inl (JIo ''write failed''), j2) \<and>
     journal_append demo_codec None ''c'' (TextDelta ''b'') j2 = (Inr 2, j3) \<and>
     replay demo_codec ''c'' 0 j3 = Inr [(1, TextDelta ''a'')]"
proof -
  have tr: "str_trim ''{{2'' = ''{{2''"
    by (simp add: str_trim_def trim_start.simps trim_end.simps ws_at_start_def ws_at_end_def ws_enc_def suffix_def)
  have u: "utf8_valid ''{{2''" by (simp add: utf8_valid.simps byte_in_def)
  have "list_all clean [''{1'', ''{{2'']" by (simp add: clean_def newline_def is_blank_def tr u)
  from read_text [OF this, of "[]" demo_codec]
  have "read_lines demo_codec (Some (''{1'' @ newline # ''{{2'' @ [newline])) = Inr [(1, TextDelta ''a'')]"
    by (simp add: journal_text_def evs_of_def torn_lines_def List.map_filter_def demo_codec_def)
  then have "replay demo_codec ''c'' 0 (demo_after (''{1'' @ newline # ''{{2'' @ [newline]) 3) =
      Inr [(1, TextDelta ''a'')]"
    by (simp add: replay_def demo_after_def Let_def)
  then show ?thesis by (simp add: demo_append1 demo_append2)
qed

subsection \<open>The recovery scan\<close>

lemma jsonl_stem_path: "sanitize_id i \<noteq> [] \<Longrightarrow> jsonl_stem (path_for i) = Some (sanitize_id i)"
  by (simp add: jsonl_stem_def path_for_def)

lemma stale_scan_mem:
  "stale_scan C es = Inr ids \<Longrightarrow>
     i \<in> set ids \<longleftrightarrow> (\<exists>name bs evs. (name, bs) \<in> set es \<and> jsonl_stem name = Some i \<and>
       read_lines C (Some bs) = Inr evs \<and> evs \<noteq> [] \<and> \<not> is_done (snd (last evs)))"
proof (induction es arbitrary: ids)
  case (Cons e es)
  obtain name bs where e: "e = (name, bs)" by fastforce
  show ?case
  proof (cases "jsonl_stem name")
    case None
    with Cons.prems have "stale_scan C es = Inr ids" by (simp add: e)
    from Cons.IH [OF this] None show ?thesis by (auto simp: e)
  next
    case (Some c)
    with Cons.prems obtain evs ids' where r: "read_lines C (Some bs) = Inr evs" "stale_scan C es = Inr ids'"
      "ids = (if evs = [] \<or> is_done (snd (last evs)) then ids' else c # ids')"
      by (auto simp: e split: sum.splits)
    from Cons.IH [OF r(2)] r(1,3) Some show ?thesis by (auto simp: e)
  qed
qed simp

lemma stem_inj: "jsonl_stem a = Some i \<Longrightarrow> jsonl_stem b = Some i \<Longrightarrow> a = b"
  by (auto simp: jsonl_stem_def split: if_splits) (metis append_take_drop_id)



subsection \<open>File names\<close>

text \<open>No identifier leaves the journal directory: its file name has no separator and no dot before
  the extension.\<close>

lemma sanitize_chars: "c \<in> set (sanitize_id i) \<Longrightarrow> id_char c"
  by (auto simp: sanitize_id_def id_char_def)

lemma sanitize_safe: "CHR ''/'' \<notin> set (path_for i)" "CHR ''.'' \<notin> set (sanitize_id i)"
proof -
  have "\<not> id_char (CHR ''/'')" "\<not> id_char (CHR ''.'')" by (simp_all add: id_char_def byte_in_def)
  then have "CHR ''/'' \<notin> set (sanitize_id i)" "CHR ''.'' \<notin> set (sanitize_id i)"
    using sanitize_chars by blast+
  then show "CHR ''/'' \<notin> set (path_for i)" "CHR ''.'' \<notin> set (sanitize_id i)" by (simp_all add: path_for_def)
qed

end
