(* ===== verification/Doc_Stream.thy ===== *)
theory Doc_Stream
  imports Doc_Schema "HOL-Library.Countable"
begin

text \<open>
  The streaming writer of \<^verbatim>\<open>crates/doc/src/schema.rs\<close>: what a commit of the folded parts leaves in
  the document, and the equivalence of streaming an entry with writing it whole.
\<close>

subsection \<open>Streaming an entry\<close>

text \<open>What a later fold may change in a part: the fields the writer's update reaches.\<close>

definition kept :: "'a option \<Rightarrow> 'b option \<Rightarrow> bool" where
  "kept a b \<longleftrightarrow> (b = None \<longrightarrow> a = None)"

fun grows :: "message_part \<Rightarrow> message_part \<Rightarrow> bool" where
  "grows (PText i _) (PText i' _) = (i = i')"
| "grows (PCommentary i _) (PCommentary i' _) = (i = i')"
| "grows (PNotice i l _) (PNotice i' l' _) = (i = i' \<and> l = l')"
| "grows (PTool t) (PTool u) =
     (tp_id t = tp_id u \<and> (tp_resolved t \<longrightarrow> tp_resolved u) \<and> kept (tp_output t) (tp_output u) \<and>
      kept (tp_diff t) (tp_diff u) \<and> kept (tp_output_ref t) (tp_output_ref u) \<and>
      kept (tp_output_bytes t) (tp_output_bytes u) \<and> kept (tp_diff_ref t) (tp_diff_ref u) \<and>
      kept (tp_diff_stats t) (tp_diff_stats u))"
| "grows (PInput i rid _ _) (PInput i' rid' _ _) = (i = i' \<and> rid = rid')"
| "grows (PError i _) (PError i' _) = (i = i')"
| "grows _ _ = False"

definition parts_grow :: "message_part list \<Rightarrow> message_part list \<Rightarrow> bool" where
  "parts_grow ps qs \<longleftrightarrow> length ps \<le> length qs \<and> (\<forall>i < length ps. grows (ps ! i) (qs ! i))"

lemma kept_trans: "kept a b \<Longrightarrow> kept b c \<Longrightarrow> kept a c" by (simp add: kept_def)

lemma kept_refl [simp]: "kept a a" by (simp add: kept_def)

lemma grows_refl [simp]: "grows p p" by (cases p) simp_all

lemma grows_trans: "grows p q \<Longrightarrow> grows q r \<Longrightarrow> grows p r"
  by (cases p; cases q; cases r) (auto intro: kept_trans)

lemma parts_grow_refl [simp]: "parts_grow ps ps" by (simp add: parts_grow_def)

lemma parts_grow_Nil [simp]: "parts_grow [] ps" by (simp add: parts_grow_def)

lemma parts_grow_trans: "parts_grow ps qs \<Longrightarrow> parts_grow qs rs \<Longrightarrow> parts_grow ps rs"
  unfolding parts_grow_def by (meson grows_trans le_trans less_le_trans)

lemma run_acts_append: "run_acts (xs @ ys) = act_bind (run_acts xs) (\<lambda>_. run_acts ys)"
  by (induction xs) (auto simp: act_bind_def act_return_def fun_eq_iff split: prod.splits sum.splits)

definition update_fields :: "'d loro_ops \<Rightarrow> doc_part_json \<Rightarrow> (string \<times> field) list" where
  "update_fields L dp =
     field_opt (\<lambda>v. (''call'', FVal (ld_value L v))) (dp_call dp) @
     field_opt (\<lambda>b. (''isError'', FVal (JBool b))) (dp_is_error dp) @
     field_opt (\<lambda>v. (''questions'', FVal (ld_value L v))) (dp_questions dp) @
     field_opt (\<lambda>b. (''resolved'', FVal (JBool b))) (dp_resolved dp) @
     field_opt (\<lambda>s. (''message'', FVal (JStr s))) (dp_message dp) @
     field_opt (\<lambda>s. (''output'', FVal (JStr s))) (dp_output dp) @
     field_opt (\<lambda>v. (''diff'', FVal (ld_value L v))) (dp_diff dp) @
     field_opt (\<lambda>s. (''outputRef'', FVal (JStr s))) (dp_output_ref dp) @
     field_opt (\<lambda>n. (''outputBytes'', FVal (JInt (i64_wrap (int n))))) (dp_output_bytes dp) @
     field_opt (\<lambda>s. (''diffRef'', FVal (JStr s))) (dp_diff_ref dp) @
     field_opt (\<lambda>v. (''diffStats'', FVal (ld_value L v))) (dp_diff_stats dp)"

lemma update_part_split:
  "to_doc_part C part = Inr dp \<Longrightarrow>
     update_part_fields L C p part =
       act_bind (run_acts (map (put_field L p) (update_fields L dp)))
         (\<lambda>_. run_acts (opt_act (rewrite_text L p) (dp_text dp)))"
  unfolding update_part_fields_def update_fields_def map_append run_acts_append [symmetric] append_assoc
  by (simp, intro arg_cong [where f = run_acts] arg_cong2 [where f = "(@)"] opt_act_field)
    (simp_all add: act_fields)

lemma does_rewrite_text:
  assumes "loro_ok L" "map_of m ''text'' = Some (TText u)"
  shows "does L p (TMap m) (rewrite_text L p s) () (TMap (AList.update ''text'' (TText s) m))"
proof -
  have "does L p (TMap m) (act_of (ld_text_update L (p @ [Key ''text'']) s)) () (TMap (AList.update ''text'' (TText s) m))"
    by (rule does_at_key [OF does_text_update [OF assms(1)] assms(2)])
  then show ?thesis
    unfolding does_def rewrite_text_def act_of_def text_at_def map_get_def
    by (auto simp: assms(2) split: sum.splits)
qed

definition dp_grows :: "doc_part_json \<Rightarrow> doc_part_json \<Rightarrow> bool" where
  "dp_grows dp dq \<longleftrightarrow>
     dp_id dp = dp_id dq \<and> dp_kind dp = dp_kind dq \<and> dp_level dp = dp_level dq \<and>
     (dp_text dp = None \<longleftrightarrow> dp_text dq = None) \<and> kept (dp_call dp) (dp_call dq) \<and>
     kept (dp_is_error dp) (dp_is_error dq) \<and> kept (dp_questions dp) (dp_questions dq) \<and>
     kept (dp_resolved dp) (dp_resolved dq) \<and> kept (dp_message dp) (dp_message dq) \<and>
     kept (dp_output dp) (dp_output dq) \<and> kept (dp_diff dp) (dp_diff dq) \<and>
     kept (dp_output_ref dp) (dp_output_ref dq) \<and> kept (dp_output_bytes dp) (dp_output_bytes dq) \<and>
     kept (dp_diff_ref dp) (dp_diff_ref dq) \<and> kept (dp_diff_stats dp) (dp_diff_stats dq)"

lemma json_opt_kept: "json_opt f a = Inr x \<Longrightarrow> json_opt f b = Inr y \<Longrightarrow> kept a b \<Longrightarrow> kept x y"
  by (auto simp: json_opt_def kept_def split: option.splits sum.splits)

lemma grows_doc:
  assumes "grows p q" "to_doc_part C p = Inr dp" "to_doc_part C q = Inr dq"
  shows "dp_grows dp dq"
  using assms
  by (cases p; cases q)
    (auto simp: dp_grows_def doc_part_default_def to_doc_tool_def split: sum.splits if_splits
      intro: json_opt_kept, auto simp: kept_def)

lemma update_lookup:
  assumes "dp_grows dp dq"
  shows "part_lookup L dp ++ fields_map (update_fields L dq) ++ opt_map ''text'' TText (dp_text dq) = part_lookup L dq"
proof (rule ext)
  let ?keys = "[''id'', ''kind'', ''text'', ''call'', ''isError'', ''questions'', ''resolved'', ''message'',
    ''level'', ''output'', ''diff'', ''outputRef'', ''outputBytes'', ''diffRef'', ''diffStats'']"
  have u: "fields_map (update_fields L dq) =
     opt_map ''call'' (\<lambda>v. TVal (ld_value L v)) (dp_call dq) ++
     opt_map ''isError'' (\<lambda>b. TVal (JBool b)) (dp_is_error dq) ++
     opt_map ''questions'' (\<lambda>v. TVal (ld_value L v)) (dp_questions dq) ++
     opt_map ''resolved'' (\<lambda>b. TVal (JBool b)) (dp_resolved dq) ++
     opt_map ''message'' (\<lambda>s. TVal (JStr s)) (dp_message dq) ++
     opt_map ''output'' (\<lambda>s. TVal (JStr s)) (dp_output dq) ++
     opt_map ''diff'' (\<lambda>v. TVal (ld_value L v)) (dp_diff dq) ++
     opt_map ''outputRef'' (\<lambda>s. TVal (JStr s)) (dp_output_ref dq) ++
     opt_map ''outputBytes'' (\<lambda>n. TVal (JInt (i64_wrap (int n)))) (dp_output_bytes dq) ++
     opt_map ''diffRef'' (\<lambda>s. TVal (JStr s)) (dp_diff_ref dq) ++
     opt_map ''diffStats'' (\<lambda>v. TVal (ld_value L v)) (dp_diff_stats dq)"
    unfolding update_fields_def fields_map_append map_add_assoc
    by (intro arg_cong2 [where f = "(++)"]) (simp_all add: fields_map_opt)
  fix k
  show "(part_lookup L dp ++ fields_map (update_fields L dq) ++ opt_map ''text'' TText (dp_text dq)) k = part_lookup L dq k"
  proof (cases "k \<in> set ?keys")
    case True
    note k = True [unfolded list.set insert_iff empty_iff simp_thms]
    show ?thesis
      using k assms unfolding u part_lookup_def map_add_assoc dp_grows_def kept_def
      by (elim disjE; simp add: opt_map_add)
  next
    case False
    then show ?thesis unfolding u part_lookup_def map_add_assoc by (simp add: opt_map_add)
  qed
qed


lemma does_update_part:
  assumes "loro_ok L" "to_doc_part C part = Inr dq" "dp_grows dp dq" "map_of m = part_lookup L dp"
  shows "\<exists>m'. does L p (TMap m) (update_part_fields L C p part) () (TMap m') \<and> map_of m' = part_lookup L dq"
proof -
  let ?m = "fill (update_fields L dq) m"
  have fill: "does L p (TMap m) (run_acts (map (put_field L p) (update_fields L dq))) () (TMap ?m)"
    by (rule does_fill [OF assms(1)])
  have m: "map_of ?m = part_lookup L dp ++ fields_map (update_fields L dq)"
    by (simp add: map_of_fill assms(4) fields_map_def)
  show ?thesis
  proof (cases "dp_text dq")
    case None
    have "opt_map ''text'' TText (None :: string option) = Map.empty" by (simp add: opt_map_def fun_eq_iff)
    with None update_lookup [OF assms(3), of L] have "map_of ?m = part_lookup L dq" by (simp add: m)
    moreover have "does L p (TMap m) (update_part_fields L C p part) () (TMap ?m)"
      unfolding update_part_split [OF assms(2)]
      by (rule does_bind [OF fill]) (simp add: None opt_act_def does_return)
    ultimately show ?thesis by blast
  next
    case (Some s)
    with assms(3) obtain u where u: "dp_text dp = Some u" by (auto simp: dp_grows_def)
    have "fields_map (update_fields L dq) ''text'' = None"
      by (simp add: update_fields_def fields_map_append fields_map_opt opt_map_add) (simp add: opt_map_def)
    then have t: "map_of ?m ''text'' = Some (TText u)"
      unfolding m using part_lookups(3) [OF assms(4)] u by (simp add: map_add_def assms(4))
    have "does L p (TMap ?m) (run_acts (opt_act (rewrite_text L p) (dp_text dq))) ()
        (TMap (AList.update ''text'' (TText s) ?m))"
      using does_bind [OF does_rewrite_text [OF assms(1) t] does_return, of p s "\<lambda>_. ()"]
      by (simp add: Some opt_act_def)
    then have "does L p (TMap m) (update_part_fields L C p part) () (TMap (AList.update ''text'' (TText s) ?m))"
      unfolding update_part_split [OF assms(2)] by (rule does_bind [OF fill])
    moreover have "map_of (AList.update ''text'' (TText s) ?m) = part_lookup L dq"
    proof -
      have "opt_map ''text'' TText (Some s) = [''text'' \<mapsto> TText s]" by (auto simp: opt_map_def)
      with update_lookup [OF assms(3), of L] show ?thesis by (simp add: update_conv' m Some)
    qed
    ultimately show ?thesis by blast
  qed
qed

lemma does_part_map_at:
  "i < length ts \<Longrightarrow> ts ! i = TMap m \<Longrightarrow> does L p (TList ts) (part_map_at L p i) (p @ [Idx i]) (TList ts)"
  by (auto simp: does_def part_map_at_def tree_at_append tree_upd_id)

lemma does_append_text:
  assumes "loro_ok L" "i < length ts" "ts ! i = TMap m" "map_of m ''text'' = Some (TText u)"
  shows "does L p (TList ts) (append_text L p i delta) ()
    (TList (ts[i := TMap (AList.update ''text'' (TText (u @ delta)) m)]))"
proof -
  let ?q = "p @ [Idx i]"
  have "does L ?q (TMap m) (act_of (ld_text_insert L (?q @ [Key ''text'']) (char_count u) delta)) ()
      (TMap (AList.update ''text'' (TText (u @ delta)) m))"
    by (rule does_at_key [OF does_text_insert [OF assms(1)] assms(4)])
  from does_at_idx [OF this assms(2,3)]
  have t: "does L p (TList ts) (act_of (ld_text_insert L (?q @ [Key ''text'']) (char_count u) delta)) ()
      (TList (ts[i := TMap (AList.update ''text'' (TText (u @ delta)) m)]))" .
  have "text_at L ?q d = Some u" if "tree_at p (ld_tree L d) = Some (TList ts)" for d
    using that assms by (simp add: text_at_def map_get_def tree_at_append)
  with t have "does L p (TList ts) (\<lambda>d. case text_at L ?q d of
         Some u \<Rightarrow> act_of (ld_text_insert L (?q @ [Key ''text'']) (char_count u) delta) d
       | None \<Rightarrow> (Inl (DeSchema ''text part missing LoroText''), d)) ()
      (TList (ts[i := TMap (AList.update ''text'' (TText (u @ delta)) m)]))"
    by (simp add: does_def)
  then show ?thesis
    unfolding append_text_def by (rule does_bind [OF does_part_map_at [OF assms(2,3)]])
qed

lemma text_growth_text:
  assumes "text_growth prev part = Some delta" "to_doc_part C prev = Inr dp" "to_doc_part C part = Inr dq"
    "grows prev part"
  shows "\<exists>u. dp_text dp = Some u \<and> dq = dp\<lparr>dp_text := Some (u @ delta)\<rparr>"
  using assms
  by (cases prev; cases part) (auto simp: text_growth_def doc_part_default_def prefix_def split: if_splits)

lemma text_lookup: "dp_text dp = Some u \<Longrightarrow> part_lookup L (dp\<lparr>dp_text := Some s\<rparr>) = (part_lookup L dp)(''text'' \<mapsto> TText s)"
  by (rule ext) (simp add: part_lookup_def opt_map_add)

definition sync_step :: "nat \<Rightarrow> message_part \<Rightarrow> message_part list \<Rightarrow> message_part list" where
  "sync_step i part written = (if length written \<le> i then written @ [part] else written[i := part])"

lemma does_sync_part:
  assumes "loro_ok L" "part_codec_ok L C" "list_all2 (part_rep L C) written ts" "bytes_ok part"
    "i < length written \<Longrightarrow> grows (written ! i) part"
  shows "\<exists>b ts'. does L p (TList ts) (sync_part L C p i part written) b (TList ts') \<and>
    list_all2 (part_rep L C) (sync_step i part written) ts'"
proof -
  from to_doc_part_back [OF assms(2,4)] obtain dq where dq: "to_doc_part C part = Inr dq" by blast
  show ?thesis
  proof (cases "length written \<le> i")
    case True
    let ?t = "TMap (fill (part_fields L dq) [])"
    have "does L p (TList ts) (sync_part L C p i part written) True (TList (ts @ [?t]))"
      using does_bind [OF does_push_part [OF assms(1) dq, of p ts] does_return, of "\<lambda>_. True"] True
      by (simp add: sync_part_def)
    moreover have "list_all2 (part_rep L C) (sync_step i part written) (ts @ [?t])"
      using assms(3) part_rep_written [OF dq, of L] True by (auto simp: sync_step_def intro!: list_all2_appendI)
    ultimately show ?thesis by blast
  next
    case False
    then have i: "i < length written" "i < length ts" using assms(3) by (auto dest: list_all2_lengthD)
    from assms(3) i obtain dp m where r: "to_doc_part C (written ! i) = Inr dp" "ts ! i = TMap m"
      "map_of m = part_lookup L dp" by (auto simp: part_rep_def dest!: list_all2_nthD)
    note g = assms(5) [OF i(1)]
    have upd: "list_all2 (part_rep L C) (sync_step i part written) (ts[i := TMap m'])"
      if "map_of m' = part_lookup L dq" for m'
      using assms(3) False that dq by (auto simp: sync_step_def part_rep_def intro: list_all2_update_cong)
    consider (same) "written ! i = part \<or> text_growth (written ! i) part = Some []"
      | (grow) delta where "written ! i \<noteq> part" "text_growth (written ! i) part = Some delta" "delta \<noteq> []"
      | (other) "written ! i \<noteq> part" "text_growth (written ! i) part = None" by fastforce
    then show ?thesis
    proof cases
      case same
      then have "sync_part L C p i part written = act_return False" using False by (auto simp: sync_part_def)
      moreover have "map_of m = part_lookup L dq"
      proof (cases "written ! i = part")
        case True
        with r dq show ?thesis by simp
      next
        case False
        with same have "text_growth (written ! i) part = Some []" by simp
        from text_growth_text [OF this r(1) dq g] r(3) show ?thesis by (cases dp) auto
      qed
      then have "list_all2 (part_rep L C) (sync_step i part written) (ts[i := TMap m])" by (rule upd)
      moreover have "ts[i := TMap m] = ts" using r(2) by (metis list_update_id)
      ultimately show ?thesis by (metis does_return)
    next
      case grow
      from text_growth_text [OF grow(2) r(1) dq g] obtain u where
        u: "dp_text dp = Some u" "dq = dp\<lparr>dp_text := Some (u @ delta)\<rparr>" by blast
      have "map_of m ''text'' = Some (TText u)" using part_lookups(3) [OF r(3)] u(1) by simp
      from does_append_text [OF assms(1) i(2) r(2) this, of p delta] have
        "does L p (TList ts) (sync_part L C p i part written) True
          (TList (ts[i := TMap (AList.update ''text'' (TText (u @ delta)) m)]))"
        using does_bind [OF _ does_return, of L p "TList ts" "append_text L p i delta" "()" _ "\<lambda>_. True"] False grow
        by (simp add: sync_part_def)
      moreover have "map_of (AList.update ''text'' (TText (u @ delta)) m) = part_lookup L dq"
        unfolding u(2) text_lookup [OF u(1)] by (simp add: update_conv' r(3))
      ultimately show ?thesis using upd by blast
    next
      case other
      from does_update_part [OF assms(1) dq grows_doc [OF g r(1) dq] r(3), of "p @ [Idx i]"] obtain m' where
        m': "does L (p @ [Idx i]) (TMap m) (update_part_fields L C (p @ [Idx i]) part) () (TMap m')"
        "map_of m' = part_lookup L dq" by blast
      have "does L p (TList ts) (act_bind (update_part_fields L C (p @ [Idx i]) part) (\<lambda>_. act_return True)) True
          (TList (ts[i := TMap m']))"
        by (rule does_bind [OF does_at_idx [OF m'(1) i(2) r(2)] does_return])
      then have "does L p (TList ts) (act_bind (part_map_at L p i) (\<lambda>p. act_bind (update_part_fields L C p part)
          (\<lambda>_. act_return True))) True (TList (ts[i := TMap m']))"
        by (rule does_bind [OF does_part_map_at [OF i(2) r(2)]])
      then have "does L p (TList ts) (sync_part L C p i part written) True (TList (ts[i := TMap m']))"
        using other False by (simp add: sync_part_def)
      with upd [OF m'(2)] show ?thesis by blast
    qed
  qed
qed


lemma sync_loop_effect:
  assumes "loro_ok L" "part_codec_ok L C" "list_all bytes_ok rest"
    "list_all2 (part_rep L C) written ts" "tree_at p (ld_tree L d) = Some (TList ts)" "i \<le> length written"
    "\<And>j. j < length rest \<Longrightarrow> i + j < length written \<Longrightarrow> grows (written ! (i + j)) (rest ! j)"
  shows "\<exists>b ts' d'. sync_loop L C p i rest written dirty d =
      (Inr b, take i written @ rest @ drop (i + length rest) written, d') \<and>
    ld_tree L d' = tree_upd p (\<lambda>_. TList ts') (ld_tree L d) \<and>
    list_all2 (part_rep L C) (take i written @ rest @ drop (i + length rest) written) ts'"
  using assms(3-7)
proof (induction rest arbitrary: i written ts dirty d)
  case Nil
  then show ?case by (intro exI [of _ dirty] exI [of _ ts] exI [of _ d]) (simp add: tree_upd_id)
next
  case (Cons part rest)
  have g: "i < length written \<Longrightarrow> grows (written ! i) part" using Cons.prems(5) [of 0] by simp
  from does_sync_part [OF assms(1,2) Cons.prems(2) _ g, of p] Cons.prems(1) obtain b1 ts1 where
    1: "does L p (TList ts) (sync_part L C p i part written) b1 (TList ts1)"
      "list_all2 (part_rep L C) (sync_step i part written) ts1" by auto
  from doesD [OF 1(1) Cons.prems(3)] obtain d1 where
    d1: "sync_part L C p i part written d = (Inr b1, d1)" "ld_tree L d1 = tree_upd p (\<lambda>_. TList ts1) (ld_tree L d)" by blast
  have at: "tree_at p (ld_tree L d1) = Some (TList ts1)"
    unfolding d1(2) tree_at_upd using Cons.prems(3) by simp
  let ?w = "sync_step i part written"
  have w: "length ?w = max (length written) (Suc i)" "\<And>j. Suc i + j < length ?w \<Longrightarrow> ?w ! (Suc i + j) = written ! (Suc i + j)"
    "take (Suc i) ?w = take i written @ [part]" "drop (Suc (i + n)) ?w = drop (Suc (i + n)) written" for n
    using Cons.prems(4) by (auto simp: sync_step_def take_Suc_conv_app_nth drop_update_cancel)
  have "\<exists>b ts' d'. sync_loop L C p (Suc i) rest ?w (dirty \<or> b1) d1 =
      (Inr b, take (Suc i) ?w @ rest @ drop (Suc i + length rest) ?w, d') \<and>
    ld_tree L d' = tree_upd p (\<lambda>_. TList ts') (ld_tree L d1) \<and>
    list_all2 (part_rep L C) (take (Suc i) ?w @ rest @ drop (Suc i + length rest) ?w) ts'"
  proof (rule Cons.IH [OF _ 1(2) at])
    show "Suc i \<le> length ?w" by (simp add: w)
    show "grows (?w ! (Suc i + j)) (rest ! j)" if "j < length rest" "Suc i + j < length ?w" for j
      using Cons.prems(5) [of "Suc j"] that w(1,2) by simp
  qed (use Cons.prems(1) in simp)
  then obtain b ts' d' where r: "sync_loop L C p (Suc i) rest ?w (dirty \<or> b1) d1 =
      (Inr b, take i written @ (part # rest) @ drop (i + length (part # rest)) written, d')"
    "ld_tree L d' = tree_upd p (\<lambda>_. TList ts') (ld_tree L d1)"
    "list_all2 (part_rep L C) (take i written @ (part # rest) @ drop (i + length (part # rest)) written) ts'"
    by (auto simp: w(3,4))
  have "sync_loop L C p i (part # rest) written dirty d = sync_loop L C p (Suc i) rest ?w (dirty \<or> b1) d1"
    by (simp add: d1(1) sync_step_def)
  with r d1(2) show ?case by (auto simp: tree_upd_const)
qed

text \<open>A writer on its entry: the document's entry holds exactly the parts the writer remembers.\<close>

definition writer_at :: "'d loro_ops \<Rightarrow> part_codec \<Rightarrow> segment_writer \<Rightarrow> session_message_entry \<Rightarrow> ltree list \<Rightarrow>
    ltree list \<Rightarrow> 'd \<Rightarrow> bool" where
  "writer_at L C w e pre post d \<longleftrightarrow>
     sw_entry_index w = length pre \<and>
     (\<exists>t. tree_at [Key ''messages''] (ld_tree L d) = Some (TList (pre @ t # post)) \<and>
        entry_rep L C (e\<lparr>me_parts := sw_written w\<rparr>) t)"

lemma segment_begin_effect:
  assumes "loro_ok L" "tree_at [Key ''messages''] (ld_tree L d) = Some (TList ts)"
  shows "\<exists>d'. segment_begin L i dev at d = (Inr \<lparr>sw_entry_index = length ts, sw_written = []\<rparr>, d') \<and>
    (\<exists>t'. ld_tree L d' = tree_upd [Key ''messages''] (\<lambda>_. TList t') (ld_tree L d)) \<and>
    writer_at L C \<lparr>sw_entry_index = length ts, sw_written = []\<rparr>
      \<lparr>me_id = i, me_role = MrAssistant, me_parts = [], me_created_at = at, me_device_id = dev,
       me_status = Some MsStreaming, me_continuation_of = None\<rparr> ts [] d'"
proof -
  let ?e = "\<lparr>me_id = i, me_role = MrAssistant, me_parts = [], me_created_at = at, me_device_id = dev,
       me_status = Some MsStreaming, me_continuation_of = None\<rparr>"
  let ?w = "\<lparr>sw_entry_index = length ts, sw_written = []\<rparr>"
  let ?p = "[Key ''messages'', Idx (length ts)]" and ?m = "fill (entry_fields ?e) []"
  let ?t = "TMap (AList.update ''parts'' (TList []) ?m)"
  have body: "does L ?p (TMap []) (act_bind (write_entry_scalar_fields L ?p ?e) (\<lambda>_.
      act_bind (act_of (ld_insert_container L ?p ''parts'' (TList []))) (\<lambda>_.
        act_bind (act_commit L) (\<lambda>_. act_return ?w)))) ?w ?t"
    by (rule does_bind [OF does_write_entry [OF assms(1)]], rule does_bind [OF does_insert_container [OF assms(1)]],
        rule does_bind [OF does_commit [OF assms(1)]], rule does_return)
  have "does L [Key ''messages''] (TList ts) (act_bind (push_map L [Key ''messages'']) (\<lambda>p.
      act_bind (write_entry_scalar_fields L p ?e) (\<lambda>_.
      act_bind (act_of (ld_insert_container L p ''parts'' (TList []))) (\<lambda>_.
        act_bind (act_commit L) (\<lambda>_. act_return ?w))))) ?w (TList (ts @ [?t]))"
    by (rule does_push_map [OF assms(1)]) (use body in simp)
  from doesD [OF this assms(2)] obtain d' where d': "segment_begin L i dev at d = (Inr ?w, d')"
    "ld_tree L d' = tree_upd [Key ''messages''] (\<lambda>_. TList (ts @ [?t])) (ld_tree L d)"
    using assms(2) by (auto simp: segment_begin_def list_len_def)
  have "tree_at [Key ''messages''] (ld_tree L d') = Some (TList (ts @ ?t # []))"
    unfolding d'(2) tree_at_upd using assms(2) by simp
  moreover have "entry_rep L C (?e\<lparr>me_parts := []\<rparr>) ?t"
    by (auto simp: entry_rep_def update_conv' fields_map_fill entry_fields_map)
  ultimately have "writer_at L C ?w ?e ts [] d'" by (auto simp: writer_at_def)
  with d' show ?thesis by blast
qed


lemma tree_at_root: "tree_at [Key k] t = Some u \<Longrightarrow> tree_at (Key k # q) t = tree_at q u"
  using tree_at_append [of "[Key k]" q t] by simp

lemma writer_at_reads:
  assumes "writer_at L C w e pre post d"
  shows "entry_map L w d = Inr [Key ''messages'', Idx (length pre)]"
    "parts_list L w d = Inr [Key ''messages'', Idx (length pre), Key ''parts'']"
proof -
  from assms obtain m ts where r: "sw_entry_index w = length pre"
    "tree_at [Key ''messages''] (ld_tree L d) = Some (TList (pre @ TMap m # post))"
    "map_of m = (entry_lookup (e\<lparr>me_parts := sw_written w\<rparr>))(''parts'' \<mapsto> TList ts)"
    by (auto simp: writer_at_def entry_rep_def)
  have "tree_at [Key ''messages'', Idx (length pre)] (ld_tree L d) = Some (TMap m)"
    by (simp add: tree_at_root [OF r(2)])
  then show "entry_map L w d = Inr [Key ''messages'', Idx (length pre)]"
    "parts_list L w d = Inr [Key ''messages'', Idx (length pre), Key ''parts'']"
    using r(1,3) by (simp_all add: entry_map_def parts_list_def map_get_def)
qed

lemma sync_effect:
  assumes "loro_ok L" "part_codec_ok L C" "list_all bytes_ok folded" "writer_at L C w e pre post d"
    "parts_grow (sw_written w) folded"
  shows "\<exists>d'. segment_sync L C folded w d = (Inr (), w\<lparr>sw_written := folded\<rparr>, d') \<and>
    (\<exists>t'. ld_tree L d' = tree_upd [Key ''messages''] (\<lambda>_. TList t') (ld_tree L d)) \<and>
    writer_at L C (w\<lparr>sw_written := folded\<rparr>) e pre post d'"
proof -
  let ?i = "length pre" and ?P = "[Key ''messages'', Idx (length pre), Key ''parts'']"
  from assms(4) obtain m ts where r: "sw_entry_index w = ?i"
    "tree_at [Key ''messages''] (ld_tree L d) = Some (TList (pre @ TMap m # post))"
    "map_of m = (entry_lookup (e\<lparr>me_parts := sw_written w\<rparr>))(''parts'' \<mapsto> TList ts)"
    "list_all2 (part_rep L C) (sw_written w) ts"
    by (auto simp: writer_at_def entry_rep_def)
  have at: "tree_at ?P (ld_tree L d) = Some (TList ts)"
    by (simp add: tree_at_root [OF r(2)] r(3))
  have g: "j < length folded \<Longrightarrow> 0 + j < length (sw_written w) \<Longrightarrow> grows (sw_written w ! (0 + j)) (folded ! j)" for j
    using assms(5) by (simp add: parts_grow_def)
  have len: "length (sw_written w) \<le> length folded" using assms(5) by (simp add: parts_grow_def)
  from sync_loop_effect [OF assms(1-3) r(4) at _ g, of False] obtain b ts' d' where
    s: "sync_loop L C ?P 0 folded (sw_written w) False d = (Inr b, folded, d')"
      "ld_tree L d' = tree_upd ?P (\<lambda>_. TList ts') (ld_tree L d)" "list_all2 (part_rep L C) folded ts'"
    using len by auto
  let ?d = "if b then ld_commit L d' else d'"
  have tree: "ld_tree L ?d = ld_tree L d'" using assms(1) by (simp add: loro_ok_def law_commit_def)
  let ?t = "TMap (AList.update ''parts'' (TList ts') m)"
  have "ld_tree L d' = tree_upd [Key ''messages''] (tree_upd [Idx ?i, Key ''parts''] (\<lambda>_. TList ts')) (ld_tree L d)"
    using s(2) tree_upd_append [of "[Key ''messages'']" "[Idx ?i, Key ''parts'']"] by simp
  also have "\<dots> = tree_upd [Key ''messages''] (\<lambda>_. TList (pre @ ?t # post)) (ld_tree L d)"
    by (rule tree_upd_cong) (simp add: r(2,3) update_map_entry nth_append list_update_append)
  finally have eff: "ld_tree L ?d = tree_upd [Key ''messages''] (\<lambda>_. TList (pre @ ?t # post)) (ld_tree L d)"
    using tree by simp
  have "tree_at [Key ''messages''] (ld_tree L ?d) = Some (TList (pre @ ?t # post))"
    unfolding eff tree_at_upd using r(2) by simp
  moreover have "entry_rep L C (e\<lparr>me_parts := folded\<rparr>) ?t"
    using s(3) by (auto simp: entry_rep_def update_conv' r(3) entry_lookup_def)
  ultimately have "writer_at L C (w\<lparr>sw_written := folded\<rparr>) e pre post ?d"
    using r(1) by (auto simp: writer_at_def)
  moreover have "segment_sync L C folded w d = (Inr (), w\<lparr>sw_written := folded\<rparr>, ?d)"
    unfolding segment_sync_def writer_at_reads(2) [OF assms(4)] by (simp add: s(1))
  ultimately show ?thesis using eff by blast
qed

lemma status_lookup: "entry_lookup (e\<lparr>me_status := Some s\<rparr>) = (entry_lookup e)(''status'' \<mapsto> TVal (JStr (status_str s)))"
  by (rule ext) (simp add: entry_lookup_def opt_map_add)

lemma finish_effect:
  assumes "loro_ok L" "part_codec_ok L C" "list_all bytes_ok folded" "writer_at L C w e pre post d"
    "parts_grow (sw_written w) folded"
  shows "\<exists>d' t. segment_finish L C folded status w d = (Inr (), d') \<and>
    ld_tree L d' = tree_upd [Key ''messages''] (\<lambda>_. TList (pre @ t # post)) (ld_tree L d) \<and>
    entry_rep L C (e\<lparr>me_parts := folded, me_status := Some status\<rparr>) t"
proof -
  let ?i = "length pre"
  from sync_effect [OF assms] obtain d1 t1 where 1: "segment_sync L C folded w d = (Inr (), w\<lparr>sw_written := folded\<rparr>, d1)"
    "ld_tree L d1 = tree_upd [Key ''messages''] (\<lambda>_. TList t1) (ld_tree L d)"
    "writer_at L C (w\<lparr>sw_written := folded\<rparr>) e pre post d1" by blast
  from 1(3) obtain m ts where r: "tree_at [Key ''messages''] (ld_tree L d1) = Some (TList (pre @ TMap m # post))"
    "map_of m = (entry_lookup (e\<lparr>me_parts := folded\<rparr>))(''parts'' \<mapsto> TList ts)" "list_all2 (part_rep L C) folded ts"
    by (auto simp: writer_at_def entry_rep_def)
  let ?t = "TMap (AList.update ''status'' (TVal (JStr (status_str status))) m)"
  have "does L [Key ''messages'', Idx ?i] (TMap m)
      (act_bind (put_str L [Key ''messages'', Idx ?i] ''status'' (status_str status)) (\<lambda>_. act_commit L)) () ?t"
    unfolding put_str_def by (rule does_bind [OF does_put_value [OF assms(1)] does_commit [OF assms(1)]])
  from does_at_idx [of L "[Key ''messages'']" ?i, simplified, OF this, of "pre @ TMap m # post"]
  have "does L [Key ''messages''] (TList (pre @ TMap m # post))
      (act_bind (put_str L [Key ''messages'', Idx ?i] ''status'' (status_str status)) (\<lambda>_. act_commit L)) ()
      (TList (pre @ ?t # post))"
    by (simp add: nth_append list_update_append)
  from doesD [OF this r(1)] obtain d' where
    2: "act_bind (put_str L [Key ''messages'', Idx ?i] ''status'' (status_str status)) (\<lambda>_. act_commit L) d1 = (Inr (), d')"
      "ld_tree L d' = tree_upd [Key ''messages''] (\<lambda>_. TList (pre @ ?t # post)) (ld_tree L d1)" by blast
  have "entry_rep L C (e\<lparr>me_parts := folded, me_status := Some status\<rparr>) ?t"
    using r(2,3) status_lookup [where e = "e\<lparr>me_parts := folded\<rparr>" and s = status]
    by (auto simp: entry_rep_def update_conv' fun_upd_twist)
  moreover have "segment_finish L C folded status w d = (Inr (), d')"
    using 1(1) 2(1) by (simp add: segment_finish_def writer_at_reads(1) [OF 1(3)])
  ultimately show ?thesis using 2(2) 1(2) by (auto simp: tree_upd_const)
qed

text \<open>An entry streamed in commits: begin, a commit of each successive fold, and the final one.\<close>

fun sync_all :: "'d loro_ops \<Rightarrow> part_codec \<Rightarrow> message_part list list \<Rightarrow> segment_writer \<Rightarrow> 'd \<Rightarrow>
    (doc_error + unit) \<times> segment_writer \<times> 'd" where
  "sync_all L C [] w d = (Inr (), w, d)"
| "sync_all L C (f # fs) w d =
     (case segment_sync L C f w d of
        (Inl e, w, d) \<Rightarrow> (Inl e, w, d)
      | (Inr _, w, d) \<Rightarrow> sync_all L C fs w d)"

definition stream_segment :: "'d loro_ops \<Rightarrow> part_codec \<Rightarrow> string \<Rightarrow> string \<Rightarrow> int \<Rightarrow> message_part list list \<Rightarrow>
    message_part list \<Rightarrow> message_status \<Rightarrow> ('d, unit) act" where
  "stream_segment L C i dev at folds final status d =
     (case segment_begin L i dev at d of
        (Inl e, d) \<Rightarrow> (Inl e, d)
      | (Inr w, d) \<Rightarrow>
          (case sync_all L C folds w d of
             (Inl e, w, d) \<Rightarrow> (Inl e, d)
           | (Inr _, w, d) \<Rightarrow> segment_finish L C final status w d))"

lemma sync_all_effect:
  assumes "loro_ok L" "part_codec_ok L C" "list_all (list_all bytes_ok) folds" "writer_at L C w e pre post d"
    "successively parts_grow (sw_written w # folds)"
  shows "\<exists>d'. sync_all L C folds w d = (Inr (), w\<lparr>sw_written := last (sw_written w # folds)\<rparr>, d') \<and>
    (\<exists>t. tree_at [Key ''messages''] (ld_tree L d) = Some t \<and>
       (\<exists>t'. ld_tree L d' = tree_upd [Key ''messages''] (\<lambda>_. t') (ld_tree L d))) \<and>
    writer_at L C (w\<lparr>sw_written := last (sw_written w # folds)\<rparr>) e pre post d'"
  using assms(3-5)
proof (induction folds arbitrary: w d)
  case Nil
  then show ?case by (auto simp: writer_at_def intro: tree_upd_id [symmetric])
next
  case (Cons f fs)
  from sync_effect [OF assms(1,2) _ Cons.prems(2), of f] Cons.prems(1,3) obtain d1 t1 where
    1: "segment_sync L C f w d = (Inr (), w\<lparr>sw_written := f\<rparr>, d1)"
      "ld_tree L d1 = tree_upd [Key ''messages''] (\<lambda>_. TList t1) (ld_tree L d)"
      "writer_at L C (w\<lparr>sw_written := f\<rparr>) e pre post d1" by auto
  from Cons.IH [OF _ 1(3)] Cons.prems(1,3) obtain d2 t2 where
    2: "sync_all L C fs (w\<lparr>sw_written := f\<rparr>) d1 = (Inr (), w\<lparr>sw_written := last (f # fs)\<rparr>, d2)"
      "ld_tree L d2 = tree_upd [Key ''messages''] (\<lambda>_. t2) (ld_tree L d1)"
      "writer_at L C (w\<lparr>sw_written := last (f # fs)\<rparr>) e pre post d2" by auto
  from Cons.prems(2) obtain t where "tree_at [Key ''messages''] (ld_tree L d) = Some t" by (auto simp: writer_at_def)
  with 1 2 show ?case by (auto simp: tree_upd_const)
qed

lemma stream_reads:
  assumes "loro_ok L" "part_codec_ok L C" "list_all (list_all bytes_ok) (folds @ [final])" "i64_ok at"
    "successively parts_grow (folds @ [final])"
    "tree_at [Key ''messages''] (ld_tree L d) = Some (TList ts)"
  shows "\<exists>d'. stream_segment L C i dev at folds final status d = (Inr (), d') \<and>
    read_entries L C H d' = read_entries L C H d @
      [norm_entry \<lparr>me_id = i, me_role = MrAssistant, me_parts = final, me_created_at = at,
         me_device_id = dev, me_status = Some status, me_continuation_of = None\<rparr>]"
proof -
  let ?e = "\<lparr>me_id = i, me_role = MrAssistant, me_parts = [], me_created_at = at, me_device_id = dev,
       me_status = Some MsStreaming, me_continuation_of = None\<rparr>"
  let ?f = "?e\<lparr>me_parts := final, me_status := Some status\<rparr>"
  let ?w = "\<lparr>sw_entry_index = length ts, sw_written = []\<rparr>"
  from segment_begin_effect [OF assms(1,6), of i dev at C] obtain d1 t1 where
    1: "segment_begin L i dev at d = (Inr ?w, d1)" "ld_tree L d1 = tree_upd [Key ''messages''] (\<lambda>_. TList t1) (ld_tree L d)"
      "writer_at L C ?w ?e ts [] d1" by blast
  have chain: "successively parts_grow (sw_written ?w # folds)" "parts_grow (last ([] # folds)) final"
    using assms(5) by (auto simp: successively_append_iff successively_Cons split: if_splits)
  from sync_all_effect [OF assms(1,2) _ 1(3) chain(1)] assms(3) obtain d2 t2 where
    2: "sync_all L C folds ?w d1 = (Inr (), ?w\<lparr>sw_written := last ([] # folds)\<rparr>, d2)"
      "ld_tree L d2 = tree_upd [Key ''messages''] (\<lambda>_. t2) (ld_tree L d1)"
      "writer_at L C (?w\<lparr>sw_written := last ([] # folds)\<rparr>) ?e ts [] d2" by auto
  from finish_effect [OF assms(1,2) _ 2(3), of final status] chain(2) assms(3) obtain d3 t where
    3: "segment_finish L C final status (?w\<lparr>sw_written := last ([] # folds)\<rparr>) d2 = (Inr (), d3)"
      "ld_tree L d3 = tree_upd [Key ''messages''] (\<lambda>_. TList (ts @ [t])) (ld_tree L d2)" "entry_rep L C ?f t" by auto
  have run: "stream_segment L C i dev at folds final status d = (Inr (), d3)"
    by (simp only: stream_segment_def 1(1) 2(1) 3(1) prod.case sum.case)
  have tree: "ld_tree L d3 = tree_upd [Key ''messages''] (\<lambda>_. TList (ts @ [t])) (ld_tree L d)"
    by (simp add: 3(2) 2(2) 1(2) tree_upd_const)
  have ok: "entry_ok ?f" using assms(3,4) by (simp add: entry_ok_def)
  have "read_entries L C H d3 = read_entries L C H d @ [norm_entry ?f]"
    using read_entries_snoc [OF assms(6) tree, of C H] entry_rep_read [OF assms(2) ok 3(3)] by simp
  with run show ?thesis by auto
qed

text \<open>
C12. Streaming is equivalent to writing the entry at once: whatever folds the writer is given on the way,
  as long as each grows from the one before, the transcript it leaves is the one that a single write
  of the finished entry leaves, so no commit loses, repeats or reorders content.
\<close>

theorem stream_is_push:
  assumes "loro_ok L" "part_codec_ok L C" "list_all (list_all bytes_ok) (folds @ [final])" "i64_ok at"
    "successively parts_grow (folds @ [final])"
    "tree_at [Key ''messages''] (ld_tree L d) = Some (TList ts)"
  shows "\<exists>d1 d2. stream_segment L C i dev at folds final status d = (Inr (), d1) \<and>
    push_message L C \<lparr>me_id = i, me_role = MrAssistant, me_parts = final, me_created_at = at,
      me_device_id = dev, me_status = Some status, me_continuation_of = None\<rparr> d = (Inr (), d2) \<and>
    read_entries L C H d1 = read_entries L C H d2"
proof -
  let ?f = "\<lparr>me_id = i, me_role = MrAssistant, me_parts = final, me_created_at = at,
      me_device_id = dev, me_status = Some status, me_continuation_of = None\<rparr>"
  have "entry_ok ?f" using assms(3,4) by (simp add: entry_ok_def)
  then obtain d2 where "push_message L C ?f d = (Inr (), d2)"
    "read_entries L C H d2 = read_entries L C H d @ [norm_entry ?f]"
    using push_message_reads [OF assms(1,2) _ assms(6)] by blast
  with stream_reads [OF assms, of i dev status H] show ?thesis by auto
qed


subsection \<open>The fold only grows\<close>

lemma parts_grow_snoc: "parts_grow ps (ps @ [p])"
  by (simp add: parts_grow_def nth_append)

lemma parts_grow_map: "(\<And>p. p \<in> set ps \<Longrightarrow> grows p (f p)) \<Longrightarrow> parts_grow ps (map f ps)"
  by (simp add: parts_grow_def)

lemma parts_grow_last: "grows p q \<Longrightarrow> parts_grow (ps @ [p]) (ps @ [q])"
  by (auto simp: parts_grow_def nth_append less_Suc_eq)

lemma parts_grow_cong: "grows p q \<Longrightarrow> parts_grow ps qs \<Longrightarrow> parts_grow (p # ps) (q # qs)"
  by (auto simp: parts_grow_def nth_Cons split: nat.splits)

lemma refresh_grows: "refresh_tool i c ps = Some qs \<Longrightarrow> parts_grow ps qs"
  by (induction i c ps arbitrary: qs rule: refresh_tool.induct)
    (auto split: if_splits intro!: parts_grow_cong)

text \<open>A result without a diff for a tool that has diff statistics would take them away.\<close>

definition keeps_stats :: "message_part list \<Rightarrow> agent_event \<Rightarrow> bool" where
  "keeps_stats out ev \<longleftrightarrow>
     (case ev of
        ToolResult i _ _ None \<Rightarrow>
          list_all (\<lambda>p. case p of PTool t \<Rightarrow> tp_id t = i \<longrightarrow> tp_diff_stats t = None | _ \<Rightarrow> True) out
      | _ \<Rightarrow> True)"

lemma resolve_grows:
  assumes "no_payload p" "diff = None \<Longrightarrow> (case p of PTool t \<Rightarrow> tp_id t = i \<longrightarrow> tp_diff_stats t = None | _ \<Rightarrow> True)"
  shows "grows p (resolve_tool ld i e diff p)"
  using assms by (cases p; cases diff) (auto simp: resolve_tool_def no_payload_def kept_def)

lemma fold_event_grows:
  assumes "parts_inv out" "\<not> is_boundary ev" "keeps_stats out ev"
  shows "parts_grow out (fold_event_into_parts ld out ev)"
proof (cases ev)
  case (TextDelta s)
  then show ?thesis
    by (cases out rule: rev_cases)
      (auto simp: parts_grow_def nth_append less_Suc_eq split: message_part.splits)
next
  case (CommentaryDelta s)
  then show ?thesis
    by (cases out rule: rev_cases)
      (auto simp: parts_grow_def nth_append less_Suc_eq split: message_part.splits)
next
  case (ToolCallEvent i c)
  then show ?thesis by (auto intro: refresh_grows parts_grow_snoc split: option.splits)
next
  case (ToolResult i e op d)
  have "grows p (resolve_tool ld i e d p)" if "p \<in> set out" for p
  proof (rule resolve_grows)
    show "no_payload p" using assms(1) that by (auto simp: parts_inv_def)
    show "d = None \<Longrightarrow> (case p of PTool t \<Rightarrow> tp_id t = i \<longrightarrow> tp_diff_stats t = None | _ \<Rightarrow> True)"
      using assms(3) that ToolResult by (simp add: keeps_stats_def list_all_iff)
  qed
  then show ?thesis using ToolResult by (simp add: parts_grow_map)
next
  case (InputResolved rid)
  have "grows p (resolve_input rid p)" for p by (simp add: resolve_input_def split: message_part.split)
  then show ?thesis using InputResolved by (simp add: parts_grow_map)
qed (use assms(2) in \<open>auto simp: is_boundary_def Let_def intro: parts_grow_snoc split: option.splits\<close>)

text \<open>What is committed after each number of events.\<close>

fun stats_kept :: "line_differ \<Rightarrow> message_part list \<Rightarrow> agent_event list \<Rightarrow> bool" where
  "stats_kept ld out [] \<longleftrightarrow> True"
| "stats_kept ld out (ev # evs) \<longleftrightarrow>
     \<not> is_boundary ev \<and> keeps_stats out ev \<and> stats_kept ld (fold_event_into_parts ld out ev) evs"

lemma fold_take_grows:
  assumes "parts_inv out" "stats_kept ld out evs" "m \<le> n"
  shows "parts_grow (fold_events ld out (take m evs)) (fold_events ld out (take n evs))"
  using assms
proof (induction evs arbitrary: out m n)
  case (Cons ev evs)
  show ?case
  proof (cases m)
    case 0
    show ?thesis
    proof (cases n)
      case (Suc n')
      have "parts_grow out (fold_event_into_parts ld out ev)"
        using Cons.prems(1,2) by (auto intro: fold_event_grows)
      moreover have "parts_grow (fold_events ld (fold_event_into_parts ld out ev) (take 0 evs))
          (fold_events ld (fold_event_into_parts ld out ev) (take n' evs))"
        using Cons.prems by (intro Cons.IH) (simp_all add: parts_inv_fold_event)
      ultimately show ?thesis using 0 Suc by (auto intro: parts_grow_trans)
    qed (use 0 in simp)
  next
    case (Suc m')
    then obtain n' where "n = Suc n'" using Cons.prems(3) by (cases n) auto
    with Suc Cons.prems Cons.IH [of "fold_event_into_parts ld out ev" m' n'] show ?thesis
      by (simp add: parts_inv_fold_event)
  qed
qed simp

lemma inv_bytes_ok: "parts_inv ps \<Longrightarrow> list_all bytes_ok ps"
  by (auto simp: parts_inv_def list_all_iff no_payload_def bytes_ok_def split: message_part.splits)


text \<open>A second result for the same call, without a diff, leaves the statistics of the first in the
  document, where the fold has none.\<close>

lemma second_result_keeps_stats:
  "let c = PTool ((new_tool_part ''t'' (Exec ''x''))\<lparr>tp_resolved := True, tp_diff_stats := Some [s]\<rparr>);
       c' = resolve_tool ld ''t'' False None c
   in \<not> keeps_stats [c] (ToolResult ''t'' False None None) \<and>
     fold_event_into_parts ld [c] (ToolResult ''t'' False None None) = [c'] \<and> \<not> grows c c'"
  by (simp add: keeps_stats_def resolve_tool_def new_tool_part_def kept_def Let_def)


subsection \<open>A codec\<close>

text \<open>An instance of the parameters: every datum of the nested types is coded by one number.\<close>

instance todo_item_ext :: (countable) countable
  by (rule countable_classI [of "\<lambda>r. to_nat (ti_text r, ti_done r, todo_item.more r)"])
    (auto intro: todo_item.equality)

instance tool_diff_ext :: (countable) countable
  by (rule countable_classI [of "\<lambda>r. to_nat (td_path r, td_old_text r, td_new_text r, tool_diff.more r)"])
    (auto intro: tool_diff.equality)

instance tool_diff_stat_ext :: (countable) countable
  by (rule countable_classI [of "\<lambda>r. to_nat (dst_path r, dst_additions r, dst_deletions r, tool_diff_stat.more r)"])
    (auto intro: tool_diff_stat.equality)

instance user_input_question_ext :: (countable) countable
  by (rule countable_classI [of "\<lambda>r. to_nat (uq_id r, uq_header r, uq_question r, uq_options r, uq_multi_select r,
      user_input_question.more r)"]) (auto intro: user_input_question.equality)

instance user_input_answer_ext :: (countable) countable
  by (rule countable_classI [of "\<lambda>r. to_nat (ua_question_id r, ua_labels r, user_input_answer.more r)"])
    (auto intro: user_input_answer.equality)

instance harness_id :: countable by countable_datatype

instance reasoning_level :: countable by countable_datatype

instance sandbox_level :: countable by countable_datatype

instance tool_call :: countable by countable_datatype

instance run_request_ext :: (countable) countable
  by (rule countable_classI [of "\<lambda>r. to_nat (rq_prompt r, rq_harness r, rq_model r, rq_reasoning r,
      rq_model_options r, rq_cwd r, rq_sandbox r, rq_auto_approve r, rq_resume r, rq_attachments r,
      run_request.more r)"]) (auto intro: run_request.equality)

instance session_command_payload :: countable by countable_datatype

definition code_json :: "'a :: countable \<Rightarrow> string + json" where
  "code_json x = Inr (JInt (int (to_nat x)))"

definition code_of :: "json \<Rightarrow> 'a :: countable option" where
  "code_of v = (case v of JInt n \<Rightarrow> Some (from_nat (nat n)) | _ \<Rightarrow> None)"

definition number_codec :: part_codec where
  "number_codec =
     \<lparr>pc_call = code_json, pc_call_of = code_of, pc_questions = code_json, pc_questions_of = code_of,
      pc_diff = code_json, pc_diff_of = code_of, pc_stats = code_json, pc_stats_of = code_of,
      pc_payload = code_json, pc_payload_of = code_of\<rparr>"

lemma number_codec_ok: "part_codec_ok tree_ops number_codec"
  by (simp add: part_codec_ok_def number_codec_def tree_ops_def code_json_def code_of_def)

definition demo_chat :: ltree where "demo_chat = ld_new tree_ops"

lemma demo_chat_messages: "tree_at [Key ''messages''] (ld_tree tree_ops demo_chat) = Some (TList [])"
  by (simp add: demo_chat_def tree_ops_def)

lemma demo_chat_entries: "read_entries tree_ops C H demo_chat = []"
  by (simp add: read_entries_def root_list_def demo_chat_messages List.map_filter_def)

lemma push_message_read_witness:
  "\<exists>d'. push_message tree_ops number_codec
      \<lparr>me_id = ''m'', me_role = MrUser, me_parts = [PText ''t0'' ''hi''], me_created_at = 1, me_device_id = ''d'',
       me_status = Some MsComplete, me_continuation_of = None\<rparr> demo_chat = (Inr (), d') \<and>
    map me_id (read_entries tree_ops number_codec (\<lambda>_. 0) d') = [''m'']"
  using push_message_read [OF tree_ops_ok number_codec_ok _ demo_chat_messages,
      of "\<lparr>me_id = ''m'', me_role = MrUser, me_parts = [PText ''t0'' ''hi''], me_created_at = 1,
        me_device_id = ''d'', me_status = Some MsComplete, me_continuation_of = None\<rparr>" "\<lambda>_. 0"]
  by (auto simp: entry_ok_def bytes_ok_def i64_ok_def demo_chat_entries norm_entry_def)

definition demo_folds :: "message_part list list" where
  "demo_folds = [[PText ''t0'' ''he''], [PText ''t0'' ''hello'', PTool (new_tool_part ''x'' (Exec ''ls''))]]"

definition demo_final :: "message_part list" where
  "demo_final = [PText ''t0'' ''hello'', PTool ((new_tool_part ''x'' (Exec ''ls''))\<lparr>tp_resolved := True\<rparr>)]"

lemma stream_is_push_witness:
  "\<exists>d1. stream_segment tree_ops number_codec ''m'' ''d'' 1 demo_folds demo_final MsComplete demo_chat = (Inr (), d1) \<and>
    successively parts_grow (demo_folds @ [demo_final])"
proof -
  have g: "successively parts_grow (demo_folds @ [demo_final])"
    by (simp add: demo_folds_def demo_final_def parts_grow_def less_Suc_eq kept_def new_tool_part_def)
  have b: "list_all (list_all bytes_ok) (demo_folds @ [demo_final])"
    by (simp add: demo_folds_def demo_final_def bytes_ok_def new_tool_part_def)
  have "i64_ok 1" by (simp add: i64_ok_def)
  from stream_is_push [OF tree_ops_ok number_codec_ok b this g demo_chat_messages, of "''m''" "''d''" MsComplete "\<lambda>_. 0"] g
  show ?thesis by blast
qed

definition demo_events :: "agent_event list" where
  "demo_events = [TextDelta ''he'', TextDelta ''llo'', ToolCallEvent ''x'' (Exec ''ls''), ToolResult ''x'' False None None]"


end
