(* ===== verification/Doc_Ledger.thy ===== *)
theory Doc_Ledger
  imports Doc_Stream
begin

text \<open>
  The chat document's rows (\<^verbatim>\<open>crates/doc/src/schema.rs\<close>): the round trip of the command ledger, the
  reading of transcripts with bad entries, and the join of continuations.
\<close>

subsection \<open>Commands\<close>

definition command_lookup :: "'d loro_ops \<Rightarrow> session_command_entry \<Rightarrow> json \<Rightarrow> string \<Rightarrow> ltree option" where
  "command_lookup L e payload =
     [''id'' \<mapsto> TVal (JStr (ce_id e)),
      ''kind'' \<mapsto> TVal (JStr (command_kind_str (payload_kind (ce_payload e)))),
      ''payload'' \<mapsto> TVal (ld_value L payload),
      ''issuedBy'' \<mapsto> TVal (JStr (ce_issued_by e)),
      ''issuedAt'' \<mapsto> TVal (JInt (ce_issued_at e))] ++
     opt_map ''basedOn'' (\<lambda>b. TVal (based_on_json b)) (ce_based_on e) ++
     opt_map ''expiresAt'' (\<lambda>t. TVal (JInt t)) (ce_expires_at e) ++
     [''status'' \<mapsto> TVal (JStr (command_status_str (ce_status e)))] ++
     opt_map ''resolution'' (\<lambda>s. TVal (JStr s)) (ce_resolution e)"

definition command_rep :: "'d loro_ops \<Rightarrow> part_codec \<Rightarrow> session_command_entry \<Rightarrow> ltree \<Rightarrow> bool" where
  "command_rep L C e t \<longleftrightarrow>
     (\<exists>m j. t = TMap m \<and> pc_payload C (ce_payload e) = Inr j \<and> map_of m = command_lookup L e j)"

definition command_ok :: "session_command_entry \<Rightarrow> bool" where
  "command_ok e \<longleftrightarrow> i64_ok (ce_issued_at e) \<and> (\<forall>t. ce_expires_at e = Some t \<longrightarrow> i64_ok t)"

lemma based_on_back: "based_on_of (based_on_json b) = Some b"
  by (cases b) (simp add: based_on_of_def based_on_json_def as_obj_def opt_field_def opt_json_def as_str_def
      split: option.split)

lemma command_lookups:
  assumes "map_of m = command_lookup L e j"
  shows "map_of m ''id'' = Some (TVal (JStr (ce_id e)))" "map_of m ''payload'' = Some (TVal (ld_value L j))"
    "map_of m ''issuedBy'' = Some (TVal (JStr (ce_issued_by e)))"
    "map_of m ''issuedAt'' = Some (TVal (JInt (ce_issued_at e)))"
    "map_of m ''status'' = Some (TVal (JStr (command_status_str (ce_status e))))"
    "map_of m ''basedOn'' = map_option (\<lambda>b. TVal (based_on_json b)) (ce_based_on e)"
    "map_of m ''expiresAt'' = map_option (\<lambda>t. TVal (JInt t)) (ce_expires_at e)"
    "map_of m ''resolution'' = map_option (\<lambda>s. TVal (JStr s)) (ce_resolution e)"
  unfolding assms command_lookup_def by (simp_all add: opt_map_add map_add_def [of _ "[_ \<mapsto> _]"])

lemma command_rep_read:
  assumes "part_codec_ok L C" "command_ok e" "command_rep L C e t"
  shows "Option.bind (as_obj (to_json t)) (read_command C) = Some e"
proof -
  from assms(3) obtain m j where t: "t = TMap m" "pc_payload C (ce_payload e) = Inr j"
    "map_of m = command_lookup L e j" unfolding command_rep_def by blast
  note l = command_lookups [OF t(3)]
  from assms(1) t(2) have p: "pc_payload_of C (ld_value L j) = Some (ce_payload e)"
    unfolding part_codec_ok_def by (metis sum.inject(2))
  have b: "opt_field based_on_of (json_fields m) ''basedOn'' = Some (ce_based_on e)"
    by (subst opt_field_read [OF l(6), of _ "\<lambda>x. x"]) (simp_all add: option.map_ident based_on_back, simp add: based_on_json_def)
  have x: "opt_field as_i64 (json_fields m) ''expiresAt'' = Some (ce_expires_at e)"
    using assms(2) by (subst opt_field_read [OF l(7), of _ "\<lambda>x. x"]) (simp_all add: option.map_ident as_i64_def command_ok_def)
  have r: "opt_field as_str (json_fields m) ''resolution'' = Some (ce_resolution e)"
    by (subst opt_field_read [OF l(8), of _ "\<lambda>x. x"]) (simp_all add: option.map_ident as_str_def)
  have "read_command C (json_fields m) = Some e"
    unfolding read_command_def b x r req_field_read [OF l(1)] req_field_read [OF l(2)] req_field_read [OF l(3)]
      req_field_read [OF l(4)] req_field_read [OF l(5)]
    using assms(2) p by (simp add: as_str_def as_i64_def command_ok_def)
  then show ?thesis by (simp add: t(1) json_fields_def as_obj_def)
qed

lemma map_filter_all2: "list_all2 (\<lambda>x y. f y = Some x) xs ys \<Longrightarrow> List.map_filter f ys = xs"
  by (induction rule: list_all2_induct) (simp_all add: List.map_filter_def)

lemma read_commands_rep:
  assumes "part_codec_ok L C" "list_all command_ok cs" "list_all2 (command_rep L C) cs ts"
    "tree_at [Key ''commands''] (ld_tree L d) = Some (TList ts)"
  shows "read_commands L C d = cs"
proof -
  have "list_all2 (\<lambda>c v. Option.bind (as_obj v) (read_command C) = Some c) cs (map to_json ts)"
    using assms(3,2) by (induction rule: list_all2_induct) (simp_all add: command_rep_read [OF assms(1)])
  then have "List.map_filter (\<lambda>v. Option.bind (as_obj v) (read_command C)) (map to_json ts) = cs"
    by (rule map_filter_all2)
  then show ?thesis by (simp add: read_commands_def root_list_def assms(4))
qed

definition command_fields :: "'d loro_ops \<Rightarrow> session_command_entry \<Rightarrow> json \<Rightarrow> (string \<times> field) list" where
  "command_fields L e payload =
     [(''id'', FVal (JStr (ce_id e))),
      (''kind'', FVal (JStr (command_kind_str (payload_kind (ce_payload e))))),
      (''payload'', FVal (ld_value L payload)), (''issuedBy'', FVal (JStr (ce_issued_by e))),
      (''issuedAt'', FVal (JInt (ce_issued_at e)))] @
     field_opt (\<lambda>b. (''basedOn'', FVal (ld_value L (based_on_json b)))) (ce_based_on e) @
     field_opt (\<lambda>t. (''expiresAt'', FVal (JInt t))) (ce_expires_at e) @
     [(''status'', FVal (JStr (command_status_str (ce_status e))))]"

lemma does_commit_last: "loro_ok L \<Longrightarrow> does L p t (run_acts [act_commit L]) () t"
  unfolding run_acts.simps by (rule does_bind [OF does_commit does_return])

lemma does_queue_command:
  assumes "loro_ok L" "part_codec_ok L C" "pc_payload C (ce_payload e) = Inr j"
  shows "does L [Key ''commands''] (TList ts) (queue_command L C e) ()
    (TList (ts @ [TMap (fill (command_fields L e j) [])]))"
proof -
  let ?p = "[Key ''commands''] @ [Idx (length ts)]"
  have acts: "[put_str L ?p ''id'' (ce_id e),
           put_str L ?p ''kind'' (command_kind_str (payload_kind (ce_payload e))),
           (case pc_payload C (ce_payload e) of
              Inl e \<Rightarrow> act_fail (DeJson e) | Inr v \<Rightarrow> put_json L ?p ''payload'' v),
           put_str L ?p ''issuedBy'' (ce_issued_by e),
           put_value L ?p ''issuedAt'' (JInt (ce_issued_at e))] @
          opt_act (\<lambda>b. put_json L ?p ''basedOn'' (based_on_json b)) (ce_based_on e) @
          opt_act (\<lambda>t. put_value L ?p ''expiresAt'' (JInt t)) (ce_expires_at e) @
          [put_str L ?p ''status'' (command_status_str (ce_status e)), act_commit L] =
        map (put_field L ?p) (command_fields L e j) @ [act_commit L]"
    by (simp add: command_fields_def assms(3) act_fields
        opt_act_field [where f = "\<lambda>b. (''basedOn'', FVal (ld_value L (based_on_json b)))"]
        opt_act_field [where f = "\<lambda>t. (''expiresAt'', FVal (JInt t))"])
  have "does L ?p (TMap []) (run_acts (map (put_field L ?p) (command_fields L e j) @ [act_commit L])) ()
      (TMap (fill (command_fields L e j) []))"
    unfolding run_acts_append
    by (rule does_bind [OF does_fill [OF assms(1)] does_commit_last [OF assms(1)]])
  then show ?thesis
    unfolding queue_command_def by (intro does_push_map [OF assms(1)], unfold acts)
qed

lemma opt_map_None: "opt_map k f None = Map.empty"
  by (simp add: opt_map_def fun_eq_iff)

lemma command_fields_rep:
  assumes "part_codec_ok L C" "pc_payload C (ce_payload e) = Inr j"
  shows "command_rep L C (e\<lparr>ce_resolution := None\<rparr>) (TMap (fill (command_fields L e j) []))"
proof -
  have v: "ld_value L (based_on_json b) = based_on_json b" for b using assms(1) by (simp add: part_codec_ok_def)
  have a: "fields_map [(''id'', FVal (JStr (ce_id e))),
      (''kind'', FVal (JStr (command_kind_str (payload_kind (ce_payload e))))),
      (''payload'', FVal (ld_value L j)), (''issuedBy'', FVal (JStr (ce_issued_by e))),
      (''issuedAt'', FVal (JInt (ce_issued_at e)))] =
     [''id'' \<mapsto> TVal (JStr (ce_id e)),
      ''kind'' \<mapsto> TVal (JStr (command_kind_str (payload_kind (ce_payload e)))),
      ''payload'' \<mapsto> TVal (ld_value L j), ''issuedBy'' \<mapsto> TVal (JStr (ce_issued_by e)),
      ''issuedAt'' \<mapsto> TVal (JInt (ce_issued_at e))]"
    "fields_map [(''status'', FVal (JStr (command_status_str (ce_status e))))] =
     [''status'' \<mapsto> TVal (JStr (command_status_str (ce_status e)))]"
    by (auto simp: fields_map_def fun_eq_iff)
  have "map_of (fill (command_fields L e j) []) = command_lookup L (e\<lparr>ce_resolution := None\<rparr>) j"
    unfolding fields_map_fill command_fields_def command_lookup_def fields_map_append v map_add_assoc a
    by (simp add: opt_map_None fields_map_opt)
  with assms(2) show ?thesis by (auto simp: command_rep_def)
qed


subsection \<open>Bad entries\<close>

definition is_object :: "ltree \<Rightarrow> bool" where
  "is_object t \<longleftrightarrow> as_obj (to_json t) \<noteq> None"

lemma object_reads: "is_object t \<Longrightarrow> \<exists>e. entry_from_json C H (to_json t) = Some e"
  by (auto simp: is_object_def entry_from_json_def salvage_entry_def Let_def split: option.split)

lemma non_object_skipped: "\<not> is_object t \<Longrightarrow> entry_from_json C H (to_json t) = None"
  by (simp add: is_object_def entry_from_json_def salvage_entry_def)

lemma read_objects: "length (List.map_filter (entry_from_json C H) (map to_json ts)) = length (filter is_object ts)"
proof (induction ts)
  case (Cons t ts)
  then show ?case
    using object_reads [of t C H] non_object_skipped [of t C H]
    by (cases "is_object t") (auto simp: List.map_filter_def)
qed (simp add: List.map_filter_def)

text \<open>
C20. A bad entry costs at most itself: whatever stands around it in the document, a well-formed entry is
  read whole and in its place, and every neighbour that is an object at all keeps a row of its own.
\<close>

theorem bad_entry_costs_itself:
  assumes "part_codec_ok L C" "entry_ok e" "entry_rep L C e t"
    "tree_at [Key ''messages''] (ld_tree L d) = Some (TList (xs @ t # ys))"
  shows "\<exists>as bs. read_entries L C H d = as @ norm_entry e # bs \<and>
    length as = length (filter is_object xs) \<and> length bs = length (filter is_object ys)"
proof -
  let ?f = "List.map_filter (entry_from_json C H)"
  have "read_entries L C H d = ?f (map to_json xs) @ norm_entry e # ?f (map to_json ys)"
    using entry_rep_read [OF assms(1-3), of H]
    by (simp add: read_entries_def root_list_def assms(4) List.map_filter_def)
  with read_objects show ?thesis by blast
qed

subsection \<open>Continuations\<close>

text \<open>What belongs to a root: the continuations that name it, up to the next root of that id.\<close>

fun continuations :: "string \<Rightarrow> session_message_entry list \<Rightarrow> message_part list" where
  "continuations i [] = []"
| "continuations i (e # es) =
     (case me_continuation_of e of
        Some r \<Rightarrow> if r = i then me_parts e @ continuations i es else continuations i es
      | None \<Rightarrow> if me_id e = i then [] else continuations i es)"

fun join_ref :: "(string \<Rightarrow> bool) \<Rightarrow> session_message_entry list \<Rightarrow> session_message_entry list" where
  "join_ref seen [] = []"
| "join_ref seen (e # es) =
     (case me_continuation_of e of
        Some r \<Rightarrow> if seen r then join_ref seen es else e # join_ref seen es
      | None \<Rightarrow> e\<lparr>me_parts := me_parts e @ continuations (me_id e) es\<rparr> # join_ref (seen(me_id e := True)) es)"

definition owed :: "(string \<times> nat) list \<Rightarrow> session_message_entry list \<Rightarrow> session_message_entry list \<Rightarrow>
    nat \<Rightarrow> session_message_entry" where
  "owed idx es out n =
     (if map_of idx (me_id (out ! n)) = Some n
      then (out ! n)\<lparr>me_parts := me_parts (out ! n) @ continuations (me_id (out ! n)) es\<rparr> else out ! n)"

lemma join_loop_ref:
  "(\<And>r n. map_of idx r = Some n \<Longrightarrow> n < length out \<and> me_id (out ! n) = r) \<Longrightarrow>
     join_loop es idx out = map (owed idx es out) [0..<length out] @ join_ref (\<lambda>r. map_of idx r \<noteq> None) es"
proof (induction es arbitrary: idx out)
  case Nil
  have "map (owed idx [] out) [0..<length out] = out"
    by (rule nth_equalityI) (simp_all add: owed_def)
  then show ?case by simp
next
  case (Cons e es)
  show ?case
  proof (cases "me_continuation_of e")
    case None
    let ?idx = "AList.update (me_id e) (length out) idx" and ?out = "out @ [e]"
    have "join_loop es ?idx ?out =
        map (owed ?idx es ?out) [0..<length ?out] @ join_ref (\<lambda>r. map_of ?idx r \<noteq> None) es"
      using Cons.prems by (intro Cons.IH) (force simp: update_conv' nth_append split: if_splits)
    moreover have "map (owed ?idx es ?out) [0..<length ?out] = map (owed idx (e # es) out) [0..<length out] @
        [e\<lparr>me_parts := me_parts e @ continuations (me_id e) es\<rparr>]"
    proof -
      have "owed ?idx es ?out n = owed idx (e # es) out n" if "n < length out" for n
        using None that by (simp add: owed_def update_conv' nth_append)
      moreover have "owed ?idx es ?out (length out) = e\<lparr>me_parts := me_parts e @ continuations (me_id e) es\<rparr>"
        by (simp add: owed_def update_conv')
      ultimately show ?thesis by simp
    qed
    moreover have "(\<lambda>r. map_of ?idx r \<noteq> None) = (\<lambda>r. map_of idx r \<noteq> None)(me_id e := True)"
      by (auto simp: update_conv' fun_eq_iff)
    ultimately show ?thesis using None by simp
  next
    case (Some r)
    show ?thesis
    proof (cases "map_of idx r")
      case None
      have "join_loop es idx (out @ [e]) = map (owed idx es (out @ [e])) [0..<length (out @ [e])] @
          join_ref (\<lambda>r. map_of idx r \<noteq> None) es"
        using Cons.prems by (intro Cons.IH) (force simp: nth_append)
      moreover have "map (owed idx es (out @ [e])) [0..<length (out @ [e])] =
          map (owed idx (e # es) out) [0..<length out] @ [e]"
      proof -
        have "owed idx es (out @ [e]) n = owed idx (e # es) out n" if "n < length out" for n
          using Some None that by (auto simp: owed_def nth_append)
        moreover have "owed idx es (out @ [e]) (length out) = e"
          using Cons.prems [of "me_id e" "length out"] by (auto simp: owed_def)
        ultimately show ?thesis by simp
      qed
      ultimately show ?thesis using Some None by simp
    next
      case n: (Some n)
      let ?out = "out[n := (out ! n)\<lparr>me_parts := me_parts (out ! n) @ me_parts e\<rparr>]"
      have r: "n < length out" "me_id (out ! n) = r" using Cons.prems [OF n] by auto
      have "join_loop es idx ?out = map (owed idx es ?out) [0..<length ?out] @ join_ref (\<lambda>r. map_of idx r \<noteq> None) es"
        using Cons.prems r by (intro Cons.IH) (auto simp: nth_list_update)
      moreover have "map (owed idx es ?out) [0..<length ?out] = map (owed idx (e # es) out) [0..<length out]"
        using Some n r by (auto simp: owed_def nth_list_update)
      ultimately show ?thesis using Some n r by simp
    qed
  qed
qed

lemma join_ref_plain: "\<not> list_ex (\<lambda>e. me_continuation_of e \<noteq> None) es \<Longrightarrow> join_ref seen es = es"
proof -
  have "continuations i es = []" if "\<not> list_ex (\<lambda>e. me_continuation_of e \<noteq> None) es" for i es
    using that by (induction es) auto
  then show "\<not> list_ex (\<lambda>e. me_continuation_of e \<noteq> None) es \<Longrightarrow> join_ref seen es = es"
    by (induction es arbitrary: seen) auto
qed

text \<open>
The one-pass join through an index is the obvious one: each root is followed by the parts of the
  later continuations that name it, a continuation without an earlier root stays an entry of its own,
  and nothing is lost or moved.
\<close>

theorem join_is_reference: "join_continuation_entries es = join_ref (\<lambda>_. False) es"
  using join_loop_ref [of "[]" "[]" es] join_ref_plain [of es] by (simp add: join_continuation_entries_def)

subsection \<open>Examples\<close>

definition demo_interrupt :: session_command_entry where
  "demo_interrupt = \<lparr>ce_id = ''c'', ce_payload = CpInterrupt, ce_issued_by = ''d'', ce_issued_at = 1,
     ce_based_on = None, ce_expires_at = None, ce_status = CsPending, ce_resolution = None\<rparr>"

lemma demo_chat_commands: "tree_at [Key ''commands''] (ld_tree tree_ops demo_chat) = Some (TList [])"
  by (simp add: demo_chat_def tree_ops_def)

lemma demo_interrupt_ok: "command_ok demo_interrupt"
  by (simp add: command_ok_def demo_interrupt_def i64_ok_def)

lemma demo_chat_ledger: "read_commands tree_ops number_codec demo_chat = []"
  by (simp add: read_commands_def root_list_def demo_chat_commands List.map_filter_def)


lemma hex_w_zero: "hex_w w 0 = replicate w (CHR ''0'')"
  by (induction w) (simp_all add: replicate_append_same)

lemma bad_entry_costs_itself_witness:
  "\<exists>t. map me_id (read_entries tree_ops number_codec (\<lambda>_. 0)
     (TMap [(''messages'', TList [TMap [(''role'', TVal (JInt 3))], t, TVal JNull])])) =
       [''recovered-0000000000000000'', ''m'']"
proof -
  let ?e = "\<lparr>me_id = ''m'', me_role = MrUser, me_parts = [], me_created_at = 1, me_device_id = ''d'',
       me_status = None, me_continuation_of = None\<rparr>"
  have "list_all bytes_ok (me_parts ?e)" by simp
  from does_push_message [OF tree_ops_ok number_codec_ok this, of "[]"] obtain t where
    t: "entry_rep tree_ops number_codec ?e t" by blast
  let ?bad = "TMap [(''role'', TVal (JInt 3))]"
  let ?d = "TMap [(''messages'', TList [?bad, t, TVal JNull])]"
  have at: "tree_at [Key ''messages''] (ld_tree tree_ops ?d) = Some (TList ([?bad] @ t # [TVal JNull]))"
    by (simp add: tree_ops_def)
  have ok: "entry_ok ?e" by (simp add: entry_ok_def i64_ok_def)
  from bad_entry_costs_itself [OF number_codec_ok ok t at, of "\<lambda>_. 0"] obtain as bs where
    r: "read_entries tree_ops number_codec (\<lambda>_. 0) ?d = as @ norm_entry ?e # bs" "length as = 1" "length bs = 0"
    by (auto simp: is_object_def as_obj_def)
  have "me_id (hd (read_entries tree_ops number_codec (\<lambda>_. 0) ?d)) = ''recovered-0000000000000000''"
    by (simp add: read_entries_def root_list_def tree_ops_def List.map_filter_def entry_from_json_def as_obj_def
        raw_entry_def req_field_def salvage_entry_def field_str_def unwrap_or_def hex_w_zero numeral_eq_Suc Let_def
        del: hex_w.simps)
  then have "map me_id (read_entries tree_ops number_codec (\<lambda>_. 0) ?d) = [''recovered-0000000000000000'', ''m'']"
    using r by (cases as) (auto simp: norm_entry_def)
  then show ?thesis by (rule exI [of _ t])
qed

end
