(* ===== verification/Engine_Ledger.thy ===== *)
theory Engine_Ledger
  imports Engine_Drain Doc_Ledger
begin

text \<open>
  The document's outcome write against the list of commands that the command drain works on: a
  refinement, so that what \<^verbatim>\<open>Engine_Drain\<close> proves on lists holds of documents.
\<close>

subsection \<open>Outcomes\<close>

definition is_command :: "string \<Rightarrow> session_command_entry \<Rightarrow> bool" where
  "is_command i c \<longleftrightarrow> ce_id c = i"

definition with_outcome :: "session_command_status \<Rightarrow> string option \<Rightarrow> session_command_entry \<Rightarrow> session_command_entry" where
  "with_outcome status resolution c =
     c\<lparr>ce_status := status, ce_resolution := (case resolution of Some r \<Rightarrow> Some r | None \<Rightarrow> ce_resolution c)\<rparr>"

lemma set_status_position:
  "set_command_status i status resolution cs =
     map_option (\<lambda>n. cs[n := with_outcome status resolution (cs ! n)]) (position (is_command i) cs)"
  by (cases resolution; induction cs)
    (simp_all add: has_id_def is_command_def with_outcome_def option.map_comp comp_def)

lemma position_all2:
  "list_all2 R xs ys \<Longrightarrow> (\<And>x y. R x y \<Longrightarrow> P x \<longleftrightarrow> Q y) \<Longrightarrow> position P xs = position Q ys"
  by (induction rule: list_all2_induct) auto

lemma command_rep_id: "command_rep L C c t \<Longrightarrow> is_command i c \<longleftrightarrow> is_id i t"
  using command_lookups(1) by (fastforce simp: command_rep_def is_command_def is_id_def)

definition outcome_fields :: "session_command_status \<Rightarrow> string option \<Rightarrow> (string \<times> field) list" where
  "outcome_fields status resolution =
     [(''status'', FVal (JStr (command_status_str status)))] @
     field_opt (\<lambda>r. (''resolution'', FVal (JStr r))) resolution"

lemma outcome_rep:
  assumes "map_of m = command_lookup L c j"
  shows "map_of (fill (outcome_fields status resolution) m) = command_lookup L (with_outcome status resolution c) j"
proof -
  have "fields_map (outcome_fields status resolution) =
      [''status'' \<mapsto> TVal (JStr (command_status_str status))] ++ opt_map ''resolution'' (\<lambda>s. TVal (JStr s)) resolution"
  proof -
    have "fields_map [(''status'', FVal (JStr (command_status_str status)))] =
        [''status'' \<mapsto> TVal (JStr (command_status_str status))]" by (auto simp: fields_map_def fun_eq_iff)
    then show ?thesis unfolding outcome_fields_def fields_map_append by (simp add: fields_map_opt)
  qed
  then have "map_of (fill (outcome_fields status resolution) m) = command_lookup L c j ++
      [''status'' \<mapsto> TVal (JStr (command_status_str status))] ++ opt_map ''resolution'' (\<lambda>s. TVal (JStr s)) resolution"
    using assms by (simp add: map_of_fill fields_map_def map_add_assoc)
  also have "\<dots> = command_lookup L (with_outcome status resolution c) j"
    unfolding command_lookup_def with_outcome_def
    by (rule ext) (simp add: opt_map_add map_add_def [of _ "[_ \<mapsto> _]"] split: option.split)
  finally show ?thesis .
qed

text \<open>
C14. The document's outcome write refines the drain's: on any ledger of readable commands it fails exactly
  when the list operation finds no such command, and otherwise leaves the document whose ledger reads
  as the list operation's result, so what is proved of the drain on lists holds of documents.
\<close>

theorem outcome_refines:
  assumes "loro_ok L" "part_codec_ok L C" "list_all command_ok cs" "list_all2 (command_rep L C) cs ts"
    "tree_at [Key ''commands''] (ld_tree L d) = Some (TList ts)"
  shows "case set_command_status i status resolution cs of
      None \<Rightarrow> loro_set_command_status L i status resolution d =
        (Inl (DeSchema (''command '' @ i @ '' not found'')), d)
    | Some cs' \<Rightarrow> \<exists>d'. loro_set_command_status L i status resolution d = (Inr (), d') \<and> read_commands L C d' = cs'"
proof -
  have root: "root_list L ''commands'' d = ts" by (simp add: root_list_def assms(5))
  have pos: "position (is_command i) cs = position (is_id i) ts"
    by (rule position_all2 [OF assms(4)]) (rule command_rep_id)
  show ?thesis
  proof (cases "position (is_id i) ts")
    case None
    then show ?thesis by (simp add: set_status_position pos loro_set_command_status_def root)
  next
    case (Some n)
    then have n: "n < length ts" "n < length cs" using position_SomeD list_all2_lengthD [OF assms(4)] by fastforce+
    from list_all2_nthD [OF assms(4) n(2)] obtain m j where
      m: "ts ! n = TMap m" "pc_payload C (ce_payload (cs ! n)) = Inr j" "map_of m = command_lookup L (cs ! n) j"
      by (auto simp: command_rep_def)
    let ?p = "[Key ''commands'', Idx n]" and ?m = "fill (outcome_fields status resolution) m"
    let ?cs = "cs[n := with_outcome status resolution (cs ! n)]" and ?ts = "ts[n := TMap ?m]"
    have acts: "[put_str L ?p ''status'' (command_status_str status)] @
         opt_act (put_str L ?p ''resolution'') resolution @ [act_commit L] =
       map (put_field L ?p) (outcome_fields status resolution) @ [act_commit L]"
      by (simp add: outcome_fields_def act_fields opt_act_field [where f = "\<lambda>r. (''resolution'', FVal (JStr r))"])
    have "does L ?p (TMap m) (run_acts (map (put_field L ?p) (outcome_fields status resolution) @ [act_commit L])) ()
        (TMap ?m)"
      unfolding run_acts_append by (rule does_bind [OF does_fill [OF assms(1)] does_commit_last [OF assms(1)]])
    from does_at_idx [of L "[Key ''commands'']" n, simplified, OF this n(1) m(1)]
    have "does L [Key ''commands''] (TList ts)
        (run_acts (map (put_field L ?p) (outcome_fields status resolution) @ [act_commit L])) () (TList ?ts)" .
    from doesD [OF this assms(5)] obtain d' where
      d': "loro_set_command_status L i status resolution d = (Inr (), d')"
        "ld_tree L d' = tree_upd [Key ''commands''] (\<lambda>_. TList ?ts) (ld_tree L d)"
      using Some acts by (auto simp: loro_set_command_status_def root)
    have at: "tree_at [Key ''commands''] (ld_tree L d') = Some (TList ?ts)"
      unfolding d'(2) tree_at_upd using assms(5) by simp
    have "command_rep L C (with_outcome status resolution (cs ! n)) (TMap ?m)"
      using m(2) outcome_rep [OF m(3)] by (auto simp: command_rep_def with_outcome_def)
    then have rep: "list_all2 (command_rep L C) ?cs ?ts" by (rule list_all2_update_cong [OF assms(4)])
    have "list_all command_ok ?cs"
      using assms(3) n(2) by (auto simp: list_all_length nth_list_update with_outcome_def command_ok_def)
    from read_commands_rep [OF assms(2) this rep at] d'(1) show ?thesis
      by (simp add: set_status_position pos Some)
  qed
qed

lemma outcome_refines_witness:
  "\<exists>d1 d2. queue_command tree_ops number_codec demo_interrupt demo_chat = (Inr (), d1) \<and>
     loro_set_command_status tree_ops ''c'' CsApplied None d1 = (Inr (), d2) \<and>
     map ce_status (read_commands tree_ops number_codec d2) = [CsApplied]"
proof -
  obtain j where j: "pc_payload number_codec (ce_payload demo_interrupt) = Inr j"
    by (simp add: number_codec_def code_json_def)
  from doesD [OF does_queue_command [OF tree_ops_ok number_codec_ok j] demo_chat_commands] obtain d1 where
    d1: "queue_command tree_ops number_codec demo_interrupt demo_chat = (Inr (), d1)"
      "ld_tree tree_ops d1 = tree_upd [Key ''commands'']
        (\<lambda>_. TList [TMap (fill (command_fields tree_ops demo_interrupt j) [])]) (ld_tree tree_ops demo_chat)" by auto
  have at: "tree_at [Key ''commands''] (ld_tree tree_ops d1) =
      Some (TList [TMap (fill (command_fields tree_ops demo_interrupt j) [])])"
    unfolding d1(2) tree_at_upd using demo_chat_commands by simp
  have "command_rep tree_ops number_codec (demo_interrupt\<lparr>ce_resolution := None\<rparr>)
      (TMap (fill (command_fields tree_ops demo_interrupt j) []))"
    by (rule command_fields_rep [OF number_codec_ok j])
  then have rep: "list_all2 (command_rep tree_ops number_codec) [demo_interrupt]
      [TMap (fill (command_fields tree_ops demo_interrupt j) [])]" by (simp add: demo_interrupt_def)
  have "set_command_status ''c'' CsApplied None [demo_interrupt] =
      Some [demo_interrupt\<lparr>ce_status := CsApplied, ce_resolution := None\<rparr>]"
    by (simp add: has_id_def demo_interrupt_def)
  with outcome_refines [OF tree_ops_ok number_codec_ok _ rep at, of "''c''" CsApplied None] demo_interrupt_ok
  obtain d2 where "loro_set_command_status tree_ops ''c'' CsApplied None d1 = (Inr (), d2)"
    "read_commands tree_ops number_codec d2 = [demo_interrupt\<lparr>ce_status := CsApplied, ce_resolution := None\<rparr>]" by auto
  with d1(1) show ?thesis by auto
qed

end
