(* ===== verification/Doc_Rebuild.thy ===== *)
theory Doc_Rebuild
  imports Doc_Ledger
begin

text \<open>
  The epoch rebuild of a chat document, \<^verbatim>\<open>crates/doc/src/rebuild.rs\<close>: a thin copy in which fat tool
  outputs and inline diffs are replaced by summaries and references, the stripped payloads, and the
  pending commands.
\<close>

subsection \<open>The rebuild\<close>

definition thin_doc_epoch :: nat where "thin_doc_epoch = 2"

text \<open>\<^verbatim>\<open>n.max(0) as u32\<close>\<close>

definition doc_epoch :: "'d loro_ops \<Rightarrow> 'd \<Rightarrow> nat" where
  "doc_epoch L d =
     (case map_get L [Key ''meta''] ''epoch'' d of
        Some (TVal (JInt n)) \<Rightarrow> if i64_ok n then nat (max n 0) mod 2 ^ 32 else 0
      | _ \<Rightarrow> 0)"

definition strip_output :: "string \<Rightarrow> tool_part \<Rightarrow> tool_part \<times> string option" where
  "strip_output chat_id t =
     (if tp_output_ref t \<noteq> None then (t, None)
      else case tp_output t of
        None \<Rightarrow> (t, None)
      | Some full \<Rightarrow>
          if is_blank full then (t\<lparr>tp_output := None\<rparr>, None)
          else (t\<lparr>tp_output := summarize_tool_output full, tp_output_bytes := Some (length full),
                  tp_output_ref := Some (chat_id @ ''/'' @ tp_id t)\<rparr>, Some full))"

definition strip_diff :: "line_differ \<Rightarrow> string \<Rightarrow> tool_part \<Rightarrow> tool_part \<times> tool_diff option" where
  "strip_diff ld chat_id t =
     (case tp_diff t of
        None \<Rightarrow> (t, None)
      | Some full \<Rightarrow>
          (t\<lparr>tp_diff := None, tp_diff_stats := Some [diff_stat ld full],
             tp_diff_ref := (case tp_diff_ref t of
                               Some r \<Rightarrow> Some r | None \<Rightarrow> Some (chat_id @ ''/'' @ tp_id t @ ''.diff''))\<rparr>,
           Some full))"

definition strip_part :: "line_differ \<Rightarrow> string \<Rightarrow> message_part \<Rightarrow> message_part \<times> sidecar_payload_rec option" where
  "strip_part ld chat_id p =
     (case p of
        PTool t \<Rightarrow>
          (let (t1, output) = strip_output chat_id t;
               (t2, diff) = strip_diff ld chat_id t1
           in (PTool t2,
               if output = None \<and> diff = None then None
               else Some \<lparr>sd_part_id = tp_id t, sd_output = output, sd_diff = diff\<rparr>))
      | _ \<Rightarrow> (p, None))"

definition strip_entry :: "line_differ \<Rightarrow> string \<Rightarrow> session_message_entry \<Rightarrow>
    session_message_entry \<times> sidecar_payload_rec list" where
  "strip_entry ld chat_id e =
     (let rs = map (strip_part ld chat_id) (me_parts e)
      in (e\<lparr>me_parts := map fst rs\<rparr>, List.map_filter snd rs))"

record 'd thin_rebuild =
  tr_doc :: 'd
  tr_sidecar :: "sidecar_payload_rec list"
  tr_entries :: nat
  tr_commands_copied :: nat

fun copy_entries :: "'d loro_ops \<Rightarrow> part_codec \<Rightarrow> line_differ \<Rightarrow> string \<Rightarrow> session_message_entry list \<Rightarrow>
    ('d, sidecar_payload_rec list) act" where
  "copy_entries L C ld chat_id [] = act_return []"
| "copy_entries L C ld chat_id (e # es) =
     (let (thin, payloads) = strip_entry ld chat_id e
      in act_bind (push_message L C thin) (\<lambda>_.
           act_bind (copy_entries L C ld chat_id es) (\<lambda>rest. act_return (payloads @ rest))))"

fun copy_commands :: "'d loro_ops \<Rightarrow> part_codec \<Rightarrow> session_command_entry list \<Rightarrow> ('d, nat) act" where
  "copy_commands L C [] = act_return 0"
| "copy_commands L C (c # cs) =
     (if ce_status c = CsPending
      then act_bind (queue_command L C c) (\<lambda>_.
             act_bind (copy_commands L C cs) (\<lambda>n. act_return (Suc n)))
      else copy_commands L C cs)"

definition rebuild_thin_doc :: "'d loro_ops \<Rightarrow> part_codec \<Rightarrow> (json \<Rightarrow> nat) \<Rightarrow> line_differ \<Rightarrow> 'd \<Rightarrow>
    doc_error + 'd thin_rebuild" where
  "rebuild_thin_doc L C H ld source =
     (case doc_chat_id L source of
        None \<Rightarrow> Inl (DeSchema ''source doc has no chatId'')
      | Some chat_id \<Rightarrow>
          (case doc_init L chat_id of
             (Inl e, _) \<Rightarrow> Inl e
           | (Inr _, thin) \<Rightarrow>
               (case put_value L [Key ''meta''] ''epoch'' (JInt (int thin_doc_epoch)) thin of
                  (Inl e, _) \<Rightarrow> Inl e
                | (Inr _, thin) \<Rightarrow>
                    (let entries = read_entries L C H source
                     in case copy_entries L C ld chat_id entries thin of
                          (Inl e, _) \<Rightarrow> Inl e
                        | (Inr sidecar, thin) \<Rightarrow>
                            (case copy_commands L C (read_commands L C source) thin of
                               (Inl e, _) \<Rightarrow> Inl e
                             | (Inr n, thin) \<Rightarrow>
                                 Inr \<lparr>tr_doc = ld_commit L thin, tr_sidecar = sidecar,
                                   tr_entries = length entries, tr_commands_copied = n\<rparr>)))))"

subsection \<open>Stripping\<close>

text \<open>
Stripping twice is stripping once, and the second time owes the sidecar nothing: an already-thin part
  passes through untouched.
\<close>

lemma strip_output_thin: "strip_output c (fst (strip_output c' t)) = (fst (strip_output c' t), None)"
  by (auto simp: strip_output_def split: option.split)

lemma strip_diff_thin: "strip_diff ld c (fst (strip_diff ld' c' t)) = (fst (strip_diff ld' c' t), None)"
  by (auto simp: strip_diff_def split: option.split)

lemma strip_output_diff:
  "strip_output c t = (t, None) \<Longrightarrow> strip_output c (fst (strip_diff ld c' t)) = (fst (strip_diff ld c' t), None)"
  by (auto simp: strip_output_def strip_diff_def split: option.splits if_splits dest: arg_cong [where f = tp_output])

lemma strip_part_thin: "strip_part ld c (fst (strip_part ld c' p)) = (fst (strip_part ld c' p), None)"
proof (cases p)
  case (PTool t)
  let ?t1 = "fst (strip_output c' t)" and ?t2 = "fst (strip_diff ld c' (fst (strip_output c' t)))"
  have "fst (strip_part ld c' p) = PTool ?t2"
    using PTool by (simp add: strip_part_def split: prod.split)
  moreover have "strip_output c ?t2 = (?t2, None)" by (rule strip_output_diff [OF strip_output_thin])
  moreover have "strip_diff ld c ?t2 = (?t2, None)" by (rule strip_diff_thin)
  ultimately show ?thesis by (simp add: strip_part_def)
qed (simp_all add: strip_part_def)

lemma strip_norm: "strip_part ld c p = (p, None) \<Longrightarrow> strip_part ld c (norm_part p) = (norm_part p, None)"
  by (cases p) (auto simp: strip_part_def strip_output_def strip_diff_def split: option.splits if_splits prod.splits
      dest: arg_cong [where f = tp_output] arg_cong [where f = tp_diff])


subsection \<open>The thin document\<close>

lemma does_copy_entries:
  assumes "loro_ok L" "part_codec_ok L C" "list_all (\<lambda>e. entry_ok (fst (strip_entry ld c e))) es"
  shows "\<exists>us. does L [Key ''messages''] (TList ts) (copy_entries L C ld c es)
      (concat (map (\<lambda>e. snd (strip_entry ld c e)) es)) (TList (ts @ us)) \<and>
    list_all2 (entry_rep L C) (map (\<lambda>e. fst (strip_entry ld c e)) es) us"
  using assms(3)
proof (induction es arbitrary: ts)
  case Nil
  show ?case by (auto intro: does_return)
next
  case (Cons e es)
  obtain thin payloads where s: "strip_entry ld c e = (thin, payloads)" by fastforce
  with Cons.prems have "list_all bytes_ok (me_parts thin)" by (simp add: entry_ok_def)
  from does_push_message [OF assms(1,2) this, of ts] obtain t where
    t: "does L [Key ''messages''] (TList ts) (push_message L C thin) () (TList (ts @ [t]))" "entry_rep L C thin t" by blast
  from Cons.IH [of "ts @ [t]"] Cons.prems obtain us where
    us: "does L [Key ''messages''] (TList (ts @ [t])) (copy_entries L C ld c es)
        (concat (map (\<lambda>e. snd (strip_entry ld c e)) es)) (TList ((ts @ [t]) @ us))"
      "list_all2 (entry_rep L C) (map (\<lambda>e. fst (strip_entry ld c e)) es) us" by auto
  have "does L [Key ''messages''] (TList ts) (act_bind (push_message L C thin) (\<lambda>_.
      act_bind (copy_entries L C ld c es) (\<lambda>rest. act_return (payloads @ rest))))
      (payloads @ concat (map (\<lambda>e. snd (strip_entry ld c e)) es)) (TList ((ts @ [t]) @ us))"
    by (rule does_bind [OF t(1)], rule does_bind [OF us(1)], rule does_return)
  with t(2) us(2) s show ?case by (intro exI [of _ "t # us"]) simp
qed

definition pending_only :: "session_command_entry list \<Rightarrow> session_command_entry list" where
  "pending_only cs = map (\<lambda>c. c\<lparr>ce_resolution := None\<rparr>) (filter (\<lambda>c. ce_status c = CsPending) cs)"

lemma does_copy_commands:
  assumes "loro_ok L" "part_codec_ok L C"
  shows "\<exists>us. does L [Key ''commands''] (TList ts) (copy_commands L C cs) (length (pending_only cs)) (TList (ts @ us)) \<and>
    list_all2 (command_rep L C) (pending_only cs) us"
proof (induction cs arbitrary: ts)
  case Nil
  show ?case by (auto simp: pending_only_def intro: does_return)
next
  case (Cons e cs)
  show ?case
  proof (cases "ce_status e = CsPending")
    case True
    from assms(2) obtain j where j: "pc_payload C (ce_payload e) = Inr j" unfolding part_codec_ok_def by blast
    let ?t = "TMap (fill (command_fields L e j) [])"
    from Cons.IH [of "ts @ [?t]"] obtain us where
      us: "does L [Key ''commands''] (TList (ts @ [?t])) (copy_commands L C cs) (length (pending_only cs))
          (TList ((ts @ [?t]) @ us))" "list_all2 (command_rep L C) (pending_only cs) us" by blast
    have "does L [Key ''commands''] (TList ts) (act_bind (queue_command L C e) (\<lambda>_.
        act_bind (copy_commands L C cs) (\<lambda>n. act_return (Suc n)))) (Suc (length (pending_only cs)))
        (TList ((ts @ [?t]) @ us))"
      by (rule does_bind [OF does_queue_command [OF assms j]], rule does_bind [OF us(1)], rule does_return)
    with us(2) command_fields_rep [OF assms(2) j] True show ?thesis
      by (intro exI [of _ "?t # us"]) (simp add: pending_only_def)
  next
    case False
    with Cons.IH [of ts] show ?thesis by (simp add: pending_only_def)
  qed
qed

definition meta_fields :: "string \<Rightarrow> (string \<times> field) list" where
  "meta_fields c = [(''chatId'', FVal (JStr c)), (''schemaVersion'', FVal (JInt session_schema_version))]"

lemma doc_init_effect:
  assumes "loro_ok L"
  shows "\<exists>d. doc_init L c = (Inr (), d) \<and>
    ld_tree L d = tree_upd [Key ''meta''] (\<lambda>_. TMap (fill (meta_fields c) [])) (ld_tree L (ld_new L))"
proof -
  have "does L [Key ''meta''] (TMap []) (run_acts (map (put_field L [Key ''meta'']) (meta_fields c) @ [act_commit L])) ()
      (TMap (fill (meta_fields c) []))"
    unfolding run_acts_append by (rule does_bind [OF does_fill [OF assms] does_commit_last [OF assms]])
  moreover have "tree_at [Key ''meta''] (ld_tree L (ld_new L)) = Some (TMap [])"
    using assms by (simp add: loro_ok_def law_new_def)
  ultimately show ?thesis
    by (auto simp: doc_init_def meta_fields_def act_fields dest!: doesD)
qed

lemma read_command_ok: "read_command C fs = Some e \<Longrightarrow> command_ok e"
  by (auto simp: read_command_def command_ok_def req_field_def opt_field_def as_i64_def bind_eq_Some_conv
      split: option.splits json.splits if_splits)

lemma read_commands_ok: "list_all command_ok (read_commands L C d)"
  by (auto simp: read_commands_def list_all_iff List.map_filter_def Option.bind_eq_Some_conv dest: read_command_ok)

lemma read_entries_rep:
  assumes "part_codec_ok L C" "list_all entry_ok es" "list_all2 (entry_rep L C) es ts"
    "tree_at [Key ''messages''] (ld_tree L d) = Some (TList ts)"
  shows "read_entries L C H d = map norm_entry es"
proof -
  have "list_all2 (\<lambda>e v. entry_from_json C H v = Some e) (map norm_entry es) (map to_json ts)"
    using assms(3,2) by (induction rule: list_all2_induct) (simp_all add: entry_rep_read [OF assms(1)])
  then show ?thesis by (simp add: read_entries_def root_list_def assms(4) map_filter_all2)
qed

lemma rebuild_effect:
  assumes "loro_ok L" "part_codec_ok L C" "doc_chat_id L source = Some c"
    "list_all (\<lambda>e. entry_ok (fst (strip_entry ld c e))) (read_entries L C H source)"
  shows "\<exists>r. rebuild_thin_doc L C H ld source = Inr r \<and> doc_epoch L (tr_doc r) = thin_doc_epoch \<and>
    doc_chat_id L (tr_doc r) = Some c \<and>
    read_entries L C H (tr_doc r) = map (\<lambda>e. norm_entry (fst (strip_entry ld c e))) (read_entries L C H source) \<and>
    read_commands L C (tr_doc r) = pending_only (read_commands L C source) \<and>
    tr_sidecar r = concat (map (\<lambda>e. snd (strip_entry ld c e)) (read_entries L C H source))"
proof -
  let ?es = "read_entries L C H source" and ?cs = "read_commands L C source"
  let ?m = "fill (meta_fields c) []"
  from doc_init_effect [OF assms(1)] obtain d1 where 1: "doc_init L c = (Inr (), d1)"
    "ld_tree L d1 = tree_upd [Key ''meta''] (\<lambda>_. TMap ?m) (ld_tree L (ld_new L))" by blast
  have new: "tree_at [Key ''meta''] (ld_tree L (ld_new L)) = Some (TMap [])"
    "tree_at [Key ''messages''] (ld_tree L (ld_new L)) = Some (TList [])"
    "tree_at [Key ''commands''] (ld_tree L (ld_new L)) = Some (TList [])"
    using assms(1) by (simp_all add: loro_ok_def law_new_def)
  let ?m2 = "AList.update ''epoch'' (TVal (JInt (int thin_doc_epoch))) ?m"
  have "tree_at [Key ''meta''] (ld_tree L d1) = Some (TMap ?m)" unfolding 1(2) tree_at_upd by (simp add: new)
  from doesD [OF does_put_value [OF assms(1)] this] obtain d2 where
    2: "put_value L [Key ''meta''] ''epoch'' (JInt (int thin_doc_epoch)) d1 = (Inr (), d2)"
      "ld_tree L d2 = tree_upd [Key ''meta''] (\<lambda>_. TMap ?m2) (ld_tree L d1)" by blast
  note other = tree_at_other [where q = "[]" and p = "[]"]
  have at2: "tree_at [Key ''meta''] (ld_tree L d2) = Some (TMap ?m2)"
    "tree_at [Key ''messages''] (ld_tree L d2) = Some (TList [])"
    "tree_at [Key ''commands''] (ld_tree L d2) = Some (TList [])"
    unfolding 2(2) 1(2) tree_upd_const by (simp_all add: other new tree_at_upd)
  from does_copy_entries [OF assms(1,2,4), of "[]"] obtain us where
    us: "does L [Key ''messages''] (TList []) (copy_entries L C ld c ?es) (concat (map (\<lambda>e. snd (strip_entry ld c e)) ?es)) (TList us)"
      "list_all2 (entry_rep L C) (map (\<lambda>e. fst (strip_entry ld c e)) ?es) us" by auto
  from doesD [OF us(1) at2(2)] obtain d3 where
    3: "copy_entries L C ld c ?es d2 = (Inr (concat (map (\<lambda>e. snd (strip_entry ld c e)) ?es)), d3)"
      "ld_tree L d3 = tree_upd [Key ''messages''] (\<lambda>_. TList us) (ld_tree L d2)" by blast
  have at3: "tree_at [Key ''meta''] (ld_tree L d3) = Some (TMap ?m2)"
    "tree_at [Key ''messages''] (ld_tree L d3) = Some (TList us)"
    "tree_at [Key ''commands''] (ld_tree L d3) = Some (TList [])"
    unfolding 3(2) by (simp_all add: other at2 tree_at_upd)
  from does_copy_commands [OF assms(1,2), of "[]" ?cs] obtain vs where
    vs: "does L [Key ''commands''] (TList []) (copy_commands L C ?cs) (length (pending_only ?cs)) (TList vs)"
      "list_all2 (command_rep L C) (pending_only ?cs) vs" by auto
  from doesD [OF vs(1) at3(3)] obtain d4 where
    4: "copy_commands L C ?cs d3 = (Inr (length (pending_only ?cs)), d4)"
      "ld_tree L d4 = tree_upd [Key ''commands''] (\<lambda>_. TList vs) (ld_tree L d3)" by blast
  let ?d = "ld_commit L d4"
  have "ld_tree L ?d = ld_tree L d4" using assms(1) by (simp add: loro_ok_def law_commit_def)
  then have at: "tree_at [Key ''meta''] (ld_tree L ?d) = Some (TMap ?m2)"
    "tree_at [Key ''messages''] (ld_tree L ?d) = Some (TList us)"
    "tree_at [Key ''commands''] (ld_tree L ?d) = Some (TList vs)"
    unfolding 4(2) by (simp_all add: other at3 tree_at_upd)
  have m: "map_of ?m2 ''epoch'' = Some (TVal (JInt 2))" "map_of ?m2 ''chatId'' = Some (TVal (JStr c))"
    by (simp_all add: update_conv' fields_map_fill fields_map_def meta_fields_def thin_doc_epoch_def)
  have "doc_epoch L ?d = thin_doc_epoch" "doc_chat_id L ?d = Some c"
  proof -
    have "map_get L [Key ''meta''] ''epoch'' ?d = Some (TVal (JInt 2))"
      "map_get L [Key ''meta''] ''chatId'' ?d = Some (TVal (JStr c))" by (simp_all add: map_get_def at(1) m)
    then show "doc_epoch L ?d = thin_doc_epoch" "doc_chat_id L ?d = Some c"
      by (simp_all add: doc_epoch_def doc_chat_id_def i64_ok_def thin_doc_epoch_def)
  qed
  moreover have "read_entries L C H ?d = map norm_entry (map (\<lambda>e. fst (strip_entry ld c e)) ?es)"
    using assms(4) by (intro read_entries_rep [OF assms(2) _ us(2) at(2)]) (simp add: list_all_iff)
  moreover have "list_all command_ok (pending_only ?cs)"
    using read_commands_ok [of L C source] by (auto simp: pending_only_def list_all_iff command_ok_def)
  then have "read_commands L C ?d = pending_only ?cs" by (rule read_commands_rep [OF assms(2) _ vs(2) at(3)])
  moreover have "rebuild_thin_doc L C H ld source = Inr \<lparr>tr_doc = ?d,
      tr_sidecar = concat (map (\<lambda>e. snd (strip_entry ld c e)) ?es), tr_entries = length ?es,
      tr_commands_copied = length (pending_only ?cs)\<rparr>"
    by (simp add: rebuild_thin_doc_def assms(3) 1(1) 2(1) 3(1) 4(1) Let_def)
  ultimately show ?thesis by (simp add: comp_def)
qed


lemma norm_part_twice: "norm_part (norm_part p) = norm_part p"
  by (cases p) auto

lemma strip_entry_thin:
  "strip_entry ld c (norm_entry (fst (strip_entry ld c' e))) = (norm_entry (fst (strip_entry ld c' e)), [])"
proof -
  have "strip_part ld c (norm_part (fst (strip_part ld c' p))) = (norm_part (fst (strip_part ld c' p)), None)" for p
    by (rule strip_norm [OF strip_part_thin])
  then show ?thesis
    by (simp add: strip_entry_def norm_entry_def Let_def comp_def List.map_filter_def)
qed

lemma norm_ok: "entry_ok e \<Longrightarrow> entry_ok (norm_entry e)"
proof -
  have "bytes_ok p \<Longrightarrow> bytes_ok (norm_part p)" for p by (cases p) (auto simp: bytes_ok_def)
  then show "entry_ok e \<Longrightarrow> entry_ok (norm_entry e)" by (auto simp: entry_ok_def norm_entry_def list_all_iff)
qed

text \<open>
Rebuilding is idempotent: a second rebuild, after a crash or on re-entry, succeeds, owes the sidecar
  nothing and changes neither the transcript nor the commands.
\<close>

theorem rebuild_idempotent:
  assumes "loro_ok L" "part_codec_ok L C" "doc_chat_id L source = Some c"
    "list_all (\<lambda>e. entry_ok (fst (strip_entry ld c e))) (read_entries L C H source)"
    "rebuild_thin_doc L C H ld source = Inr r"
  shows "\<exists>r'. rebuild_thin_doc L C H ld (tr_doc r) = Inr r' \<and> tr_sidecar r' = [] \<and>
    read_entries L C H (tr_doc r') = read_entries L C H (tr_doc r) \<and>
    read_commands L C (tr_doc r') = read_commands L C (tr_doc r)"
proof -
  from rebuild_effect [OF assms(1-4)] assms(5) have r: "doc_chat_id L (tr_doc r) = Some c"
    "read_entries L C H (tr_doc r) = map (\<lambda>e. norm_entry (fst (strip_entry ld c e))) (read_entries L C H source)"
    "read_commands L C (tr_doc r) = pending_only (read_commands L C source)" by auto
  have ok: "list_all (\<lambda>e. entry_ok (fst (strip_entry ld c e))) (read_entries L C H (tr_doc r))"
    using assms(4) by (auto simp: r(2) list_all_iff strip_entry_thin norm_ok)
  from rebuild_effect [OF assms(1,2) r(1) ok] obtain r' where r': "rebuild_thin_doc L C H ld (tr_doc r) = Inr r'"
    "read_entries L C H (tr_doc r') = map (\<lambda>e. norm_entry (fst (strip_entry ld c e))) (read_entries L C H (tr_doc r))"
    "read_commands L C (tr_doc r') = pending_only (read_commands L C (tr_doc r))"
    "tr_sidecar r' = concat (map (\<lambda>e. snd (strip_entry ld c e)) (read_entries L C H (tr_doc r)))" by blast
  have n: "norm_entry (norm_entry e) = norm_entry e" for e
    by (simp add: norm_entry_def norm_part_twice comp_def)
  have "read_entries L C H (tr_doc r') = read_entries L C H (tr_doc r)"
    unfolding r'(2) r(2) by (simp add: strip_entry_thin n)
  moreover have "read_commands L C (tr_doc r') = read_commands L C (tr_doc r)"
    unfolding r'(3) r(3) by (simp add: pending_only_def filter_map comp_def)
  moreover have "tr_sidecar r' = []" unfolding r'(4) r(2) by (simp add: strip_entry_thin)
  ultimately show ?thesis using r'(1) by blast
qed

text \<open>
No information is lost: what a tool part showed in full, its non-blank output or its diff, is either
  still in the stripped part or in the payload that is owed to the sidecar under the part's id.
\<close>

theorem strip_loses_nothing:
  assumes "strip_part ld c (PTool t) = (q, payload)"
  shows "\<exists>u. q = PTool u \<and> tp_id u = tp_id t \<and> tp_call u = tp_call t \<and>
    (\<forall>full. tp_output t = Some full \<and> \<not> is_blank full \<longrightarrow>
       tp_output u = Some full \<and> tp_output_ref u = tp_output_ref t \<or>
       (\<exists>p. payload = Some p \<and> sd_part_id p = tp_id t \<and> sd_output p = Some full \<and>
          tp_output_ref u = Some (c @ ''/'' @ tp_id t))) \<and>
    (\<forall>full. tp_diff t = Some full \<longrightarrow>
       (\<exists>p. payload = Some p \<and> sd_part_id p = tp_id t \<and> sd_diff p = Some full \<and> tp_diff_ref u \<noteq> None))"
  using assms
  by (auto simp: strip_part_def strip_output_def strip_diff_def split: option.splits if_splits prod.splits)


subsection \<open>Examples\<close>

definition fat_tool :: tool_part where
  "fat_tool = (new_tool_part ''x'' (Exec ''ls''))\<lparr>tp_resolved := True, tp_output := Some ''long''\<rparr>"

definition demo_fat :: session_message_entry where
  "demo_fat = \<lparr>me_id = ''m'', me_role = MrAssistant, me_parts = [PTool fat_tool], me_created_at = 1,
     me_device_id = ''d'', me_status = Some MsComplete, me_continuation_of = None\<rparr>"

abbreviation no_lines :: line_differ where "no_lines \<equiv> \<lambda>_ _. (0, 0)"

lemma demo_source:
  "\<exists>d. doc_chat_id tree_ops d = Some ''c'' \<and> read_entries tree_ops number_codec (\<lambda>_. 0) d = [demo_fat]"
proof -
  from doc_init_effect [OF tree_ops_ok, of "''c''"] obtain d1 where
    1: "ld_tree tree_ops d1 = tree_upd [Key ''meta''] (\<lambda>_. TMap (fill (meta_fields ''c'') [])) (ld_tree tree_ops (ld_new tree_ops))"
    by blast
  have at: "tree_at [Key ''messages''] (ld_tree tree_ops d1) = Some (TList [])"
    unfolding 1 by (simp add: tree_ops_def)
  have e: "read_entries tree_ops number_codec (\<lambda>_. 0) d1 = []"
    by (simp add: read_entries_def root_list_def at List.map_filter_def)
  have "entry_ok demo_fat" by (simp add: entry_ok_def demo_fat_def bytes_ok_def fat_tool_def new_tool_part_def i64_ok_def)
  from does_push_message [OF tree_ops_ok number_codec_ok, of demo_fat "[]"] this obtain t where
    t: "does tree_ops [Key ''messages''] (TList []) (push_message tree_ops number_codec demo_fat) () (TList [t])"
      "entry_rep tree_ops number_codec demo_fat t" by (auto simp: entry_ok_def)
  from doesD [OF t(1) at] obtain d where
    d: "ld_tree tree_ops d = tree_upd [Key ''messages''] (\<lambda>_. TList [t]) (ld_tree tree_ops d1)" by blast
  have "read_entries tree_ops number_codec (\<lambda>_. 0) d = map norm_entry [demo_fat]"
    by (rule read_entries_rep [OF number_codec_ok _ _ ]) (use t(2) \<open>entry_ok demo_fat\<close> in \<open>auto simp: d tree_at_upd at\<close>)
  also have "\<dots> = [demo_fat]" by (simp add: norm_entry_def demo_fat_def fat_tool_def)
  finally have "read_entries tree_ops number_codec (\<lambda>_. 0) d = [demo_fat]" .
  moreover have "tree_at [Key ''meta''] (ld_tree tree_ops d) = Some (TMap (fill (meta_fields ''c'') []))"
    unfolding d tree_at_other [where q = "[]" and p = "[]" and k = "''messages''" and k' = "''meta''", simplified]
    unfolding 1 tree_at_upd by (simp add: tree_ops_def)
  then have "doc_chat_id tree_ops d = Some ''c''"
    by (simp add: doc_chat_id_def map_get_def fields_map_fill fields_map_def meta_fields_def)
  ultimately show ?thesis by blast
qed

lemma demo_fat_strip_ok: "entry_ok (fst (strip_entry no_lines ''c'' demo_fat))"
  by (simp add: entry_ok_def strip_entry_def demo_fat_def strip_part_def strip_output_def strip_diff_def fat_tool_def
      new_tool_part_def bytes_ok_def i64_ok_def Let_def)

lemma demo_fat_payload: "map sd_output (snd (strip_entry no_lines ''c'' demo_fat)) = [Some ''long'']"
proof -
  have "\<not> is_blank ''long''"
    by (simp add: is_blank_def str_trim_def trim_start.simps trim_end.simps ws_at_start_def ws_at_end_def ws_enc_def suffix_def)
  then show ?thesis
    by (simp add: strip_entry_def demo_fat_def strip_part_def strip_output_def strip_diff_def fat_tool_def
        new_tool_part_def Let_def List.map_filter_def)
qed


lemma rebuild_idempotent_witness:
  "\<exists>d r r'. rebuild_thin_doc tree_ops number_codec (\<lambda>_. 0) no_lines d = Inr r \<and>
     rebuild_thin_doc tree_ops number_codec (\<lambda>_. 0) no_lines (tr_doc r) = Inr r' \<and> tr_sidecar r' = []"
proof -
  from demo_source obtain d where d: "doc_chat_id tree_ops d = Some ''c''"
    "read_entries tree_ops number_codec (\<lambda>_. 0) d = [demo_fat]" by blast
  have ok: "list_all (\<lambda>e. entry_ok (fst (strip_entry no_lines ''c'' e))) (read_entries tree_ops number_codec (\<lambda>_. 0) d)"
    by (simp add: d(2) demo_fat_strip_ok)
  from rebuild_effect [OF tree_ops_ok number_codec_ok d(1) ok] obtain r where
    r: "rebuild_thin_doc tree_ops number_codec (\<lambda>_. 0) no_lines d = Inr r" by blast
  from rebuild_idempotent [OF tree_ops_ok number_codec_ok d(1) ok r] r show ?thesis by blast
qed

lemma strip_loses_nothing_witness:
  "\<exists>p. snd (strip_part no_lines ''c'' (PTool fat_tool)) = Some p \<and> sd_output p = Some ''long''"
proof -
  have b: "\<not> is_blank ''long''"
    by (simp add: is_blank_def str_trim_def trim_start.simps trim_end.simps ws_at_start_def ws_at_end_def ws_enc_def suffix_def)
  obtain q pl where s: "strip_part no_lines ''c'' (PTool fat_tool) = (q, pl)" by fastforce
  have f: "tp_output fat_tool = Some ''long''" "tp_output_ref fat_tool = None" by (simp_all add: fat_tool_def new_tool_part_def)
  from strip_loses_nothing [OF s] f b have "(\<exists>u. q = PTool u \<and> tp_output_ref u = None) \<or>
      (\<exists>p. pl = Some p \<and> sd_output p = Some ''long'')" by auto
  moreover have "\<not> (\<exists>u. q = PTool u \<and> tp_output_ref u = None)"
    using s b by (auto simp: strip_part_def strip_output_def strip_diff_def fat_tool_def new_tool_part_def)
  ultimately show ?thesis using s by auto
qed

end
