(* ===== verification/Engine_Sessions.thy ===== *)
theory Engine_Sessions
  imports Engine_Drain Engine_Journal Doc_Stream
begin

text \<open>
  The sessions engine, \<^verbatim>\<open>crates/engine/src/sessions.rs\<close>: its shared state, the status rows, the memory of
  harness sessions, and the operations its callers use (dispatch, steer, interrupt, answers to
  questions). The run task is the theory \<open>Engine_Run\<close>. What other tasks do between two locks of an
  operation is an argument of the operation, a function on the state. Channels and shared cells of a
  run are kept under its run id, since the tasks that hold them keep them after the run is gone.
\<close>

subsection \<open>State\<close>


record steer_message =
  sm_prompt :: string
  sm_message_id :: "string option"

record routed_steer =
  rs_prompt :: string
  rs_message_id :: string

record harness_session_ref =
  hs_session_id :: string
  hs_cwd :: string

record run_handle =
  rh_run_id :: string
  rh_steerable :: bool

text \<open>The channels and the shared cells of a run: the steering mailbox and whether its receiver lives,
  the harness token, the engine's cancel watch, the events of the input bridge, the questions whose
  resolver is parked with the answers already sent, and the ledger of accepted steers.\<close>

record run_cell =
  rc_mailbox :: "steer_message list"
  rc_mailbox_open :: bool
  rc_token :: bool
  rc_cancel :: bool
  rc_engine_rx :: "agent_event list"
  rc_pending_inputs :: "string list"
  rc_answered :: "(string \<times> user_input_answer list) list"
  rc_routed_steers :: "routed_steer list"

text \<open>The tasks the engine spawns: a run, the second attempt of a run that died before it started, the
  turns for steers a dying run had accepted, and the revival of a crashed run.\<close>

record resume_state =
  st_chat_id :: string
  st_run_id :: string
  st_harness :: harness_id
  st_steerable :: bool
  st_request :: run_request
  st_user_message_id :: string
  st_resume_injected :: bool
  st_startup_retry :: bool

datatype spawned =
    SpawnRun resume_state
  | SpawnRetry string harness_id run_request string
  | SpawnOrphans string harness_id "routed_steer list"
  | SpawnRevive string string string

record 'd sessions =
  sn_device_id :: string
  sn_journal :: run_journal
  sn_doc_host :: bool
  sn_docs :: "string \<Rightarrow> engine_error + 'd"
  sn_workspace :: "workspace_host option"
  sn_runs :: "(string \<times> run_handle) list"
  sn_cells :: "string \<Rightarrow> run_cell"
  sn_hubs :: "(string \<times> (nat \<times> agent_event) list) list"
  sn_statuses :: "(string \<times> session) list"
  sn_sessions_tx :: "session list"
  sn_last_requests :: "(string \<times> run_request) list"
  sn_harness_sessions :: "(string \<times> harness_session_ref) list"
  sn_titles :: "(string \<times> harness_id \<times> string \<times> string) list option"
  sn_turns :: "(string \<times> string) list option"
  sn_new_ids :: "nat \<Rightarrow> string"
  sn_next_id :: nat
  sn_spawned :: "spawned list"

text \<open>The environment: the document library, the codecs, the home directory, the harness registry (a
  harness's id and whether it steers), and what one step reads of the clocks and the disk.\<close>

record 'd session_env =
  sv_loro :: "'d loro_ops"
  sv_codec :: part_codec
  sv_hash :: "json \<Rightarrow> nat"
  sv_differ :: line_differ
  sv_journal :: journal_codec
  sv_home :: string
  sv_resolve :: "harness_id \<Rightarrow> engine_error + harness_id \<times> bool"

record tick =
  ck_now :: datetime
  ck_instant :: nat
  ck_fault :: "nat option"

definition ck_now_ms :: "tick \<Rightarrow> int" where
  "ck_now_ms k = timestamp_millis (ck_now k)"

definition new_id :: "'d sessions \<Rightarrow> string \<times> 'd sessions" where
  "new_id s = (sn_new_ids s (sn_next_id s), s\<lparr>sn_next_id := sn_next_id s + 1\<rparr>)"

definition upd_cell :: "string \<Rightarrow> (run_cell \<Rightarrow> run_cell) \<Rightarrow> 'd sessions \<Rightarrow> 'd sessions" where
  "upd_cell r f s = s\<lparr>sn_cells := (sn_cells s)(r := f (sn_cells s r))\<rparr>"

definition fresh_cell :: run_cell where
  "fresh_cell = \<lparr>rc_mailbox = [], rc_mailbox_open = True, rc_token = False, rc_cancel = False,
     rc_engine_rx = [], rc_pending_inputs = [], rc_answered = [], rc_routed_steers = []\<rparr>"

definition doc_handle :: "string \<Rightarrow> 'd sessions \<Rightarrow> engine_error + 'd" where
  "doc_handle chat_id s =
     (if sn_doc_host s then sn_docs s chat_id
      else Inl (EeOther ''doc host not wired into sessions engine''))"

definition put_doc :: "string \<Rightarrow> 'd \<Rightarrow> 'd sessions \<Rightarrow> 'd sessions" where
  "put_doc chat_id d s = s\<lparr>sn_docs := (sn_docs s)(chat_id := Inr d)\<rparr>"

definition workspace :: "'d sessions \<Rightarrow> workspace_host option" where
  "workspace s = (if sn_doc_host s then sn_workspace s else None)"

text \<open>\<^verbatim>\<open>if let Some(ws) = self.workspace() { \<dots> }\<close>\<close>

definition with_workspace :: "(workspace_host \<Rightarrow> workspace_host) \<Rightarrow> 'd sessions \<Rightarrow> 'd sessions" where
  "with_workspace f s =
     (case workspace s of None \<Rightarrow> s | Some ws \<Rightarrow> s\<lparr>sn_workspace := Some (f ws)\<rparr>)"

definition live_run :: "string \<Rightarrow> 'd sessions \<Rightarrow> run_handle option" where
  "live_run chat_id s = map_of (sn_runs s) chat_id"

definition is_live :: "string \<Rightarrow> string \<Rightarrow> 'd sessions \<Rightarrow> bool" where
  "is_live chat_id run_id s =
     (case live_run chat_id s of None \<Rightarrow> False | Some h \<Rightarrow> rh_run_id h = run_id)"

definition remove_run :: "string \<Rightarrow> string \<Rightarrow> 'd sessions \<Rightarrow> 'd sessions" where
  "remove_run chat_id run_id s =
     (if is_live chat_id run_id s then s\<lparr>sn_runs := AList.delete chat_id (sn_runs s)\<rparr> else s)"

subsection \<open>Events and statuses\<close>

text \<open>Journal and broadcast; a failed append has sequence number 0.\<close>

definition publish :: "'d session_env \<Rightarrow> tick \<Rightarrow> string \<Rightarrow> agent_event \<Rightarrow> 'd sessions \<Rightarrow> 'd sessions" where
  "publish V k chat_id event s =
     (let (r, j) = journal_append (sv_journal V) (ck_fault k) chat_id event (sn_journal s);
          sq = (case r of Inl _ \<Rightarrow> 0 | Inr n \<Rightarrow> n);
          s = s\<lparr>sn_journal := j\<rparr>
      in case map_of (sn_hubs s) chat_id of
           None \<Rightarrow> s
         | Some sent \<Rightarrow> s\<lparr>sn_hubs := AList.update chat_id (sent @ [(sq, event)]) (sn_hubs s)\<rparr>)"

fun journal_error_text :: "journal_error \<Rightarrow> string" where
  "journal_error_text (JIo e) = ''io: '' @ e"
| "journal_error_text (JJson e) = ''json: '' @ e"

definition subscribe :: "'d session_env \<Rightarrow> string \<Rightarrow> nat \<Rightarrow> 'd sessions \<Rightarrow>
    (engine_error + (nat \<times> agent_event) list) \<times> 'd sessions" where
  "subscribe V chat_id after_seq s =
     (let s = (case map_of (sn_hubs s) chat_id of
                 None \<Rightarrow> s\<lparr>sn_hubs := AList.update chat_id [] (sn_hubs s)\<rparr> | Some _ \<Rightarrow> s)
      in (case replay (sv_journal V) chat_id after_seq (sn_journal s) of
            Inl e \<Rightarrow> Inl (EeJournal (journal_error_text e)) | Inr evs \<Rightarrow> Inr evs, s))"

definition is_active :: "session_status \<Rightarrow> bool" where
  "is_active st \<longleftrightarrow> st = SsWorking \<or> st = SsAwaitingInput"

definition any_active :: "'d sessions \<Rightarrow> bool" where
  "any_active s \<longleftrightarrow> list_ex (\<lambda>(_, e). is_active (se_status e)) (sn_statuses s)"

definition session_row_of :: "string \<Rightarrow> 'd sessions \<Rightarrow> session option" where
  "session_row_of chat_id s = map_of (sn_statuses s) chat_id"

definition session_list :: "(string \<times> session) list \<Rightarrow> session list" where
  "session_list sts = sort_key se_chat_id (map snd sts)"

definition put_status :: "string \<Rightarrow> session \<Rightarrow> 'd sessions \<Rightarrow> 'd sessions" where
  "put_status chat_id e s =
     (let sts = AList.update chat_id e (sn_statuses s)
      in with_workspace (record_session e) (s\<lparr>sn_statuses := sts, sn_sessions_tx := session_list sts\<rparr>))"

definition touch_throttle_ms :: int where "touch_throttle_ms = 10000"

definition touch_session :: "tick \<Rightarrow> string \<Rightarrow> 'd sessions \<Rightarrow> 'd sessions" where
  "touch_session k chat_id s =
     (case map_of (sn_statuses s) chat_id of
        None \<Rightarrow> s
      | Some e \<Rightarrow>
          if num_milliseconds (ck_now k - se_updated_at e) < touch_throttle_ms then s
          else put_status chat_id (e\<lparr>se_updated_at := ck_now k\<rparr>) s)"

definition next_session :: "session_status \<Rightarrow> bool \<Rightarrow> datetime \<Rightarrow> session \<Rightarrow> session" where
  "next_session status fresh_start now e =
     (let was_active = is_active (se_status e);
          e = e\<lparr>se_status := status, se_updated_at := now\<rparr>
      in if status = SsWorking \<and> (fresh_start \<or> \<not> was_active) then e\<lparr>se_started_at := Some now\<rparr>
         else if is_active status then e
         else e\<lparr>se_started_at := None\<rparr>)"

definition set_status :: "tick \<Rightarrow> string \<Rightarrow> session_status \<Rightarrow> bool \<Rightarrow> 'd sessions \<Rightarrow> 'd sessions" where
  "set_status k chat_id status fresh_start s =
     (let e = (case map_of (sn_statuses s) chat_id of
                 Some e \<Rightarrow> e
               | None \<Rightarrow> \<lparr>se_chat_id = chat_id, se_device_id = sn_device_id s, se_status = status,
                          se_started_at = None, se_updated_at = ck_now k\<rparr>)
      in put_status chat_id (next_session status fresh_start (ck_now k) e) s)"

text \<open>\<^verbatim>\<open>Inner::note_message\<close>\<close>

definition preview_message :: "tick \<Rightarrow> string \<Rightarrow> string \<Rightarrow> 'd sessions \<Rightarrow> 'd sessions" where
  "preview_message k chat_id message s =
     (if message = [] then s else with_workspace (note_message (ck_now k) chat_id message) s)"

subsection \<open>Harness sessions\<close>

definition remember_harness_session :: "string \<Rightarrow> string \<Rightarrow> string \<Rightarrow> 'd sessions \<Rightarrow> 'd sessions" where
  "remember_harness_session chat_id session_id cwd s =
     (if session_id = [] then s
      else with_workspace (ws_set_chat_harness_session chat_id session_id cwd)
             (s\<lparr>sn_harness_sessions := AList.update chat_id \<lparr>hs_session_id = session_id, hs_cwd = cwd\<rparr>
                 (sn_harness_sessions s)\<rparr>))"

fun scan_sessions :: "agent_event list \<Rightarrow> string \<Rightarrow> (string \<times> string) option \<Rightarrow> (string \<times> string) option" where
  "scan_sessions [] current_cwd found = found"
| "scan_sessions (SessionStarted h model tools cwd session_id extra # evs) current_cwd found =
     scan_sessions evs cwd (if session_id \<noteq> [] then Some (session_id, cwd) else found)"
| "scan_sessions (Done status result err (Some session_id) # evs) current_cwd found =
     scan_sessions evs current_cwd (if session_id \<noteq> [] then Some (session_id, current_cwd) else found)"
| "scan_sessions (_ # evs) current_cwd found = scan_sessions evs current_cwd found"

definition journal_harness_session :: "'d session_env \<Rightarrow> string \<Rightarrow> 'd sessions \<Rightarrow> (string \<times> string) option" where
  "journal_harness_session V chat_id s =
     (case replay (sv_journal V) chat_id 0 (sn_journal s) of
        Inl _ \<Rightarrow> None
      | Inr evs \<Rightarrow> scan_sessions (map snd evs) [] None)"

definition cwd_ok :: "string \<Rightarrow> string \<Rightarrow> bool" where
  "cwd_ok cwd session_cwd \<longleftrightarrow> session_cwd = [] \<or> session_cwd = cwd"

definition resume_for :: "'d session_env \<Rightarrow> string \<Rightarrow> string \<Rightarrow> 'd sessions \<Rightarrow> string option \<times> 'd sessions" where
  "resume_for V chat_id cwd s =
     (case map_of (sn_harness_sessions s) chat_id of
        Some known \<Rightarrow>
          (if hs_session_id known \<noteq> [] \<and> cwd_ok cwd (hs_cwd known) then Some (hs_session_id known) else None, s)
      | None \<Rightarrow>
          (case Option.bind (workspace s) (\<lambda>ws. chat_harness_session ws chat_id) of
             Some (session_id, session_cwd) \<Rightarrow>
               (if session_id \<noteq> [] \<and> cwd_ok cwd (case session_cwd of None \<Rightarrow> [] | Some c \<Rightarrow> c)
                then Some session_id else None, s)
           | None \<Rightarrow>
               (case journal_harness_session V chat_id s of
                  None \<Rightarrow> (None, s)
                | Some (session_id, session_cwd) \<Rightarrow>
                    (if cwd_ok cwd session_cwd then Some session_id else None,
                     remember_harness_session chat_id session_id session_cwd s))))"

subsection \<open>Starting a turn\<close>

text \<open>\<^verbatim>\<open>PathBuf::join\<close>: an absolute path replaces the base.\<close>

definition path_join :: "string \<Rightarrow> string \<Rightarrow> string" where
  "path_join base p =
     (if p \<noteq> [] \<and> hd p = CHR ''/'' then p
      else if base = [] \<or> last base = CHR ''/'' then base @ p
      else base @ ''/'' @ p)"

definition expand_home :: "string \<Rightarrow> string \<Rightarrow> string" where
  "expand_home home cwd =
     (case cwd of
        [] \<Rightarrow> cwd
      | c # rest \<Rightarrow>
          if c \<noteq> CHR ''~'' then cwd
          else if rest = [] then home
          else if hd rest = CHR ''/'' then path_join home (tl rest)
          else cwd)"

definition note_turn_start :: "string \<Rightarrow> string \<Rightarrow> 'd sessions \<Rightarrow> 'd sessions" where
  "note_turn_start chat_id cwd s =
     s\<lparr>sn_turns := map_option (\<lambda>calls. calls @ [(chat_id, cwd)]) (sn_turns s)\<rparr>"

text \<open>The wiring at assembly and retirement: the first doc host, titler and turn listener win.\<close>

definition set_doc_host :: "'d sessions \<Rightarrow> 'd sessions" where
  "set_doc_host s = s\<lparr>sn_doc_host := True\<rparr>"

definition clear_doc_host :: "'d sessions \<Rightarrow> 'd sessions" where
  "clear_doc_host s = s\<lparr>sn_doc_host := False\<rparr>"

definition set_titles :: "'d sessions \<Rightarrow> 'd sessions" where
  "set_titles s = s\<lparr>sn_titles := Some (case sn_titles s of None \<Rightarrow> [] | Some calls \<Rightarrow> calls)\<rparr>"

definition set_turn_listener :: "'d sessions \<Rightarrow> 'd sessions" where
  "set_turn_listener s = s\<lparr>sn_turns := Some (case sn_turns s of None \<Rightarrow> [] | Some calls \<Rightarrow> calls)\<rparr>"

definition last_request :: "string \<Rightarrow> 'd sessions \<Rightarrow> run_request option" where
  "last_request chat_id s = map_of (sn_last_requests s) chat_id"

definition maybe_generate :: "string \<Rightarrow> harness_id \<Rightarrow> string \<Rightarrow> string \<Rightarrow> 'd sessions \<Rightarrow> 'd sessions" where
  "maybe_generate chat_id harness prompt cwd s =
     s\<lparr>sn_titles := map_option (\<lambda>calls. calls @ [(chat_id, harness, prompt, cwd)]) (sn_titles s)\<rparr>"

definition user_entry :: "string \<Rightarrow> string \<Rightarrow> string \<Rightarrow> int \<Rightarrow> session_message_entry" where
  "user_entry device_id message_id message created_at =
     \<lparr>me_id = message_id, me_role = MrUser, me_parts = [PText ''t0'' message], me_created_at = created_at,
      me_device_id = device_id, me_status = Some MsComplete, me_continuation_of = None\<rparr>"

definition write_user_message :: "'d session_env \<Rightarrow> string \<Rightarrow> string \<Rightarrow> string \<Rightarrow> int \<Rightarrow> ('d, unit) act" where
  "write_user_message V device_id message_id message created_at d =
     (if list_ex (\<lambda>e. me_id e = message_id) (read_entries (sv_loro V) (sv_codec V) (sv_hash V) d)
      then (Inr (), d)
      else push_message (sv_loro V) (sv_codec V) (user_entry device_id message_id message created_at) d)"

text \<open>The two lines \<^verbatim>\<open>let handle = self.doc_handle(chat_id)?\<close> and
  \<^verbatim>\<open>handle.write_user_message(\<dots>)?\<close>.\<close>

definition write_user_entry :: "'d session_env \<Rightarrow> tick \<Rightarrow> string \<Rightarrow> string \<Rightarrow> string \<Rightarrow> 'd sessions \<Rightarrow>
    (engine_error + unit) \<times> 'd sessions" where
  "write_user_entry V k chat_id message_id message s =
     (case doc_handle chat_id s of
        Inl e \<Rightarrow> (Inl e, s)
      | Inr d \<Rightarrow>
          (case write_user_message V (sn_device_id s) message_id message (ck_now_ms k) d of
             (Inl e, d) \<Rightarrow> (Inl (EeDoc e), put_doc chat_id d s)
           | (Inr _, d) \<Rightarrow> (Inr (), put_doc chat_id d s)))"

definition mailbox_cap :: nat where "mailbox_cap = 32"

definition try_send :: "string \<Rightarrow> steer_message \<Rightarrow> 'd sessions \<Rightarrow> 'd sessions option" where
  "try_send run_id m s =
     (let c = sn_cells s run_id
      in if rc_mailbox_open c \<and> length (rc_mailbox c) < mailbox_cap
         then Some (upd_cell run_id (\<lambda>c. c\<lparr>rc_mailbox := rc_mailbox c @ [m]\<rparr>) s) else None)"

definition push_ledger :: "string \<Rightarrow> routed_steer \<Rightarrow> 'd sessions \<Rightarrow> 'd sessions" where
  "push_ledger run_id m = upd_cell run_id (\<lambda>c. c\<lparr>rc_routed_steers := rc_routed_steers c @ [m]\<rparr>)"

definition reclaim :: "string \<Rightarrow> string \<Rightarrow> 'd sessions \<Rightarrow> bool \<times> 'd sessions" where
  "reclaim run_id user_id s =
     (let before = rc_routed_steers (sn_cells s run_id);
          kept = filter (\<lambda>m. rs_message_id m \<noteq> user_id) before
      in (length kept \<noteq> length before, upd_cell run_id (\<lambda>c. c\<lparr>rc_routed_steers := kept\<rparr>) s))"

definition or_new_id :: "string option \<Rightarrow> 'd sessions \<Rightarrow> string \<times> 'd sessions" where
  "or_new_id message_id s = (case message_id of Some i \<Rightarrow> (i, s) | None \<Rightarrow> new_id s)"

text \<open>The points of an operation at which other tasks may run: after the send into the mailbox, after
  the user entry, before the reclaim, and while an interrupt waits for the run to settle.\<close>

datatype gap = GapSent | GapWritten | GapReclaim | GapSettle

type_synonym 'd others = "gap \<Rightarrow> 'd sessions \<Rightarrow> 'd sessions"

definition interrupt :: "'d others \<Rightarrow> string \<Rightarrow> 'd sessions \<Rightarrow> bool \<times> 'd sessions" where
  "interrupt others chat_id s =
     (case live_run chat_id s of
        None \<Rightarrow> (False, s)
      | Some h \<Rightarrow>
          (True, others GapSettle
             (upd_cell (rh_run_id h)
               (\<lambda>c. c\<lparr>rc_answered := rc_answered c @ map (\<lambda>i. (i, [])) (rc_pending_inputs c),
                      rc_pending_inputs := [], rc_token := True, rc_cancel := True\<rparr>) s)))"

definition respond_input :: "string \<Rightarrow> string \<Rightarrow> user_input_answer list \<Rightarrow> 'd sessions \<Rightarrow> bool \<times> 'd sessions" where
  "respond_input chat_id request_id answers s =
     (case live_run chat_id s of
        None \<Rightarrow> (False, s)
      | Some h \<Rightarrow>
          if request_id \<in> set (rc_pending_inputs (sn_cells s (rh_run_id h)))
          then (True, upd_cell (rh_run_id h)
                 (\<lambda>c. c\<lparr>rc_pending_inputs := removeAll request_id (rc_pending_inputs c),
                        rc_answered := rc_answered c @ [(request_id, answers)],
                        rc_engine_rx := rc_engine_rx c @ [InputResolved request_id]\<rparr>) s)
          else (False, s))"

text \<open>The harness asks: the closure \<^verbatim>\<open>request_input\<close> of a run.\<close>

definition request_input :: "string \<Rightarrow> user_input_question list \<Rightarrow> 'd sessions \<Rightarrow> 'd sessions" where
  "request_input run_id questions s =
     (let (request_id, s) = new_id s
      in upd_cell run_id
           (\<lambda>c. c\<lparr>rc_pending_inputs := rc_pending_inputs c @ [request_id],
                  rc_engine_rx := rc_engine_rx c @ [InputRequested request_id questions]\<rparr>) s)"

definition steer :: "'d session_env \<Rightarrow> 'd others \<Rightarrow> tick \<Rightarrow> string \<Rightarrow> string \<Rightarrow> string option \<Rightarrow> 'd sessions \<Rightarrow>
    (engine_error + steer_outcome) \<times> 'd sessions" where
  "steer V others k chat_id prompt message_id s =
     (case live_run chat_id s of
        None \<Rightarrow> (Inr NotSteerable, s)
      | Some h \<Rightarrow>
          if \<not> rh_steerable h then (Inr NotSteerable, s)
          else case try_send (rh_run_id h) \<lparr>sm_prompt = prompt, sm_message_id = message_id\<rparr> s of
            None \<Rightarrow> (Inr NotSteerable, s)
          | Some s \<Rightarrow>
              let s = others GapSent s;
                  (user_id, s) = or_new_id message_id s;
                  s = push_ledger (rh_run_id h) \<lparr>rs_prompt = prompt, rs_message_id = user_id\<rparr> s
              in case write_user_entry V k chat_id user_id prompt s of
                   (Inl e, s) \<Rightarrow> (Inl e, s)
                 | (Inr _, s) \<Rightarrow>
                     let s = (case map_of (sn_last_requests s) chat_id of
                                None \<Rightarrow> s | Some rq \<Rightarrow> note_turn_start chat_id (rq_cwd rq) s);
                         s = others GapWritten s
                     in if is_live chat_id (rh_run_id h) s
                        then (Inr Accepted, preview_message k chat_id prompt (set_status k chat_id SsWorking False s))
                        else let (reclaimed, s) = reclaim (rh_run_id h) user_id (others GapReclaim s)
                             in if reclaimed then (Inr NotSteerable, s)
                                else (Inr Accepted, preview_message k chat_id prompt s))"

definition spawn :: "spawned \<Rightarrow> 'd sessions \<Rightarrow> 'd sessions" where
  "spawn t s = s\<lparr>sn_spawned := sn_spawned s @ [t]\<rparr>"

text \<open>The second half of \<^verbatim>\<open>dispatch_inner\<close>: a fresh run.\<close>

definition start_run :: "'d session_env \<Rightarrow> tick \<Rightarrow> string \<Rightarrow> harness_id \<times> bool \<Rightarrow> run_request \<Rightarrow> string \<Rightarrow>
    harness_id \<Rightarrow> bool \<Rightarrow> 'd sessions \<Rightarrow> string \<times> 'd sessions" where
  "start_run V k chat_id harness request user_id harness_id startup_retry s =
     (let (resume, s) =
            (case rq_resume request of
               Some r \<Rightarrow> (Some r, s) | None \<Rightarrow> resume_for V chat_id (rq_cwd request) s);
          resume_injected = (rq_resume request = None \<and> resume \<noteq> None);
          request = request\<lparr>rq_resume := resume\<rparr>;
          s = s\<lparr>sn_last_requests := AList.update chat_id request (sn_last_requests s)\<rparr>;
          (run_id, s) = new_id s;
          s = upd_cell run_id (\<lambda>_. fresh_cell) s;
          s = s\<lparr>sn_runs := AList.update chat_id \<lparr>rh_run_id = run_id, rh_steerable = snd harness\<rparr> (sn_runs s)\<rparr>;
          s = set_status k chat_id SsWorking True s;
          s = preview_message k chat_id (rq_prompt request) s;
          s = maybe_generate chat_id harness_id (rq_prompt request) (rq_cwd request) s
      in (run_id,
          spawn (SpawnRun \<lparr>st_chat_id = chat_id, st_run_id = run_id, st_harness = fst harness,
              st_steerable = snd harness, st_request = request, st_user_message_id = user_id,
              st_resume_injected = resume_injected, st_startup_retry = startup_retry\<rparr>) s))"

definition dispatch_fresh :: "'d session_env \<Rightarrow> tick \<Rightarrow> string \<Rightarrow> harness_id \<Rightarrow> run_request \<Rightarrow> string option \<Rightarrow>
    bool \<Rightarrow> 'd sessions \<Rightarrow> (engine_error + string) \<times> 'd sessions" where
  "dispatch_fresh V k chat_id harness_id request message_id startup_retry s =
     (case sv_resolve V harness_id of
        Inl e \<Rightarrow> (Inl e, s)
      | Inr harness \<Rightarrow>
          (case doc_handle chat_id s of
             Inl e \<Rightarrow> (Inl e, s)
           | Inr _ \<Rightarrow>
               let (user_id, s) = or_new_id message_id s
               in case write_user_entry V k chat_id user_id (rq_prompt request) s of
                    (Inl e, s) \<Rightarrow> (Inl e, s)
                  | (Inr _, s) \<Rightarrow>
                      let (run_id, s) = start_run V k chat_id harness request user_id harness_id startup_retry s
                      in (Inr run_id, s)))"

text \<open>What routing a prompt into a live run comes to: answered, failed, or a fresh run after the old one
  is stopped, with the message id to use.\<close>

datatype routing = Routed string | RouteFailed engine_error | Replace "string option"

definition route_prompt :: "'d session_env \<Rightarrow> 'd others \<Rightarrow> tick \<Rightarrow> string \<Rightarrow> string \<Rightarrow> string option \<Rightarrow>
    run_handle \<Rightarrow> 'd sessions \<Rightarrow> routing \<times> 'd sessions" where
  "route_prompt V others k chat_id prompt message_id h s =
     (case (if rh_steerable h
            then try_send (rh_run_id h) \<lparr>sm_prompt = prompt, sm_message_id = message_id\<rparr> s else None) of
        None \<Rightarrow> (Replace message_id, s)
      | Some s \<Rightarrow>
          let s = others GapSent s;
              (user_id, s) = or_new_id message_id s;
              s = push_ledger (rh_run_id h) \<lparr>rs_prompt = prompt, rs_message_id = user_id\<rparr> s
          in case write_user_entry V k chat_id user_id prompt s of
               (Inl e, s) \<Rightarrow> (RouteFailed e, s)
             | (Inr _, s) \<Rightarrow>
                 let s = others GapWritten s
                 in if is_live chat_id (rh_run_id h) s
                    then (Routed (rh_run_id h), preview_message k chat_id prompt (set_status k chat_id SsWorking False s))
                    else let (reclaimed, s) = reclaim (rh_run_id h) user_id (others GapReclaim s)
                         in if reclaimed then (Replace (Some user_id), s)
                            else (Routed (rh_run_id h), preview_message k chat_id prompt s))"

definition dispatch_with :: "'d session_env \<Rightarrow> 'd others \<Rightarrow> tick \<Rightarrow> string \<Rightarrow> harness_id \<Rightarrow> run_request \<Rightarrow>
    string option \<Rightarrow> bool \<Rightarrow> 'd sessions \<Rightarrow> (engine_error + string) \<times> 'd sessions" where
  "dispatch_with V others k chat_id harness_id request message_id startup_retry s =
     (let request = request\<lparr>rq_cwd := expand_home (sv_home V) (rq_cwd request)\<rparr>;
          s = note_turn_start chat_id (rq_cwd request) s
      in case live_run chat_id s of
           None \<Rightarrow> dispatch_fresh V k chat_id harness_id request message_id startup_retry s
         | Some h \<Rightarrow>
             (case route_prompt V others k chat_id (rq_prompt request) message_id h s of
                (Routed run_id, s) \<Rightarrow> (Inr run_id, s)
              | (RouteFailed e, s) \<Rightarrow> (Inl e, s)
              | (Replace message_id, s) \<Rightarrow>
                  dispatch_fresh V k chat_id harness_id request message_id startup_retry
                    (snd (interrupt others chat_id s))))"

definition dispatch :: "'d session_env \<Rightarrow> 'd others \<Rightarrow> tick \<Rightarrow> string \<Rightarrow> harness_id \<Rightarrow> run_request \<Rightarrow>
    string option \<Rightarrow> 'd sessions \<Rightarrow> (engine_error + string) \<times> 'd sessions" where
  "dispatch V others k chat_id harness_id request message_id =
     dispatch_with V others k chat_id harness_id request message_id False"

text \<open>Graceful shutdown: every live run is interrupted.\<close>

definition shutdown :: "'d others \<Rightarrow> 'd sessions \<Rightarrow> 'd sessions" where
  "shutdown others s = fold (\<lambda>chat_id s. snd (interrupt others chat_id s)) (map fst (sn_runs s)) s"

subsection \<open>Spawned dispatches\<close>

text \<open>The second attempt after a death at startup.\<close>

definition retry_dispatch :: "'d session_env \<Rightarrow> 'd others \<Rightarrow> tick \<Rightarrow> string \<Rightarrow> harness_id \<Rightarrow> run_request \<Rightarrow>
    string \<Rightarrow> 'd sessions \<Rightarrow> 'd sessions" where
  "retry_dispatch V others k chat_id harness_id request message_id s =
     (case dispatch_with V others k chat_id harness_id request (Some message_id) True s of
        (Inl _, s) \<Rightarrow> set_status k chat_id SsErrored False s
      | (Inr _, s) \<Rightarrow> s)"

fun redispatch_orphans :: "'d session_env \<Rightarrow> 'd others \<Rightarrow> tick \<Rightarrow> string \<Rightarrow> harness_id \<Rightarrow> routed_steer list \<Rightarrow>
    'd sessions \<Rightarrow> 'd sessions" where
  "redispatch_orphans V others k chat_id harness_id [] s = s"
| "redispatch_orphans V others k chat_id harness_id (m # ms) s =
     (case map_of (sn_last_requests s) chat_id of
        None \<Rightarrow> s
      | Some rq \<Rightarrow>
          (case dispatch V others k chat_id harness_id
              (rq\<lparr>rq_prompt := rs_prompt m, rq_resume := None, rq_attachments := []\<rparr>)
              (Some (rs_message_id m)) s of
             (Inl _, s) \<Rightarrow> set_status k chat_id SsErrored False s
           | (Inr _, s) \<Rightarrow> redispatch_orphans V others k chat_id harness_id ms s))"

subsection \<open>Frame\<close>

text \<open>What the operations leave alone.\<close>

lemma frame_workspace [simp]:
  "sn_docs (with_workspace f s) = sn_docs s" "sn_device_id (with_workspace f s) = sn_device_id s"
  "sn_journal (with_workspace f s) = sn_journal s" "sn_runs (with_workspace f s) = sn_runs s"
  "sn_cells (with_workspace f s) = sn_cells s" "sn_statuses (with_workspace f s) = sn_statuses s"
  "sn_spawned (with_workspace f s) = sn_spawned s" "sn_doc_host (with_workspace f s) = sn_doc_host s"
  "sn_harness_sessions (with_workspace f s) = sn_harness_sessions s"
  "sn_sessions_tx (with_workspace f s) = sn_sessions_tx s"
  by (simp_all add: with_workspace_def split: option.split)

lemma frame_status [simp]:
  "sn_docs (put_status c e s) = sn_docs s" "sn_device_id (put_status c e s) = sn_device_id s"
  "sn_journal (put_status c e s) = sn_journal s" "sn_runs (put_status c e s) = sn_runs s"
  "sn_cells (put_status c e s) = sn_cells s" "sn_spawned (put_status c e s) = sn_spawned s"
  "sn_doc_host (put_status c e s) = sn_doc_host s"
  "sn_harness_sessions (put_status c e s) = sn_harness_sessions s"
  by (simp_all add: put_status_def Let_def)

lemma frame_set_status [simp]:
  "sn_docs (set_status k c st f s) = sn_docs s" "sn_device_id (set_status k c st f s) = sn_device_id s"
  "sn_journal (set_status k c st f s) = sn_journal s" "sn_runs (set_status k c st f s) = sn_runs s"
  "sn_cells (set_status k c st f s) = sn_cells s" "sn_spawned (set_status k c st f s) = sn_spawned s"
  "sn_doc_host (set_status k c st f s) = sn_doc_host s"
  "sn_harness_sessions (set_status k c st f s) = sn_harness_sessions s"
  by (simp_all add: set_status_def Let_def)

lemma frame_touch [simp]:
  "sn_docs (touch_session k c s) = sn_docs s" "sn_device_id (touch_session k c s) = sn_device_id s"
  "sn_journal (touch_session k c s) = sn_journal s" "sn_runs (touch_session k c s) = sn_runs s"
  "sn_cells (touch_session k c s) = sn_cells s" "sn_spawned (touch_session k c s) = sn_spawned s"
  "sn_doc_host (touch_session k c s) = sn_doc_host s"
  "sn_harness_sessions (touch_session k c s) = sn_harness_sessions s"
  by (simp_all add: touch_session_def split: option.split)

lemma frame_preview [simp]:
  "sn_docs (preview_message k c m s) = sn_docs s" "sn_device_id (preview_message k c m s) = sn_device_id s"
  "sn_journal (preview_message k c m s) = sn_journal s" "sn_runs (preview_message k c m s) = sn_runs s"
  "sn_cells (preview_message k c m s) = sn_cells s" "sn_spawned (preview_message k c m s) = sn_spawned s"
  "sn_doc_host (preview_message k c m s) = sn_doc_host s"
  "sn_harness_sessions (preview_message k c m s) = sn_harness_sessions s"
  "sn_statuses (preview_message k c m s) = sn_statuses s" "sn_sessions_tx (preview_message k c m s) = sn_sessions_tx s"
  by (simp_all add: preview_message_def)

lemma frame_remember [simp]:
  "sn_docs (remember_harness_session c i w s) = sn_docs s"
  "sn_device_id (remember_harness_session c i w s) = sn_device_id s"
  "sn_journal (remember_harness_session c i w s) = sn_journal s"
  "sn_runs (remember_harness_session c i w s) = sn_runs s"
  "sn_cells (remember_harness_session c i w s) = sn_cells s"
  "sn_spawned (remember_harness_session c i w s) = sn_spawned s"
  "sn_doc_host (remember_harness_session c i w s) = sn_doc_host s"
  "sn_statuses (remember_harness_session c i w s) = sn_statuses s"
  "sn_sessions_tx (remember_harness_session c i w s) = sn_sessions_tx s"
  by (simp_all add: remember_harness_session_def)

lemma frame_publish [simp]:
  "sn_docs (publish V k c ev s) = sn_docs s" "sn_device_id (publish V k c ev s) = sn_device_id s"
  "sn_runs (publish V k c ev s) = sn_runs s" "sn_cells (publish V k c ev s) = sn_cells s"
  "sn_spawned (publish V k c ev s) = sn_spawned s" "sn_doc_host (publish V k c ev s) = sn_doc_host s"
  "sn_harness_sessions (publish V k c ev s) = sn_harness_sessions s"
  "sn_statuses (publish V k c ev s) = sn_statuses s" "sn_sessions_tx (publish V k c ev s) = sn_sessions_tx s"
  by (simp_all add: publish_def Let_def split: prod.split option.split)

lemma publish_journal: "sn_journal (publish V k c ev s) = snd (journal_append (sv_journal V) (ck_fault k) c ev (sn_journal s))"
  by (simp add: publish_def Let_def split: prod.split option.split)

lemma frame_new_id [simp]:
  "sn_docs (snd (new_id s)) = sn_docs s" "sn_device_id (snd (new_id s)) = sn_device_id s"
  "sn_journal (snd (new_id s)) = sn_journal s" "sn_runs (snd (new_id s)) = sn_runs s"
  "sn_cells (snd (new_id s)) = sn_cells s" "sn_spawned (snd (new_id s)) = sn_spawned s"
  "sn_doc_host (snd (new_id s)) = sn_doc_host s" "sn_statuses (snd (new_id s)) = sn_statuses s"
  "sn_harness_sessions (snd (new_id s)) = sn_harness_sessions s"
  "sn_sessions_tx (snd (new_id s)) = sn_sessions_tx s"
  by (simp_all add: new_id_def)

lemma frame_or_new_id [simp]:
  "sn_docs (snd (or_new_id m s)) = sn_docs s" "sn_device_id (snd (or_new_id m s)) = sn_device_id s"
  "sn_journal (snd (or_new_id m s)) = sn_journal s" "sn_runs (snd (or_new_id m s)) = sn_runs s"
  "sn_cells (snd (or_new_id m s)) = sn_cells s" "sn_spawned (snd (or_new_id m s)) = sn_spawned s"
  "sn_doc_host (snd (or_new_id m s)) = sn_doc_host s" "sn_statuses (snd (or_new_id m s)) = sn_statuses s"
  "sn_harness_sessions (snd (or_new_id m s)) = sn_harness_sessions s"
  "sn_sessions_tx (snd (or_new_id m s)) = sn_sessions_tx s"
  by (cases m; simp add: or_new_id_def)+

lemma frame_upd_cell [simp]:
  "sn_docs (upd_cell r f s) = sn_docs s" "sn_device_id (upd_cell r f s) = sn_device_id s"
  "sn_journal (upd_cell r f s) = sn_journal s" "sn_runs (upd_cell r f s) = sn_runs s"
  "sn_spawned (upd_cell r f s) = sn_spawned s" "sn_doc_host (upd_cell r f s) = sn_doc_host s"
  "sn_statuses (upd_cell r f s) = sn_statuses s" "sn_harness_sessions (upd_cell r f s) = sn_harness_sessions s"
  "sn_sessions_tx (upd_cell r f s) = sn_sessions_tx s"
  "sn_cells (upd_cell r f s) = (sn_cells s)(r := f (sn_cells s r))"
  by (simp_all add: upd_cell_def)

lemma frame_misc [simp]:
  "sn_docs (spawn t s) = sn_docs s" "sn_docs (maybe_generate c h p w s) = sn_docs s"
  "sn_device_id (spawn t s) = sn_device_id s" "sn_device_id (maybe_generate c h p w s) = sn_device_id s"
  "sn_journal (spawn t s) = sn_journal s" "sn_journal (maybe_generate c h p w s) = sn_journal s"
  "sn_runs (spawn t s) = sn_runs s" "sn_runs (maybe_generate c h p w s) = sn_runs s"
  "sn_cells (spawn t s) = sn_cells s" "sn_cells (maybe_generate c h p w s) = sn_cells s"
  "sn_spawned (spawn t s) = sn_spawned s @ [t]" "sn_spawned (maybe_generate c h p w s) = sn_spawned s"
  "sn_statuses (spawn t s) = sn_statuses s" "sn_statuses (maybe_generate c h p w s) = sn_statuses s"
  "sn_sessions_tx (spawn t s) = sn_sessions_tx s" "sn_sessions_tx (maybe_generate c h p w s) = sn_sessions_tx s"
  "sn_doc_host (spawn t s) = sn_doc_host s" "sn_doc_host (maybe_generate c h p w s) = sn_doc_host s"
  by (simp_all add: spawn_def maybe_generate_def)

lemma frame_remove [simp]:
  "sn_docs (remove_run c r s) = sn_docs s" "sn_device_id (remove_run c r s) = sn_device_id s"
  "sn_journal (remove_run c r s) = sn_journal s" "sn_cells (remove_run c r s) = sn_cells s"
  "sn_spawned (remove_run c r s) = sn_spawned s" "sn_statuses (remove_run c r s) = sn_statuses s"
  "sn_sessions_tx (remove_run c r s) = sn_sessions_tx s" "sn_doc_host (remove_run c r s) = sn_doc_host s"
  by (simp_all add: remove_run_def)

lemma is_live_cong: "sn_runs s' = sn_runs s \<Longrightarrow> is_live c r s' = is_live c r s"
  by (simp add: is_live_def live_run_def)

lemma remove_run_not_live [simp]: "\<not> is_live c r (remove_run c r s)"
  by (simp add: remove_run_def is_live_def live_run_def AList.delete_conv split: option.split)

end
