(* ===== verification/Engine_Run.thy ===== *)
theory Engine_Run
  imports Engine_Sessions
begin

text \<open>
  The run task of \<^verbatim>\<open>crates/engine/src/sessions.rs\<close>, \<^verbatim>\<open>drive_run\<close>: a loop over the harness stream, the
  input bridge, the cancel watch and five timers, which journals every event, folds it into the
  current segment and writes the segment to the document. One turn of the loop is one step: an input,
  with the instant it is taken at. \<open>enabled\<close> says which inputs the loop may take; where several are
  ready the code takes them in its textual order, and the model takes any.
\<close>

subsection \<open>The segment in the document\<close>

fun render_part :: "message_part \<Rightarrow> message_part" where
  "render_part (PTool t) = PTool (t\<lparr>tp_call := sanitize_tool_call (tp_call t)\<rparr>)"
| "render_part p = p"

definition render_parts :: "message_part list \<Rightarrow> message_part list" where
  "render_parts ps = map render_part ps"

fun join_lines :: "string list \<Rightarrow> string" where
  "join_lines [] = []"
| "join_lines [l] = l"
| "join_lines (l # ls) = l @ [newline] @ join_lines ls"

definition folded_text :: "message_part list \<Rightarrow> string" where
  "folded_text ps = join_lines (List.map_filter (\<lambda>p. case p of PText _ s \<Rightarrow> Some s | _ \<Rightarrow> None) ps)"

definition sync_segment :: "'d session_env \<Rightarrow> segment_writer option \<Rightarrow> string \<Rightarrow> string \<Rightarrow> int \<Rightarrow>
    message_part list \<Rightarrow> 'd \<Rightarrow> (doc_error + unit) \<times> segment_writer option \<times> 'd" where
  "sync_segment V writer entry_id device_id started_at folded d =
     (if folded = [] then (Inr (), writer, d)
      else case (case writer of
                   Some w \<Rightarrow> (Inr w, d)
                 | None \<Rightarrow> segment_begin (sv_loro V) entry_id device_id started_at d) of
        (Inl e, d) \<Rightarrow> (Inl e, writer, d)
      | (Inr w, d) \<Rightarrow>
          (case segment_sync (sv_loro V) (sv_codec V) (render_parts folded) w d of
             (r, w, d) \<Rightarrow> (r, Some w, d)))"

definition finish_segment :: "'d session_env \<Rightarrow> segment_writer option \<Rightarrow> string \<Rightarrow> string \<Rightarrow> int \<Rightarrow>
    message_part list \<Rightarrow> message_status \<Rightarrow> 'd \<Rightarrow> (doc_error + unit) \<times> 'd" where
  "finish_segment V writer entry_id device_id started_at folded status d =
     (case writer of
        Some w \<Rightarrow> segment_finish (sv_loro V) (sv_codec V) (render_parts folded) status w d
      | None \<Rightarrow>
          if folded = [] then (Inr (), d)
          else (case segment_begin (sv_loro V) entry_id device_id started_at d of
                  (Inl e, d) \<Rightarrow> (Inl e, d)
                | (Inr w, d) \<Rightarrow> segment_finish (sv_loro V) (sv_codec V) (render_parts folded) status w d))"

subsection \<open>The task\<close>

record run_task =
  rt_start :: resume_state
  rt_retry_request :: "run_request option"
  rt_folded :: "message_part list"
  rt_seen_tools :: "string list"
  rt_entry_id :: string
  rt_segment_started :: int
  rt_writer :: "segment_writer option"
  rt_dirty :: bool
  rt_flush_at :: nat
  rt_interrupt_deadline :: "nat option"
  rt_interrupted :: bool
  rt_saw_session_started :: bool
  rt_idle_since :: "nat option"
  rt_last_stream_activity :: nat
  rt_self_continued_turn :: bool

abbreviation rt_chat_id :: "run_task \<Rightarrow> string" where "rt_chat_id t \<equiv> st_chat_id (rt_start t)"
abbreviation rt_run_id :: "run_task \<Rightarrow> string" where "rt_run_id t \<equiv> st_run_id (rt_start t)"
abbreviation rt_steerable :: "run_task \<Rightarrow> bool" where "rt_steerable t \<equiv> st_steerable (rt_start t)"

text \<open>Windows, in milliseconds; the two quiesce windows are overridable, \<^const>\<open>None\<close> disables one.\<close>

definition session_idle :: nat where "session_idle = 30 * 60 * 1000"
definition resume_gate :: nat where "resume_gate = 1000"
definition interrupt_grace :: nat where "interrupt_grace = 3000"
definition stream_commit_ms :: nat where "stream_commit_ms = 120"

definition quiesce_window :: "nat option \<Rightarrow> nat \<Rightarrow> nat option" where
  "quiesce_window override dflt =
     (case override of Some n \<Rightarrow> if n = 0 then None else Some n | None \<Rightarrow> Some dflt)"

record run_knobs =
  kn_turn_quiesce :: "nat option"
  kn_self_turn_quiesce :: "nat option"

definition quiesce_after :: "run_knobs \<Rightarrow> nat option" where
  "quiesce_after K = quiesce_window (kn_turn_quiesce K) 120000"

definition self_quiesce_after :: "run_knobs \<Rightarrow> nat option" where
  "self_quiesce_after K = quiesce_window (kn_self_turn_quiesce K) 20000"

datatype run_outcome = Running run_task | Ended

text \<open>What the loop waits for: the cancel watch, the interrupt deadline, the heartbeat, the idle reaper,
  an event of the input bridge, an item of the harness stream (an event, an error, its end), the
  commit timer, the quiesce timer.\<close>

datatype task_input =
    InCancel | InDeadline | InHeartbeat | InReap | InEngine
  | InStream agent_event | InStreamError string | InStreamEnd | InFlush | InQuiesce

definition in_flight :: "message_part \<Rightarrow> bool" where
  "in_flight p =
     (case p of
        PTool t \<Rightarrow> \<not> tp_resolved t \<and> tp_id t \<noteq> live_plan_tool_id
      | PInput _ _ _ resolved \<Rightarrow> \<not> resolved
      | _ \<Rightarrow> False)"

definition quiesce_due :: "run_knobs \<Rightarrow> run_task \<Rightarrow> nat" where
  "quiesce_due K t =
     (let window = (case quiesce_after K of None \<Rightarrow> 0 | Some w \<Rightarrow> w);
          window = (case self_quiesce_after K of
                      Some short \<Rightarrow> if rt_self_continued_turn t then min window short else window
                    | None \<Rightarrow> window)
      in rt_last_stream_activity t + window)"

fun enabled :: "run_knobs \<Rightarrow> tick \<Rightarrow> task_input \<Rightarrow> run_task \<Rightarrow> 'd sessions \<Rightarrow> bool" where
  "enabled K k InCancel t s \<longleftrightarrow>
     \<not> rt_interrupted t \<and>
     (rc_cancel (sn_cells s (rt_run_id t)) \<or> \<not> is_live (rt_chat_id t) (rt_run_id t) s)"
| "enabled K k InDeadline t s \<longleftrightarrow>
     (case rt_interrupt_deadline t of None \<Rightarrow> False | Some at \<Rightarrow> at \<le> ck_instant k)"
| "enabled K k InHeartbeat t s \<longleftrightarrow> True"
| "enabled K k InReap t s \<longleftrightarrow>
     (case rt_idle_since t of None \<Rightarrow> False | Some at \<Rightarrow> at + session_idle \<le> ck_instant k)"
| "enabled K k InEngine t s \<longleftrightarrow> rc_engine_rx (sn_cells s (rt_run_id t)) \<noteq> []"
| "enabled K k (InStream ev) t s \<longleftrightarrow> True"
| "enabled K k (InStreamError e) t s \<longleftrightarrow> True"
| "enabled K k InStreamEnd t s \<longleftrightarrow> True"
| "enabled K k InFlush t s \<longleftrightarrow> rt_dirty t \<and> rt_flush_at t \<le> ck_instant k"
| "enabled K k InQuiesce t s \<longleftrightarrow>
     quiesce_after K \<noteq> None \<and> rt_idle_since t = None \<and> \<not> rt_interrupted t \<and> rt_steerable t \<and>
     \<not> list_ex in_flight (rt_folded t) \<and> quiesce_due K t \<le> ck_instant k"

subsection \<open>Starting and ending\<close>

text \<open>A task as it starts.\<close>

definition first_task :: "tick \<Rightarrow> resume_state \<Rightarrow> string \<Rightarrow> run_task" where
  "first_task k st entry_id =
     \<lparr>rt_start = st, rt_retry_request = Some ((st_request st)\<lparr>rq_resume := None\<rparr>), rt_folded = [],
      rt_seen_tools = [], rt_entry_id = entry_id, rt_segment_started = ck_now_ms k, rt_writer = None,
      rt_dirty = False, rt_flush_at = ck_instant k, rt_interrupt_deadline = None, rt_interrupted = False,
      rt_saw_session_started = False, rt_idle_since = None, rt_last_stream_activity = ck_instant k,
      rt_self_continued_turn = False\<rparr>"

definition run_begin :: "'d session_env \<Rightarrow> tick \<Rightarrow> resume_state \<Rightarrow> string + unit \<Rightarrow> 'd sessions \<Rightarrow>
    run_outcome \<times> 'd sessions" where
  "run_begin V k st started s =
     (case started of
        Inl message \<Rightarrow>
          (let s = publish V k (st_chat_id st) (ErrorEvent message) s;
               s = publish V k (st_chat_id st) (Done DoneErrored None (Some message) None) s;
               s = remove_run (st_chat_id st) (st_run_id st) s;
               s = set_status k (st_chat_id st) SsErrored False s
           in (Ended, upd_cell (st_run_id st) (\<lambda>c. c\<lparr>rc_mailbox_open := False\<rparr>) s))
      | Inr _ \<Rightarrow> (let (entry_id, s) = new_id s in (Running (first_task k st entry_id), s)))"

text \<open>The exit: the unconfirmed steers are claimed, then the run is removed, then the status is set and
  the claimed steers are dispatched again unless the user stopped the run.\<close>

definition claim_steers :: "run_task \<Rightarrow> 'd sessions \<Rightarrow> routed_steer list \<times> 'd sessions" where
  "claim_steers t s =
     (if is_live (rt_chat_id t) (rt_run_id t) s
      then (rc_routed_steers (sn_cells s (rt_run_id t)),
            upd_cell (rt_run_id t) (\<lambda>c. c\<lparr>rc_routed_steers := []\<rparr>) s)
      else ([], s))"

definition settle_run :: "tick \<Rightarrow> run_task \<Rightarrow> session_status \<Rightarrow> routed_steer list \<Rightarrow> 'd sessions \<Rightarrow> 'd sessions" where
  "settle_run k t final_status orphans s =
     (let s = set_status k (rt_chat_id t) final_status False (remove_run (rt_chat_id t) (rt_run_id t) s);
          s = (if \<not> rt_interrupted t \<and> orphans \<noteq> []
               then spawn (SpawnOrphans (rt_chat_id t) (st_harness (rt_start t)) orphans) s else s)
      in upd_cell (rt_run_id t) (\<lambda>c. c\<lparr>rc_mailbox_open := False\<rparr>) s)"

definition end_run :: "tick \<Rightarrow> run_task \<Rightarrow> session_status \<Rightarrow> 'd sessions \<Rightarrow> run_outcome \<times> 'd sessions" where
  "end_run k t final_status s =
     (let (orphans, s) = claim_steers t s in (Ended, settle_run k t final_status orphans s))"

subsection \<open>Segments and turns\<close>

text \<open>\<^verbatim>\<open>finish_segment\<close> on the task's segment, which takes the writer; its error is logged.\<close>

definition finish_current :: "'d session_env \<Rightarrow> message_status \<Rightarrow> run_task \<Rightarrow> 'd sessions \<Rightarrow> run_task \<times> 'd sessions" where
  "finish_current V status t s =
     (t\<lparr>rt_writer := None\<rparr>,
      case sn_docs s (rt_chat_id t) of
        Inl _ \<Rightarrow> s
      | Inr d \<Rightarrow> put_doc (rt_chat_id t)
          (snd (finish_segment V (rt_writer t) (rt_entry_id t) (sn_device_id s) (rt_segment_started t)
             (rt_folded t) status d)) s)"

definition flush_current :: "'d session_env \<Rightarrow> run_task \<Rightarrow> 'd sessions \<Rightarrow> run_task \<times> 'd sessions" where
  "flush_current V t s =
     (case sn_docs s (rt_chat_id t) of
        Inl _ \<Rightarrow> (t\<lparr>rt_dirty := False\<rparr>, s)
      | Inr d \<Rightarrow>
          (case sync_segment V (rt_writer t) (rt_entry_id t) (sn_device_id s) (rt_segment_started t)
              (rt_folded t) d of
             (_, w, d) \<Rightarrow> (t\<lparr>rt_writer := w, rt_dirty := False\<rparr>, put_doc (rt_chat_id t) d s)))"

definition new_segment :: "tick \<Rightarrow> string \<Rightarrow> run_task \<Rightarrow> run_task" where
  "new_segment k entry_id t =
     t\<lparr>rt_folded := [], rt_dirty := False, rt_entry_id := entry_id, rt_segment_started := ck_now_ms k\<rparr>"

text \<open>A turn is over and the session stays warm.\<close>

definition park :: "tick \<Rightarrow> run_task \<Rightarrow> 'd sessions \<Rightarrow> run_task \<times> 'd sessions" where
  "park k t s =
     (let (entry_id, s) = new_id s
      in ((new_segment k entry_id t)\<lparr>rt_idle_since := Some (ck_instant k), rt_self_continued_turn := False\<rparr>,
          set_status k (rt_chat_id t) SsIdle False s))"

definition quiesce :: "'d session_env \<Rightarrow> tick \<Rightarrow> run_task \<Rightarrow> 'd sessions \<Rightarrow> run_task \<times> 'd sessions" where
  "quiesce V k t s =
     (let (t, s) =
        (if rt_folded t \<noteq> [] \<or> rt_writer t \<noteq> None
         then let (t', s) = finish_current V MsComplete t s
              in (t', preview_message k (rt_chat_id t) (folded_text (rt_folded t)) s)
         else (t, s))
      in park k t s)"

subsection \<open>Gates before the fold\<close>

definition known_input :: "run_task \<Rightarrow> string \<Rightarrow> 'd sessions \<Rightarrow> bool" where
  "known_input t request_id s =
     (case live_run (rt_chat_id t) s of
        None \<Rightarrow> False
      | Some h \<Rightarrow> request_id \<in> set (rc_pending_inputs (sn_cells s (rh_run_id h))))"

definition unknown_request :: "run_task \<Rightarrow> agent_event \<Rightarrow> 'd sessions \<Rightarrow> bool" where
  "unknown_request t ev s = (case ev of InputRequested request_id _ \<Rightarrow> \<not> known_input t request_id s | _ \<Rightarrow> False)"

definition resumes :: "run_task \<Rightarrow> agent_event \<Rightarrow> bool" where
  "resumes t ev =
     (case ev of
        TextDelta s \<Rightarrow> s \<noteq> []
      | ToolCallEvent i _ \<Rightarrow> i = live_plan_tool_id \<or> i \<notin> set (rt_seen_tools t)
      | _ \<Rightarrow> False)"

text \<open>An event at a parked session: dropped (\<^const>\<open>None\<close>), or let through.\<close>

definition parked_gate :: "tick \<Rightarrow> agent_event \<Rightarrow> run_task \<Rightarrow> 'd sessions \<Rightarrow> run_task option \<times> 'd sessions" where
  "parked_gate k ev t s =
     (case rt_idle_since t of
        None \<Rightarrow> (Some t, s)
      | Some parked_at \<Rightarrow>
          if resume_gate \<le> ck_instant k - parked_at \<and> resumes t ev
          then let (entry_id, s) = new_id s
               in (Some (t\<lparr>rt_idle_since := None, rt_self_continued_turn := True, rt_entry_id := entry_id,
                          rt_segment_started := ck_now_ms k\<rparr>),
                   set_status k (rt_chat_id t) SsWorking True s)
          else case ev of
            Steered _ _ \<Rightarrow> (Some (t\<lparr>rt_idle_since := None\<rparr>), set_status k (rt_chat_id t) SsWorking True s)
          | Done _ _ _ _ \<Rightarrow> (Some (t\<lparr>rt_idle_since := None\<rparr>), s)
          | InputRequested request_id _ \<Rightarrow>
              (None, case live_run (rt_chat_id t) s of
                 None \<Rightarrow> s
               | Some h \<Rightarrow>
                   if request_id \<in> set (rc_pending_inputs (sn_cells s (rh_run_id h)))
                   then upd_cell (rh_run_id h)
                     (\<lambda>c. c\<lparr>rc_pending_inputs := removeAll request_id (rc_pending_inputs c),
                            rc_answered := rc_answered c @ [(request_id, [])]\<rparr>) s
                   else s)
          | _ \<Rightarrow> (None, s))"

definition heartbeat_event :: "agent_event \<Rightarrow> bool" where
  "heartbeat_event ev = (case ev of ReasoningDelta s \<Rightarrow> s = [] | _ \<Rightarrow> False)"

definition in_segment :: "message_part list \<Rightarrow> string \<Rightarrow> bool" where
  "in_segment folded i = list_ex (\<lambda>p. case p of PTool t \<Rightarrow> tp_id t = i | _ \<Rightarrow> False) folded"

text \<open>A tool event that names a call of an earlier segment is dropped; a call is remembered.\<close>

definition echo_gate :: "agent_event \<Rightarrow> run_task \<Rightarrow> run_task option" where
  "echo_gate ev t =
     (case ev of
        ToolCallEvent i _ \<Rightarrow>
          if i = live_plan_tool_id then Some t
          else if \<not> in_segment (rt_folded t) i \<and> i \<in> set (rt_seen_tools t) then None
          else Some (t\<lparr>rt_seen_tools := List.insert i (rt_seen_tools t)\<rparr>)
      | ToolResult i _ _ _ \<Rightarrow>
          if i \<noteq> live_plan_tool_id \<and> \<not> in_segment (rt_folded t) i \<and> i \<in> set (rt_seen_tools t) then None
          else Some t
      | _ \<Rightarrow> Some t)"

definition dies_at_startup :: "run_task \<Rightarrow> agent_event \<Rightarrow> bool" where
  "dies_at_startup t ev \<longleftrightarrow>
     st_resume_injected (rt_start t) \<and> \<not> st_startup_retry (rt_start t) \<and> \<not> rt_saw_session_started t \<and>
     rt_folded t = [] \<and> \<not> rt_interrupted t \<and>
     (case ev of Done st _ _ _ \<Rightarrow> st = DoneErrored | _ \<Rightarrow> False)"

subsection \<open>The event step\<close>

definition retry_startup :: "run_task \<Rightarrow> run_request \<Rightarrow> 'd sessions \<Rightarrow> run_outcome \<times> 'd sessions" where
  "retry_startup t retry s =
     (let s = remove_run (rt_chat_id t) (rt_run_id t) s;
          s = spawn (SpawnRetry (rt_chat_id t) (st_harness (rt_start t)) retry
                (st_user_message_id (rt_start t))) s
      in (Ended, upd_cell (rt_run_id t) (\<lambda>c. c\<lparr>rc_mailbox_open := False\<rparr>) s))"

text \<open>A steer boundary splits the entry where the fold resets.\<close>

definition steer_boundary :: "'d session_env \<Rightarrow> tick \<Rightarrow> agent_event \<Rightarrow> string option \<Rightarrow> run_task \<Rightarrow>
    'd sessions \<Rightarrow> run_task \<times> 'd sessions" where
  "steer_boundary V k ev next_id t s =
     (let s = publish V k (rt_chat_id t) ev s;
          t = t\<lparr>rt_self_continued_turn := False\<rparr>;
          (t, s) = finish_current V MsComplete t s;
          s = preview_message k (rt_chat_id t) (folded_text (rt_folded t)) s;
          (entry_id, s) = or_new_id next_id s;
          t = new_segment k entry_id t;
          s = set_status k (rt_chat_id t) SsWorking True s
      in (t, if is_live (rt_chat_id t) (rt_run_id t) s
             then upd_cell (rt_run_id t) (\<lambda>c. c\<lparr>rc_routed_steers := tl (rc_routed_steers c)\<rparr>) s else s))"

text \<open>What the event tells beyond its content.\<close>

definition note_event :: "tick \<Rightarrow> agent_event \<Rightarrow> run_task \<Rightarrow> 'd sessions \<Rightarrow> run_task \<times> 'd sessions" where
  "note_event k ev t s =
     (case ev of
        SessionStarted _ _ _ cwd session_id _ \<Rightarrow>
          (t\<lparr>rt_saw_session_started := True\<rparr>, remember_harness_session (rt_chat_id t) session_id cwd s)
      | Done _ _ _ (Some session_id) \<Rightarrow>
          (t, remember_harness_session (rt_chat_id t) session_id (rq_cwd (st_request (rt_start t))) s)
      | InputRequested _ _ \<Rightarrow> (t, set_status k (rt_chat_id t) SsAwaitingInput False s)
      | InputResolved _ \<Rightarrow> (t, set_status k (rt_chat_id t) SsWorking False s)
      | _ \<Rightarrow> (t, s))"

definition is_session_started :: "agent_event \<Rightarrow> bool" where
  "is_session_started ev = (case ev of SessionStarted _ _ _ _ _ _ \<Rightarrow> True | _ \<Rightarrow> False)"

definition fold_event :: "'d session_env \<Rightarrow> agent_event \<Rightarrow> run_task \<Rightarrow> run_task" where
  "fold_event V ev t =
     (if is_session_started ev \<and> rt_folded t \<noteq> [] then t
      else t\<lparr>rt_folded := fold_event_into_parts (sv_differ V) (rt_folded t) ev\<rparr>)"

definition drain_questions :: "run_task \<Rightarrow> 'd sessions \<Rightarrow> 'd sessions" where
  "drain_questions t s =
     (if is_live (rt_chat_id t) (rt_run_id t) s
      then upd_cell (rt_run_id t)
        (\<lambda>c. c\<lparr>rc_answered := rc_answered c @ map (\<lambda>i. (i, [])) (rc_pending_inputs c),
               rc_pending_inputs := []\<rparr>) s
      else s)"

definition turn_end_status :: "done_status \<Rightarrow> message_status" where
  "turn_end_status st = (if st = Interrupted then MsAborted else MsComplete)"

text \<open>The end of a turn: questions answered empty, chips resolved, the segment written; then the session
  parks or the run ends.\<close>

definition close_turn :: "'d session_env \<Rightarrow> tick \<Rightarrow> done_status \<Rightarrow> run_task \<Rightarrow> 'd sessions \<Rightarrow>
    run_task \<times> 'd sessions" where
  "close_turn V k st t s =
     (let s = drain_questions t s;
          t = t\<lparr>rt_folded := map mark_resolved (rt_folded t)\<rparr>;
          (t', s) = (if rt_writer t = None \<and> rt_folded t = [] then (t, s)
                     else let (t', s) = finish_current V (turn_end_status st) t s
                          in (t', preview_message k (rt_chat_id t) (folded_text (rt_folded t)) s))
      in (t', if st = Completed
              then maybe_generate (rt_chat_id t) (st_harness (rt_start t)) (rq_prompt (st_request (rt_start t)))
                     (rq_cwd (st_request (rt_start t)))
                     (s\<lparr>sn_journal := clear_resume_attempts (rt_chat_id t) (sn_journal s)\<rparr>)
              else s))"

definition turn_done :: "'d session_env \<Rightarrow> tick \<Rightarrow> done_status \<Rightarrow> run_task \<Rightarrow> 'd sessions \<Rightarrow>
    run_outcome \<times> 'd sessions" where
  "turn_done V k st t s =
     (let (t, s) = close_turn V k st t s
      in if st = Completed \<and> rt_steerable t \<and> \<not> rt_interrupted t
         then let (t, s) = park k (t\<lparr>rt_saw_session_started := True\<rparr>) s in (Running t, s)
         else end_run k t (if st = DoneErrored then SsErrored else SsIdle) s)"

definition arm_flush :: "tick \<Rightarrow> run_task \<Rightarrow> run_task" where
  "arm_flush k t =
     (if rt_folded t \<noteq> [] \<and> \<not> rt_dirty t
      then t\<lparr>rt_dirty := True, rt_flush_at := ck_instant k + stream_commit_ms\<rparr> else t)"

text \<open>An event that passed the gates.\<close>

definition accept_event :: "'d session_env \<Rightarrow> tick \<Rightarrow> agent_event \<Rightarrow> run_task \<Rightarrow> 'd sessions \<Rightarrow>
    run_outcome \<times> 'd sessions" where
  "accept_event V k ev t s =
     (case (if dies_at_startup t ev then rt_retry_request t else None) of
        Some retry \<Rightarrow> retry_startup t retry s
      | None \<Rightarrow>
          (case ev of
             Steered _ next_id \<Rightarrow> (let (t, s) = steer_boundary V k ev next_id t s in (Running t, s))
           | _ \<Rightarrow>
               (let (t, s) = note_event k ev t s;
                    s = publish V k (rt_chat_id t) ev s;
                    t = fold_event V ev t
                in case ev of
                     Done st _ _ _ \<Rightarrow> turn_done V k st t s
                   | _ \<Rightarrow> (Running (arm_flush k t), s))))"

definition on_event :: "'d session_env \<Rightarrow> tick \<Rightarrow> agent_event \<Rightarrow> run_task \<Rightarrow> 'd sessions \<Rightarrow>
    run_outcome \<times> 'd sessions" where
  "on_event V k ev t s =
     (let s = touch_session k (rt_chat_id t) s;
          t = t\<lparr>rt_last_stream_activity := ck_instant k\<rparr>
      in if unknown_request t ev s then (Running t, s)
         else case parked_gate k ev t s of
           (None, s) \<Rightarrow> (Running t, s)
         | (Some t, s) \<Rightarrow>
             if heartbeat_event ev then (Running t, s)
             else case echo_gate ev t of
               None \<Rightarrow> (Running t, s)
             | Some t \<Rightarrow> accept_event V k ev t s)"

text \<open>One turn of the loop.\<close>

definition interrupted_done :: agent_event where
  "interrupted_done = Done Interrupted None None None"

definition errored_done :: "string \<Rightarrow> agent_event" where
  "errored_done message = Done DoneErrored None (Some message) None"

fun task_step :: "'d session_env \<Rightarrow> tick \<Rightarrow> task_input \<Rightarrow> run_task \<Rightarrow> 'd sessions \<Rightarrow> run_outcome \<times> 'd sessions" where
  "task_step V k InCancel t s =
     (Running (t\<lparr>rt_interrupted := True, rt_interrupt_deadline := Some (ck_instant k + interrupt_grace)\<rparr>), s)"
| "task_step V k InDeadline t s = on_event V k interrupted_done t s"
| "task_step V k InHeartbeat t s = (Running t, touch_session k (rt_chat_id t) s)"
| "task_step V k InReap t s =
     end_run k t SsIdle
       (if is_live (rt_chat_id t) (rt_run_id t) s then upd_cell (rt_run_id t) (\<lambda>c. c\<lparr>rc_token := True\<rparr>) s else s)"
| "task_step V k InEngine t s =
     (case rc_engine_rx (sn_cells s (rt_run_id t)) of
        [] \<Rightarrow> (Running t, s)
      | ev # rest \<Rightarrow> on_event V k ev t (upd_cell (rt_run_id t) (\<lambda>c. c\<lparr>rc_engine_rx := rest\<rparr>) s))"
| "task_step V k (InStream ev) t s = on_event V k ev t s"
| "task_step V k (InStreamError e) t s =
     (if rt_idle_since t \<noteq> None then end_run k t SsIdle s else on_event V k (errored_done e) t s)"
| "task_step V k InStreamEnd t s =
     (if rt_interrupted t then on_event V k interrupted_done t s
      else if rt_idle_since t \<noteq> None then end_run k t SsIdle s
      else on_event V k (errored_done ''harness stream ended without Done'') t s)"
| "task_step V k InFlush t s = (let (t, s) = flush_current V t s in (Running t, s))"
| "task_step V k InQuiesce t s = (let (t, s) = quiesce V k t s in (Running t, s))"

text \<open>
  A run with its callers: a turn of the loop, which does nothing when the loop is not waiting for the
  input, or a call of another task on this chat: a steer, a stop, an answer, a question of the harness.
\<close>

datatype run_action =
    Loop task_input
  | CallSteer string "string option"
  | CallInterrupt
  | CallRespond string "user_input_answer list"
  | Ask "user_input_question list"

definition alone :: "'d others" where "alone g s = s"

fun act_step :: "'d session_env \<Rightarrow> run_knobs \<Rightarrow> tick \<Rightarrow> run_action \<Rightarrow> run_task \<Rightarrow> 'd sessions \<Rightarrow>
    run_outcome \<times> 'd sessions" where
  "act_step V K k (Loop i) t s = (if enabled K k i t s then task_step V k i t s else (Running t, s))"
| "act_step V K k (CallSteer prompt message_id) t s =
     (Running t, snd (steer V alone k (rt_chat_id t) prompt message_id s))"
| "act_step V K k CallInterrupt t s = (Running t, snd (interrupt alone (rt_chat_id t) s))"
| "act_step V K k (CallRespond request_id answers) t s =
     (Running t, snd (respond_input (rt_chat_id t) request_id answers s))"
| "act_step V K k (Ask questions) t s = (Running t, request_input (rt_run_id t) questions s)"

fun task_steps :: "'d session_env \<Rightarrow> run_knobs \<Rightarrow> (tick \<times> run_action) list \<Rightarrow> run_task \<Rightarrow> 'd sessions \<Rightarrow>
    run_outcome \<times> 'd sessions" where
  "task_steps V K [] t s = (Running t, s)"
| "task_steps V K ((k, a) # acts) t s =
     (case act_step V K k a t s of
        (Running t, s) \<Rightarrow> task_steps V K acts t s
      | (Ended, s) \<Rightarrow> (Ended, s))"

subsection \<open>The task's invariant\<close>

text \<open>
  A parked session has nothing folded, no writer and no commit pending; a writer or a pending commit
  means there is something folded; the interrupt deadline runs exactly when the run was interrupted;
  every tool call of the segment has been noted.
\<close>

definition noted :: "string list \<Rightarrow> message_part list \<Rightarrow> bool" where
  "noted seen ps \<longleftrightarrow> (\<forall>i \<in> set (tool_ids ps). i = live_plan_tool_id \<or> i \<in> set seen)"

definition task_ok :: "run_task \<Rightarrow> bool" where
  "task_ok t \<longleftrightarrow>
     (rt_idle_since t \<noteq> None \<longrightarrow> rt_folded t = [] \<and> \<not> rt_self_continued_turn t) \<and>
     (rt_dirty t \<longrightarrow> rt_folded t \<noteq> []) \<and> (rt_writer t \<noteq> None \<longrightarrow> rt_folded t \<noteq> []) \<and>
     (rt_interrupted t \<longleftrightarrow> rt_interrupt_deadline t \<noteq> None) \<and>
     parts_inv (rt_folded t) \<and> noted (rt_seen_tools t) (rt_folded t)"

lemma noted_Nil [simp]: "noted seen []" by (simp add: noted_def tool_ids_def)

lemma parts_inv_mark: "parts_inv ps \<Longrightarrow> parts_inv (map mark_resolved ps)"
  by (rule parts_inv_map) (simp_all add: part_simps split: message_part.splits)

lemma tool_ids_map: "(\<And>p. tool_ids [f p] = tool_ids [p]) \<Longrightarrow> tool_ids (map f ps) = tool_ids ps"
  by (induction ps) (simp_all add: tool_ids_def)

lemma tool_ids_mark [simp]: "tool_ids (map mark_resolved ps) = tool_ids ps"
  by (rule tool_ids_map) (simp add: tool_ids_def split: message_part.split)

lemma tool_ids_refresh: "refresh_tool i c ps = Some qs \<Longrightarrow> tool_ids qs = tool_ids ps"
  by (induction i c ps arbitrary: qs rule: refresh_tool.induct) (auto simp: tool_ids_def split: if_splits)

lemma refresh_in_segment: "refresh_tool i c ps = None \<longleftrightarrow> i \<notin> set (tool_ids ps)"
  by (induction i c ps rule: refresh_tool.induct) (auto simp: tool_ids_def)

lemma in_segment_ids: "in_segment ps i \<longleftrightarrow> i \<in> set (tool_ids ps)"
  by (induction ps) (auto simp: in_segment_def tool_ids_def split: message_part.splits)

text \<open>An event adds the id of a new tool call and no other.\<close>

definition new_ids :: "message_part list \<Rightarrow> agent_event \<Rightarrow> string list" where
  "new_ids ps ev = (case ev of ToolCallEvent i _ \<Rightarrow> if i \<in> set (tool_ids ps) then [] else [i] | _ \<Rightarrow> [])"

lemma tool_ids_fold:
  assumes "\<not> is_boundary ev"
  shows "tool_ids (fold_event_into_parts ld ps ev) = tool_ids ps @ new_ids ps ev"
proof (cases ev)
  case (TextDelta s)
  then show ?thesis
    by (cases ps rule: rev_cases) (auto simp: part_simps new_ids_def split: message_part.split)
next
  case (CommentaryDelta s)
  then show ?thesis
    by (cases ps rule: rev_cases) (auto simp: part_simps new_ids_def split: message_part.split)
next
  case (ToolCallEvent i c)
  show ?thesis
  proof (cases "refresh_tool i c ps")
    case None
    then show ?thesis using refresh_in_segment [of i c ps] ToolCallEvent
      by (simp add: new_ids_def part_simps new_tool_part_def)
  next
    case (Some qs)
    then have "i \<in> set (tool_ids ps)" using refresh_in_segment [of i c ps] by auto
    then show ?thesis using tool_ids_refresh [OF Some] Some ToolCallEvent by (simp add: new_ids_def)
  qed
next
  case (ToolResult i e op d)
  have "tool_ids (map (resolve_tool ld i e d) ps) = tool_ids ps"
    by (rule tool_ids_map) (simp add: tool_ids_def resolve_tool_def split: message_part.split)
  then show ?thesis using ToolResult by (simp add: new_ids_def)
next
  case (InputResolved rid)
  have "tool_ids (map (resolve_input rid) ps) = tool_ids ps"
    by (rule tool_ids_map) (simp add: tool_ids_def resolve_input_def split: message_part.split)
  then show ?thesis using InputResolved by (simp add: new_ids_def)
qed (use assms in \<open>auto simp: new_ids_def is_boundary_def part_simps Let_def split: option.split\<close>)

lemma fold_length:
  assumes "\<not> is_boundary ev"
  shows "length ps \<le> length (fold_event_into_parts ld ps ev)"
proof (cases ev)
  case (TextDelta s)
  then show ?thesis by (cases ps rule: rev_cases) (auto split: message_part.split)
next
  case (CommentaryDelta s)
  then show ?thesis by (cases ps rule: rev_cases) (auto split: message_part.split)
next
  case (ToolCallEvent i c)
  have "refresh_tool i c ps = Some qs \<Longrightarrow> length qs = length ps" for qs
    by (induction i c ps arbitrary: qs rule: refresh_tool.induct) (auto split: if_splits)
  then show ?thesis using ToolCallEvent by (auto split: option.split)
qed (use assms in \<open>auto simp: is_boundary_def Let_def split: option.split\<close>)

lemma task_okD:
  assumes "task_ok t"
  shows "rt_idle_since t \<noteq> None \<Longrightarrow> rt_folded t = []" "rt_folded t = [] \<Longrightarrow> rt_writer t = None"
    "rt_folded t = [] \<Longrightarrow> \<not> rt_dirty t" "parts_inv (rt_folded t)" "noted (rt_seen_tools t) (rt_folded t)"
    "rt_interrupted t \<longleftrightarrow> rt_interrupt_deadline t \<noteq> None" "rt_idle_since t \<noteq> None \<Longrightarrow> \<not> rt_self_continued_turn t"
  using assms by (auto simp: task_ok_def)

text \<open>A tool event has passed the echo gate.\<close>

definition echo_ok :: "agent_event \<Rightarrow> run_task \<Rightarrow> bool" where
  "echo_ok ev t \<longleftrightarrow>
     (case ev of ToolCallEvent i _ \<Rightarrow> i = live_plan_tool_id \<or> i \<in> set (rt_seen_tools t) | _ \<Rightarrow> True)"

lemma fold_event_ok:
  assumes "task_ok t" "rt_idle_since t = None" "echo_ok ev t" "\<And>a b. ev \<noteq> Steered a b"
  shows "task_ok (fold_event V ev t)"
proof (cases "is_boundary ev")
  case True
  then have "is_session_started ev" using assms(4)
    by (auto simp: is_boundary_def is_session_started_def split: agent_event.splits)
  moreover have "fold_event_into_parts (sv_differ V) [] ev = []"
    using True by (auto simp: is_boundary_def split: agent_event.splits)
  ultimately show ?thesis using assms(1) by (auto simp: fold_event_def task_ok_def)
next
  case False
  then have "\<not> is_session_started ev" by (auto simp: is_boundary_def is_session_started_def split: agent_event.splits)
  moreover have "rt_folded t \<noteq> [] \<Longrightarrow> fold_event_into_parts (sv_differ V) (rt_folded t) ev \<noteq> []"
    using fold_length [OF False, of "rt_folded t" "sv_differ V"] by (cases "fold_event_into_parts (sv_differ V) (rt_folded t) ev") auto
  moreover have "noted (rt_seen_tools t) (fold_event_into_parts (sv_differ V) (rt_folded t) ev)"
    using task_okD(5) [OF assms(1)] assms(3) tool_ids_fold [OF False]
    by (auto simp: noted_def new_ids_def echo_ok_def split: agent_event.splits)
  ultimately show ?thesis
    using assms(1,2) by (auto simp: fold_event_def task_ok_def parts_inv_fold_event)
qed

lemma note_event_task:
  "note_event k ev t s = (t', s') \<Longrightarrow> \<exists>b. t' = t\<lparr>rt_saw_session_started := b\<rparr>"
  by (auto simp: note_event_def split: agent_event.splits option.splits intro: exI [of _ "rt_saw_session_started t"])

lemma task_ok_saw [simp]: "task_ok (t\<lparr>rt_saw_session_started := b\<rparr>) = task_ok t"
  "task_ok (t\<lparr>rt_last_stream_activity := n\<rparr>) = task_ok t"
  by (simp_all add: task_ok_def)

lemma arm_flush_ok: "task_ok t \<Longrightarrow> task_ok (arm_flush k t)"
  by (simp add: arm_flush_def task_ok_def)

lemma park_ok:
  assumes "rt_writer t = None" "rt_interrupted t \<longleftrightarrow> rt_interrupt_deadline t \<noteq> None"
  shows "task_ok (fst (park k t s))"
  using assms by (simp add: park_def new_segment_def task_ok_def split: prod.split)

lemma finish_current_task: "fst (finish_current V st t s) = t\<lparr>rt_writer := None\<rparr>"
  by (simp add: finish_current_def)

lemma steer_boundary_ok:
  assumes "task_ok t" "rt_idle_since t = None"
  shows "task_ok (fst (steer_boundary V k ev nid t s))"
  using assms by (auto simp: steer_boundary_def Let_def finish_current_def new_segment_def task_ok_def split: prod.split)

lemma close_turn_task:
  "fst (close_turn V k st t s) = t\<lparr>rt_folded := map mark_resolved (rt_folded t), rt_writer := None\<rparr>"
  by (auto simp: close_turn_def Let_def finish_current_def split: prod.splits)

lemma turn_done_ok:
  assumes "task_ok t" "turn_done V k st t s = (Running t', s')"
  shows "task_ok t'"
proof -
  obtain t1 s1 where c: "close_turn V k st t s = (t1, s1)" by fastforce
  have t1: "t1 = t\<lparr>rt_folded := map mark_resolved (rt_folded t), rt_writer := None\<rparr>"
    using close_turn_task [of V k st t s] c by simp
  have "t' = fst (park k (t1\<lparr>rt_saw_session_started := True\<rparr>) s1)"
    using assms(2) c by (auto simp: turn_done_def end_run_def split: prod.splits if_splits)
  then show ?thesis
    using park_ok [of "t1\<lparr>rt_saw_session_started := True\<rparr>"] task_okD(6) [OF assms(1)] by (simp add: t1)
qed

text \<open>What an accepted event does when it is neither a steer boundary nor the end of the turn.\<close>

definition digest :: "'d session_env \<Rightarrow> tick \<Rightarrow> agent_event \<Rightarrow> run_task \<Rightarrow> 'd sessions \<Rightarrow> run_task \<times> 'd sessions" where
  "digest V k ev t s =
     (let (t, s) = note_event k ev t s in (fold_event V ev t, publish V k (rt_chat_id t) ev s))"

lemma accept_event_cases:
  "accept_event V k ev t s =
     (case (if dies_at_startup t ev then rt_retry_request t else None) of
        Some retry \<Rightarrow> retry_startup t retry s
      | None \<Rightarrow>
          (case ev of
             Steered _ next_id \<Rightarrow> (let (t, s) = steer_boundary V k ev next_id t s in (Running t, s))
           | Done st _ _ _ \<Rightarrow> (let (t, s) = digest V k ev t s in turn_done V k st t s)
           | _ \<Rightarrow> (let (t, s) = digest V k ev t s in (Running (arm_flush k t), s))))"
  by (simp add: accept_event_def digest_def Let_def split: option.split agent_event.split prod.split)

lemma digest_task: "\<exists>b. fst (digest V k ev t s) = fold_event V ev (t\<lparr>rt_saw_session_started := b\<rparr>)"
  using note_event_task [of k ev t s] by (auto simp: digest_def split: prod.split)

lemma digest_ok:
  assumes "task_ok t" "rt_idle_since t = None" "echo_ok ev t" "\<And>a b. ev \<noteq> Steered a b"
  shows "task_ok (fst (digest V k ev t s))"
proof -
  obtain b where "fst (digest V k ev t s) = fold_event V ev (t\<lparr>rt_saw_session_started := b\<rparr>)"
    using digest_task by blast
  moreover have "echo_ok ev (t\<lparr>rt_saw_session_started := b\<rparr>)" using assms(3)
    by (simp add: echo_ok_def split: agent_event.splits)
  ultimately show ?thesis using fold_event_ok [of "t\<lparr>rt_saw_session_started := b\<rparr>" ev V] assms(1,2,4) by simp
qed

lemma accept_event_cases2:
  assumes "accept_event V k ev t s = (Running t', s')"
  obtains (steer) i n where "ev = Steered i n" "steer_boundary V k ev n t s = (t', s')"
  | (turn) st r e i t1 s1 where "ev = Done st r e i" "digest V k ev t s = (t1, s1)"
      "turn_done V k st t1 s1 = (Running t', s')"
  | (other) t1 where "\<And>a b. ev \<noteq> Steered a b" "\<And>a b c d. ev \<noteq> Done a b c d" "digest V k ev t s = (t1, s')"
      "t' = arm_flush k t1"
proof -
  have n: "(if dies_at_startup t ev then rt_retry_request t else None) = None"
  proof (rule ccontr)
    assume "\<not> ?thesis"
    then obtain r where "(if dies_at_startup t ev then rt_retry_request t else None) = Some r" by auto
    then show False using assms by (simp add: accept_event_cases retry_startup_def Let_def)
  qed
  obtain t1 s1 where d: "digest V k ev t s = (t1, s1)" by fastforce
  show thesis
  proof (cases "\<exists>i n. ev = Steered i n")
    case True
    then obtain i n where e: "ev = Steered i n" by blast
    obtain t2 s2 where "steer_boundary V k ev n t s = (t2, s2)" by fastforce
    with e n assms steer show thesis by (simp add: accept_event_cases)
  next
    case F: False
    show thesis
    proof (cases "\<exists>st r e i. ev = Done st r e i")
      case True
      with n assms d turn show thesis by (auto simp: accept_event_cases)
    next
      case False
      then have "(Running (arm_flush k t1), s1) = (Running t', s')"
        using F n assms d unfolding accept_event_cases by (cases ev) simp_all
      with F False d other show thesis by simp
    qed
  qed
qed

lemma accept_event_ok:
  assumes "task_ok t" "rt_idle_since t = None" "echo_ok ev t" "accept_event V k ev t s = (Running t', s')"
  shows "task_ok t'"
  using assms(4)
proof (cases rule: accept_event_cases2)
  case (steer i n)
  then show ?thesis using steer_boundary_ok [OF assms(1,2), of V k ev n s] by simp
next
  case (turn st r e i t1 s1)
  then have "task_ok t1" using digest_ok [OF assms(1-3), of V k s] by simp
  then show ?thesis using turn_done_ok turn(3) by blast
next
  case (other t1)
  then show ?thesis using digest_ok [OF assms(1-3), of V k s] arm_flush_ok by simp
qed

text \<open>The gates leave the segment alone, except that a parked session that goes on by itself rotates it.\<close>

lemma parked_gate_task:
  assumes "parked_gate k ev t s = (Some t', s')"
  shows "rt_idle_since t' = None \<and> (rt_idle_since t = None \<and> t' = t \<and> s' = s \<or> rt_idle_since t \<noteq> None \<and>
    (t' = t\<lparr>rt_idle_since := None\<rparr> \<or> (\<exists>i. t' = t\<lparr>rt_idle_since := None, rt_self_continued_turn := True,
        rt_entry_id := i, rt_segment_started := ck_now_ms k\<rparr>)))"
proof (cases "rt_idle_since t")
  case (Some at)
  show ?thesis
  proof (cases "resume_gate \<le> ck_instant k - at \<and> resumes t ev")
    case True
    then show ?thesis using assms Some by (auto simp: parked_gate_def split: prod.splits)
  next
    case False
    show ?thesis using assms Some unfolding parked_gate_def Some option.case if_not_P [OF False] by (cases ev) auto
  qed
qed (use assms in \<open>simp add: parked_gate_def\<close>)

lemma echo_gate_task:
  assumes "echo_gate ev t = Some t'"
  shows "echo_ok ev t' \<and> (\<exists>seen. t' = t\<lparr>rt_seen_tools := seen\<rparr> \<and> set (rt_seen_tools t) \<subseteq> set seen)"
proof -
  have "t = t\<lparr>rt_seen_tools := rt_seen_tools t\<rparr>" by simp
  then show ?thesis using assms
    by (cases ev) (auto simp: echo_gate_def echo_ok_def split: if_splits intro: exI [of _ "rt_seen_tools t"])
qed

lemma task_ok_unpark:
  assumes "task_ok t"
  shows "task_ok (t\<lparr>rt_idle_since := None\<rparr>)"
    "task_ok (t\<lparr>rt_idle_since := None, rt_self_continued_turn := True, rt_entry_id := i, rt_segment_started := n\<rparr>)"
  using assms by (simp_all add: task_ok_def)

lemma parked_gate_ok:
  assumes "task_ok t" "parked_gate k ev t s = (Some t', s')"
  shows "task_ok t'"
  using parked_gate_task [OF assms(2)] task_ok_unpark [OF assms(1)] assms(1) by (elim conjE disjE exE) simp_all

lemma noted_mono: "noted a ps \<Longrightarrow> set a \<subseteq> set b \<Longrightarrow> noted b ps"
  by (auto simp: noted_def)

lemma gates_ok:
  assumes "task_ok t" "parked_gate k ev t s = (Some t1, s1)" "echo_gate ev t1 = Some t2"
  shows "task_ok t2 \<and> rt_idle_since t2 = None \<and> echo_ok ev t2"
proof -
  have 1: "task_ok t1 \<and> rt_idle_since t1 = None"
    using parked_gate_task [OF assms(2)] parked_gate_ok [OF assms(1,2)] by simp
  from echo_gate_task [OF assms(3)] obtain seen where
    2: "t2 = t1\<lparr>rt_seen_tools := seen\<rparr>" "set (rt_seen_tools t1) \<subseteq> set seen" "echo_ok ev t2" by blast
  have "task_ok t2" unfolding 2(1) using 1 noted_mono [OF _ 2(2)] by (auto simp: task_ok_def)
  with 1 2 show ?thesis by simp
qed

lemma on_event_ok:
  assumes "task_ok t" "on_event V k ev t s = (Running t', s')"
  shows "task_ok t'"
proof -
  let ?t = "t\<lparr>rt_last_stream_activity := ck_instant k\<rparr>" and ?s = "touch_session k (rt_chat_id t) s"
  have ok: "task_ok ?t" using assms(1) by simp
  obtain g s1 where g: "parked_gate k ev ?t ?s = (g, s1)" by fastforce
  show ?thesis
  proof (cases "unknown_request ?t ev ?s \<or> g = None")
    case True
    then have "t' = ?t" using assms(2) g by (auto simp: on_event_def Let_def split: if_splits)
    with ok show ?thesis by simp
  next
    case False
    then obtain t1 where t1: "parked_gate k ev ?t ?s = (Some t1, s1)" using g by auto
    have i: "task_ok t1" by (rule parked_gate_ok [OF ok t1])
    consider (drop) "t' = t1" | (go) t2 where "echo_gate ev t1 = Some t2" "accept_event V k ev t2 s1 = (Running t', s')"
      using assms(2) False t1 by (auto simp: on_event_def Let_def split: if_splits option.splits)
    then show ?thesis
    proof cases
      case go
      with gates_ok [OF ok t1] accept_event_ok show ?thesis by blast
    qed (use i in simp)
  qed
qed

lemma flush_current_ok: "task_ok t \<Longrightarrow> rt_folded t \<noteq> [] \<Longrightarrow> task_ok (fst (flush_current V t s))"
  by (auto simp: flush_current_def task_ok_def split: sum.split prod.split)

lemma quiesce_ok: "task_ok t \<Longrightarrow> task_ok (fst (quiesce V k t s))"
  using park_ok [of "t\<lparr>rt_writer := None\<rparr>" k] park_ok [of t k] task_okD(6) [of t]
  by (auto simp: quiesce_def finish_current_def split: prod.split)

lemma task_step_ok:
  assumes "task_ok t" "enabled K k i t s" "task_step V k i t s = (Running t', s')"
  shows "task_ok t'"
proof (cases i)
  case InFlush
  then have "rt_folded t \<noteq> []" using assms(1,2) by (simp add: task_ok_def)
  then show ?thesis using flush_current_ok [OF assms(1), of V s] assms(3) InFlush by (auto split: prod.splits)
next
  case InQuiesce
  then show ?thesis using quiesce_ok [OF assms(1), of V k s] assms(3) by (auto split: prod.splits)
next
  case InCancel
  then show ?thesis using assms by (auto simp: task_ok_def)
next
  case InEngine
  then show ?thesis using assms on_event_ok by (auto split: list.splits)
qed (use assms on_event_ok in \<open>auto simp: end_run_def split: if_splits prod.splits\<close>)

lemma act_step_ok: "task_ok t \<Longrightarrow> act_step V K k a t s = (Running t', s') \<Longrightarrow> task_ok t'"
  by (cases a) (auto split: if_splits intro: task_step_ok)

lemma task_steps_ok: "task_ok t \<Longrightarrow> task_steps V K acts t s = (Running t', s') \<Longrightarrow> task_ok t'"
proof (induction acts arbitrary: t s)
  case (Cons a acts)
  obtain k b where a: "a = (k, b)" by fastforce
  obtain o' s1 where 1: "act_step V K k b t s = (o', s1)" by fastforce
  with Cons.prems(2) a obtain t1 where "o' = Running t1" by (cases o') auto
  with 1 a Cons act_step_ok show ?case by force
qed simp

lemma run_begin_started:
  "run_begin V k st (Inr ()) s = (Running (first_task k st (fst (new_id s))), snd (new_id s))"
  by (simp add: run_begin_def new_id_def)

lemma first_task_ok: "task_ok (first_task k st i)"
  by (simp add: task_ok_def first_task_def)

end
