(* ===== verification/Engine_Transcript.thy ===== *)
theory Engine_Transcript
  imports Engine_Run
begin

text \<open>
  What a run leaves: the entries its task writes into the chat document against the events it journals.
  The document is observed through the list of its message containers; the entries of other writers,
  the user's messages, may come between.
\<close>

subsection \<open>Rendering\<close>

lemma render_part_grows: "grows p q \<Longrightarrow> grows (render_part p) (render_part q)"
  by (cases p; cases q) simp_all

lemma render_grow: "parts_grow ps qs \<Longrightarrow> parts_grow (render_parts ps) (render_parts qs)"
  by (simp add: parts_grow_def render_parts_def render_part_grows)

lemma mark_grows: "parts_grow ps (map mark_resolved ps)"
proof (rule parts_grow_map)
  show "grows p (mark_resolved p)" for p by (cases p) simp_all
qed

lemma render_text [simp]: "text_of (render_parts ps) = text_of ps"
  unfolding render_parts_def by (rule text_of_map(1); simp add: text_of_def commentary_of_def split: message_part.split)

lemma mark_text [simp]: "text_of (map mark_resolved ps) = text_of ps"
  by (rule text_of_map(1); simp add: text_of_def commentary_of_def split: message_part.split)

lemma render_tool_ids [simp]: "tool_ids (render_parts ps) = tool_ids ps"
  unfolding render_parts_def by (rule tool_ids_map) (simp add: tool_ids_def split: message_part.split)

lemma render_bytes_part [simp]: "bytes_ok (render_part p) = bytes_ok p"
  by (cases p) (simp_all add: bytes_ok_def)

lemma render_bytes: "parts_inv ps \<Longrightarrow> list_all bytes_ok (render_parts ps)"
  using inv_bytes_ok [of ps] by (simp add: list_all_iff render_parts_def)

lemma render_Nil [simp]: "render_parts ps = [] \<longleftrightarrow> ps = []" "render_parts [] = []"
  by (simp_all add: render_parts_def)

subsection \<open>The writer against the document\<close>

definition segment_entry :: "string \<Rightarrow> message_status \<Rightarrow> run_task \<Rightarrow> session_message_entry" where
  "segment_entry dev status t =
     \<lparr>me_id = rt_entry_id t, me_role = MrAssistant, me_parts = render_parts (rt_folded t),
      me_created_at = rt_segment_started t, me_device_id = dev, me_status = Some status,
      me_continuation_of = None\<rparr>"

definition from_agent :: "session_message_entry \<Rightarrow> bool" where
  "from_agent e \<longleftrightarrow> me_role e = MrAssistant"

definition shown :: "'d session_env \<Rightarrow> ltree list \<Rightarrow> session_message_entry list" where
  "shown V ts = List.map_filter (entry_from_json (sv_codec V) (sv_hash V)) (map to_json ts)"

text \<open>The entries \<open>ts\<close> shows, after the \<open>old\<close> ones, are those of the agent in \<open>es\<close> with others between.\<close>

definition shows_run :: "'d session_env \<Rightarrow> session_message_entry list \<Rightarrow> session_message_entry list \<Rightarrow>
    ltree list \<Rightarrow> bool" where
  "shows_run V old es ts \<longleftrightarrow>
     (\<exists>new. shown V ts = old @ new \<and> filter from_agent new = map norm_entry es)"

definition doc_open :: "'d session_env \<Rightarrow> string \<Rightarrow> session_message_entry list \<Rightarrow> session_message_entry list \<Rightarrow>
    run_task \<Rightarrow> 'd \<Rightarrow> bool" where
  "doc_open V dev old es t d \<longleftrightarrow>
     (case rt_writer t of
        None \<Rightarrow> \<exists>ts. tree_at [Key ''messages''] (ld_tree (sv_loro V) d) = Some (TList ts) \<and> shows_run V old es ts
      | Some w \<Rightarrow> \<exists>pre post. writer_at (sv_loro V) (sv_codec V) w (segment_entry dev MsStreaming t) pre post d \<and>
          shows_run V old es pre \<and> filter from_agent (shown V post) = [] \<and>
          parts_grow (sw_written w) (render_parts (rt_folded t)))"

definition env_ok :: "'d session_env \<Rightarrow> bool" where
  "env_ok V \<longleftrightarrow> loro_ok (sv_loro V) \<and> part_codec_ok (sv_loro V) (sv_codec V)"

lemma shown_append: "shown V (a @ b) = shown V a @ shown V b"
  by (simp add: shown_def List.map_filter_def)

lemma shown_one: "entry_from_json (sv_codec V) (sv_hash V) (to_json t) = Some e \<Longrightarrow> shown V [t] = [e]"
  by (simp add: shown_def List.map_filter_def)

lemma shows_run_snoc:
  assumes "shows_run V old es pre" "filter from_agent (shown V post) = []" "shown V [t] = [norm_entry e]" "from_agent e"
  shows "shows_run V old (es @ [e]) (pre @ t # post)"
proof -
  from assms(1) obtain new where n: "shown V pre = old @ new" "filter from_agent new = map norm_entry es"
    by (auto simp: shows_run_def)
  have "shown V (pre @ t # post) = old @ (new @ [norm_entry e] @ shown V post)"
    using n(1) assms(3) shown_append [of V pre "[t] @ post"] shown_append [of V "[t]" post] by simp
  moreover have "filter from_agent (new @ [norm_entry e] @ shown V post) = map norm_entry (es @ [e])"
    using n(2) assms(2,4) by (simp add: from_agent_def norm_entry_def)
  ultimately show ?thesis unfolding shows_run_def by blast
qed

lemma shows_run_other:
  assumes "shows_run V old es ts" "filter from_agent (shown V us) = []"
  shows "shows_run V old es (ts @ us)"
  using assms by (auto simp: shows_run_def shown_append)

lemma finish_writes:
  assumes "env_ok V" "doc_open V dev old es t d" "parts_inv (rt_folded t)" "i64_ok (rt_segment_started t)"
    "rt_folded t = [] \<Longrightarrow> rt_writer t = None"
  shows "\<exists>d' ts. finish_segment V (rt_writer t) (rt_entry_id t) dev (rt_segment_started t) (rt_folded t) status d =
      (Inr (), d') \<and> tree_at [Key ''messages''] (ld_tree (sv_loro V) d') = Some (TList ts) \<and>
    shows_run V old (if rt_folded t = [] then es else es @ [segment_entry dev status t]) ts"
proof -
  let ?L = "sv_loro V" and ?C = "sv_codec V" and ?f = "segment_entry dev status t"
  have L: "loro_ok ?L" "part_codec_ok ?L ?C" using assms(1) by (simp_all add: env_ok_def)
  note b = render_bytes [OF assms(3)]
  have ok: "entry_ok ?f" using b assms(4) by (simp add: entry_ok_def segment_entry_def)
  have fin: "\<exists>d' ts. segment_finish ?L ?C (render_parts (rt_folded t)) status w d1 = (Inr (), d') \<and>
      tree_at [Key ''messages''] (ld_tree ?L d') = Some (TList ts) \<and> shows_run V old (es @ [?f]) ts"
    if w: "writer_at ?L ?C w (segment_entry dev MsStreaming t) pre post d1" "parts_grow (sw_written w) (render_parts (rt_folded t))"
      "shows_run V old es pre" "filter from_agent (shown V post) = []" for w d1 pre post
  proof -
    from finish_effect [OF L b w(1,2), of status] obtain d' u where
      f: "segment_finish ?L ?C (render_parts (rt_folded t)) status w d1 = (Inr (), d')"
        "ld_tree ?L d' = tree_upd [Key ''messages''] (\<lambda>_. TList (pre @ u # post)) (ld_tree ?L d1)"
        "entry_rep ?L ?C (segment_entry dev MsStreaming t\<lparr>me_parts := render_parts (rt_folded t), me_status := Some status\<rparr>) u" by blast
    have e: "segment_entry dev MsStreaming t\<lparr>me_parts := render_parts (rt_folded t), me_status := Some status\<rparr> = ?f"
      by (simp add: segment_entry_def)
    have "tree_at [Key ''messages''] (ld_tree ?L d') = Some (TList (pre @ u # post))"
      unfolding f(2) tree_at_upd using w(1) by (auto simp: writer_at_def)
    moreover have "shown V [u] = [norm_entry ?f]"
      by (rule shown_one) (rule entry_rep_read [OF L(2) ok], use f(3) e in simp)
    then have "shows_run V old (es @ [?f]) (pre @ u # post)"
      by (rule shows_run_snoc [OF w(3,4)]) (simp add: from_agent_def segment_entry_def)
    ultimately show ?thesis using f(1) by blast
  qed
  show ?thesis
  proof (cases "rt_writer t")
    case None
    from assms(2) None obtain ts where ts: "tree_at [Key ''messages''] (ld_tree ?L d) = Some (TList ts)"
      "shows_run V old es ts" by (auto simp: doc_open_def)
    show ?thesis
    proof (cases "rt_folded t = []")
      case True
      with None ts show ?thesis by (auto simp: finish_segment_def)
    next
      case False
      from segment_begin_effect [OF L(1) ts(1), of "rt_entry_id t" dev "rt_segment_started t" ?C] obtain d1 where
        1: "segment_begin ?L (rt_entry_id t) dev (rt_segment_started t) d = (Inr \<lparr>sw_entry_index = length ts, sw_written = []\<rparr>, d1)"
          "writer_at ?L ?C \<lparr>sw_entry_index = length ts, sw_written = []\<rparr> \<lparr>me_id = rt_entry_id t, me_role = MrAssistant,
             me_parts = [], me_created_at = rt_segment_started t, me_device_id = dev, me_status = Some MsStreaming,
             me_continuation_of = None\<rparr> ts [] d1" by blast
      have "writer_at ?L ?C \<lparr>sw_entry_index = length ts, sw_written = []\<rparr> (segment_entry dev MsStreaming t) ts [] d1"
        using 1(2) by (simp add: writer_at_def segment_entry_def)
      from fin [OF this _ ts(2)] have "\<exists>d' ts'. segment_finish ?L ?C (render_parts (rt_folded t)) status
          \<lparr>sw_entry_index = length ts, sw_written = []\<rparr> d1 = (Inr (), d') \<and>
        tree_at [Key ''messages''] (ld_tree ?L d') = Some (TList ts') \<and> shows_run V old (es @ [?f]) ts'"
        by (simp add: shown_def List.map_filter_def)
      with None False 1(1) show ?thesis by (simp add: finish_segment_def)
    qed
  next
    case (Some w)
    with assms(5) have ne: "rt_folded t \<noteq> []" by auto
    from Some assms(2) obtain pre post where "writer_at ?L ?C w (segment_entry dev MsStreaming t) pre post d"
      "shows_run V old es pre" "filter from_agent (shown V post) = []"
      "parts_grow (sw_written w) (render_parts (rt_folded t))" by (auto simp: doc_open_def)
    from fin [OF this(1,4,2,3)] Some ne show ?thesis by (simp add: finish_segment_def)
  qed
qed

lemma sync_writes:
  assumes "env_ok V" "doc_open V dev old es t d" "parts_inv (rt_folded t)" "rt_folded t \<noteq> []"
  shows "\<exists>d' w. sync_segment V (rt_writer t) (rt_entry_id t) dev (rt_segment_started t) (rt_folded t) d =
      (Inr (), Some w, d') \<and> doc_open V dev old es (t\<lparr>rt_writer := Some w, rt_dirty := b\<rparr>) d'"
proof -
  let ?L = "sv_loro V" and ?C = "sv_codec V"
  have L: "loro_ok ?L" "part_codec_ok ?L ?C" using assms(1) by (simp_all add: env_ok_def)
  note bb = render_bytes [OF assms(3)]
  have syn: "\<exists>d' w'. segment_sync ?L ?C (render_parts (rt_folded t)) w d1 = (Inr (), w', d') \<and>
      doc_open V dev old es (t\<lparr>rt_writer := Some w', rt_dirty := b\<rparr>) d'"
    if w: "writer_at ?L ?C w (segment_entry dev MsStreaming t) pre post d1" "parts_grow (sw_written w) (render_parts (rt_folded t))"
      "shows_run V old es pre" "filter from_agent (shown V post) = []" for w d1 pre post
  proof -
    from sync_effect [OF L bb w(1,2)] obtain d' where
      f: "segment_sync ?L ?C (render_parts (rt_folded t)) w d1 = (Inr (), w\<lparr>sw_written := render_parts (rt_folded t)\<rparr>, d')"
        "writer_at ?L ?C (w\<lparr>sw_written := render_parts (rt_folded t)\<rparr>) (segment_entry dev MsStreaming t) pre post d'" by blast
    have "segment_entry dev MsStreaming (t\<lparr>rt_writer := Some (w\<lparr>sw_written := render_parts (rt_folded t)\<rparr>), rt_dirty := b\<rparr>) =
        segment_entry dev MsStreaming t" by (simp add: segment_entry_def)
    with f w(3,4) show ?thesis by (auto simp: doc_open_def)
  qed
  show ?thesis
  proof (cases "rt_writer t")
    case None
    from assms(2) None obtain ts where ts: "tree_at [Key ''messages''] (ld_tree ?L d) = Some (TList ts)"
      "shows_run V old es ts" by (auto simp: doc_open_def)
    from segment_begin_effect [OF L(1) ts(1), of "rt_entry_id t" dev "rt_segment_started t" ?C] obtain d1 where
      1: "segment_begin ?L (rt_entry_id t) dev (rt_segment_started t) d = (Inr \<lparr>sw_entry_index = length ts, sw_written = []\<rparr>, d1)"
        "writer_at ?L ?C \<lparr>sw_entry_index = length ts, sw_written = []\<rparr> \<lparr>me_id = rt_entry_id t, me_role = MrAssistant,
           me_parts = [], me_created_at = rt_segment_started t, me_device_id = dev, me_status = Some MsStreaming,
           me_continuation_of = None\<rparr> ts [] d1" by blast
    have "writer_at ?L ?C \<lparr>sw_entry_index = length ts, sw_written = []\<rparr> (segment_entry dev MsStreaming t) ts [] d1"
      using 1(2) by (simp add: writer_at_def segment_entry_def)
    from syn [OF this _ ts(2)] obtain d' w' where
      2: "segment_sync ?L ?C (render_parts (rt_folded t)) \<lparr>sw_entry_index = length ts, sw_written = []\<rparr> d1 = (Inr (), w', d')"
        "doc_open V dev old es (t\<lparr>rt_writer := Some w', rt_dirty := b\<rparr>) d'"
      by (auto simp: shown_def List.map_filter_def)
    have "sync_segment V (rt_writer t) (rt_entry_id t) dev (rt_segment_started t) (rt_folded t) d = (Inr (), Some w', d')"
      using None assms(4) 1(1) 2(1) by (simp add: sync_segment_def)
    with 2(2) show ?thesis by blast
  next
    case (Some w)
    with assms(2) obtain pre post where "writer_at ?L ?C w (segment_entry dev MsStreaming t) pre post d"
      "shows_run V old es pre" "filter from_agent (shown V post) = []"
      "parts_grow (sw_written w) (render_parts (rt_folded t))" by (auto simp: doc_open_def)
    from syn [OF this(1,4,2,3)] obtain d' w' where
      2: "segment_sync ?L ?C (render_parts (rt_folded t)) w d = (Inr (), w', d')"
        "doc_open V dev old es (t\<lparr>rt_writer := Some w', rt_dirty := b\<rparr>) d'" by blast
    have "sync_segment V (rt_writer t) (rt_entry_id t) dev (rt_segment_started t) (rt_folded t) d = (Inr (), Some w', d')"
      using Some assms(4) 2(1) by (simp add: sync_segment_def)
    with 2(2) show ?thesis by blast
  qed
qed

lemma user_writes:
  assumes "env_ok V" "doc_open V dev old es t d" "i64_ok at"
  shows "\<exists>d'. write_user_message V dev' i m at d = (Inr (), d') \<and> doc_open V dev old es t d'"
proof (cases "list_ex (\<lambda>e. me_id e = i) (read_entries (sv_loro V) (sv_codec V) (sv_hash V) d)")
  case True
  with assms(2) show ?thesis by (simp add: write_user_message_def)
next
  case False
  let ?L = "sv_loro V" and ?C = "sv_codec V" and ?e = "user_entry dev' i m at"
  have L: "loro_ok ?L" "part_codec_ok ?L ?C" using assms(1) by (simp_all add: env_ok_def)
  have ok: "entry_ok ?e" using assms(3) by (simp add: entry_ok_def user_entry_def bytes_ok_def)
  then have bb: "list_all bytes_ok (me_parts ?e)" by (simp add: entry_ok_def)
  obtain us where us: "tree_at [Key ''messages''] (ld_tree ?L d) = Some (TList us)"
    using assms(2) by (auto simp: doc_open_def writer_at_def split: option.splits)
  from does_push_message [OF L bb, of us] obtain u where
    u: "does ?L [Key ''messages''] (TList us) (push_message ?L ?C ?e) () (TList (us @ [u]))" "entry_rep ?L ?C ?e u" by blast
  from doesD [OF u(1) us] obtain d' where d': "push_message ?L ?C ?e d = (Inr (), d')"
    "ld_tree ?L d' = tree_upd [Key ''messages''] (\<lambda>_. TList (us @ [u])) (ld_tree ?L d)" by blast
  have at: "tree_at [Key ''messages''] (ld_tree ?L d') = Some (TList (us @ [u]))"
    unfolding d'(2) tree_at_upd using us by simp
  have "shown V [u] = [norm_entry ?e]" by (rule shown_one) (rule entry_rep_read [OF L(2) ok u(2)])
  then have user: "filter from_agent (shown V [u]) = []" by (simp add: from_agent_def norm_entry_def user_entry_def)
  have "doc_open V dev old es t d'"
  proof (cases "rt_writer t")
    case None
    with assms(2) us have "shows_run V old es us" by (auto simp: doc_open_def)
    with None at shows_run_other [OF _ user] show ?thesis by (auto simp: doc_open_def)
  next
    case (Some w)
    with assms(2) obtain pre post where w: "writer_at ?L ?C w (segment_entry dev MsStreaming t) pre post d"
      "shows_run V old es pre" "filter from_agent (shown V post) = []"
      "parts_grow (sw_written w) (render_parts (rt_folded t))" by (auto simp: doc_open_def)
    from w(1) us at have "writer_at ?L ?C w (segment_entry dev MsStreaming t) pre (post @ [u]) d'"
      by (auto simp: writer_at_def)
    moreover have "filter from_agent (shown V (post @ [u])) = []" using w(3) user by (simp add: shown_append)
    ultimately show ?thesis using w(2,4) Some unfolding doc_open_def by auto
  qed
  with d' False show ?thesis by (auto simp: write_user_message_def)
qed

text \<open>A task that differs outside the segment, or whose fold has grown.\<close>

lemma doc_open_task:
  assumes "doc_open V dev old es t d" "rt_writer t' = rt_writer t"
    "rt_writer t \<noteq> None \<Longrightarrow> rt_entry_id t' = rt_entry_id t \<and> rt_segment_started t' = rt_segment_started t \<and>
       parts_grow (rt_folded t) (rt_folded t')"
  shows "doc_open V dev old es t' d"
proof (cases "rt_writer t")
  case None
  with assms show ?thesis by (simp add: doc_open_def)
next
  case (Some w)
  with assms(3) have k: "rt_entry_id t' = rt_entry_id t" "rt_segment_started t' = rt_segment_started t"
    "parts_grow (render_parts (rt_folded t)) (render_parts (rt_folded t'))" by (auto intro: render_grow)
  from Some assms(1) obtain pre post where w: "writer_at (sv_loro V) (sv_codec V) w (segment_entry dev MsStreaming t) pre post d"
    "shows_run V old es pre" "filter from_agent (shown V post) = []"
    "parts_grow (sw_written w) (render_parts (rt_folded t))" by (auto simp: doc_open_def)
  have "writer_at (sv_loro V) (sv_codec V) w (segment_entry dev MsStreaming t') pre post d"
    using w(1) k(1,2) by (simp add: writer_at_def segment_entry_def)
  with w(2,3) parts_grow_trans [OF w(4) k(3)] Some assms(2) show ?thesis by (auto simp: doc_open_def)
qed

subsection \<open>The journal of the run\<close>

definition codec_total :: "journal_codec \<Rightarrow> bool" where
  "codec_total J \<longleftrightarrow> codec_ok J \<and> (\<forall>p. \<exists>l. jc_to_string J p = Inr l)"

definition journaled :: "'d session_env \<Rightarrow> string \<Rightarrow> agent_event list \<Rightarrow> 'd sessions \<Rightarrow> bool" where
  "journaled V chat_id P s \<longleftrightarrow>
     (\<exists>evs ls u. journal_inv (sv_journal V) chat_id evs (sn_journal s) ls u \<and> map snd evs = P)"

lemma publish_journaled:
  assumes "codec_total (sv_journal V)" "journaled V c P s" "ck_fault k = None"
  shows "journaled V c (P @ [ev]) (publish V k c ev s)"
proof -
  let ?J = "sv_journal V"
  from assms(2) obtain evs ls u where j: "journal_inv ?J c evs (sn_journal s) ls u" "map snd evs = P"
    by (auto simp: journaled_def)
  obtain r j1 where e: "ensure_open ?J c (sn_journal s) = (r, j1)" by fastforce
  from ensure_open_inv [OF j(1) e] assms(1) have "\<exists>sq j'. journal_append ?J None c ev (sn_journal s) = (Inr sq, j')"
    unfolding journal_append_def e codec_total_def
    by (elim conjE allE [of _ "(Suc (length evs), ev)"] exE) (auto simp: Let_def)
  then obtain sq j' where a: "journal_append ?J None c ev (sn_journal s) = (Inr sq, j')" by blast
  from append_inv [OF _ j(1) a] assms(1) obtain ls' u' where "journal_inv ?J c (evs @ [(sq, ev)]) j' ls' u'"
    by (auto simp: codec_total_def)
  moreover have "sn_journal (publish V k c ev s) = j'" using a assms(3) by (simp add: publish_journal)
  moreover have "map snd (evs @ [(sq, ev)]) = P @ [ev]" using j(2) by simp
  ultimately show ?thesis unfolding journaled_def by metis
qed

lemma journaled_cong: "sn_journal s' = sn_journal s \<Longrightarrow> journaled V c P s' = journaled V c P s"
  by (simp add: journaled_def)

lemma attempts_other: "attempts_path c \<noteq> path_for d"
proof
  assume "attempts_path c = path_for d"
  then have "last (attempts_path c) = last (path_for d)" by simp
  then show False by (simp add: attempts_path_def path_for_def)
qed

lemma journal_inv_cong:
  "map_of (rj_dir j') (path_for c) = map_of (rj_dir j) (path_for c) \<Longrightarrow> rj_open_files j' = rj_open_files j \<Longrightarrow>
     journal_inv C c evs j' ls u = journal_inv C c evs j ls u"
  unfolding journal_inv_def by (simp only:)

lemma clear_journaled:
  "journaled V c P (s\<lparr>sn_journal := clear_resume_attempts d (sn_journal s)\<rparr>) = journaled V c P s"
proof -
  have "map_of (rj_dir (clear_resume_attempts d (sn_journal s))) (path_for c) = map_of (rj_dir (sn_journal s)) (path_for c)"
    using attempts_other [of d c] by (simp add: clear_resume_attempts_def AList.delete_conv)
  then show ?thesis
    using journal_inv_cong [of "clear_resume_attempts d (sn_journal s)" c "sn_journal s"]
    by (simp add: journaled_def clear_resume_attempts_def)
qed

subsection \<open>The invariant of a run\<close>

text \<open>The chips of the entries written and of the segment, the plan chip apart.\<close>

definition chips :: "session_message_entry list \<Rightarrow> message_part list \<Rightarrow> string list" where
  "chips es ps =
     filter (\<lambda>i. i \<noteq> live_plan_tool_id) (concat (map (\<lambda>e. tool_ids (me_parts e)) es) @ tool_ids ps)"

definition entries_text :: "session_message_entry list \<Rightarrow> string" where
  "entries_text es = concat (map (\<lambda>e. text_of (me_parts e)) es)"

definition events_text :: "agent_event list \<Rightarrow> string" where
  "events_text evs = concat (map ev_text evs)"

definition settled :: "session_message_entry \<Rightarrow> bool" where
  "settled e \<longleftrightarrow> me_status e = Some MsComplete \<or> me_status e = Some MsAborted"

definition is_question :: "agent_event \<Rightarrow> bool" where
  "is_question ev = (case ev of InputRequested _ _ \<Rightarrow> True | InputResolved _ \<Rightarrow> True | _ \<Rightarrow> False)"

text \<open>Tools whose result came with statistics.\<close>

definition stats_within :: "string set \<Rightarrow> message_part list \<Rightarrow> bool" where
  "stats_within R ps \<longleftrightarrow> (\<forall>u. PTool u \<in> set ps \<longrightarrow> tp_id u \<in> R \<or> tp_diff_stats u = None)"

definition result_id :: "agent_event \<Rightarrow> string list" where
  "result_id ev = (case ev of ToolResult i _ _ _ \<Rightarrow> [i] | _ \<Rightarrow> [])"

definition tick_ok :: "tick \<Rightarrow> bool" where
  "tick_ok k \<longleftrightarrow> ck_fault k = None \<and> i64_ok (ck_now_ms k)"

definition run_env_ok :: "'d session_env \<Rightarrow> bool" where
  "run_env_ok V \<longleftrightarrow> env_ok V \<and> codec_total (sv_journal V)"

text \<open>\<open>old\<close> are the entries before the run, \<open>es\<close> the agent's entries written, \<open>P\<close> the journal's events,
  of which \<open>base\<close> were there before, \<open>R\<close> the tools with a result.\<close>

definition content_ok :: "session_message_entry list \<Rightarrow> agent_event list \<Rightarrow> message_part list \<Rightarrow> string list \<Rightarrow> bool" where
  "content_ok es P ps seen \<longleftrightarrow>
     entries_text es @ text_of ps = events_text P \<and> distinct (chips es ps) \<and> set (chips es ps) \<subseteq> set seen \<and>
     list_all settled es"

definition task_inv :: "'d session_env \<Rightarrow> string \<Rightarrow> session_message_entry list \<Rightarrow> agent_event list \<Rightarrow>
    session_message_entry list \<Rightarrow> agent_event list \<Rightarrow> string set \<Rightarrow> run_task \<Rightarrow> 'd sessions \<Rightarrow> bool" where
  "task_inv V dev old base es P R t s \<longleftrightarrow>
     task_ok t \<and> i64_ok (rt_segment_started t) \<and> sn_device_id s = dev \<and>
     (\<exists>d. sn_docs s (rt_chat_id t) = Inr d \<and> doc_open V dev old es t d) \<and>
     journaled V (rt_chat_id t) (base @ P) s \<and>
     (\<forall>ev \<in> set (rc_engine_rx (sn_cells s (rt_run_id t))). is_question ev) \<and>
     content_ok es P (rt_folded t) (rt_seen_tools t) \<and> stats_within R (rt_folded t)"

text \<open>What is left of it when the run is over.\<close>

definition run_left :: "'d session_env \<Rightarrow> string \<Rightarrow> session_message_entry list \<Rightarrow> agent_event list \<Rightarrow>
    session_message_entry list \<Rightarrow> agent_event list \<Rightarrow> 'd sessions \<Rightarrow> bool" where
  "run_left V chat_id old base es P s \<longleftrightarrow>
     (\<exists>d ts. sn_docs s chat_id = Inr d \<and> tree_at [Key ''messages''] (ld_tree (sv_loro V) d) = Some (TList ts) \<and>
        shows_run V old es ts) \<and>
     journaled V chat_id (base @ P) s \<and>
     entries_text es = events_text P \<and> distinct (chips es []) \<and> list_all settled es"

lemma task_inv_frame:
  assumes "task_inv V dev old base es P R t s" "sn_device_id s' = sn_device_id s" "sn_docs s' = sn_docs s"
    "sn_journal s' = sn_journal s"
    "set (rc_engine_rx (sn_cells s' (rt_run_id t))) \<subseteq> set (rc_engine_rx (sn_cells s (rt_run_id t))) \<union> Collect is_question"
  shows "task_inv V dev old base es P R t s'"
  using assms(1) assms(5) unfolding task_inv_def assms(2,3) journaled_cong [OF assms(4)] by blast

text \<open>A change of the task outside its segment.\<close>

lemma task_inv_task:
  assumes "task_inv V dev old base es P R t s" "task_ok t'" "rt_start t' = rt_start t" "rt_folded t' = rt_folded t"
    "rt_writer t' = rt_writer t" "set (rt_seen_tools t) \<subseteq> set (rt_seen_tools t')"
    "rt_entry_id t' = rt_entry_id t \<and> rt_segment_started t' = rt_segment_started t \<or>
     rt_writer t = None \<and> i64_ok (rt_segment_started t')"
  shows "task_inv V dev old base es P R t' s"
proof -
  from assms(1) obtain d where d: "sn_docs s (rt_chat_id t) = Inr d" "doc_open V dev old es t d" by (auto simp: task_inv_def)
  have "doc_open V dev old es t' d" by (rule doc_open_task [OF d(2) assms(5)]) (use assms(4,7) in auto)
  moreover have "i64_ok (rt_segment_started t')" using assms(1,7) by (auto simp: task_inv_def)
  ultimately show ?thesis using assms(1-4,6) d(1) by (auto simp: task_inv_def content_ok_def)
qed

lemma inv_over:
  assumes "task_inv V dev old base es P R t s" "rt_folded t = []"
  shows "run_left V (rt_chat_id t) old base es P s"
proof -
  have "rt_writer t = None" using assms by (auto simp: task_inv_def task_ok_def)
  with assms show ?thesis by (auto simp: task_inv_def run_left_def doc_open_def content_ok_def text_of_append)
qed

lemma run_left_frame:
  "run_left V c old base es P s \<Longrightarrow> sn_docs s' = sn_docs s \<Longrightarrow> sn_journal s' = sn_journal s \<Longrightarrow> run_left V c old base es P s'"
  by (simp add: run_left_def journaled_def)

lemma frame_end [simp]:
  "sn_docs (snd (end_run k t st s)) = sn_docs s" "sn_journal (snd (end_run k t st s)) = sn_journal s"
  by (simp_all add: end_run_def claim_steers_def settle_run_def Let_def)

lemma end_run_ended: "fst (end_run k t st s) = Ended"
  by (simp add: end_run_def split: prod.split)

subsection \<open>Events\<close>

lemma stats_append: "stats_within R (a @ b) \<longleftrightarrow> stats_within R a \<and> stats_within R b"
  by (auto simp: stats_within_def)

lemma stats_plain: "(\<And>u. p \<noteq> PTool u) \<Longrightarrow> stats_within R [p]"
  by (auto simp: stats_within_def)

lemma stats_fold:
  assumes "stats_within R ps" "\<not> is_boundary ev"
  shows "stats_within (R \<union> set (result_id ev)) (fold_event_into_parts ld ps ev)"
proof (cases ev)
  case (TextDelta s)
  then show ?thesis using assms(1)
    by (cases ps rule: rev_cases) (auto simp: stats_within_def result_id_def split: message_part.split)
next
  case (CommentaryDelta s)
  then show ?thesis using assms(1)
    by (cases ps rule: rev_cases) (auto simp: stats_within_def result_id_def split: message_part.split)
next
  case (ToolCallEvent i c)
  show ?thesis
  proof (cases "refresh_tool i c ps")
    case None
    then show ?thesis using assms(1) ToolCallEvent by (auto simp: stats_within_def new_tool_part_def)
  next
    case (Some qs)
    from refresh_tool_Some [OF Some] obtain xs t ys where
      "ps = xs @ PTool t # ys" "qs = xs @ PTool (t\<lparr>tp_call := c\<rparr>) # ys" by blast
    then show ?thesis using assms(1) Some ToolCallEvent by (auto simp: stats_within_def)
  qed
next
  case (ToolResult i e op d)
  then show ?thesis using assms(1)
    by (auto simp: stats_within_def resolve_tool_def result_id_def split: message_part.splits if_splits)
next
  case (InputResolved rid)
  then show ?thesis using assms(1)
    by (auto simp: stats_within_def resolve_input_def split: message_part.splits if_splits)
qed (use assms in \<open>auto simp: is_boundary_def stats_within_def Let_def split: option.split\<close>)

lemma keeps_stats_new:
  assumes "stats_within R ps" "set (result_id ev) \<inter> R = {}"
  shows "keeps_stats ps ev"
  using assms by (cases ev) (auto simp: keeps_stats_def stats_within_def result_id_def list_all_iff
      split: option.split message_part.split)

text \<open>The chip an event would add is new to the run.\<close>

definition chip_new :: "session_message_entry list \<Rightarrow> agent_event \<Rightarrow> message_part list \<Rightarrow> bool" where
  "chip_new es ev ps \<longleftrightarrow> (\<forall>i \<in> set (new_ids ps ev). i = live_plan_tool_id \<or> i \<notin> set (chips es ps))"

lemma chips_more: "chips es (map f ps) = chips es ps" if "\<And>p. tool_ids [f p] = tool_ids [p]"
  using tool_ids_map [OF that] by (simp add: chips_def)

lemma chips_add:
  assumes "tool_ids qs = tool_ids ps @ is"
  shows "chips es qs = chips es ps @ filter (\<lambda>i. i \<noteq> live_plan_tool_id) is"
  by (simp add: chips_def assms)

lemma content_fold:
  assumes "content_ok es P ps seen" "\<not> is_boundary ev" "chip_new es ev ps"
    "\<And>i c. ev = ToolCallEvent i c \<Longrightarrow> i = live_plan_tool_id \<or> i \<in> set seen"
  shows "content_ok es (P @ [ev]) (fold_event_into_parts ld ps ev) seen"
proof -
  let ?qs = "fold_event_into_parts ld ps ev"
  have c: "chips es ?qs = chips es ps @ filter (\<lambda>i. i \<noteq> live_plan_tool_id) (new_ids ps ev)"
    by (rule chips_add) (rule tool_ids_fold [OF assms(2)])
  have "distinct (new_ids ps ev)" by (simp add: new_ids_def split: agent_event.split)
  then have "distinct (chips es ?qs)" using assms(1,3) unfolding c by (auto simp: content_ok_def chip_new_def)
  moreover have "set (chips es ?qs) \<subseteq> set seen"
    using assms(1,4) unfolding c by (auto simp: content_ok_def new_ids_def split: agent_event.splits)
  moreover have "entries_text es @ text_of ?qs = events_text (P @ [ev])"
    using assms(1,2) text_of_step [of ld ps ev] by (simp add: content_ok_def events_text_def)
  ultimately show ?thesis using assms(1) by (simp add: content_ok_def)
qed

lemma content_quiet: "content_ok es P ps seen \<Longrightarrow> ev_text ev = [] \<Longrightarrow> content_ok es (P @ [ev]) ps seen"
  by (simp add: content_ok_def events_text_def)

lemma frame_note [simp]:
  "sn_docs (snd (note_event k ev t s)) = sn_docs s" "sn_device_id (snd (note_event k ev t s)) = sn_device_id s"
  "sn_journal (snd (note_event k ev t s)) = sn_journal s" "sn_cells (snd (note_event k ev t s)) = sn_cells s"
  "sn_runs (snd (note_event k ev t s)) = sn_runs s" "sn_spawned (snd (note_event k ev t s)) = sn_spawned s"
  by (auto simp: note_event_def split: agent_event.split option.split)

lemma fold_event_start [simp]:
  "rt_start (fold_event V ev t) = rt_start t" "rt_writer (fold_event V ev t) = rt_writer t"
  "rt_entry_id (fold_event V ev t) = rt_entry_id t" "rt_segment_started (fold_event V ev t) = rt_segment_started t"
  "rt_seen_tools (fold_event V ev t) = rt_seen_tools t"
  by (simp_all add: fold_event_def)

lemma digest_inv:
  assumes "run_env_ok V" "tick_ok k" "task_inv V dev old base es P R t s" "rt_idle_since t = None" "echo_ok ev t"
    "\<And>a b. ev \<noteq> Steered a b" "chip_new es ev (rt_folded t)" "set (result_id ev) \<inter> R = {}"
    "digest V k ev t s = (t', s')"
  shows "task_inv V dev old base es (P @ [ev]) (R \<union> set (result_id ev)) t' s'"
proof -
  obtain t1 s1 where n: "note_event k ev t s = (t1, s1)" by fastforce
  then obtain b where t1: "t1 = t\<lparr>rt_saw_session_started := b\<rparr>" using note_event_task by blast
  have s1: "sn_docs s1 = sn_docs s" "sn_device_id s1 = sn_device_id s" "sn_journal s1 = sn_journal s" "sn_cells s1 = sn_cells s"
    using frame_note [of k ev t s] n by simp_all
  have t': "t' = fold_event V ev t1" "s' = publish V k (rt_chat_id t) ev s1"
    using assms(9) n t1 by (simp_all add: digest_def)
  from assms(3) obtain d where d: "sn_docs s (rt_chat_id t) = Inr d" "doc_open V dev old es t d" by (auto simp: task_inv_def)
  have ok: "task_ok t" "stats_within R (rt_folded t)" "content_ok es P (rt_folded t) (rt_seen_tools t)"
    using assms(3) by (simp_all add: task_inv_def)
  have task: "task_ok t'" using digest_ok [OF ok(1) assms(4,5,6), of V k s] assms(9) by simp
  have j: "journaled V (rt_chat_id t) (base @ P @ [ev]) s'"
    using publish_journaled [of V "rt_chat_id t" "base @ P" s1 k ev] journaled_cong [OF s1(3)] assms(1-3)
    by (simp add: t' run_env_ok_def tick_ok_def task_inv_def)
  have fold: "parts_grow (rt_folded t) (rt_folded t') \<and> content_ok es (P @ [ev]) (rt_folded t') (rt_seen_tools t) \<and>
      stats_within (R \<union> set (result_id ev)) (rt_folded t')"
  proof (cases "is_boundary ev")
    case True
    then have b: "is_session_started ev" "ev_text ev = []" "result_id ev = []"
        "\<And>ps. fold_event_into_parts (sv_differ V) ps ev = []" using assms(6)
      by (auto simp: is_boundary_def is_session_started_def ev_text_def result_id_def split: agent_event.splits)
    have "rt_folded t' = rt_folded t" using b by (simp add: t' t1 fold_event_def)
    then show ?thesis using ok content_quiet [OF ok(3) b(2)] b(3) by simp
  next
    case False
    then have "\<not> is_session_started ev" by (auto simp: is_boundary_def is_session_started_def split: agent_event.splits)
    then have f: "rt_folded t' = fold_event_into_parts (sv_differ V) (rt_folded t) ev" by (simp add: t' t1 fold_event_def)
    have "content_ok es (P @ [ev]) (fold_event_into_parts (sv_differ V) (rt_folded t) ev) (rt_seen_tools t)"
      by (rule content_fold [OF ok(3) False assms(7)]) (use assms(5) in \<open>simp add: echo_ok_def\<close>)
    moreover have "parts_grow (rt_folded t) (fold_event_into_parts (sv_differ V) (rt_folded t) ev)"
      by (rule fold_event_grows [OF task_okD(4) [OF ok(1)] False keeps_stats_new [OF ok(2) assms(8)]])
    ultimately
    show ?thesis unfolding f using stats_fold [OF ok(2) False] by blast
  qed
  have "doc_open V dev old es t' d" by (rule doc_open_task [OF d(2)]) (use fold in \<open>simp_all add: t' t1\<close>)
  moreover have "rt_start t' = rt_start t" "rt_segment_started t' = rt_segment_started t"
    "rt_seen_tools t' = rt_seen_tools t" by (simp_all add: t' t1)
  moreover have "sn_docs s' = sn_docs s" "sn_device_id s' = sn_device_id s" "sn_cells s' = sn_cells s"
    by (simp_all add: t' s1)
  ultimately show ?thesis using fold j task d(1) assms(3) unfolding task_inv_def by simp
qed

subsection \<open>Segments\<close>

lemma inv_of_left:
  assumes "run_left V (rt_chat_id t) old base es P s" "set (chips es []) \<subseteq> set (rt_seen_tools t)" "task_ok t"
    "rt_folded t = []" "i64_ok (rt_segment_started t)" "sn_device_id s = dev"
    "\<forall>ev \<in> set (rc_engine_rx (sn_cells s (rt_run_id t))). is_question ev"
  shows "task_inv V dev old base es P R t s"
proof -
  have "rt_writer t = None" using assms(3,4) by (rule task_okD)
  with assms show ?thesis
    by (auto simp: task_inv_def run_left_def doc_open_def content_ok_def stats_within_def text_of_append)
qed

text \<open>The segment is written: nothing of the run is left outside the entries.\<close>

definition after_segment :: "string \<Rightarrow> message_status \<Rightarrow> run_task \<Rightarrow> session_message_entry list \<Rightarrow>
    session_message_entry list" where
  "after_segment dev status t es = (if rt_folded t = [] then es else es @ [segment_entry dev status t])"

lemma tool_ids_Nil [simp]: "tool_ids [] = []" by (simp add: tool_ids_def)

lemma after_segment_content:
  assumes "content_ok es P (rt_folded t) seen" "status \<noteq> MsStreaming"
  shows "entries_text (after_segment dev status t es) = events_text P"
    "chips (after_segment dev status t es) [] = chips es (rt_folded t)"
    "list_all settled (after_segment dev status t es)"
proof -
  have "settled (segment_entry dev status t)" using assms(2) by (cases status) (simp_all add: settled_def segment_entry_def)
  with assms(1) show "list_all settled (after_segment dev status t es)" by (simp add: content_ok_def after_segment_def)
  show "entries_text (after_segment dev status t es) = events_text P"
    using assms(1) by (auto simp: content_ok_def after_segment_def entries_text_def segment_entry_def text_of_append)
  show "chips (after_segment dev status t es) [] = chips es (rt_folded t)"
    by (simp add: after_segment_def chips_def segment_entry_def)
qed

lemma finish_current_left:
  assumes "run_env_ok V" "task_inv V dev old base es P R t s" "status \<noteq> MsStreaming"
    "finish_current V status t s = (t1, s1)"
  shows "run_left V (rt_chat_id t) old base (after_segment dev status t es) P s1 \<and>
    set (chips (after_segment dev status t es) []) \<subseteq> set (rt_seen_tools t) \<and>
    t1 = t\<lparr>rt_writer := None\<rparr> \<and> sn_device_id s1 = sn_device_id s \<and> sn_cells s1 = sn_cells s \<and> sn_runs s1 = sn_runs s"
proof -
  from assms(2) obtain d where d: "sn_docs s (rt_chat_id t) = Inr d" "doc_open V dev old es t d" by (auto simp: task_inv_def)
  have i: "task_ok t" "i64_ok (rt_segment_started t)" "sn_device_id s = dev" "content_ok es P (rt_folded t) (rt_seen_tools t)"
    using assms(2) by (simp_all add: task_inv_def)
  from finish_writes [OF _ d(2) task_okD(4) [OF i(1)] i(2) task_okD(2) [OF i(1)], of status] assms(1) obtain d' ts where
    w: "finish_segment V (rt_writer t) (rt_entry_id t) dev (rt_segment_started t) (rt_folded t) status d = (Inr (), d')"
      "tree_at [Key ''messages''] (ld_tree (sv_loro V) d') = Some (TList ts)"
      "shows_run V old (after_segment dev status t es) ts" by (auto simp: run_env_ok_def after_segment_def)
  have s1: "t1 = t\<lparr>rt_writer := None\<rparr>" "s1 = put_doc (rt_chat_id t) d' s"
    using assms(4) d(1) w(1) i(3) by (auto simp: finish_current_def)
  have "journaled V (rt_chat_id t) (base @ P) s1" using assms(2) by (simp add: s1 put_doc_def task_inv_def journaled_def)
  with w after_segment_content [OF i(4) assms(3), of dev] i(4) show ?thesis
    by (auto simp: run_left_def s1 put_doc_def content_ok_def)
qed

lemma frame_put [simp]:
  "sn_device_id (put_doc c d s) = sn_device_id s" "sn_journal (put_doc c d s) = sn_journal s"
  "sn_cells (put_doc c d s) = sn_cells s" "sn_runs (put_doc c d s) = sn_runs s"
  "sn_spawned (put_doc c d s) = sn_spawned s" "sn_statuses (put_doc c d s) = sn_statuses s"
  "sn_doc_host (put_doc c d s) = sn_doc_host s" "sn_last_requests (put_doc c d s) = sn_last_requests s"
  by (simp_all add: put_doc_def)

lemma park_frame:
  assumes "park k t s = (t', s')"
  shows "sn_docs s' = sn_docs s" "sn_journal s' = sn_journal s" "sn_device_id s' = sn_device_id s"
    "sn_cells s' = sn_cells s" "sn_runs s' = sn_runs s" "rt_start t' = rt_start t" "rt_folded t' = []"
    "rt_seen_tools t' = rt_seen_tools t" "rt_segment_started t' = ck_now_ms k"
  using assms by (auto simp: park_def new_id_def new_segment_def)

lemma park_inv:
  assumes "tick_ok k" "run_left V (rt_chat_id t) old base es P s" "set (chips es []) \<subseteq> set (rt_seen_tools t)"
    "rt_writer t = None" "rt_interrupted t \<longleftrightarrow> rt_interrupt_deadline t \<noteq> None" "sn_device_id s = dev"
    "\<forall>ev \<in> set (rc_engine_rx (sn_cells s (rt_run_id t))). is_question ev" "park k t s = (t', s')"
  shows "task_inv V dev old base es P R t' s' \<and> rt_start t' = rt_start t"
proof -
  note f = park_frame [OF assms(8)]
  have "task_ok t'" using park_ok [OF assms(4,5), of k s] assms(8) by simp
  moreover have "run_left V (rt_chat_id t') old base es P s'"
    using run_left_frame [OF assms(2) f(1,2)] by (simp add: f)
  ultimately show ?thesis using assms(1,3,6,7) f by (intro conjI inv_of_left) (simp_all add: tick_ok_def)
qed

lemma quiesce_inv:
  assumes "run_env_ok V" "tick_ok k" "task_inv V dev old base es P R t s" "quiesce V k t s = (t', s')"
  shows "\<exists>es'. task_inv V dev old base es' P R t' s' \<and> rt_start t' = rt_start t"
proof -
  have i: "task_ok t" "sn_device_id s = dev" "\<forall>ev \<in> set (rc_engine_rx (sn_cells s (rt_run_id t))). is_question ev"
    using assms(3) by (simp_all add: task_inv_def)
  show ?thesis
  proof (cases "rt_folded t \<noteq> [] \<or> rt_writer t \<noteq> None")
    case True
    obtain t1 s1 where f: "finish_current V MsComplete t s = (t1, s1)" by fastforce
    let ?s = "preview_message k (rt_chat_id t) (folded_text (rt_folded t)) s1"
    have p: "park k t1 ?s = (t', s')" using assms(4) True f by (simp add: quiesce_def)
    from finish_current_left [OF assms(1,3) _ f] have l: "run_left V (rt_chat_id t) old base (after_segment dev MsComplete t es) P s1"
      "set (chips (after_segment dev MsComplete t es) []) \<subseteq> set (rt_seen_tools t)" "t1 = t\<lparr>rt_writer := None\<rparr>"
      "sn_device_id s1 = sn_device_id s" "sn_cells s1 = sn_cells s" by auto
    have "run_left V (rt_chat_id t1) old base (after_segment dev MsComplete t es) P ?s"
      using run_left_frame [OF l(1), of ?s] by (simp add: l)
    from park_inv [OF assms(2) this _ _ _ _ _ p] l i task_okD(6) [OF i(1)] show ?thesis by auto
  next
    case False
    then have p: "park k t s = (t', s')" using assms(4) by (simp add: quiesce_def)
    have "run_left V (rt_chat_id t) old base es P s" using inv_over [OF assms(3)] False by simp
    moreover have "set (chips es []) \<subseteq> set (rt_seen_tools t)" using assms(3) False by (simp add: task_inv_def content_ok_def)
    ultimately show ?thesis using park_inv [OF assms(2) _ _ _ _ i(2,3) p] False task_okD(6) [OF i(1)] by blast
  qed
qed

lemma mark_inv:
  assumes "task_inv V dev old base es P R t s"
  shows "task_inv V dev old base es P R (t\<lparr>rt_folded := map mark_resolved (rt_folded t)\<rparr>) s"
proof -
  let ?t = "t\<lparr>rt_folded := map mark_resolved (rt_folded t)\<rparr>"
  from assms obtain d where d: "sn_docs s (rt_chat_id t) = Inr d" "doc_open V dev old es t d" by (auto simp: task_inv_def)
  have "doc_open V dev old es ?t d" by (rule doc_open_task [OF d(2)]) (simp_all add: mark_grows)
  moreover have "task_ok ?t" using assms by (auto simp: task_inv_def task_ok_def noted_def parts_inv_mark)
  moreover have "chips es (map mark_resolved (rt_folded t)) = chips es (rt_folded t)" by (simp add: chips_def)
  moreover have "PTool u \<in> set (map mark_resolved ps) \<Longrightarrow> PTool u \<in> set ps" for u ps
  proof -
    have "mark_resolved p = PTool u \<Longrightarrow> p = PTool u" for p by (cases p) simp_all
    then show "PTool u \<in> set (map mark_resolved ps) \<Longrightarrow> PTool u \<in> set ps" by auto metis
  qed
  ultimately show ?thesis using assms d(1) by (auto simp: task_inv_def content_ok_def stats_within_def)
qed

lemma steer_boundary_inv:
  assumes "run_env_ok V" "tick_ok k" "task_inv V dev old base es P R t s" "rt_idle_since t = None"
    "ev_text ev = []" "steer_boundary V k ev n t s = (t', s')"
  shows "\<exists>es'. task_inv V dev old base es' (P @ [ev]) R t' s' \<and> rt_start t' = rt_start t"
proof -
  let ?s0 = "publish V k (rt_chat_id t) ev s" and ?t0 = "t\<lparr>rt_self_continued_turn := False\<rparr>"
  obtain t1 s1 where f: "finish_current V MsComplete ?t0 ?s0 = (t1, s1)" by fastforce
  have inv0: "task_inv V dev old base es (P @ [ev]) R ?t0 ?s0"
  proof -
    from assms(3) obtain d where d: "sn_docs s (rt_chat_id t) = Inr d" "doc_open V dev old es t d" by (auto simp: task_inv_def)
    have "journaled V (rt_chat_id t) (base @ P @ [ev]) ?s0"
      using publish_journaled [of V "rt_chat_id t" "base @ P" s k ev] assms(1-3)
      by (simp add: run_env_ok_def tick_ok_def task_inv_def)
    moreover have "doc_open V dev old es ?t0 d" by (rule doc_open_task [OF d(2)]) simp_all
    moreover have "task_ok ?t0" using assms(3) by (simp add: task_inv_def task_ok_def)
    ultimately show ?thesis using assms(3,5) d(1) by (simp add: task_inv_def content_quiet)
  qed
  from finish_current_left [OF assms(1) inv0 _ f]
  have l: "run_left V (rt_chat_id t) old base (after_segment dev MsComplete ?t0 es) (P @ [ev]) s1"
    "set (chips (after_segment dev MsComplete ?t0 es) []) \<subseteq> set (rt_seen_tools t)" "t1 = ?t0\<lparr>rt_writer := None\<rparr>"
    "sn_device_id s1 = sn_device_id s" "sn_cells s1 = sn_cells s" by auto
  have s': "sn_docs s' = sn_docs s1" "sn_journal s' = sn_journal s1" "sn_device_id s' = sn_device_id s1"
    "rc_engine_rx (sn_cells s' (rt_run_id t)) = rc_engine_rx (sn_cells s1 (rt_run_id t))"
    and t': "\<exists>i. t' = new_segment k i t1"
    using assms(6) f l(3) by (auto simp: steer_boundary_def Let_def split: prod.splits if_splits
        dest!: arg_cong [where f = snd, of "or_new_id n _"])
  from t' obtain i where t'': "t' = new_segment k i t1" by blast
  have ok: "task_ok t'" using steer_boundary_ok [of t V k ev n s] assms(3,4,6) by (simp add: task_inv_def)
  have "run_left V (rt_chat_id t) old base (after_segment dev MsComplete ?t0 es) (P @ [ev]) s'"
    by (rule run_left_frame [OF l(1) s'(1,2)])
  then have "task_inv V dev old base (after_segment dev MsComplete ?t0 es) (P @ [ev]) R t' s'"
    using ok l assms(2,3) s' by (intro inv_of_left) (simp_all add: t'' new_segment_def tick_ok_def task_inv_def)
  then show ?thesis by (auto simp: t'' new_segment_def l)
qed

definition outcome_inv :: "'d session_env \<Rightarrow> string \<Rightarrow> session_message_entry list \<Rightarrow> agent_event list \<Rightarrow>
    string set \<Rightarrow> resume_state \<Rightarrow> run_outcome \<times> 'd sessions \<Rightarrow> bool" where
  "outcome_inv V dev old base R st os \<longleftrightarrow>
     (\<exists>es P. case os of
        (Running t, s) \<Rightarrow> task_inv V dev old base es P R t s \<and> rt_start t = st
      | (Ended, s) \<Rightarrow> run_left V (st_chat_id st) old base es P s)"

lemma outcome_run:
  assumes "task_inv V dev old base es P R t s" "rt_start t = st"
  shows "outcome_inv V dev old base R st (Running t, s)"
  unfolding outcome_inv_def prod.case run_outcome.case using assms by blast

lemma outcome_end:
  "run_left V (st_chat_id st) old base es P s \<Longrightarrow> outcome_inv V dev old base R st (end_run k t fin s)"
  using run_left_frame [of V "st_chat_id st" old base es P s "snd (end_run k t fin s)"] end_run_ended [of k t fin s]
    frame_end [of k t fin s]
  by (cases "end_run k t fin s") (auto simp: outcome_inv_def simp del: frame_end)

lemma frame_drain [simp]:
  "sn_docs (drain_questions t s) = sn_docs s" "sn_journal (drain_questions t s) = sn_journal s"
  "sn_device_id (drain_questions t s) = sn_device_id s"
  "rc_engine_rx (sn_cells (drain_questions t s) r) = rc_engine_rx (sn_cells s r)"
  by (simp_all add: drain_questions_def)

lemma turn_tail:
  assumes "s1 = (if b then maybe_generate c h p w (s2\<lparr>sn_journal := clear_resume_attempts c (sn_journal s2)\<rparr>) else s2)"
  shows "sn_docs s1 = sn_docs s2" "sn_device_id s1 = sn_device_id s2" "sn_cells s1 = sn_cells s2"
    "journaled V c Q s1 = journaled V c Q s2"
proof -
  let ?s3 = "s2\<lparr>sn_journal := clear_resume_attempts c (sn_journal s2)\<rparr>"
  have "journaled V c Q (maybe_generate c h p w ?s3) = journaled V c Q ?s3" by (rule journaled_cong) simp
  then show "journaled V c Q s1 = journaled V c Q s2" using clear_journaled [of V c Q c s2] unfolding assms by simp
qed (simp_all add: assms)

lemma turn_done_inv:
  assumes "run_env_ok V" "tick_ok k" "task_inv V dev old base es P R t s"
  shows "outcome_inv V dev old base R (rt_start t) (turn_done V k st t s)"
proof -
  let ?t = "t\<lparr>rt_folded := map mark_resolved (rt_folded t)\<rparr>" and ?s = "drain_questions t s"
  let ?es = "after_segment dev (turn_end_status st) ?t es"
  obtain t1 s1 where c: "close_turn V k st t s = (t1, s1)" by fastforce
  have t1: "t1 = ?t\<lparr>rt_writer := None\<rparr>" using close_turn_task [of V k st t s] c by simp
  have inv: "task_inv V dev old base es P R ?t ?s"
    by (rule task_inv_frame [OF mark_inv [OF assms(3)]]) auto
  have "run_left V (rt_chat_id t) old base ?es P s1 \<and> set (chips ?es []) \<subseteq> set (rt_seen_tools t) \<and>
      sn_device_id s1 = dev \<and> rc_engine_rx (sn_cells s1 (rt_run_id t)) = rc_engine_rx (sn_cells s (rt_run_id t))"
  proof -
    obtain t2 s2 where f: "finish_current V (turn_end_status st) ?t ?s = (t2, s2)" by fastforce
    let ?e = "rt_writer t = None \<and> rt_folded t = []"
    let ?s2 = "if ?e then ?s else preview_message k (rt_chat_id t) (folded_text (map mark_resolved (rt_folded t))) s2"
    let ?s3 = "?s2\<lparr>sn_journal := clear_resume_attempts (rt_chat_id t) (sn_journal ?s2)\<rparr>"
    have eq: "s1 = (if st = Completed
        then maybe_generate (rt_chat_id t) (st_harness (rt_start t)) (rq_prompt (st_request (rt_start t)))
          (rq_cwd (st_request (rt_start t))) ?s3 else ?s2)"
      using c f by (cases ?e) (auto simp: close_turn_def Let_def)
    from turn_tail [OF eq]
    have s1: "sn_docs s1 = sn_docs ?s2" "sn_device_id s1 = sn_device_id ?s2" "sn_cells s1 = sn_cells ?s2"
      "journaled V (rt_chat_id t) Q s1 = journaled V (rt_chat_id t) Q ?s2" for Q by blast+
    have l2: "run_left V (rt_chat_id t) old base ?es P ?s2 \<and> set (chips ?es []) \<subseteq> set (rt_seen_tools t) \<and>
      sn_device_id ?s2 = dev \<and> rc_engine_rx (sn_cells ?s2 (rt_run_id t)) = rc_engine_rx (sn_cells s (rt_run_id t))"
    proof (cases ?e)
      case True
      then show ?thesis using inv_over [OF inv] inv by (simp add: after_segment_def task_inv_def content_ok_def)
    next
      case False
      have "turn_end_status st \<noteq> MsStreaming" by (simp add: turn_end_status_def)
      from finish_current_left [OF assms(1) inv this f] have
        1: "run_left V (rt_chat_id t) old base ?es P s2" "set (chips ?es []) \<subseteq> set (rt_seen_tools t)"
          "sn_device_id s2 = sn_device_id s" "sn_cells s2 = sn_cells ?s" by simp_all
      from 1(1) have "run_left V (rt_chat_id t) old base ?es P ?s2" by (rule run_left_frame) (use False in auto)
      with 1 False inv show ?thesis by (auto simp: task_inv_def)
    qed
    then show ?thesis using s1 by (simp add: run_left_def)
  qed
  then have l: "run_left V (rt_chat_id t) old base ?es P s1" "set (chips ?es []) \<subseteq> set (rt_seen_tools t)"
    "sn_device_id s1 = dev" "rc_engine_rx (sn_cells s1 (rt_run_id t)) = rc_engine_rx (sn_cells s (rt_run_id t))" by auto
  show ?thesis
  proof (cases "st = Completed \<and> rt_steerable t1 \<and> \<not> rt_interrupted t1")
    case True
    let ?t1 = "t1\<lparr>rt_saw_session_started := True\<rparr>"
    obtain t2 s2 where p: "park k ?t1 s1 = (t2, s2)" by fastforce
    have i: "rt_interrupted t \<longleftrightarrow> rt_interrupt_deadline t \<noteq> None" "\<forall>ev \<in> set (rc_engine_rx (sn_cells s (rt_run_id t))). is_question ev"
      using assms(3) by (auto simp: task_inv_def task_ok_def)
    have "task_inv V dev old base ?es P R t2 s2 \<and> rt_start t2 = rt_start ?t1"
      by (rule park_inv [OF assms(2) _ _ _ _ l(3) _ p]) (use l i in \<open>simp_all add: t1\<close>)
    then show ?thesis using True c p by (auto simp: turn_done_def outcome_inv_def t1)
  next
    case False
    then show ?thesis using c outcome_end [OF l(1)] by (auto simp: turn_done_def)
  qed
qed

lemma arm_flush_inv: "task_inv V dev old base es P R t s \<Longrightarrow> task_inv V dev old base es P R (arm_flush k t) s \<and> rt_start (arm_flush k t) = rt_start t"
proof -
  assume i: "task_inv V dev old base es P R t s"
  then have "task_ok (arm_flush k t)" by (simp add: task_inv_def arm_flush_ok)
  then have "task_inv V dev old base es P R (arm_flush k t) s"
    by (rule task_inv_task [OF i]) (simp_all add: arm_flush_def)
  then show ?thesis by (simp add: arm_flush_def)
qed

lemma digest_start: "digest V k ev t s = (t', s') \<Longrightarrow> rt_start t' = rt_start t"
  using digest_task [of V k ev t s] by auto

lemma retry_left:
  "run_left V c old base es P s \<Longrightarrow> fst (retry_startup t r s) = Ended \<and> run_left V c old base es P (snd (retry_startup t r s))"
  by (auto simp: retry_startup_def Let_def intro: run_left_frame)

lemma accept_event_inv:
  assumes "run_env_ok V" "tick_ok k" "task_inv V dev old base es P R t s" "rt_idle_since t = None" "echo_ok ev t"
    "chip_new es ev (rt_folded t)" "set (result_id ev) \<inter> R = {}"
  shows "outcome_inv V dev old base (R \<union> set (result_id ev)) (rt_start t) (accept_event V k ev t s)"
proof (cases "if dies_at_startup t ev then rt_retry_request t else None")
  case (Some r)
  then have "rt_folded t = []" by (auto simp: dies_at_startup_def split: if_splits)
  from retry_left [OF inv_over [OF assms(3) this], of t r] show ?thesis
    using Some by (cases "retry_startup t r s") (auto simp: accept_event_cases outcome_inv_def)
next
  case None
  obtain t1 s1 where d: "digest V k ev t s = (t1, s1)" by fastforce
  have dig: "task_inv V dev old base es (P @ [ev]) (R \<union> set (result_id ev)) t1 s1" if "\<And>a b. ev \<noteq> Steered a b"
    by (rule digest_inv [OF assms(1-5) that assms(6,7) d])
  consider (steer) i n where "ev = Steered i n" | (turn) st r e i where "ev = Done st r e i"
    | (other) "\<forall>a b. ev \<noteq> Steered a b" "\<forall>a b c d. ev \<noteq> Done a b c d" by (cases ev) auto
  then show ?thesis
  proof cases
    case steer
    obtain t2 s2 where b: "steer_boundary V k ev n t s = (t2, s2)" by fastforce
    have "ev_text ev = []" "result_id ev = []" by (simp_all add: steer ev_text_def result_id_def)
    with steer_boundary_inv [OF assms(1-4) _ b] None b show ?thesis
      by (auto simp: accept_event_cases steer outcome_inv_def)
  next
    case turn
    with dig have "task_inv V dev old base es (P @ [ev]) (R \<union> set (result_id ev)) t1 s1" by simp
    from turn_done_inv [OF assms(1,2) this, of st] None d digest_start [OF d] turn show ?thesis
      by (simp add: accept_event_cases)
  next
    case other
    have "accept_event V k ev t s = (Running (arm_flush k t1), s1)"
      using None d other by (cases ev) (simp_all add: accept_event_cases)
    then show ?thesis using arm_flush_inv [OF dig, of k] other(1) digest_start [OF d] by (auto simp: outcome_inv_def)
  qed
qed

lemma echo_chip:
  assumes "echo_gate ev t = Some t'" "content_ok es P (rt_folded t) (rt_seen_tools t)"
  shows "chip_new es ev (rt_folded t')"
  using assms by (cases ev)
    (auto simp: echo_gate_def chip_new_def new_ids_def in_segment_ids content_ok_def split: if_splits)

lemma gate_frame:
  "sn_docs (snd (parked_gate k ev t s)) = sn_docs s" "sn_journal (snd (parked_gate k ev t s)) = sn_journal s"
  "sn_device_id (snd (parked_gate k ev t s)) = sn_device_id s"
  "rc_engine_rx (sn_cells (snd (parked_gate k ev t s)) r) = rc_engine_rx (sn_cells s r)"
  by (simp_all add: parked_gate_def split: option.split agent_event.split prod.split)
     (auto dest!: arg_cong [where f = snd] split: prod.splits)

lemma on_event_inv:
  assumes "run_env_ok V" "tick_ok k" "task_inv V dev old base es P R t s" "set (result_id ev) \<inter> R = {}"
  shows "outcome_inv V dev old base (R \<union> set (result_id ev)) (rt_start t) (on_event V k ev t s)"
proof -
  let ?t = "t\<lparr>rt_last_stream_activity := ck_instant k\<rparr>" and ?s = "touch_session k (rt_chat_id t) s"
  have mono: "task_inv V dev old base es P (R \<union> set (result_id ev)) t' s'"
    if "task_inv V dev old base es P R t' s'" for t' s'
    using that by (auto simp: task_inv_def stats_within_def)
  have "task_ok ?t" using assms(3) by (simp add: task_inv_def)
  then have "task_inv V dev old base es P R ?t s" by (rule task_inv_task [OF assms(3)]) simp_all
  then have i: "task_inv V dev old base es P R ?t ?s" by (rule task_inv_frame) auto
  obtain g s1 where g: "parked_gate k ev ?t ?s = (g, s1)" by fastforce
  have i1: "task_inv V dev old base es P R ?t s1"
    by (rule task_inv_frame [OF i]) (use gate_frame [of k ev ?t ?s] g in auto)
  show ?thesis
  proof (cases "unknown_request ?t ev ?s \<or> g = None")
    case True
    then have "on_event V k ev t s = (Running ?t, ?s) \<or> on_event V k ev t s = (Running ?t, s1)"
      using g by (auto simp: on_event_def Let_def)
    then show ?thesis using outcome_run [OF mono [OF i]] outcome_run [OF mono [OF i1]] by auto
  next
    case False
    then obtain t1 where t1: "parked_gate k ev ?t ?s = (Some t1, s1)" using g by auto
    have ok1: "task_ok t1" by (rule parked_gate_ok [OF _ t1]) (use i in \<open>simp add: task_inv_def\<close>)
    have e1: "rt_start t1 = rt_start t" "rt_folded t1 = rt_folded t" "rt_writer t1 = rt_writer t"
      "rt_seen_tools t1 = rt_seen_tools t"
      "rt_entry_id t1 = rt_entry_id t \<and> rt_segment_started t1 = rt_segment_started t \<or>
       rt_idle_since ?t \<noteq> None \<and> rt_segment_started t1 = ck_now_ms k"
      using parked_gate_task [OF t1] by auto
    have "rt_entry_id t1 = rt_entry_id ?t \<and> rt_segment_started t1 = rt_segment_started ?t \<or>
        rt_writer ?t = None \<and> i64_ok (rt_segment_started t1)"
      using e1(5) i assms(2) by (auto simp: task_inv_def task_ok_def tick_ok_def)
    from task_inv_task [OF i1 ok1 _ _ _ _ this] e1 have i2: "task_inv V dev old base es P R t1 s1" by simp
    show ?thesis
    proof (cases "heartbeat_event ev \<or> echo_gate ev t1 = None")
      case True
      then have "on_event V k ev t s = (Running t1, s1)" using False t1 by (auto simp: on_event_def Let_def)
      then show ?thesis using outcome_run [OF mono [OF i2] e1(1)] by simp
    next
      case go: False
      then obtain t2 where t2: "echo_gate ev t1 = Some t2" by auto
      from echo_gate_task [OF t2] obtain seen where
        e2: "t2 = t1\<lparr>rt_seen_tools := seen\<rparr>" "set (rt_seen_tools t1) \<subseteq> set seen" by blast
      have ok2: "task_ok t2 \<and> rt_idle_since t2 = None \<and> echo_ok ev t2"
        by (rule gates_ok [OF _ t1 t2]) (use i in \<open>simp add: task_inv_def\<close>)
      have i3: "task_inv V dev old base es P R t2 s1"
        by (rule task_inv_task [OF i2]) (use ok2 e2 in simp_all)
      have c: "chip_new es ev (rt_folded t2)" by (rule echo_chip [OF t2, where P = P]) (use i2 in \<open>simp add: task_inv_def\<close>)
      have "on_event V k ev t s = accept_event V k ev t2 s1" using False go t1 t2 by (simp add: on_event_def Let_def)
      moreover have "rt_start t2 = rt_start t" by (simp add: e1 e2)
      ultimately show ?thesis
        using accept_event_inv [OF assms(1,2) i3 _ _ c assms(4)] ok2 by simp
    qed
  qed
qed

subsection \<open>The calls of other tasks\<close>

lemma frame_turns [simp]:
  "sn_docs (note_turn_start c w s) = sn_docs s" "sn_device_id (note_turn_start c w s) = sn_device_id s"
  "sn_journal (note_turn_start c w s) = sn_journal s" "sn_cells (note_turn_start c w s) = sn_cells s"
  "sn_runs (note_turn_start c w s) = sn_runs s" "sn_statuses (note_turn_start c w s) = sn_statuses s"
  "sn_last_requests (note_turn_start c w s) = sn_last_requests s"
  by (simp_all add: note_turn_start_def)

lemma write_user_inv:
  assumes "run_env_ok V" "tick_ok k" "task_inv V dev old base es P R t s"
  shows "task_inv V dev old base es P R t (snd (write_user_entry V k (rt_chat_id t) i m s))"
proof (cases "doc_handle (rt_chat_id t) s")
  case (Inl e)
  with assms(3) show ?thesis by (simp add: write_user_entry_def)
next
  case (Inr d)
  then have d: "sn_docs s (rt_chat_id t) = Inr d" by (simp add: doc_handle_def split: if_splits)
  with assms(3) have "doc_open V dev old es t d" by (simp add: task_inv_def)
  from user_writes [OF _ this, of "ck_now_ms k" "sn_device_id s" i m] assms(1,2) obtain d' where
    d': "write_user_message V (sn_device_id s) i m (ck_now_ms k) d = (Inr (), d')" "doc_open V dev old es t d'"
    by (auto simp: run_env_ok_def tick_ok_def)
  have "write_user_entry V k (rt_chat_id t) i m s = (Inr (), put_doc (rt_chat_id t) d' s)"
    using Inr d'(1) by (simp add: write_user_entry_def)
  moreover have "task_inv V dev old base es P R t (put_doc (rt_chat_id t) d' s)"
    using assms(3) d'(2) by (auto simp: task_inv_def put_doc_def journaled_def)
  ultimately show ?thesis by simp
qed

lemma steer_inv:
  assumes "run_env_ok V" "tick_ok k" "task_inv V dev old base es P R t s"
  shows "task_inv V dev old base es P R t (snd (steer V alone k (rt_chat_id t) prompt m s))"
proof (cases "live_run (rt_chat_id t) s")
  case None
  with assms(3) show ?thesis by (simp add: steer_def)
next
  case (Some h)
  let ?M = "\<lparr>sm_prompt = prompt, sm_message_id = m\<rparr>"
  show ?thesis
  proof (cases "if rh_steerable h then try_send (rh_run_id h) ?M s else None")
    case None
    with Some assms(3) show ?thesis by (auto simp: steer_def split: if_splits)
  next
    case S: (Some s1)
    obtain user s2 where u: "or_new_id m s1 = (user, s2)" by fastforce
    let ?s3 = "push_ledger (rh_run_id h) \<lparr>rs_prompt = prompt, rs_message_id = user\<rparr> s2"
    obtain r s4 where w: "write_user_entry V k (rt_chat_id t) user prompt ?s3 = (r, s4)" by fastforce
    have s1: "s1 = upd_cell (rh_run_id h) (\<lambda>c. c\<lparr>rc_mailbox := rc_mailbox c @ [?M]\<rparr>) s"
      using S by (auto simp: try_send_def Let_def split: if_splits)
    have "task_inv V dev old base es P R t s1" by (rule task_inv_frame [OF assms(3)]) (auto simp: s1)
    then have "task_inv V dev old base es P R t s2"
      by (rule task_inv_frame) (use frame_or_new_id [of m s1] u in auto)
    then have "task_inv V dev old base es P R t ?s3" by (rule task_inv_frame) (auto simp: push_ledger_def)
    from write_user_inv [OF assms(1,2) this, of user prompt] w have i4: "task_inv V dev old base es P R t s4" by simp
    have fin: "sn_docs (snd (steer V alone k (rt_chat_id t) prompt m s)) = sn_docs s4 \<and>
        sn_device_id (snd (steer V alone k (rt_chat_id t) prompt m s)) = sn_device_id s4 \<and>
        sn_journal (snd (steer V alone k (rt_chat_id t) prompt m s)) = sn_journal s4 \<and>
        (\<forall>r. rc_engine_rx (sn_cells (snd (steer V alone k (rt_chat_id t) prompt m s)) r) = rc_engine_rx (sn_cells s4 r))"
      using Some S u w
      by (cases r; cases "map_of (sn_last_requests s4) (rt_chat_id t)")
         (auto simp: steer_def alone_def Let_def reclaim_def split: if_splits prod.splits)
    show ?thesis by (rule task_inv_frame [OF i4]) (use fin in auto)
  qed
qed

lemma interrupt_inv: "task_inv V dev old base es P R t s \<Longrightarrow> task_inv V dev old base es P R t (snd (interrupt alone c s))"
  by (erule task_inv_frame) (auto simp: interrupt_def alone_def split: option.splits)

lemma respond_inv: "task_inv V dev old base es P R t s \<Longrightarrow> task_inv V dev old base es P R t (snd (respond_input c i as s))"
  by (erule task_inv_frame) (auto simp: respond_input_def is_question_def split: option.splits if_splits)

lemma ask_inv: "task_inv V dev old base es P R t s \<Longrightarrow> task_inv V dev old base es P R t (request_input r qs s)"
  by (erule task_inv_frame) (auto simp: request_input_def new_id_def is_question_def split: if_splits)

subsection \<open>Runs\<close>

fun action_result :: "run_action \<Rightarrow> string list" where
  "action_result (Loop (InStream ev)) = result_id ev"
| "action_result _ = []"

lemma flush_inv:
  assumes "run_env_ok V" "task_inv V dev old base es P R t s" "rt_folded t \<noteq> []" "flush_current V t s = (t', s')"
  shows "task_inv V dev old base es P R t' s' \<and> rt_start t' = rt_start t"
proof -
  from assms(2) obtain d where d: "sn_docs s (rt_chat_id t) = Inr d" "doc_open V dev old es t d" by (auto simp: task_inv_def)
  have i: "task_ok t" "sn_device_id s = dev" using assms(2) by (simp_all add: task_inv_def)
  from sync_writes [OF _ d(2) task_okD(4) [OF i(1)] assms(3), of False] assms(1) obtain d' w where
    w: "sync_segment V (rt_writer t) (rt_entry_id t) dev (rt_segment_started t) (rt_folded t) d = (Inr (), Some w, d')"
      "doc_open V dev old es (t\<lparr>rt_writer := Some w, rt_dirty := False\<rparr>) d'" by (auto simp: run_env_ok_def)
  have e: "t' = t\<lparr>rt_writer := Some w, rt_dirty := False\<rparr>" "s' = put_doc (rt_chat_id t) d' s"
    using assms(4) d(1) w(1) i(2) by (auto simp: flush_current_def)
  have "task_ok t'" using flush_current_ok [OF i(1) assms(3), of V s] assms(4) by simp
  then show ?thesis using assms(2) w(2) by (auto simp: task_inv_def e put_doc_def journaled_def)
qed

lemma question_result: "is_question ev \<Longrightarrow> result_id ev = []"
  by (simp add: is_question_def result_id_def split: agent_event.splits)

lemma task_step_inv:
  assumes "run_env_ok V" "tick_ok k" "task_inv V dev old base es P R t s" "enabled K k i t s"
    "set (action_result (Loop i)) \<inter> R = {}"
  shows "outcome_inv V dev old base (R \<union> set (action_result (Loop i))) (rt_start t) (task_step V k i t s)"
proof -
  have ok: "task_ok t" using assms(3) by (simp add: task_inv_def)
  have over: "outcome_inv V dev old base R (rt_start t) (end_run k t SsIdle s')"
    if "rt_idle_since t \<noteq> None" "sn_docs s' = sn_docs s" "sn_journal s' = sn_journal s" for s'
    using run_left_frame [OF inv_over [OF assms(3) task_okD(1) [OF ok that(1)]] that(2,3)] by (rule outcome_end)
  have ev: "outcome_inv V dev old base R (rt_start t) (on_event V k ev t s')"
    if "result_id ev = []" "task_inv V dev old base es P R t s'" for ev s'
    using on_event_inv [OF assms(1,2) that(2), of ev] that(1) by simp
  show ?thesis
  proof (cases i)
    case InCancel
    have "task_ok (t\<lparr>rt_interrupted := True, rt_interrupt_deadline := Some (ck_instant k + interrupt_grace)\<rparr>)"
      using ok by (simp add: task_ok_def)
    from task_inv_task [OF assms(3) this] InCancel show ?thesis by (simp add: outcome_run)
  next
    case InHeartbeat
    have "task_inv V dev old base es P R t (touch_session k (rt_chat_id t) s)"
      by (rule task_inv_frame [OF assms(3)]) auto
    with InHeartbeat show ?thesis by (simp add: outcome_run)
  next
    case InEngine
    then obtain e rest where e: "rc_engine_rx (sn_cells s (rt_run_id t)) = e # rest"
      using assms(4) by (cases "rc_engine_rx (sn_cells s (rt_run_id t))") auto
    with assms(3) have "is_question e" by (simp add: task_inv_def)
    moreover have "task_inv V dev old base es P R t (upd_cell (rt_run_id t) (\<lambda>c. c\<lparr>rc_engine_rx := rest\<rparr>) s)"
      by (rule task_inv_frame [OF assms(3)]) (use e in auto)
    ultimately show ?thesis using e InEngine ev question_result by simp
  next
    case InFlush
    then have "rt_folded t \<noteq> []" using ok assms(4) by (simp add: task_ok_def)
    from flush_inv [OF assms(1,3) this] InFlush show ?thesis
      by (cases "flush_current V t s") (auto intro: outcome_run)
  next
    case InQuiesce
    from quiesce_inv [OF assms(1-3)] InQuiesce show ?thesis
      by (cases "quiesce V k t s") (fastforce intro: outcome_run)
  next
    case (InStream e)
    then show ?thesis using on_event_inv [OF assms(1-3), of e] assms(5) by simp
  next
    case InReap
    then show ?thesis using assms(4) over by (auto split: option.splits)
  qed (use over ev assms(3) in \<open>auto simp: result_id_def interrupted_done_def errored_done_def\<close>)
qed

lemma act_step_inv:
  assumes "run_env_ok V" "tick_ok k" "task_inv V dev old base es P R t s" "set (action_result a) \<inter> R = {}"
  shows "outcome_inv V dev old base (R \<union> set (action_result a)) (rt_start t) (act_step V K k a t s)"
proof (cases a)
  case (Loop i)
  show ?thesis
  proof (cases "enabled K k i t s")
    case True
    then show ?thesis using task_step_inv [OF assms(1-3) True] assms(4) Loop by simp
  next
    case False
    have "task_inv V dev old base es P (R \<union> set (action_result a)) t s"
      using assms(3) by (auto simp: task_inv_def stats_within_def)
    then show ?thesis using False Loop by (simp add: outcome_run)
  qed
qed (use assms steer_inv interrupt_inv respond_inv ask_inv in \<open>auto intro!: outcome_run\<close>)

fun results_of :: "(tick \<times> run_action) list \<Rightarrow> string list" where
  "results_of [] = []"
| "results_of ((k, a) # acts) = action_result a @ results_of acts"

fun ticks_ok :: "(tick \<times> run_action) list \<Rightarrow> bool" where
  "ticks_ok [] \<longleftrightarrow> True"
| "ticks_ok ((k, a) # acts) \<longleftrightarrow> tick_ok k \<and> ticks_ok acts"

lemma task_steps_inv:
  assumes "run_env_ok V" "ticks_ok acts" "task_inv V dev old base es P R t s" "distinct (results_of acts)"
    "set (results_of acts) \<inter> R = {}"
  shows "\<exists>R'. outcome_inv V dev old base R' (rt_start t) (task_steps V K acts t s)"
  using assms(2-5)
proof (induction acts arbitrary: es P R t s)
  case Nil
  then show ?case by (auto intro: outcome_run)
next
  case (Cons ka acts)
  obtain k a where ka: "ka = (k, a)" by fastforce
  have k: "tick_ok k" "set (action_result a) \<inter> R = {}" using Cons.prems(1,4) by (auto simp: ka)
  obtain o1 s1 where st: "act_step V K k a t s = (o1, s1)" by fastforce
  from act_step_inv [OF assms(1) k(1) Cons.prems(2) k(2), of K]
  have i: "outcome_inv V dev old base (R \<union> set (action_result a)) (rt_start t) (o1, s1)" by (simp add: st)
  show ?case
  proof (cases o1)
    case (Running t1)
    with i obtain es1 P1 where 1: "task_inv V dev old base es1 P1 (R \<union> set (action_result a)) t1 s1" "rt_start t1 = rt_start t"
      by (auto simp: outcome_inv_def)
    have "set (results_of acts) \<inter> (R \<union> set (action_result a)) = {}" using Cons.prems(3,4) by (auto simp: ka)
    from Cons.IH [OF _ 1(1) _ this] 1(2) Cons.prems(1,3) show ?thesis by (simp add: ka st Running)
  next
    case Ended
    with i show ?thesis by (auto simp: ka st outcome_inv_def)
  qed
qed

subsection \<open>The transcript is the journal\<close>

lemma norm_text [simp]: "text_of (map norm_part ps) = text_of ps"
  by (rule text_of_map(1); simp add: text_of_def commentary_of_def split: message_part.split)

lemma norm_tool_ids [simp]: "tool_ids (map norm_part ps) = tool_ids ps"
  by (rule tool_ids_map) (simp add: tool_ids_def split: message_part.split)

lemma norm_entries:
  "entries_text (map norm_entry es) = entries_text es" "chips (map norm_entry es) [] = chips es []"
  "list_all settled (map norm_entry es) = list_all settled es"
  by (induction es) (simp_all add: entries_text_def chips_def norm_entry_def settled_def)

lemma journaled_replay:
  assumes "journaled V c P s"
  shows "\<exists>evs. replay (sv_journal V) c 0 (sn_journal s) = Inr evs \<and> map snd evs = P"
proof -
  from assms obtain evs ls u where i: "journal_inv (sv_journal V) c evs (sn_journal s) ls u" "map snd evs = P"
    by (auto simp: journaled_def)
  have n: "map fst evs = [1..<1 + length evs]" using i(1) by (simp add: journal_inv_def)
  have f: "filter (\<lambda>(sq, _). sq > 0) evs = evs" using filter_seq [OF n, of 0] by simp
  show ?thesis
  proof (cases "map_of (rj_dir (sn_journal s)) (path_for c)")
    case None
    with i have "evs = []" by (auto simp: journal_inv_def evs_of_def torn_lines_def)
    with None i(2) show ?thesis by (simp add: replay_def read_lines_def)
  next
    case (Some bs)
    with inv_reads [OF i(1)] f i(2) show ?thesis by (simp add: replay_def Let_def)
  qed
qed

lemma first_inv:
  assumes "tick_ok k" "sn_docs s (st_chat_id st) = Inr d"
    "tree_at [Key ''messages''] (ld_tree (sv_loro V) d) = Some (TList ts)"
    "journaled V (st_chat_id st) base s" "rc_engine_rx (sn_cells s (st_run_id st)) = []"
  shows "task_inv V (sn_device_id s) (read_entries (sv_loro V) (sv_codec V) (sv_hash V) d) base [] []
    {} (first_task k st i) s"
proof -
  have "shown V ts = read_entries (sv_loro V) (sv_codec V) (sv_hash V) d"
    using assms(3) by (simp add: shown_def read_entries_def root_list_def)
  then have "shows_run V (read_entries (sv_loro V) (sv_codec V) (sv_hash V) d) [] ts" by (auto simp: shows_run_def)
  moreover have "rt_start (first_task k st i) = st" "rt_writer (first_task k st i) = None"
    "rt_folded (first_task k st i) = []" "rt_segment_started (first_task k st i) = ck_now_ms k"
    by (simp_all add: first_task_def)
  ultimately show ?thesis using assms first_task_ok [of k st i]
    by (auto simp: task_inv_def doc_open_def content_ok_def stats_within_def entries_text_def events_text_def chips_def
        text_of_append tick_ok_def)
qed


subsection \<open>A complete run\<close>

instance message_status :: countable by countable_datatype

instance slash_command_ext :: (countable) countable
  by (rule countable_classI [of "\<lambda>r. to_nat (sc_name r, sc_description r, sc_input_hint r, slash_command.more r)"])
    (auto intro: slash_command.equality)

instance done_status :: countable by countable_datatype

instance notice_level :: countable by countable_datatype

instance agent_event :: countable by countable_datatype

text \<open>A journal codec for every event: its number in unary, closed by a stop.\<close>

definition unary_codec :: journal_codec where
  "unary_codec =
     \<lparr>jc_to_string = (\<lambda>p. Inr (replicate (to_nat p) CHR ''a'' @ ''.'')),
      jc_from_str = (\<lambda>l. if l \<noteq> [] \<and> last l = CHR ''.'' then Some (from_nat (length l - 1)) else None)\<rparr>"

lemma utf8_plain: "c = CHR ''a'' \<or> c = CHR ''.'' \<Longrightarrow> utf8_valid (c # r) = utf8_valid r"
  by (elim disjE; simp add: utf8_valid.simps [of "CHR ''a'' # r"] utf8_valid.simps [of "CHR ''.'' # r"] byte_in_def)

lemma plain_line:
  assumes "l \<noteq> []" "set l \<subseteq> {CHR ''a'', CHR ''.''}"
  shows "clean l"
proof -
  have "utf8_valid l" using assms(2)
    by (induction l) (simp_all add: utf8_plain)
  moreover from assms obtain c r where c: "l = c # r" "c = CHR ''a'' \<or> c = CHR ''.''" by (cases l) auto
  have "ws_at_start l = None" using c(2) unfolding c(1) by (elim disjE) (simp_all add: ws_at_start_def ws_enc_def)
  then have "trim_start l = l" by (subst trim_start.simps) simp
  moreover from assms obtain r e where e: "l = r @ [e]" "e = CHR ''a'' \<or> e = CHR ''.''" by (cases l rule: rev_cases) auto
  have "ws_at_end l = None" using e(2) unfolding e(1) by (elim disjE) (simp_all add: ws_at_end_def ws_enc_def suffix_snoc snoc_eq_iff_butlast)
  then have "trim_end l = l" by (subst trim_end.simps) simp
  ultimately show ?thesis using assms by (auto simp: clean_def newline_def is_blank_def str_trim_def)
qed

lemma unary_codec_total: "codec_total unary_codec"
proof -
  have "clean l \<and> jc_from_str unary_codec l = Some p \<and>
      (\<forall>m. 0 < m \<and> m < length l \<longrightarrow> jc_from_str unary_codec (take m l) = None \<and> \<not> is_blank (take m l))"
    if "jc_to_string unary_codec p = Inr l" for p l
  proof -
    have l: "l = replicate (to_nat p) CHR ''a'' @ ''.''" using that by (simp add: unary_codec_def)
    have "clean (take m l)" if "0 < m" for m
      by (rule plain_line) (use that l in \<open>auto dest!: in_set_takeD\<close>)
    then have "\<not> is_blank (take m l)" if "0 < m" for m using that by (simp add: clean_def)
    moreover have "clean l" by (rule plain_line) (auto simp: l)
    moreover have "jc_from_str unary_codec l = Some p" by (simp add: l unary_codec_def)
    moreover have "jc_from_str unary_codec (take m l) = None" if "0 < m" "m < length l" for m
      using that l by (cases m) (auto simp: unary_codec_def simp flip: replicate_Suc)
    ultimately show ?thesis by blast
  qed
  then show ?thesis by (simp add: codec_total_def codec_ok_def) (simp add: unary_codec_def)
qed

definition demo_session_env :: "ltree session_env" where
  "demo_session_env =
     \<lparr>sv_loro = tree_ops, sv_codec = number_codec, sv_hash = (\<lambda>_. 0), sv_differ = (\<lambda>_ _. (0, 0)),
      sv_journal = unary_codec, sv_home = ''/root'', sv_resolve = (\<lambda>h. Inr (h, False))\<rparr>"

lemma demo_session_env_ok: "run_env_ok demo_session_env"
  by (simp add: run_env_ok_def env_ok_def demo_session_env_def tree_ops_ok number_codec_ok unary_codec_total)

definition demo_request :: run_request where
  "demo_request = \<lparr>rq_prompt = ''go'', rq_harness = None, rq_model = None, rq_reasoning = None,
     rq_model_options = [], rq_cwd = ''/w'', rq_sandbox = WorkspaceWrite, rq_auto_approve = False,
     rq_resume = None, rq_attachments = []\<rparr>"

definition demo_start :: resume_state where
  "demo_start = \<lparr>st_chat_id = ''c'', st_run_id = ''r'', st_harness = Mock, st_steerable = False,
     st_request = demo_request, st_user_message_id = ''u'', st_resume_injected = False, st_startup_retry = False\<rparr>"

definition demo_sessions :: "ltree sessions" where
  "demo_sessions =
     \<lparr>sn_device_id = ''d'', sn_journal = journal_open [], sn_doc_host = True, sn_docs = (\<lambda>_. Inr demo_chat),
      sn_workspace = None, sn_runs = [(''c'', \<lparr>rh_run_id = ''r'', rh_steerable = False\<rparr>)],
      sn_cells = (\<lambda>_. fresh_cell), sn_hubs = [], sn_statuses = [], sn_sessions_tx = [], sn_last_requests = [],
      sn_harness_sessions = [], sn_titles = None, sn_turns = None, sn_new_ids = (\<lambda>n. dec n), sn_next_id = 0,
      sn_spawned = []\<rparr>"

definition tick_at :: "nat \<Rightarrow> tick" where
  "tick_at ms = \<lparr>ck_now = int ms * 1000000, ck_instant = ms, ck_fault = None\<rparr>"

definition demo_acts :: "(tick \<times> run_action) list" where
  "demo_acts =
     [(tick_at 1, Loop (InStream (TextDelta ''hi''))),
      (tick_at 200, Loop InHeartbeat),
      (tick_at 300, Loop (InStream (Done Completed None None None)))]"

definition demo_knobs :: run_knobs where
  "demo_knobs = \<lparr>kn_turn_quiesce = None, kn_self_turn_quiesce = None\<rparr>"

definition demo_task :: run_task where
  "demo_task = first_task (tick_at 0) demo_start (fst (new_id demo_sessions))"

lemma demo_begin:
  "run_begin demo_session_env (tick_at 0) demo_start (Inr ()) demo_sessions = (Running demo_task, snd (new_id demo_sessions))"
  by (simp add: run_begin_started demo_task_def)

lemma text_event:
  assumes "rt_idle_since t = None" "rt_folded t = []"
  shows "\<exists>t' s'. on_event V k (TextDelta m) t s = (Running t', s') \<and> rt_idle_since t' = None \<and>
    rt_start t' = rt_start t"
  using assms by (simp add: on_event_def unknown_request_def parked_gate_def heartbeat_event_def echo_gate_def
      accept_event_def dies_at_startup_def note_event_def fold_event_def is_session_started_def arm_flush_def Let_def)

lemma done_event:
  assumes "rt_idle_since t = None" "\<not> rt_steerable t"
  shows "\<exists>s'. on_event V k (Done Completed a b c) t s = (Ended, s')"
proof -
  let ?ev = "Done Completed a b c" and ?t = "t\<lparr>rt_last_stream_activity := ck_instant k\<rparr>"
  let ?s = "touch_session k (rt_chat_id t) s"
  obtain t1 s1 where d: "digest V k ?ev ?t ?s = (t1, s1)" by fastforce
  obtain t2 s2 where c: "close_turn V k Completed t1 s1 = (t2, s2)" by fastforce
  have "rt_start t2 = rt_start t" using close_turn_task [of V k Completed t1 s1] c digest_start [OF d] by simp
  with assms(2) c end_run_ended [of k t2 SsIdle s2] have "fst (turn_done V k Completed t1 s1) = Ended"
    by (simp add: turn_done_def)
  moreover have "on_event V k ?ev t s = turn_done V k Completed t1 s1"
    using assms(1) d by (simp add: on_event_def unknown_request_def parked_gate_def heartbeat_event_def echo_gate_def
        accept_event_cases dies_at_startup_def Let_def)
  ultimately show ?thesis by (metis prod.collapse)
qed

lemma demo_run: "\<exists>s2. task_steps demo_session_env demo_knobs demo_acts demo_task (snd (new_id demo_sessions)) = (Ended, s2)"
proof -
  let ?s = "snd (new_id demo_sessions)"
  have t: "rt_idle_since demo_task = None" "rt_folded demo_task = []" "rt_start demo_task = demo_start"
    by (simp_all add: demo_task_def first_task_def)
  from text_event [OF t(1,2), of demo_session_env "tick_at 1" "''hi''" ?s] obtain t1 s1 where
    1: "on_event demo_session_env (tick_at 1) (TextDelta ''hi'') demo_task ?s = (Running t1, s1)"
      "rt_idle_since t1 = None" "rt_start t1 = demo_start" using t(3) by auto
  have "\<not> rt_steerable t1" by (simp add: 1 demo_start_def)
  from done_event [OF 1(2) this, of demo_session_env "tick_at 300" None None None "touch_session (tick_at 200) (rt_chat_id t1) s1"]
  obtain s2 where "on_event demo_session_env (tick_at 300) (Done Completed None None None) t1
      (touch_session (tick_at 200) (rt_chat_id t1) s1) = (Ended, s2)" by blast
  then show ?thesis using 1(1) by (simp add: demo_acts_def)
qed


end
