(* ===== verification/Engine_Steers.thy ===== *)
theory Engine_Steers
  imports Engine_Transcript
begin

text \<open>
  What becomes of the steers a run accepts, of a stop, and of a run's state over all its steps. A steer
  is put into the run's mailbox and into a ledger; a steer boundary retires the oldest entry, and the
  exit of the run dispatches again what is left.
\<close>

subsection \<open>What a step leaves of a run's account\<close>

text \<open>The live runs, the tasks spawned, the ledger of the run, its cancel watch and the engine's events for it.\<close>

definition account :: "string \<Rightarrow> 'd sessions \<Rightarrow> (string \<times> run_handle) list \<times> spawned list \<times> routed_steer list \<times> bool \<times> agent_event list" where
  "account r s = (sn_runs s, sn_spawned s, rc_routed_steers (sn_cells s r), rc_cancel (sn_cells s r), rc_engine_rx (sn_cells s r))"

text \<open>What the loop keeps of its own state: how it started and whether it was stopped.\<close>

definition standing :: "run_task \<Rightarrow> resume_state \<times> bool \<times> nat option" where
  "standing t = (rt_start t, rt_interrupted t, rt_interrupt_deadline t)"

lemma account_live: "account r s' = account r s \<Longrightarrow> is_live c x s' = is_live c x s"
  by (simp add: account_def is_live_def live_run_def)

lemma account_simps [simp]:
  "account r (touch_session k c s) = account r s" "account r (set_status k c st f s) = account r s"
  "account r (preview_message k c m s) = account r s" "account r (remember_harness_session c i w s) = account r s"
  "account r (publish V k c ev s) = account r s" "account r (snd (new_id s)) = account r s"
  "account r (snd (or_new_id mid s)) = account r s" "account r (maybe_generate c h p w s) = account r s"
  "account r (put_doc c d s) = account r s" "account r (s\<lparr>sn_journal := j\<rparr>) = account r s"
  "account r (snd (note_event k ev t s)) = account r s" "account r (drain_questions t s) = account r s"
  by (simp_all add: account_def drain_questions_def)

lemma account_finish [simp]: "account r (snd (finish_current V st t s)) = account r s"
  by (simp add: finish_current_def split: sum.split)

lemma account_flush [simp]: "account r (snd (flush_current V t s)) = account r s"
  by (simp add: flush_current_def split: sum.split prod.split)

lemma account_park [simp]: "account r (snd (park k t s)) = account r s"
  by (simp add: park_def split_beta)

lemma account_quiesce [simp]: "account r (snd (quiesce V k t s)) = account r s"
  by (simp add: quiesce_def split_beta)

lemma account_close [simp]: "account r (snd (close_turn V k st t s)) = account r s"
  by (simp add: close_turn_def Let_def split_beta)

lemma account_digest [simp]: "account r (snd (digest V k ev t s)) = account r s"
  by (simp add: digest_def split_beta)

lemma account_gate [simp]: "account r (snd (parked_gate k ev t s)) = account r s"
  by (cases "rt_idle_since t"; cases ev; simp add: parked_gate_def split_beta)
     (auto simp: account_def split: option.split)

lemma standing_simps [simp]:
  "standing (t\<lparr>rt_last_stream_activity := n\<rparr>) = standing t" "standing (t\<lparr>rt_saw_session_started := b\<rparr>) = standing t"
  "standing (t\<lparr>rt_idle_since := i\<rparr>) = standing t" "standing (t\<lparr>rt_seen_tools := ss\<rparr>) = standing t"
  "standing (t\<lparr>rt_self_continued_turn := b\<rparr>) = standing t" "standing (t\<lparr>rt_writer := w\<rparr>) = standing t"
  "standing (t\<lparr>rt_folded := ps\<rparr>) = standing t" "standing (t\<lparr>rt_entry_id := e\<rparr>) = standing t"
  "standing (t\<lparr>rt_segment_started := x\<rparr>) = standing t" "standing (t\<lparr>rt_dirty := b\<rparr>) = standing t"
  "standing (new_segment k e t) = standing t" "standing (arm_flush k t) = standing t"
  "standing (fst (finish_current V st t s)) = standing t" "standing (fst (park k t s)) = standing t"
  "standing (fst (note_event k ev t s)) = standing t" "standing (fold_event V ev t) = standing t"
  by (auto simp: standing_def new_segment_def arm_flush_def finish_current_def park_def note_event_def fold_event_def
      split: prod.split agent_event.split option.split)

lemma standing_flush [simp]: "standing (fst (flush_current V t s)) = standing t"
  by (simp add: flush_current_def standing_def split: sum.split prod.split)

lemma standing_quiesce [simp]: "standing (fst (quiesce V k t s)) = standing t"
  by (simp add: quiesce_def split_beta)

lemma standing_close [simp]: "standing (fst (close_turn V k st t s)) = standing t"
  by (simp add: close_turn_task)

lemma standing_digest [simp]: "standing (fst (digest V k ev t s)) = standing t"
  by (simp add: digest_def split_beta)

lemma standing_gate: "parked_gate k ev t s = (Some t', s') \<Longrightarrow> standing t' = standing t"
  by (drule parked_gate_task) (auto simp: standing_def)

lemma standing_echo: "echo_gate ev t = Some t' \<Longrightarrow> standing t' = standing t"
  by (drule echo_gate_task) (auto simp: standing_def)

subsection \<open>Every accepted steer is confirmed or dispatched again\<close>

text \<open>The task spawned for what is left in the ledger.\<close>

definition orphan_task :: "resume_state \<Rightarrow> routed_steer list \<Rightarrow> spawned list" where
  "orphan_task st ms = (if ms = [] then [] else [SpawnOrphans (st_chat_id st) (st_harness st) ms])"

text \<open>A run that nobody stopped, with \<open>base\<close> spawned before and \<open>ms\<close> in its ledger; and what it leaves.\<close>

definition unstopped :: "resume_state \<Rightarrow> spawned list \<Rightarrow> routed_steer list \<Rightarrow> run_task \<Rightarrow> 'd sessions \<Rightarrow> bool" where
  "unstopped st base ms t s \<longleftrightarrow>
     rt_start t = st \<and> \<not> rt_interrupted t \<and> is_live (st_chat_id st) (st_run_id st) s \<and> sn_spawned s = base \<and>
     rc_routed_steers (sn_cells s (st_run_id st)) = ms \<and> \<not> rc_cancel (sn_cells s (st_run_id st)) \<and>
     (\<forall>ev \<in> set (rc_engine_rx (sn_cells s (st_run_id st))). is_question ev)"

definition steers_kept :: "resume_state \<Rightarrow> spawned list \<Rightarrow> routed_steer list \<Rightarrow> run_outcome \<times> 'd sessions \<Rightarrow> bool" where
  "steers_kept st base ms r \<longleftrightarrow>
     (case r of (Running t, s) \<Rightarrow> unstopped st base ms t s
      | (Ended, s) \<Rightarrow> \<not> is_live (st_chat_id st) (st_run_id st) s \<and> sn_spawned s = base @ orphan_task st ms)"

lemma kept_running: "unstopped st base ms t s \<Longrightarrow> steers_kept st base ms (Running t, s)"
  by (simp add: steers_kept_def)

lemma unstopped_step:
  assumes "unstopped st base ms t s" "account (st_run_id st) s' = account (st_run_id st) s" "standing t' = standing t"
  shows "unstopped st base ms t' s'"
  using assms account_live [OF assms(2)] by (simp add: unstopped_def account_def standing_def)

lemma unstopped_cell:
  "unstopped st base ms t s \<Longrightarrow> 
     (\<And>c. rc_routed_steers (f c) = rc_routed_steers c \<and> rc_cancel (f c) = rc_cancel c \<and>
        set (rc_engine_rx (f c)) \<subseteq> set (rc_engine_rx c) \<union> Collect is_question) \<Longrightarrow>
     unstopped st base ms t (upd_cell r f s)"
  by (fastforce simp: unstopped_def is_live_def live_run_def)

lemma end_run_kept:
  assumes "unstopped st base ms t s"
  shows "steers_kept st base ms (end_run k t fin s)"
proof -
  let ?c = "st_chat_id st" and ?r = "st_run_id st"
  have c: "claim_steers t s = (ms, upd_cell ?r (\<lambda>c. c\<lparr>rc_routed_steers := []\<rparr>) s)" "rt_start t = st" "\<not> rt_interrupted t"
    using assms by (auto simp: claim_steers_def unstopped_def)
  have "\<not> is_live ?c ?r (settle_run k t fin ms s')" for s' :: "'a sessions"
  proof -
    have "sn_runs (settle_run k t fin ms s') = sn_runs (remove_run ?c ?r s')" by (simp add: settle_run_def c Let_def)
    then show ?thesis using remove_run_not_live [of ?c ?r s'] is_live_cong by blast
  qed
  moreover have "sn_spawned (settle_run k t fin ms s') = sn_spawned s' @ orphan_task st ms" for s' :: "'a sessions"
    by (simp add: settle_run_def orphan_task_def c Let_def)
  ultimately show ?thesis using assms c(1) by (simp add: steers_kept_def end_run_def unstopped_def)
qed

lemma turn_done_kept:
  assumes "unstopped st base ms t s"
  shows "steers_kept st base ms (turn_done V k d t s)"
proof -
  obtain t1 s1 where c: "close_turn V k d t s = (t1, s1)" by fastforce
  have u: "unstopped st base ms t1 s1"
    by (rule unstopped_step [OF assms]) (use c account_close [of "st_run_id st" V k d t s] standing_close [of V k d t s] in auto)
  have "unstopped st base ms (fst (park k (t1\<lparr>rt_saw_session_started := True\<rparr>) s1)) (snd (park k (t1\<lparr>rt_saw_session_started := True\<rparr>) s1))"
    by (rule unstopped_step [OF u]) simp_all
  then show ?thesis using end_run_kept [OF u] by (simp add: turn_done_def c kept_running split_beta)
qed

lemma steer_boundary_kept:
  assumes "unstopped st base ms t s"
  shows "steers_kept st base (tl ms) (let (t, s) = steer_boundary V k ev n t s in (Running t, s))"
proof -
  let ?t1 = "t\<lparr>rt_self_continued_turn := False\<rparr>" and ?s1 = "publish V k (rt_chat_id t) ev s"
  obtain t2 s2 where f: "finish_current V MsComplete ?t1 ?s1 = (t2, s2)" by fastforce
  let ?s3 = "preview_message k (rt_chat_id t2) (folded_text (rt_folded t2)) s2"
  obtain i s4 where n: "or_new_id n ?s3 = (i, s4)" by fastforce
  let ?t5 = "new_segment k i t2" let ?s5 = "set_status k (rt_chat_id ?t5) SsWorking True s4"
  have a: "account (st_run_id st) ?s5 = account (st_run_id st) s" "standing ?t5 = standing t"
    using account_finish [of "st_run_id st" V MsComplete ?t1 ?s1] standing_simps(13) [of V MsComplete ?t1 ?s1]
      account_simps(7) [of "st_run_id st" n ?s3] f n by simp_all
  from unstopped_step [OF assms a] have u: "unstopped st base ms ?t5 ?s5" .
  then have "steer_boundary V k ev n t s = (?t5, upd_cell (st_run_id st) (\<lambda>c. c\<lparr>rc_routed_steers := tl (rc_routed_steers c)\<rparr>) ?s5)"
    using f n by (auto simp: steer_boundary_def unstopped_def Let_def new_segment_def)
  with u show ?thesis by (simp add: steers_kept_def unstopped_def is_live_def live_run_def)
qed

lemma digest_kept: "unstopped st base ms t s \<Longrightarrow> digest V k ev t s = (t1, s1) \<Longrightarrow> unstopped st base ms t1 s1"
  by (erule unstopped_step) (metis account_digest snd_conv, metis standing_digest fst_conv)

text \<open>A run that never injected a resume does not die at startup.\<close>

lemma accept_event_kept:
  assumes "unstopped st base ms t s" "\<not> st_resume_injected st"
  shows "steers_kept st base (case ev of Steered _ _ \<Rightarrow> tl ms | _ \<Rightarrow> ms) (accept_event V k ev t s)"
proof -
  have d: "\<not> dies_at_startup t ev" using assms by (simp add: dies_at_startup_def unstopped_def)
  obtain t1 s1 where g: "digest V k ev t s = (t1, s1)" by fastforce
  from digest_kept [OF assms(1) g] have u: "unstopped st base ms t1 s1" .
  have w: "steers_kept st base ms (Running (arm_flush k t1), s1)"
    by (rule kept_running, rule unstopped_step [OF u]) simp_all
  show ?thesis using steer_boundary_kept [OF assms(1)] turn_done_kept [OF u] w d g
    by (cases ev) (simp_all add: accept_event_cases)
qed

lemma on_event_kept:
  assumes "unstopped st base ms t s" "\<not> st_resume_injected st"
  shows "\<exists>ms' \<in> {ms, case ev of Steered _ _ \<Rightarrow> tl ms | _ \<Rightarrow> ms}. steers_kept st base ms' (on_event V k ev t s)"
proof -
  let ?t = "t\<lparr>rt_last_stream_activity := ck_instant k\<rparr>" and ?s = "touch_session k (rt_chat_id t) s"
  have u: "unstopped st base ms ?t ?s" by (rule unstopped_step [OF assms(1)]) simp_all
  obtain g s1 where g: "parked_gate k ev ?t ?s = (g, s1)" by fastforce
  then have a: "account (st_run_id st) s1 = account (st_run_id st) ?s" by (metis account_gate snd_conv)
  have keep: "\<exists>ms' \<in> {ms, case ev of Steered _ _ \<Rightarrow> tl ms | _ \<Rightarrow> ms}. steers_kept st base ms' r"
    if "steers_kept st base ms r" for r using that by blast
  show ?thesis
  proof (cases "unknown_request ?t ev ?s")
    case True
    then show ?thesis using keep kept_running [OF u] by (simp add: on_event_def)
  next
    case F: False
    show ?thesis
    proof (cases g)
      case None
      have "unstopped st base ms ?t s1" by (rule unstopped_step [OF u a]) simp
      moreover have "on_event V k ev t s = (Running ?t, s1)" using F g None by (simp add: on_event_def Let_def)
      ultimately show ?thesis using keep [OF kept_running] by simp
    next
      case (Some t1)
      have u1: "unstopped st base ms t1 s1"
        by (rule unstopped_step [OF u a]) (use standing_gate [of k ev ?t ?s t1 s1] g Some in simp)
      show ?thesis
      proof (cases "heartbeat_event ev \<or> echo_gate ev t1 = None")
        case True
        with F g Some have "on_event V k ev t s = (Running t1, s1)" by (auto simp: on_event_def)
        with u1 keep [OF kept_running] show ?thesis by simp
      next
        case False
        then obtain t2 where t2: "echo_gate ev t1 = Some t2" by auto
        have "unstopped st base ms t2 s1" by (rule unstopped_step [OF u1]) (simp_all add: standing_echo [OF t2])
        from accept_event_kept [OF this assms(2), of ev V k] F g Some False t2 show ?thesis by (simp add: on_event_def)
      qed
    qed
  qed
qed

text \<open>The confirmations an action can bring, and what a step makes of the ledger: some oldest entries gone,
  some steers added.\<close>

fun boundaries :: "run_action \<Rightarrow> nat" where
  "boundaries (Loop (InStream (Steered _ _))) = 1"
| "boundaries _ = 0"

lemma task_step_kept:
  assumes "unstopped st base ms t s" "\<not> st_resume_injected st" "enabled K k i t s"
  shows "\<exists>n \<le> boundaries (Loop i). steers_kept st base (drop n ms) (task_step V k i t s)"
proof -
  have z: ?thesis if "steers_kept st base ms (task_step V k i t s)" using that by (intro exI [of _ 0]) simp
  have ev: "\<exists>n \<le> boundaries (Loop (InStream ev)). steers_kept st base (drop n ms) (on_event V k ev t s)" for ev
    using on_event_kept [OF assms(1,2), of ev V k]
    by (cases ev) (auto intro: exI [of _ 0] exI [of _ 1] simp: drop_Suc)
  have quiet: "steers_kept st base ms (on_event V k ev t s')"
    if "\<And>a b. ev \<noteq> Steered a b" "unstopped st base ms t s'" for ev s'
    using on_event_kept [OF that(2) assms(2), of ev V k] that(1) by (cases ev) auto
  have s: "rt_start t = st" "\<not> rt_interrupted t" using assms(1) by (simp_all add: unstopped_def)
  show ?thesis
  proof (cases i)
    case InCancel
    then show ?thesis using assms(1,3) by (simp add: unstopped_def)
  next
    case InReap
    have "unstopped st base ms t (upd_cell r (\<lambda>c. c\<lparr>rc_token := True\<rparr>) s)" for r
      by (rule unstopped_cell [OF assms(1)]) simp
    from end_run_kept [OF this] show ?thesis using end_run_kept [OF assms(1)] InReap by (intro z) simp
  next
    case InEngine
    then obtain e rest where e: "rc_engine_rx (sn_cells s (st_run_id st)) = e # rest"
      using assms(3) s by (cases "rc_engine_rx (sn_cells s (st_run_id st))") auto
    have "is_question e" using assms(1) e by (simp add: unstopped_def)
    then have q: "\<And>a b. e \<noteq> Steered a b" by (auto simp: is_question_def)
    have "unstopped st base ms t (upd_cell (st_run_id st) (\<lambda>c. c\<lparr>rc_engine_rx := rest\<rparr>) s)"
      using assms(1) e by (simp add: unstopped_def is_live_def live_run_def)
    from quiet [OF q this] show ?thesis using InEngine e s by (intro z) simp
  next
    case (InStream ev')
    with ev show ?thesis by simp
  next
    case InHeartbeat
    have "unstopped st base ms t (touch_session k (rt_chat_id t) s)" by (rule unstopped_step [OF assms(1)]) simp_all
    with InHeartbeat kept_running show ?thesis by (intro z) simp
  next
    case InFlush
    have "unstopped st base ms (fst (flush_current V t s)) (snd (flush_current V t s))"
      by (rule unstopped_step [OF assms(1)]) simp_all
    with InFlush kept_running show ?thesis by (intro z) (simp add: split_beta)
  next
    case InQuiesce
    have "unstopped st base ms (fst (quiesce V k t s)) (snd (quiesce V k t s))"
      by (rule unstopped_step [OF assms(1)]) simp_all
    with InQuiesce kept_running show ?thesis by (intro z) (simp add: split_beta)
  qed (use quiet [OF _ assms(1)] end_run_kept [OF assms(1)] s in \<open>auto intro!: z simp: interrupted_done_def errored_done_def\<close>)
qed

text \<open>The steers an action accepts.\<close>

fun accepted :: "'d session_env \<Rightarrow> tick \<Rightarrow> run_action \<Rightarrow> run_task \<Rightarrow> 'd sessions \<Rightarrow> routed_steer list" where
  "accepted V k (CallSteer prompt message_id) t s =
     (if fst (steer V alone k (rt_chat_id t) prompt message_id s) = Inr Accepted
      then [\<lparr>rs_prompt = prompt, rs_message_id = fst (or_new_id message_id s)\<rparr>] else [])"
| "accepted V k _ t s = []"

fun accepted_steers :: "'d session_env \<Rightarrow> run_knobs \<Rightarrow> (tick \<times> run_action) list \<Rightarrow> run_task \<Rightarrow> 'd sessions \<Rightarrow>
    routed_steer list" where
  "accepted_steers V K [] t s = []"
| "accepted_steers V K ((k, a) # acts) t s =
     accepted V k a t s @
     (case act_step V K k a t s of
        (Running t, s) \<Rightarrow> accepted_steers V K acts t s
      | (Ended, s) \<Rightarrow> [])"

lemma account_write [simp]: "account r (snd (write_user_entry V k c i m s)) = account r s"
  by (simp add: write_user_entry_def split: sum.split prod.split)

lemma account_turn [simp]: "account r (note_turn_start c w s) = account r s"
  by (simp add: account_def note_turn_start_def)

lemma steer_kept:
  assumes "unstopped st base ms t s"
  shows "\<exists>more'. unstopped st base (ms @ more') t (snd (steer V alone k (rt_chat_id t) prompt m s)) \<and>
    subseq (accepted V k (CallSteer prompt m) t s) more'"
proof -
  let ?r = "st_run_id st" and ?M = "\<lparr>sm_prompt = prompt, sm_message_id = m\<rparr>"
  have st: "rt_start t = st" using assms by (simp add: unstopped_def)
  obtain h where h: "live_run (rt_chat_id t) s = Some h" "rh_run_id h = ?r"
    using assms by (auto simp: unstopped_def is_live_def split: option.splits)
  show ?thesis
  proof (cases "if rh_steerable h then try_send ?r ?M s else None")
    case None
    then have "steer V alone k (rt_chat_id t) prompt m s = (Inr NotSteerable, s)"
      using h by (auto simp: steer_def split: if_splits)
    with assms show ?thesis by (intro exI [of _ "[]"]) simp
  next
    case (Some s1)
    let ?E = "\<lparr>rs_prompt = prompt, rs_message_id = fst (or_new_id m s)\<rparr>"
    have s1: "s1 = upd_cell ?r (\<lambda>c. c\<lparr>rc_mailbox := rc_mailbox c @ [?M]\<rparr>) s"
      using Some by (auto simp: try_send_def Let_def split: if_splits)
    have i: "fst (or_new_id m s1) = fst (or_new_id m s)"
      by (cases m) (simp_all add: s1 or_new_id_def new_id_def upd_cell_def)
    let ?s2 = "snd (or_new_id m s1)" let ?s3 = "push_ledger ?r ?E ?s2"
    obtain w s4 where w: "write_user_entry V k (rt_chat_id t) (fst (or_new_id m s)) prompt ?s3 = (w, s4)" by fastforce
    have "unstopped st base ms t s1" unfolding s1 by (rule unstopped_cell [OF assms]) simp
    then have "unstopped st base ms t ?s2" by (rule unstopped_step) simp_all
    then have u3: "unstopped st base (ms @ [?E]) t ?s3"
      by (simp add: unstopped_def push_ledger_def is_live_def live_run_def)
    then have u4: "unstopped st base (ms @ [?E]) t s4"
      by (rule unstopped_step) (use account_write [of ?r V k "rt_chat_id t" "fst (or_new_id m s)" prompt ?s3] w in auto)
    show ?thesis
    proof (cases w)
      case (Inl e)
      then have "steer V alone k (rt_chat_id t) prompt m s = (Inl e, s4)"
        using Some h i w by (auto simp: steer_def alone_def Let_def split_beta split: if_splits)
      with u4 show ?thesis by (intro exI [of _ "[?E]"]) simp
    next
      case (Inr x)
      let ?s5 = "case map_of (sn_last_requests s4) (rt_chat_id t) of
        None \<Rightarrow> s4 | Some rq \<Rightarrow> note_turn_start (rt_chat_id t) (rq_cwd rq) s4"
      have u5: "unstopped st base (ms @ [?E]) t ?s5" by (rule unstopped_step [OF u4]) (simp_all split: option.split)
      have "sn_runs s4 = sn_runs ?s3"
        using account_write [of ?r V k "rt_chat_id t" "fst (or_new_id m s)" prompt ?s3] w by (simp add: account_def)
      then have "sn_runs ?s5 = sn_runs s" by (simp add: push_ledger_def s1 split: option.split)
      then have "is_live (rt_chat_id t) ?r ?s5" using h by (simp add: is_live_def live_run_def)
      then have "steer V alone k (rt_chat_id t) prompt m s =
          (Inr Accepted, preview_message k (rt_chat_id t) prompt (set_status k (rt_chat_id t) SsWorking False ?s5))"
        using Some h i w Inr by (simp add: steer_def alone_def Let_def split_beta cong: option.case_cong split: if_splits)
      moreover have "unstopped st base (ms @ [?E]) t
          (preview_message k (rt_chat_id t) prompt (set_status k (rt_chat_id t) SsWorking False ?s5))"
        by (rule unstopped_step [OF u5]) simp_all
      ultimately show ?thesis by (intro exI [of _ "[?E]"]) simp
    qed
  qed
qed

lemma act_step_kept:
  assumes "unstopped st base ms t s" "\<not> st_resume_injected st" "a \<noteq> CallInterrupt"
  shows "\<exists>n \<le> boundaries a. \<exists>more'. subseq (accepted V k a t s) more' \<and>
    steers_kept st base (drop n ms @ more') (act_step V K k a t s)"
proof (cases a)
  case (Loop i)
  show ?thesis
  proof (cases "enabled K k i t s")
    case True
    from task_step_kept [OF assms(1,2) True, of V] obtain n where
      "n \<le> boundaries a" "steers_kept st base (drop n ms @ []) (act_step V K k a t s)" using Loop True by auto
    then show ?thesis using Loop by (metis accepted.simps(2) list_emb_Nil)
  next
    case False
    then show ?thesis using Loop kept_running [OF assms(1)] by (auto intro!: exI [of _ 0] exI [of _ "[]"])
  qed
next
  case (CallSteer p m)
  from steer_kept [OF assms(1), of V k p m] obtain more' where
    "unstopped st base (ms @ more') t (snd (steer V alone k (rt_chat_id t) p m s))" "subseq (accepted V k a t s) more'"
    using CallSteer by blast
  with kept_running [OF this(1)] CallSteer show ?thesis by (intro exI [of _ 0]) auto
next
  case (CallRespond i as)
  have "unstopped st base ms t (snd (respond_input c i as s))" for c
    using unstopped_cell [OF assms(1)] assms(1)
    by (auto simp: respond_input_def is_question_def split: option.split)
  from kept_running [OF this] show ?thesis using CallRespond by (auto intro!: exI [of _ 0] exI [of _ "[]"])
next
  case (Ask qs)
  have "unstopped st base ms t (snd (new_id s))" by (rule unstopped_step [OF assms(1)]) simp_all
  then have "unstopped st base ms t (request_input (rt_run_id t) qs s)"
    unfolding request_input_def Let_def split_beta by (rule unstopped_cell) (auto simp: is_question_def)
  from kept_running [OF this] show ?thesis using Ask by (auto intro!: exI [of _ 0] exI [of _ "[]"])
qed (use assms(3) in simp)

lemma task_steps_kept:
  assumes "unstopped st base ms t s" "\<not> st_resume_injected st" "list_all (\<lambda>(k, a). a \<noteq> CallInterrupt) acts"
    "task_steps V K acts t s = (Ended, s')"
  shows "\<exists>confirmed orphans. length confirmed \<le> sum_list (map (boundaries \<circ> snd) acts) \<and>
    subseq (ms @ accepted_steers V K acts t s) (confirmed @ orphans) \<and>
    \<not> is_live (st_chat_id st) (st_run_id st) s' \<and> sn_spawned s' = base @ orphan_task st orphans"
  using assms(1,3,4)
proof (induction acts arbitrary: ms t s)
  case (Cons ka acts)
  obtain k a where ka: "ka = (k, a)" by fastforce
  obtain r s1 where r: "act_step V K k a t s = (r, s1)" by fastforce
  from act_step_kept [OF Cons.prems(1) assms(2), of a V k K] Cons.prems(2) obtain n more' where
    n: "n \<le> boundaries a" "subseq (accepted V k a t s) more'" "steers_kept st base (drop n ms @ more') (r, s1)"
    by (auto simp: ka r)
  have split: "subseq (ms @ accepted V k a t s @ rest) (take n ms @ (drop n ms @ more') @ rest)" for rest
  proof -
    have e: "take n ms @ (drop n ms @ more') @ rest = ms @ more' @ rest" by (metis append_assoc append_take_drop_id)
    show ?thesis unfolding e using n(2) by (intro list_emb_append_mono subseq_order.refl)
  qed
  show ?case
  proof (cases r)
    case Ended
    have "length (take n ms) \<le> sum_list (map (boundaries \<circ> snd) (ka # acts))" using n(1) by (simp add: ka)
    moreover have "subseq (ms @ accepted_steers V K (ka # acts) t s) (take n ms @ (drop n ms @ more'))"
      using split [of "[]"] by (simp add: ka r Ended)
    moreover have "\<not> is_live (st_chat_id st) (st_run_id st) s' \<and> sn_spawned s' = base @ orphan_task st (drop n ms @ more')"
      using n(3) Cons.prems(3) by (simp add: ka r Ended steers_kept_def)
    ultimately show ?thesis by blast
  next
    case (Running t1)
    then have u: "unstopped st base (drop n ms @ more') t1 s1" using n(3) by (simp add: steers_kept_def)
    have "list_all (\<lambda>(k, a). a \<noteq> CallInterrupt) acts" "task_steps V K acts t1 s1 = (Ended, s')"
      using Cons.prems(2,3) by (simp_all add: ka r Running)
    from Cons.IH [OF u this] obtain confirmed orphans where
      i: "length confirmed \<le> sum_list (map (boundaries \<circ> snd) acts)"
        "subseq ((drop n ms @ more') @ accepted_steers V K acts t1 s1) (confirmed @ orphans)"
        "\<not> is_live (st_chat_id st) (st_run_id st) s' \<and> sn_spawned s' = base @ orphan_task st orphans" by blast
    have "length (take n ms @ confirmed) \<le> sum_list (map (boundaries \<circ> snd) (ka # acts))"
      using n(1) i(1) by (simp add: ka)
    moreover have "subseq (take n ms @ (drop n ms @ more') @ accepted_steers V K acts t1 s1) (take n ms @ confirmed @ orphans)"
      using i(2) subseq_order.refl [of "take n ms"] list_emb_append_mono by blast
    then have "subseq (ms @ accepted_steers V K (ka # acts) t s) ((take n ms @ confirmed) @ orphans)"
      using subseq_order.trans [OF split [of "accepted_steers V K acts t1 s1"]] by (simp add: ka r Running)
    ultimately show ?thesis using i(3) by blast
  qed
qed simp


text \<open>The end of a turn that does not park ends the run.\<close>

lemma turn_done_ends:
  assumes "\<not> (st = Completed \<and> rt_steerable t \<and> \<not> rt_interrupted t)"
  shows "turn_done V k st t s = end_run k (fst (close_turn V k st t s)) (if st = DoneErrored then SsErrored else SsIdle)
    (snd (close_turn V k st t s))"
proof -
  obtain t1 s1 where c: "close_turn V k st t s = (t1, s1)" by fastforce
  have "standing t1 = standing t" using standing_close [of V k st t s] c by simp
  then have "rt_start t1 = rt_start t" "rt_interrupted t1 = rt_interrupted t" by (simp_all add: standing_def)
  then show ?thesis using assms unfolding turn_done_def c by auto
qed

lemma on_event_ends:
  assumes "st_resume_injected (rt_start t) \<Longrightarrow> rt_interrupted t \<or> st \<noteq> DoneErrored"
    "\<not> (st = Completed \<and> rt_steerable t \<and> \<not> rt_interrupted t)"
  shows "\<exists>t' s'. rt_start t' = rt_start t \<and>
    on_event V k (Done st a b c) t s = end_run k t' (if st = DoneErrored then SsErrored else SsIdle) s'"
proof -
  let ?ev = "Done st a b c" and ?t = "t\<lparr>rt_last_stream_activity := ck_instant k\<rparr>"
  let ?s = "touch_session k (rt_chat_id t) s"
  obtain t1 s1 where g: "parked_gate k ?ev ?t ?s = (Some t1, s1)"
    by (cases "rt_idle_since t") (auto simp: parked_gate_def resumes_def)
  have t1: "standing t1 = standing t" using standing_gate [OF g] by simp
  have "\<not> dies_at_startup t1 ?ev" using assms(1) t1 by (auto simp: dies_at_startup_def standing_def)
  moreover obtain t2 s2 where d: "digest V k ?ev t1 s1 = (t2, s2)" by fastforce
  ultimately have e: "on_event V k ?ev t s = turn_done V k st t2 s2"
    using g by (simp add: on_event_def unknown_request_def heartbeat_event_def echo_gate_def accept_event_cases Let_def)
  have "standing t2 = standing t" using standing_digest [of V k ?ev t1 s1] d t1 by simp
  then have t2: "rt_start t2 = rt_start t" "rt_interrupted t2 = rt_interrupted t" by (simp_all add: standing_def)
  then have "turn_done V k st t2 s2 = end_run k (fst (close_turn V k st t2 s2))
      (if st = DoneErrored then SsErrored else SsIdle) (snd (close_turn V k st t2 s2))"
    using assms(2) by (intro turn_done_ends) simp
  moreover have "rt_start (fst (close_turn V k st t2 s2)) = rt_start t" by (simp add: close_turn_task t2)
  ultimately show ?thesis using e by metis
qed

subsection \<open>A stop ends the run\<close>

lemma row_after_status:
  "\<exists>e. map_of (sn_statuses (set_status k c st f s)) c = Some e \<and> se_status e = st \<and>
     (\<not> is_active st \<longrightarrow> se_started_at e = None)"
proof -
  have "se_status (next_session st f n e) = st \<and> (\<not> is_active st \<longrightarrow> se_started_at (next_session st f n e) = None)" for n e
    by (auto simp: next_session_def is_active_def Let_def)
  then show ?thesis by (simp add: set_status_def put_status_def update_conv Let_def)
qed

lemma end_run_settles:
  "\<exists>s'. end_run k t fin s = (Ended, s') \<and> \<not> is_live (rt_chat_id t) (rt_run_id t) s' \<and>
     (\<exists>e. map_of (sn_statuses s') (rt_chat_id t) = Some e \<and> se_status e = fin \<and>
        (\<not> is_active fin \<longrightarrow> se_started_at e = None))"
proof -
  obtain ms s1 where c: "claim_steers t s = (ms, s1)" by fastforce
  let ?s2 = "remove_run (rt_chat_id t) (rt_run_id t) s1"
  have "sn_runs (settle_run k t fin ms s1) = sn_runs ?s2" "sn_statuses (settle_run k t fin ms s1) = sn_statuses (set_status k (rt_chat_id t) fin False ?s2)"
    by (simp_all add: settle_run_def Let_def)
  moreover from this(1) have "\<not> is_live (rt_chat_id t) (rt_run_id t) (settle_run k t fin ms s1)"
    using remove_run_not_live [of "rt_chat_id t" "rt_run_id t" s1] is_live_cong by blast
  ultimately show ?thesis
    using row_after_status [of k "rt_chat_id t" fin False ?s2] c by (simp add: end_run_def)
qed

lemma turn_done_standing: "turn_done V k st t s = (Running t', s') \<Longrightarrow> standing t' = standing t"
  by (auto simp: turn_done_def end_run_def split_beta split: if_splits)

lemma on_event_standing:
  assumes "on_event V k ev t s = (Running t', s')"
  shows "standing t' = standing t"
proof -
  let ?t = "t\<lparr>rt_last_stream_activity := ck_instant k\<rparr>" and ?s = "touch_session k (rt_chat_id t) s"
  obtain g s1 where g: "parked_gate k ev ?t ?s = (g, s1)" by fastforce
  have acc: "standing t' = standing u" if "accept_event V k ev u s1 = (Running t', s')" for u
    using that
  proof (cases rule: accept_event_cases2)
    case (steer i n)
    then show ?thesis by (auto simp: steer_boundary_def Let_def finish_current_def split: prod.splits)
  next
    case (turn st r e i t1 s1')
    then show ?thesis using turn_done_standing standing_digest [of V k ev u s1] by (metis fst_conv)
  next
    case (other t1)
    then show ?thesis using standing_digest [of V k ev u s1] by simp
  qed
  show ?thesis
  proof (cases "unknown_request ?t ev ?s \<or> g = None")
    case True
    then have "t' = ?t" using assms g by (auto simp: on_event_def Let_def split: if_splits)
    then show ?thesis by simp
  next
    case False
    then obtain t1 where t1: "parked_gate k ev ?t ?s = (Some t1, s1)" using g by auto
    then have "standing t1 = standing t" using standing_gate by fastforce
    moreover consider (drop) "t' = t1" | (go) t2 where "echo_gate ev t1 = Some t2" "accept_event V k ev t2 s1 = (Running t', s')"
      using assms False t1 by (auto simp: on_event_def Let_def split: if_splits option.splits)
    ultimately show ?thesis using standing_echo acc by cases metis+
  qed
qed

lemma task_steps_standing:
  "task_steps V K acts t s = (Running t', s') \<Longrightarrow> rt_interrupted t \<Longrightarrow> standing t' = standing t"
proof (induction acts arbitrary: t s)
  case (Cons ka acts)
  obtain k a where ka: "ka = (k, a)" by fastforce
  obtain r s1 where r: "act_step V K k a t s = (r, s1)" by fastforce
  with Cons.prems(1) ka obtain t1 where t1: "r = Running t1" "task_steps V K acts t1 s1 = (Running t', s')"
    by (cases r) auto
  have "standing t1 = standing t"
  proof (cases a)
    case (Loop i)
    then show ?thesis using r t1(1) Cons.prems(2) on_event_standing
      by (cases i) (auto simp: end_run_def split_beta split: if_splits list.splits)
  qed (use r t1(1) in auto)
  moreover from this Cons.prems(2) have "rt_interrupted t1" by (simp add: standing_def)
  ultimately show ?case using Cons.IH [OF t1(2)] by simp
qed simp

text \<open>
  C36. A stop is not lost and its grace is bounded. After \<^verbatim>\<open>interrupt\<close> on a live run the loop takes the
  cancel branch; and whatever the harness and the callers do then, if the run is still going three
  seconds later the deadline branch is open, and taking it ends the run: it is removed, and the
  chat's row is idle with no start time.
\<close>

theorem stopped_run_ends:
  assumes "live_run (rt_chat_id t) s = Some h" "rh_run_id h = rt_run_id t" "\<not> rt_interrupted t"
    "task_steps V K ((k, Loop InCancel) # acts) t (snd (interrupt alone (rt_chat_id t) s)) = (Running t1, s1)"
    "ck_instant k + 3000 \<le> ck_instant k1"
  shows "enabled K k InCancel t (snd (interrupt alone (rt_chat_id t) s)) \<and> enabled K k1 InDeadline t1 s1 \<and>
    (\<exists>s2 e. task_step V k1 InDeadline t1 s1 = (Ended, s2) \<and> live_run (rt_chat_id t) s2 \<noteq> Some h \<and>
       map_of (sn_statuses s2) (rt_chat_id t) = Some e \<and> se_status e = SsIdle \<and> se_started_at e = None)"
proof -
  let ?s = "snd (interrupt alone (rt_chat_id t) s)"
  let ?t = "t\<lparr>rt_interrupted := True, rt_interrupt_deadline := Some (ck_instant k + interrupt_grace)\<rparr>"
  have e: "enabled K k InCancel t ?s" using assms(1-3) by (simp add: interrupt_def alone_def)
  then have "task_steps V K acts ?t ?s = (Running t1, s1)" using assms(4) by simp
  from task_steps_standing [OF this] have t1: "rt_start t1 = rt_start t" "rt_interrupted t1"
    "rt_interrupt_deadline t1 = Some (ck_instant k + interrupt_grace)" by (simp_all add: standing_def)
  from on_event_ends [of t1 Interrupted V k1 None None None s1] t1(2) obtain t2 s2 where
    2: "rt_start t2 = rt_start t1" "task_step V k1 InDeadline t1 s1 = end_run k1 t2 SsIdle s2"
    by (auto simp: interrupted_done_def)
  from end_run_settles [of k1 t2 SsIdle s2] obtain s3 x where
    3: "end_run k1 t2 SsIdle s2 = (Ended, s3)" "\<not> is_live (rt_chat_id t) (rt_run_id t) s3"
      "map_of (sn_statuses s3) (rt_chat_id t) = Some x" "se_status x = SsIdle" "se_started_at x = None"
    by (auto simp: 2(1) t1(1) is_active_def)
  have "live_run (rt_chat_id t) s3 \<noteq> Some h" using 3(2) assms(2) by (auto simp: is_live_def)
  moreover have "enabled K k1 InDeadline t1 s1" using t1(3) assms(5) by (simp add: interrupt_grace_def)
  ultimately show ?thesis using e 2(2) 3 by metis
qed

lemma stopped_run_ends_witness:
  "\<exists>t1 s1 s2. task_steps demo_session_env demo_knobs [(tick_at 5, Loop InCancel)] demo_task
      (snd (interrupt alone ''c'' demo_sessions)) = (Running t1, s1) \<and>
    task_step demo_session_env (tick_at 4000) InDeadline t1 s1 = (Ended, s2) \<and> live_run ''c'' s2 \<noteq> live_run ''c'' demo_sessions"
proof -
  let ?h = "\<lparr>rh_run_id = ''r'', rh_steerable = False\<rparr>"
  have t: "rt_chat_id demo_task = ''c''" "rt_run_id demo_task = ''r''" "\<not> rt_interrupted demo_task"
    by (simp_all add: demo_task_def first_task_def demo_start_def)
  have h: "live_run ''c'' demo_sessions = Some ?h" by (simp add: live_run_def demo_sessions_def)
  have "enabled demo_knobs (tick_at 5) InCancel demo_task (snd (interrupt alone ''c'' demo_sessions))"
    using t h by (simp add: interrupt_def alone_def)
  then obtain t1 s1 where r: "task_steps demo_session_env demo_knobs [(tick_at 5, Loop InCancel)] demo_task
      (snd (interrupt alone ''c'' demo_sessions)) = (Running t1, s1)" by simp
  have i: "rh_run_id ?h = rt_run_id demo_task" "ck_instant (tick_at 5) + 3000 \<le> ck_instant (tick_at 4000)"
    by (simp_all add: t tick_at_def)
  from stopped_run_ends [of demo_task demo_sessions ?h demo_session_env demo_knobs "tick_at 5" "[]" t1 s1 "tick_at 4000",
      unfolded t(1), OF h i(1) t(3) r i(2)]
  show ?thesis using r h by metis
qed

subsection \<open>Witness of the accounting\<close>

definition steerable_sessions :: "ltree sessions" where
  "steerable_sessions = snd (new_id (demo_sessions\<lparr>sn_runs := [(''c'', \<lparr>rh_run_id = ''r'', rh_steerable = True\<rparr>)]\<rparr>))"

definition demo_steers :: "(tick \<times> run_action) list" where
  "demo_steers = [(tick_at 1, CallSteer ''more'' (Some ''m'')), (tick_at 2, Loop (InStreamError ''gone''))]"

lemma demo_write: "\<exists>d'. write_user_message demo_session_env ''d'' i m (ck_now_ms (tick_at 1)) demo_chat = (Inr (), d')"
proof -
  have "doc_open demo_session_env ''d'' [] [] demo_task demo_chat"
    using demo_chat_messages
    by (auto simp: doc_open_def demo_task_def first_task_def shows_run_def shown_def List.map_filter_def demo_session_env_def)
  from user_writes [OF _ this, of "ck_now_ms (tick_at 1)" "''d''" i m] demo_session_env_ok show ?thesis
    by (auto simp: run_env_ok_def i64_ok_def tick_at_def ck_now_ms_def timestamp_millis_def)
qed

lemma demo_steered:
  "\<exists>s2. steer demo_session_env alone (tick_at 1) ''c'' ''more'' (Some ''m'') steerable_sessions = (Inr Accepted, s2)"
proof -
  obtain d' where
    w: "write_user_message demo_session_env ''d'' ''m'' ''more'' (ck_now_ms (tick_at 1)) demo_chat = (Inr (), d')"
    using demo_write by blast
  then show ?thesis
    by (simp add: steer_def steerable_sessions_def new_id_def demo_sessions_def live_run_def try_send_def upd_cell_def
        alone_def or_new_id_def push_ledger_def write_user_entry_def doc_handle_def put_doc_def is_live_def
        fresh_cell_def mailbox_cap_def Let_def)
qed


subsection \<open>Where an accepted steer is lost\<close>

text \<open>The exit claims the ledger and removes the run under two locks. A steer between them is accepted,
  since the run is still live, and nothing dispatches it.\<close>

lemma steer_lost_at_exit:
  "\<exists>s1 s2. claim_steers demo_task steerable_sessions = ([], s1) \<and>
    steer demo_session_env alone (tick_at 1) ''c'' ''more'' (Some ''m'') s1 = (Inr Accepted, s2) \<and>
    sn_spawned (settle_run (tick_at 2) demo_task SsIdle [] s2) = [] \<and>
    live_run ''c'' (settle_run (tick_at 2) demo_task SsIdle [] s2) = None"
proof -
  have t: "rt_start demo_task = demo_start" by (simp add: demo_task_def first_task_def)
  have s: "sn_runs steerable_sessions = [(''c'', \<lparr>rh_run_id = ''r'', rh_steerable = True\<rparr>)]"
    "sn_cells steerable_sessions = (\<lambda>_. fresh_cell)" "sn_spawned steerable_sessions = []"
    by (simp_all add: steerable_sessions_def demo_sessions_def)
  have "upd_cell ''r'' (\<lambda>c. c\<lparr>rc_routed_steers := []\<rparr>) steerable_sessions = steerable_sessions"
    by (simp add: upd_cell_def s fresh_cell_def fun_upd_idem)
  then have c: "claim_steers demo_task steerable_sessions = ([], steerable_sessions)"
    by (simp add: claim_steers_def t demo_start_def is_live_def live_run_def s fresh_cell_def)
  obtain s2 where s2: "steer demo_session_env alone (tick_at 1) ''c'' ''more'' (Some ''m'') steerable_sessions = (Inr Accepted, s2)"
    using demo_steered by blast
  have u: "unstopped demo_start [] [] demo_task steerable_sessions"
    by (simp add: unstopped_def t s is_live_def live_run_def demo_start_def fresh_cell_def) (simp add: demo_task_def first_task_def)
  from steer_kept [OF u, of demo_session_env "tick_at 1" "''more''" "Some ''m''"] s2
  have "sn_spawned s2 = []" by (auto simp: t demo_start_def unstopped_def)
  moreover have "live_run ''c'' (settle_run (tick_at 2) demo_task SsIdle [] s2) = None"
  proof -
    have "is_live ''c'' ''r'' s2" using steer_kept [OF u, of demo_session_env "tick_at 1" "''more''" "Some ''m''"] s2
      by (auto simp: t demo_start_def unstopped_def)
    then show ?thesis by (simp add: settle_run_def t demo_start_def live_run_def remove_run_def AList.delete_conv Let_def)
  qed
  ultimately show ?thesis using c s2 by (auto simp: settle_run_def Let_def)
qed

text \<open>A run that dies at startup is dispatched once more with its own prompt; the steers it had accepted
  stay in the ledger of the dead run. So they do when the harness fails to start.\<close>

lemma startup_retry_forgets_steers:
  assumes "rt_idle_since t = None" "dies_at_startup t ev" "rt_retry_request t = Some rq"
  shows "\<exists>s'. on_event V k ev t s = (Ended, s') \<and> \<not> is_live (rt_chat_id t) (rt_run_id t) s' \<and>
    sn_spawned s' = sn_spawned s @ [SpawnRetry (rt_chat_id t) (st_harness (rt_start t)) rq (st_user_message_id (rt_start t))] \<and>
    rc_routed_steers (sn_cells s' (rt_run_id t)) = rc_routed_steers (sn_cells s (rt_run_id t))"
proof -
  obtain r e i where ev: "ev = Done DoneErrored r e i" using assms(2)
    by (auto simp: dies_at_startup_def split: agent_event.splits)
  let ?t = "t\<lparr>rt_last_stream_activity := ck_instant k\<rparr>" and ?s = "touch_session k (rt_chat_id t) s"
  have "dies_at_startup ?t ev" using assms(2) by (simp add: dies_at_startup_def)
  then have e: "on_event V k ev t s = retry_startup ?t rq ?s"
    using assms(1,3) by (simp add: on_event_def unknown_request_def parked_gate_def heartbeat_event_def echo_gate_def
        accept_event_cases ev Let_def)
  have "\<not> is_live (rt_chat_id t) (rt_run_id t) (snd (retry_startup ?t rq ?s))"
  proof -
    have "sn_runs (snd (retry_startup ?t rq ?s)) = sn_runs (remove_run (rt_chat_id t) (rt_run_id t) ?s)"
      by (simp add: retry_startup_def Let_def)
    then show ?thesis using remove_run_not_live is_live_cong by blast
  qed
  then show ?thesis unfolding e by (simp add: retry_startup_def Let_def)
qed

lemma failed_start_forgets_steers:
  "\<exists>s'. run_begin V k st (Inl m) s = (Ended, s') \<and> sn_spawned s' = sn_spawned s \<and>
    rc_routed_steers (sn_cells s' (st_run_id st)) = rc_routed_steers (sn_cells s (st_run_id st))"
  by (simp add: run_begin_def Let_def)

end
