(* ===== verification/Engine_Status.thy ===== *)
theory Engine_Status
  imports Engine_Steers
begin

text \<open>
  The session rows a run shows: what every status change keeps of them, and that a chat whose run is in
  a turn shows an active row with an elapsed-time base.
\<close>

subsection \<open>Rows\<close>

text \<open>Every row is filed under its chat, once, a settled row has no start time, and the watch holds the
  sorted list of rows.\<close>

definition row_ok :: "string \<times> session \<Rightarrow> bool" where
  "row_ok r \<longleftrightarrow> se_chat_id (snd r) = fst r \<and> (\<not> is_active (se_status (snd r)) \<longrightarrow> se_started_at (snd r) = None)"

definition rows_ok :: "'d sessions \<Rightarrow> bool" where
  "rows_ok s \<longleftrightarrow> list_all row_ok (sn_statuses s) \<and> distinct (map fst (sn_statuses s)) \<and>
     (sn_statuses s \<noteq> [] \<longrightarrow> sn_sessions_tx s = session_list (sn_statuses s))"

text \<open>The row of a chat is active exactly when it has a start time; it is there and active.\<close>

definition based :: "string \<Rightarrow> 'd sessions \<Rightarrow> bool" where
  "based c s \<longleftrightarrow> (\<forall>e. map_of (sn_statuses s) c = Some e \<longrightarrow> (is_active (se_status e) \<longleftrightarrow> se_started_at e \<noteq> None))"

definition active_row :: "string \<Rightarrow> 'd sessions \<Rightarrow> bool" where
  "active_row c s \<longleftrightarrow> (\<exists>e. map_of (sn_statuses s) c = Some e \<and> is_active (se_status e))"

lemma put_status_rows:
  assumes "rows_ok s" "row_ok (c, e)"
  shows "rows_ok (put_status c e s)"
proof -
  have "row_ok r" if "r \<in> set (AList.update c e (sn_statuses s))" for r
  proof (cases r)
    case (Pair x y)
    have "distinct (map fst (AList.update c e (sn_statuses s)))" using assms(1) by (simp add: rows_ok_def distinct_update)
    then have "map_of (AList.update c e (sn_statuses s)) x = Some y" using that Pair by simp
    then have "(x, y) = (c, e) \<or> map_of (sn_statuses s) x = Some y" by (auto simp: update_conv split: if_splits)
    then show ?thesis using assms Pair by (auto simp: rows_ok_def list_all_iff dest: map_of_SomeD)
  qed
  then have "list_all row_ok (AList.update c e (sn_statuses s))" by (simp add: list_all_iff)
  moreover have "sn_statuses (put_status c e s) = AList.update c e (sn_statuses s)"
    "sn_sessions_tx (put_status c e s) = session_list (AList.update c e (sn_statuses s))"
    by (simp_all add: put_status_def Let_def)
  ultimately show ?thesis using assms(1) by (simp add: rows_ok_def distinct_update)
qed

lemma row_of_put [simp]:
  "map_of (sn_statuses (put_status c e s)) x = (if x = c then Some e else map_of (sn_statuses s) x)"
  by (simp add: put_status_def update_conv Let_def)

lemma next_session_row:
  "se_status (next_session st f n e) = st" "se_chat_id (next_session st f n e) = se_chat_id e"
  "\<not> is_active st \<Longrightarrow> se_started_at (next_session st f n e) = None"
  "(is_active (se_status e) \<longrightarrow> se_started_at e \<noteq> None) \<Longrightarrow> is_active st \<Longrightarrow> is_active (se_status e) \<or> st = SsWorking \<Longrightarrow>
     se_started_at (next_session st f n e) \<noteq> None"
  by (auto simp: next_session_def is_active_def Let_def)

lemma rows_set_status [simp]:
  assumes "rows_ok s"
  shows "rows_ok (set_status k c st f s)"
proof -
  have "se_chat_id e = c" if "map_of (sn_statuses s) c = Some e" for e
    using assms map_of_SomeD [OF that] by (auto simp: rows_ok_def list_all_iff row_ok_def)
  then show ?thesis unfolding set_status_def Let_def
    by (intro put_status_rows [OF assms]) (auto simp: row_ok_def next_session_row split: option.split)
qed

lemma rows_touch [simp]:
  assumes "rows_ok s"
  shows "rows_ok (touch_session k c s)"
proof (cases "map_of (sn_statuses s) c")
  case (Some e)
  then have "row_ok (c, e)" using assms map_of_SomeD by (fastforce simp: rows_ok_def list_all_iff)
  then have "row_ok (c, e\<lparr>se_updated_at := ck_now k\<rparr>)" by (simp add: row_ok_def)
  with Some put_status_rows [OF assms] assms show ?thesis by (simp add: touch_session_def)
qed (use assms in \<open>simp add: touch_session_def\<close>)

lemma row_set_status:
  "map_of (sn_statuses (set_status k c st f s)) x =
     (if x = c then Some (next_session st f (ck_now k)
        (case map_of (sn_statuses s) c of Some e \<Rightarrow> e
         | None \<Rightarrow> \<lparr>se_chat_id = c, se_device_id = sn_device_id s, se_status = st, se_started_at = None, se_updated_at = ck_now k\<rparr>))
      else map_of (sn_statuses s) x)"
  by (simp add: set_status_def Let_def)

lemma row_touch [simp]: "based c (touch_session k d s) = based c s" "active_row c (touch_session k d s) = active_row c s"
  by (auto simp: touch_session_def based_def active_row_def split: option.splits)

lemma working_row:
  assumes "based c s \<and> active_row c s \<or> f"
  shows "based c (set_status k c SsWorking f s)" "active_row c (set_status k c SsWorking f s)"
  using assms by (auto simp: based_def active_row_def row_set_status next_session_def is_active_def Let_def split: option.splits)

subsection \<open>What leaves the rows alone\<close>

definition row_view :: "'d sessions \<Rightarrow> (string \<times> session) list \<times> session list" where
  "row_view s = (sn_statuses s, sn_sessions_tx s)"

lemma view_cong:
  assumes "row_view s' = row_view s"
  shows "rows_ok s' = rows_ok s" "based c s' = based c s" "active_row c s' = active_row c s"
    "map_of (sn_statuses s') c = map_of (sn_statuses s) c"
  using assms by (simp_all add: row_view_def rows_ok_def based_def active_row_def)

lemma view_simps [simp]:
  "row_view (preview_message k c m s) = row_view s" "row_view (remember_harness_session c i w s) = row_view s"
  "row_view (publish V k c ev s) = row_view s" "row_view (snd (new_id s)) = row_view s"
  "row_view (snd (or_new_id mid s)) = row_view s" "row_view (maybe_generate c h p w s) = row_view s"
  "row_view (put_doc c d s) = row_view s" "row_view (s\<lparr>sn_journal := j\<rparr>) = row_view s"
  "row_view (upd_cell r f s) = row_view s" "row_view (spawn x s) = row_view s"
  "row_view (remove_run c r s) = row_view s" "row_view (drain_questions t s) = row_view s"
  "row_view (note_turn_start c w s) = row_view s"
  by (simp_all add: row_view_def drain_questions_def put_doc_def note_turn_start_def)

lemma view_finish [simp]: "row_view (snd (finish_current V st t s)) = row_view s"
  by (simp add: finish_current_def split: sum.split)

lemma view_flush [simp]: "row_view (snd (flush_current V t s)) = row_view s"
  by (simp add: flush_current_def split: sum.split prod.split)

lemma view_close [simp]: "row_view (snd (close_turn V k st t s)) = row_view s"
  by (simp add: close_turn_def Let_def split_beta)

lemma view_write [simp]: "row_view (snd (write_user_entry V k c i m s)) = row_view s"
  by (simp add: write_user_entry_def split: sum.split prod.split)

lemma view_claim [simp]: "row_view (snd (claim_steers t s)) = row_view s"
  by (simp add: claim_steers_def)

lemma view_reclaim [simp]: "row_view (snd (reclaim r i s)) = row_view s"
  by (simp add: reclaim_def Let_def)

subsection \<open>The task\<close>

text \<open>The chat's row as the task goes on, and as the task leaves it.\<close>

definition row_kept :: "string \<Rightarrow> 'd sessions \<Rightarrow> bool" where
  "row_kept c s \<longleftrightarrow> rows_ok s \<and> based c s \<and> map_of (sn_statuses s) c \<noteq> None"

definition turn_shown :: "run_task \<Rightarrow> 'd sessions \<Rightarrow> bool" where
  "turn_shown t s \<longleftrightarrow> row_kept (rt_chat_id t) s \<and> (rt_idle_since t = None \<longrightarrow> active_row (rt_chat_id t) s)"

definition outcome_shown :: "string \<Rightarrow> run_outcome \<times> 'd sessions \<Rightarrow> bool" where
  "outcome_shown c r \<longleftrightarrow>
     (case r of (Running t, s) \<Rightarrow> rt_chat_id t = c \<and> turn_shown t s | (Ended, s) \<Rightarrow> row_kept c s)"

lemma kept_view: "row_view s' = row_view s \<Longrightarrow> row_kept c s' = row_kept c s"
  by (simp add: row_kept_def view_cong [of s' s])

lemma shown_view: "turn_shown t s \<Longrightarrow> row_view s' = row_view s \<Longrightarrow> rt_start t' = rt_start t \<Longrightarrow>
    rt_idle_since t' = rt_idle_since t \<Longrightarrow> turn_shown t' s'"
  by (simp add: turn_shown_def kept_view [of s' s] view_cong [of s' s])

lemma shown_running: "turn_shown t s \<Longrightarrow> rt_chat_id t = c \<Longrightarrow> outcome_shown c (Running t, s)"
  by (simp add: outcome_shown_def)

lemma shown_touch: "turn_shown t s \<Longrightarrow> turn_shown t (touch_session k c s)"
  by (simp add: turn_shown_def row_kept_def) (auto simp: touch_session_def split: option.split)

lemma kept_working: "row_kept c s \<Longrightarrow> row_kept c (set_status k c SsWorking True s) \<and> active_row c (set_status k c SsWorking True s)"
  by (simp add: row_kept_def working_row) (simp add: row_set_status)

lemma shown_working: "turn_shown t s \<Longrightarrow> turn_shown (t\<lparr>rt_idle_since := None\<rparr>) (set_status k (rt_chat_id t) SsWorking True s)"
  by (simp add: turn_shown_def kept_working)

lemma shown_steer_status: "turn_shown t s \<Longrightarrow> turn_shown t (set_status k (rt_chat_id t) SsWorking False s)"
  by (auto simp: turn_shown_def row_kept_def based_def active_row_def row_set_status next_session_def is_active_def Let_def
      split: option.splits)

lemma kept_settled: "row_kept c s \<Longrightarrow> \<not> is_active st \<Longrightarrow> row_kept c (set_status k c st f s)"
  by (simp add: row_kept_def based_def row_set_status next_session_row)

lemma park_shown:
  assumes "row_kept (rt_chat_id t) s"
  shows "turn_shown (fst (park k t s)) (snd (park k t s)) \<and> rt_start (fst (park k t s)) = rt_start t"
proof -
  have "row_kept (rt_chat_id t) (snd (new_id s))" using assms kept_view [of "snd (new_id s)" s] by simp
  from kept_settled [OF this, of SsIdle k False] show ?thesis
    by (simp add: park_def split_beta turn_shown_def new_segment_def is_active_def)
qed

lemma end_run_shown:
  assumes "row_kept (rt_chat_id t) s" "\<not> is_active fin"
  shows "outcome_shown (rt_chat_id t) (end_run k t fin s)"
proof -
  obtain ms s1 where c: "claim_steers t s = (ms, s1)" by fastforce
  let ?s2 = "remove_run (rt_chat_id t) (rt_run_id t) s1"
  have "row_view ?s2 = row_view s" using view_claim [of t s] c by simp
  then have "row_kept (rt_chat_id t) ?s2" using assms(1) kept_view by blast
  from kept_settled [OF this assms(2), of k False]
  have "row_kept (rt_chat_id t) (set_status k (rt_chat_id t) fin False ?s2)" .
  moreover have "row_view (settle_run k t fin ms s1) = row_view (set_status k (rt_chat_id t) fin False ?s2)"
    by (simp add: settle_run_def Let_def)
  ultimately show ?thesis using c
    by (simp add: end_run_def outcome_shown_def kept_view [of "settle_run k t fin ms s1"])
qed

lemma turn_done_shown:
  assumes "row_kept (rt_chat_id t) s"
  shows "outcome_shown (rt_chat_id t) (turn_done V k st t s)"
proof -
  obtain t1 s1 where c: "close_turn V k st t s = (t1, s1)" by fastforce
  have t1: "rt_start t1 = rt_start t" using close_turn_task [of V k st t s] c by simp
  have "row_view s1 = row_view s" using view_close [of V k st t s] c by simp
  then have u: "row_kept (rt_chat_id t1) s1" using assms t1 kept_view by metis
  let ?t2 = "t1\<lparr>rt_saw_session_started := True\<rparr>"
  have p: "turn_shown (fst (park k ?t2 s1)) (snd (park k ?t2 s1)) \<and> rt_start (fst (park k ?t2 s1)) = rt_start t"
    using park_shown [of ?t2 s1 k] u t1 by simp
  show ?thesis
  proof (cases "st = Completed \<and> rt_steerable t1 \<and> \<not> rt_interrupted t1")
    case True
    then have "turn_done V k st t s = (Running (fst (park k ?t2 s1)), snd (park k ?t2 s1))"
      unfolding turn_done_def c by (auto simp: split_beta)
    then show ?thesis using p by (simp add: shown_running)
  next
    case False
    then have "turn_done V k st t s = end_run k t1 (if st = DoneErrored then SsErrored else SsIdle) s1"
      unfolding turn_done_def c by auto
    then show ?thesis using end_run_shown [OF u] t1 by (simp add: is_active_def)
  qed
qed

lemma boundary_shown:
  assumes "turn_shown t s" "rt_idle_since t = None" "steer_boundary V k ev n t s = (t', s')"
  shows "turn_shown t' s' \<and> rt_start t' = rt_start t"
proof -
  let ?t1 = "t\<lparr>rt_self_continued_turn := False\<rparr>" and ?s1 = "publish V k (rt_chat_id t) ev s"
  obtain t2 s2 where f: "finish_current V MsComplete ?t1 ?s1 = (t2, s2)" by fastforce
  let ?s3 = "preview_message k (rt_chat_id t2) (folded_text (rt_folded t2)) s2"
  obtain i s4 where n: "or_new_id n ?s3 = (i, s4)" by fastforce
  let ?t5 = "new_segment k i t2" let ?s5 = "set_status k (rt_chat_id ?t5) SsWorking True s4"
  have t2: "t2 = ?t1\<lparr>rt_writer := None\<rparr>" using finish_current_task [of V MsComplete ?t1 ?s1] f by simp
  have "row_view s4 = row_view s"
    using view_finish [of V MsComplete ?t1 ?s1] view_simps(5) [of n ?s3] f n by simp
  then have "turn_shown ?t5 s4" by (rule shown_view [OF assms(1)]) (simp_all add: new_segment_def t2)
  from shown_working [OF this, of k] have "turn_shown ?t5 ?s5"
    by (rule shown_view) (use assms(2) in \<open>simp_all add: new_segment_def t2\<close>)
  moreover have "t' = ?t5 \<and> row_view s' = row_view ?s5" using assms(3) f n by (auto simp: steer_boundary_def Let_def)
  moreover have "rt_start ?t5 = rt_start t" by (simp add: new_segment_def t2)
  ultimately show ?thesis using shown_view [of ?t5 ?s5 s' ?t5] by auto
qed

lemma digest_shown:
  assumes "turn_shown t s" "rt_idle_since t = None" "digest V k ev t s = (t', s')"
  shows "turn_shown t' s' \<and> rt_start t' = rt_start t \<and> rt_idle_since t' = None"
proof -
  obtain t1 s1 where n: "note_event k ev t s = (t1, s1)" by fastforce
  from note_event_task [OF n] have t1: "rt_start t1 = rt_start t" "rt_idle_since t1 = rt_idle_since t" by auto
  have "turn_shown t1 s1"
  proof (cases "\<exists>a b. ev = InputRequested a b")
    case True
    then have "t1 = t" "s1 = set_status k (rt_chat_id t) SsAwaitingInput False s" using n by (auto simp: note_event_def)
    then show ?thesis using assms(1,2)
      by (auto simp: turn_shown_def row_kept_def based_def active_row_def row_set_status next_session_def is_active_def Let_def
          split: option.splits)
  next
    case F: False
    show ?thesis
    proof (cases "\<exists>a. ev = InputResolved a")
      case True
      then have "t1 = t" "s1 = set_status k (rt_chat_id t) SsWorking False s" using n by (auto simp: note_event_def)
      then show ?thesis using shown_steer_status [OF assms(1)] by simp
    next
      case False
      then have "row_view s1 = row_view s" using n F by (auto simp: note_event_def split: agent_event.splits option.splits)
      from shown_view [OF assms(1) this t1] show ?thesis .
    qed
  qed
  then have "turn_shown t' s'" by (rule shown_view) (use n assms(3) in \<open>auto simp: digest_def fold_event_def\<close>)
  then show ?thesis using assms(2,3) n t1 by (auto simp: digest_def fold_event_def)
qed

lemma retry_shown: "row_kept c s \<Longrightarrow> outcome_shown c (retry_startup t r s)"
proof -
  assume "row_kept c s"
  moreover have "row_view (snd (retry_startup t r s)) = row_view s" "fst (retry_startup t r s) = Ended"
    by (simp_all add: retry_startup_def Let_def)
  ultimately show ?thesis using kept_view [of "snd (retry_startup t r s)" s]
    by (cases "retry_startup t r s") (simp add: outcome_shown_def)
qed

text \<open>The end of a turn needs no row that is active.\<close>

lemma accept_event_shown:
  assumes "row_kept (rt_chat_id t) s" "rt_idle_since t = None" "active_row (rt_chat_id t) s \<or> (\<exists>a b c d. ev = Done a b c d)"
  shows "outcome_shown (rt_chat_id t) (accept_event V k ev t s)"
proof (cases "if dies_at_startup t ev then rt_retry_request t else None")
  case (Some r)
  then show ?thesis using retry_shown [OF assms(1), of t r] by (simp add: accept_event_cases)
next
  case None
  obtain t1 s1 where d: "digest V k ev t s = (t1, s1)" by fastforce
  show ?thesis
  proof (cases "\<exists>a b c d. ev = Done a b c d")
    case True
    then obtain st r e i where ev: "ev = Done st r e i" by blast
    have t1: "rt_chat_id t1 = rt_chat_id t" using digest_start [OF d] by simp
    have "row_view s1 = row_view s" using d by (auto simp: ev digest_def note_event_def split: option.splits)
    then have "row_kept (rt_chat_id t1) s1" using assms(1) t1 kept_view by metis
    from turn_done_shown [OF this, of V k st] show ?thesis using None d t1 by (simp add: ev accept_event_cases)
  next
    case False
    then have u: "turn_shown t s" using assms by (auto simp: turn_shown_def)
    from digest_shown [OF u assms(2) d] have 1: "turn_shown t1 s1" "rt_start t1 = rt_start t" by simp_all
    have "turn_shown (arm_flush k t1) s1" by (rule shown_view [OF 1(1)]) (simp_all add: arm_flush_def)
    then have o1: "outcome_shown (rt_chat_id t) (Running (arm_flush k t1), s1)"
      by (rule shown_running) (simp add: arm_flush_def 1)
    show ?thesis
    proof (cases "\<exists>i n. ev = Steered i n")
      case True
      then show ?thesis using None boundary_shown [OF u assms(2), of V k ev]
        by (auto simp: accept_event_cases intro!: shown_running split: prod.split)
    next
      case other: False
      have "accept_event V k ev t s = (Running (arm_flush k t1), s1)"
        using None d other False by (cases ev) (simp_all add: accept_event_cases)
      with o1 show ?thesis by simp
    qed
  qed
qed

lemma gate_shown:
  assumes "turn_shown t s" "parked_gate k ev t s = (g, s')"
  shows "case g of None \<Rightarrow> turn_shown t s'
    | Some t' \<Rightarrow> rt_chat_id t' = rt_chat_id t \<and> rt_idle_since t' = None \<and>
        row_kept (rt_chat_id t) s' \<and> (active_row (rt_chat_id t) s' \<or> (\<exists>a b c d. ev = Done a b c d))"
proof (cases "rt_idle_since t")
  case None
  with assms show ?thesis by (auto simp: parked_gate_def turn_shown_def)
next
  case (Some at)
  show ?thesis
  proof (cases "resume_gate \<le> ck_instant k - at \<and> resumes t ev")
    case True
    obtain i s1 where n: "new_id s = (i, s1)" by fastforce
    have "row_view s1 = row_view s" using view_simps(4) [of s] n by simp
    then have "turn_shown t s1" by (rule shown_view [OF assms(1)]) simp_all
    from shown_working [OF this, of k] have w: "turn_shown (t\<lparr>rt_idle_since := None, rt_self_continued_turn := True,
        rt_entry_id := i, rt_segment_started := ck_now_ms k\<rparr>) (set_status k (rt_chat_id t) SsWorking True s1)"
      by (rule shown_view) simp_all
    have "parked_gate k ev t s = (Some (t\<lparr>rt_idle_since := None, rt_self_continued_turn := True,
        rt_entry_id := i, rt_segment_started := ck_now_ms k\<rparr>), set_status k (rt_chat_id t) SsWorking True s1)"
      using Some True n by (simp add: parked_gate_def)
    with w assms(2) show ?thesis by (auto simp: turn_shown_def)
  next
    case False
    then have e: "parked_gate k ev t s =
      (case ev of
            Steered _ _ \<Rightarrow> (Some (t\<lparr>rt_idle_since := None\<rparr>), set_status k (rt_chat_id t) SsWorking True s)
          | Done _ _ _ _ \<Rightarrow> (Some (t\<lparr>rt_idle_since := None\<rparr>), s)
          | _ \<Rightarrow> (None, snd (parked_gate k ev t s)))"
      using Some unfolding parked_gate_def Some option.case if_not_P [OF False] by (cases ev) auto
    have v: "row_view (snd (parked_gate k (InputRequested a b) t s)) = row_view s" for a b
      using Some by (auto simp: parked_gate_def resumes_def split: option.split)
    have r: "snd (parked_gate k ev t s) = s" if "\<And>a b. ev \<noteq> InputRequested a b" "\<And>a b. ev \<noteq> Steered a b"
      using that Some unfolding parked_gate_def Some option.case if_not_P [OF False] by (cases ev) auto
    show ?thesis
    proof (cases ev)
      case (Steered a b)
      then show ?thesis using e assms(2) shown_working [OF assms(1), of k] by (auto simp: turn_shown_def)
    next
      case (Done a b c d)
      then show ?thesis using e assms by (auto simp: turn_shown_def)
    next
      case (InputRequested a b)
      then have "row_view s' = row_view s" "g = None" using e assms(2) v [of a b] by auto
      with shown_view [OF assms(1), of s' t] show ?thesis by simp
    qed (use e r assms in auto)
  qed
qed


lemma on_event_shown:
  assumes "turn_shown t s"
  shows "outcome_shown (rt_chat_id t) (on_event V k ev t s)"
proof -
  let ?t = "t\<lparr>rt_last_stream_activity := ck_instant k\<rparr>" and ?s = "touch_session k (rt_chat_id t) s"
  have u: "turn_shown ?t ?s" using shown_touch [OF assms, of k "rt_chat_id t"] by (rule shown_view) simp_all
  obtain g s1 where g: "parked_gate k ev ?t ?s = (g, s1)" by fastforce
  note gs = gate_shown [OF u g]
  show ?thesis
  proof (cases "unknown_request ?t ev ?s")
    case True
    then show ?thesis using shown_running [OF u] by (simp add: on_event_def)
  next
    case F: False
    show ?thesis
    proof (cases g)
      case None
      then have "on_event V k ev t s = (Running ?t, s1)" using F g by (simp add: on_event_def Let_def)
      then show ?thesis using gs None shown_running [of ?t s1 "rt_chat_id t"] by simp
    next
      case (Some t1)
      with gs have 1: "rt_chat_id t1 = rt_chat_id t" "rt_idle_since t1 = None" "row_kept (rt_chat_id t) s1"
        "active_row (rt_chat_id t) s1 \<or> (\<exists>a b c d. ev = Done a b c d)" by auto
      have e: "on_event V k ev t s = (if heartbeat_event ev then (Running t1, s1)
          else case echo_gate ev t1 of None \<Rightarrow> (Running t1, s1) | Some t \<Rightarrow> accept_event V k ev t s1)"
        using F g Some by (simp add: on_event_def Let_def)
      have a: "active_row (rt_chat_id t) s1" if "heartbeat_event ev \<or> echo_gate ev t1 = None"
        using that 1(4) by (auto simp: heartbeat_event_def echo_gate_def)
      show ?thesis
      proof (cases "heartbeat_event ev \<or> echo_gate ev t1 = None")
        case True
        then have "turn_shown t1 s1" using a 1 by (simp add: turn_shown_def)
        moreover have "on_event V k ev t s = (Running t1, s1)" using e True by auto
        ultimately show ?thesis using shown_running 1(1) by metis
      next
        case False
        then obtain t2 where t2: "echo_gate ev t1 = Some t2" by auto
        then have "rt_chat_id t2 = rt_chat_id t" "rt_idle_since t2 = None" using echo_gate_task [OF t2] 1 by auto
        then show ?thesis using accept_event_shown [of t2 s1 ev V k] 1 e False t2 by simp
      qed
    qed
  qed
qed

lemma task_step_shown:
  assumes "turn_shown t s"
  shows "outcome_shown (rt_chat_id t) (task_step V k i t s)"
proof -
  have kept: "row_kept (rt_chat_id t) s" using assms by (simp add: turn_shown_def)
  have cell: "turn_shown t (upd_cell r f s)" for r f by (rule shown_view [OF assms]) simp_all
  have over: "outcome_shown (rt_chat_id t) (end_run k t SsIdle s')" if "turn_shown t s'" for s'
    using that by (intro end_run_shown) (simp_all add: turn_shown_def is_active_def)
  show ?thesis
  proof (cases i)
    case InCancel
    have "turn_shown (t\<lparr>rt_interrupted := True, rt_interrupt_deadline := Some (ck_instant k + interrupt_grace)\<rparr>) s"
      by (rule shown_view [OF assms]) simp_all
    with InCancel shown_running show ?thesis by fastforce
  next
    case InHeartbeat
    with shown_running [OF shown_touch [OF assms]] show ?thesis by simp
  next
    case InFlush
    have "turn_shown (fst (flush_current V t s)) (snd (flush_current V t s))" "rt_start (fst (flush_current V t s)) = rt_start t"
      by (rule shown_view [OF assms]) (simp_all add: flush_current_def split: sum.split prod.split)
    with InFlush shown_running show ?thesis by (simp add: split_beta outcome_shown_def)
  next
    case InQuiesce
    obtain t1 s1 where q: "quiesce V k t s = park k t1 s1" "rt_start t1 = rt_start t" "row_view s1 = row_view s"
    proof (cases "rt_folded t \<noteq> [] \<or> rt_writer t \<noteq> None")
      case True
      let ?f = "finish_current V MsComplete t s"
      have "quiesce V k t s = park k (fst ?f) (preview_message k (rt_chat_id t) (folded_text (rt_folded t)) (snd ?f))"
        using True by (auto simp: quiesce_def split_beta)
      then show ?thesis by (rule that) (simp_all add: finish_current_task)
    next
      case False
      then have "quiesce V k t s = park k t s" by (simp add: quiesce_def)
      then show ?thesis by (rule that) simp_all
    qed
    have "row_kept (rt_chat_id t1) s1" using kept kept_view [OF q(3)] q(2) by simp
    from park_shown [OF this, of k] InQuiesce q show ?thesis by (simp add: split_beta outcome_shown_def)
  next
    case InReap
    then show ?thesis using over [OF assms] over [OF cell] by simp
  next
    case InEngine
    show ?thesis
    proof (cases "rc_engine_rx (sn_cells s (rt_run_id t))")
      case Nil
      then show ?thesis using InEngine shown_running [OF assms] by simp
    next
      case (Cons e r)
      with on_event_shown [OF cell] InEngine show ?thesis by simp
    qed
  qed (use on_event_shown [OF assms] over [OF assms] in auto)
qed

lemma act_step_shown:
  assumes "turn_shown t s"
  shows "outcome_shown (rt_chat_id t) (act_step V K k a t s)"
proof (cases a)
  case (Loop i)
  then show ?thesis using task_step_shown [OF assms] shown_running [OF assms] by simp
next
  case (CallSteer prompt m)
  have "turn_shown t (snd (steer V alone k (rt_chat_id t) prompt m s))"
  proof (cases "live_run (rt_chat_id t) s")
    case None
    with assms show ?thesis by (simp add: steer_def)
  next
    case (Some h)
    let ?M = "\<lparr>sm_prompt = prompt, sm_message_id = m\<rparr>"
    show ?thesis
    proof (cases "if rh_steerable h then try_send (rh_run_id h) ?M s else None")
      case None
      with Some assms show ?thesis by (auto simp: steer_def split: if_splits)
    next
      case S: (Some s1)
      obtain user s2 where u: "or_new_id m s1 = (user, s2)" by fastforce
      let ?s3 = "push_ledger (rh_run_id h) \<lparr>rs_prompt = prompt, rs_message_id = user\<rparr> s2"
      obtain r s4 where w: "write_user_entry V k (rt_chat_id t) user prompt ?s3 = (r, s4)" by fastforce
      have "row_view s1 = row_view s" using S by (auto simp: try_send_def Let_def split: if_splits)
      moreover have "row_view s2 = row_view s1" using view_simps(5) [of m s1] u by simp
      moreover have "row_view s4 = row_view ?s3" using view_write [of V k "rt_chat_id t" user prompt ?s3] w by simp
      ultimately have "row_view s4 = row_view s" by (simp add: push_ledger_def)
      then have 4: "turn_shown t s4" by (rule shown_view [OF assms]) simp_all
      let ?s5 = "case map_of (sn_last_requests s4) (rt_chat_id t) of
        None \<Rightarrow> s4 | Some rq \<Rightarrow> note_turn_start (rt_chat_id t) (rq_cwd rq) s4"
      have 5: "turn_shown t ?s5" by (rule shown_view [OF 4]) (simp_all split: option.split)
      have a: "turn_shown t (preview_message k (rt_chat_id t) prompt (set_status k (rt_chat_id t) SsWorking False ?s5))"
        by (rule shown_view [OF shown_steer_status [OF 5, of k]]) simp_all
      obtain b s6 where r: "reclaim (rh_run_id h) user ?s5 = (b, s6)" by fastforce
      have 6: "turn_shown t s6" "turn_shown t (preview_message k (rt_chat_id t) prompt s6)"
        using view_reclaim [of "rh_run_id h" user ?s5] r by (auto intro: shown_view [OF 5])
      have "snd (steer V alone k (rt_chat_id t) prompt m s) \<in>
        {s4, preview_message k (rt_chat_id t) prompt (set_status k (rt_chat_id t) SsWorking False ?s5), s6,
         preview_message k (rt_chat_id t) prompt s6}"
        using Some S u w r
        by (cases r) (auto simp: steer_def alone_def Let_def split: if_splits)
      then show ?thesis using 4 a 6 by auto
    qed
  qed
  then show ?thesis using CallSteer by (simp add: outcome_shown_def)
next
  case CallInterrupt
  have "turn_shown t (snd (interrupt alone c s))" for c
    by (rule shown_view [OF assms]) (auto simp: interrupt_def alone_def split: option.split)
  with CallInterrupt show ?thesis by (simp add: outcome_shown_def)
next
  case (CallRespond i as)
  have "turn_shown t (snd (respond_input c i as s))" for c
    by (rule shown_view [OF assms]) (auto simp: respond_input_def split: option.split)
  with CallRespond show ?thesis by (simp add: outcome_shown_def)
next
  case (Ask qs)
  have "turn_shown t (request_input r qs s)" for r
    by (rule shown_view [OF assms]) (simp_all add: request_input_def split_beta)
  with Ask show ?thesis by (simp add: outcome_shown_def)
qed

lemma task_steps_shown:
  "turn_shown t s \<Longrightarrow> outcome_shown (rt_chat_id t) (task_steps V K acts t s)"
proof (induction acts arbitrary: t s)
  case (Cons ka acts)
  obtain k a where ka: "ka = (k, a)" by fastforce
  obtain r s1 where r: "act_step V K k a t s = (r, s1)" by fastforce
  from act_step_shown [OF Cons.prems, of V K k a] have o1: "outcome_shown (rt_chat_id t) (r, s1)" by (simp add: r)
  show ?case
  proof (cases r)
    case (Running t1)
    with o1 have "turn_shown t1 s1" "rt_chat_id t1 = rt_chat_id t" by (simp_all add: outcome_shown_def)
    with Cons.IH [of t1 s1] show ?thesis by (simp add: ka r Running)
  qed (use o1 in \<open>simp add: ka r\<close>)
qed (simp add: outcome_shown_def)

subsection \<open>The properties\<close>

text \<open>
  C4. Over all the steps of a run, with its callers in between, the chat's session row is what the
  sidebar may rely on: while the run is in a turn (not parked) the row is active and has a start time;
  in every state the row has a start time exactly when it is active.
\<close>

theorem turn_is_shown:
  assumes "rows_ok s" "based (st_chat_id st) s" "active_row (st_chat_id st) s"
    "run_begin V k st (Inr ()) s = (Running t, s1)" "task_steps V K acts t s1 = (r, s2)"
  shows "\<exists>e. session_row_of (st_chat_id st) s2 = Some e \<and> se_chat_id e = st_chat_id st \<and>
    (is_active (se_status e) \<longleftrightarrow> se_started_at e \<noteq> None) \<and>
    (case r of Running t \<Rightarrow> rt_idle_since t = None \<longrightarrow> is_active (se_status e) | Ended \<Rightarrow> True)"
proof -
  have b: "t = first_task k st (fst (new_id s))" "s1 = snd (new_id s)" using assms(4) by (simp_all add: run_begin_started)
  have "row_view s1 = row_view s" by (simp add: b)
  with assms(1-3) have "turn_shown t s1"
    by (auto simp: turn_shown_def row_kept_def b first_task_def view_cong [of "snd (new_id s)" s] active_row_def)
  from task_steps_shown [OF this, of V K acts] have o1: "outcome_shown (st_chat_id st) (r, s2)"
    by (simp add: assms(5)) (simp add: b first_task_def)
  then have k: "row_kept (st_chat_id st) s2" by (auto simp: outcome_shown_def turn_shown_def split: run_outcome.splits)
  then obtain e where e: "map_of (sn_statuses s2) (st_chat_id st) = Some e" by (auto simp: row_kept_def)
  moreover have "se_chat_id e = st_chat_id st"
    using k map_of_SomeD [OF e] by (auto simp: row_kept_def rows_ok_def list_all_iff row_ok_def)
  ultimately show ?thesis using k o1
    by (auto simp: session_row_of_def row_kept_def based_def outcome_shown_def turn_shown_def active_row_def split: run_outcome.splits)
qed

definition working_sessions :: "ltree sessions" where
  "working_sessions = set_status (tick_at 0) ''c'' SsWorking True demo_sessions"

lemma turn_is_shown_witness:
  "\<exists>s2 e. task_steps demo_session_env demo_knobs demo_acts demo_task (snd (new_id working_sessions)) = (Ended, s2) \<and>
    session_row_of ''c'' s2 = Some e \<and> (is_active (se_status e) \<longleftrightarrow> se_started_at e \<noteq> None)"
proof -
  have "rows_ok demo_sessions" by (simp add: rows_ok_def demo_sessions_def)
  then have r: "rows_ok working_sessions" by (simp add: working_sessions_def)
  have c: "st_chat_id demo_start = ''c''" by (simp add: demo_start_def)
  have w: "based ''c'' working_sessions" "active_row ''c'' working_sessions"
    using working_row [of "''c''" demo_sessions True "tick_at 0"] by (simp_all add: working_sessions_def)
  have "sn_new_ids working_sessions = sn_new_ids demo_sessions" "sn_next_id working_sessions = sn_next_id demo_sessions"
    by (simp_all add: working_sessions_def set_status_def put_status_def with_workspace_def workspace_def demo_sessions_def Let_def)
  then have "fst (new_id working_sessions) = fst (new_id demo_sessions)" by (simp add: new_id_def)
  then have b: "run_begin demo_session_env (tick_at 0) demo_start (Inr ()) working_sessions =
      (Running demo_task, snd (new_id working_sessions))"
    by (simp add: run_begin_started demo_task_def)
  have t: "rt_idle_since demo_task = None" "rt_folded demo_task = []" "rt_start demo_task = demo_start"
    by (simp_all add: demo_task_def first_task_def)
  let ?s = "snd (new_id working_sessions)"
  from text_event [OF t(1,2), of demo_session_env "tick_at 1" "''hi''" ?s] obtain t1 s1 where
    1: "on_event demo_session_env (tick_at 1) (TextDelta ''hi'') demo_task ?s = (Running t1, s1)"
      "rt_idle_since t1 = None" "rt_start t1 = demo_start" using t(3) by auto
  have "\<not> rt_steerable t1" by (simp add: 1 demo_start_def)
  from done_event [OF 1(2) this, of demo_session_env "tick_at 300" None None None "touch_session (tick_at 200) (rt_chat_id t1) s1"]
  obtain s2 where "on_event demo_session_env (tick_at 300) (Done Completed None None None) t1
      (touch_session (tick_at 200) (rt_chat_id t1) s1) = (Ended, s2)" by blast
  then have d: "task_steps demo_session_env demo_knobs demo_acts demo_task ?s = (Ended, s2)" using 1(1) by (simp add: demo_acts_def)
  from turn_is_shown [OF r w [folded c] b d] show ?thesis using d by (auto simp: c)
qed

subsection \<open>A dispatch starts or joins a run\<close>

lemma view_resume [simp]: "row_view (snd (resume_for V c w s)) = row_view s" "sn_spawned (snd (resume_for V c w s)) = sn_spawned s"
  by (simp_all add: resume_for_def split: option.split)

lemma spawned_write [simp]: "sn_spawned (snd (write_user_entry V k c i m s)) = sn_spawned s"
  "sn_runs (snd (write_user_entry V k c i m s)) = sn_runs s"
  by (simp_all add: write_user_entry_def split: sum.split prod.split)

lemma last_requests_status [simp]:
  "sn_last_requests (maybe_generate c h p w s) = sn_last_requests s" "sn_last_requests (spawn x s) = sn_last_requests s"
  "sn_last_requests (preview_message k c m s) = sn_last_requests s"
  "sn_last_requests (set_status k c st f s) = sn_last_requests s"
  "sn_last_requests (upd_cell r g s) = sn_last_requests s" "sn_last_requests (snd (new_id s)) = sn_last_requests s"
  by (simp_all add: maybe_generate_def spawn_def preview_message_def with_workspace_def set_status_def put_status_def
      upd_cell_def new_id_def Let_def split: option.split)

text \<open>What a fresh run starts from: the hypotheses of the properties above.\<close>

definition run_starts :: "string \<Rightarrow> string \<Rightarrow> 'd sessions \<Rightarrow> 'd sessions \<Rightarrow> bool" where
  "run_starts c run_id s s' \<longleftrightarrow> row_kept c s' \<and> active_row c s' \<and> is_live c run_id s' \<and> sn_cells s' run_id = fresh_cell \<and>
     (\<exists>st. sn_spawned s' = sn_spawned s @ [SpawnRun st] \<and> st_chat_id st = c \<and> st_run_id st = run_id \<and>
        map_of (sn_last_requests s') c = Some (st_request st))"

lemma start_run_starts:
  assumes "rows_ok s" "based c s" "start_run V k c h rq u hid b s = (run_id, s')"
  shows "run_starts c run_id s s'"
proof -
  obtain resume s1 where r: "(case rq_resume rq of Some r \<Rightarrow> (Some r, s) | None \<Rightarrow> resume_for V c (rq_cwd rq) s) = (resume, s1)"
    by fastforce
  have v1: "row_view s1 = row_view s" "sn_spawned s1 = sn_spawned s"
    using r by (auto split: option.splits) (metis view_resume snd_conv)+
  let ?rq = "rq\<lparr>rq_resume := resume\<rparr>"
  let ?s2 = "s1\<lparr>sn_last_requests := AList.update c ?rq (sn_last_requests s1)\<rparr>"
  obtain i s3 where n: "new_id ?s2 = (i, s3)" by fastforce
  let ?s4 = "upd_cell i (\<lambda>_. fresh_cell) s3"
  let ?s5 = "?s4\<lparr>sn_runs := AList.update c \<lparr>rh_run_id = i, rh_steerable = snd h\<rparr> (sn_runs ?s4)\<rparr>"
  let ?s6 = "set_status k c SsWorking True ?s5"
  have v: "row_view s3 = row_view s" "sn_spawned s3 = sn_spawned s"
    "sn_last_requests s3 = AList.update c ?rq (sn_last_requests s1)"
    using v1 n view_simps(4) [of ?s2] by (auto simp: new_id_def row_view_def)
  then have "row_view ?s5 = row_view s" by (simp add: row_view_def)
  then have "rows_ok ?s5" "based c ?s5" using view_cong [of ?s5 s] assms(1,2) by simp_all
  then have six: "row_kept c ?s6" "active_row c ?s6"
    using working_row [of c ?s5 True k] by (auto simp: row_kept_def active_row_def)
  have e: "run_id = i" "s' = spawn (SpawnRun \<lparr>st_chat_id = c, st_run_id = i, st_harness = fst h,
              st_steerable = snd h, st_request = ?rq, st_user_message_id = u,
              st_resume_injected = (rq_resume rq = None \<and> resume \<noteq> None), st_startup_retry = b\<rparr>)
        (maybe_generate c hid (rq_prompt rq) (rq_cwd rq) (preview_message k c (rq_prompt rq) ?s6))"
    using assms(3) r n by (auto simp: start_run_def Let_def)
  have "row_view s' = row_view ?s6" by (simp add: e)
  with six have "row_kept c s'" "active_row c s'" using kept_view [of s' ?s6] view_cong [of s' ?s6] by simp_all
  moreover have "sn_last_requests s' = sn_last_requests s3" "sn_runs s' = sn_runs ?s5" "sn_cells s' = sn_cells ?s4"
    by (simp_all add: e)
  ultimately show ?thesis
    unfolding run_starts_def by (simp add: e v is_live_def live_run_def update_conv)
qed

lemma dispatch_fresh_starts:
  assumes "rows_ok s" "based c s" "dispatch_fresh V k c hid rq m b s = (Inr run_id, s')"
  shows "run_starts c run_id s s'"
proof -
  obtain h d where h: "sv_resolve V hid = Inr h" "doc_handle c s = Inr d"
    using assms(3) by (auto simp: dispatch_fresh_def split: sum.splits)
  obtain u s1 where u: "or_new_id m s = (u, s1)" by fastforce
  obtain w s2 where w: "write_user_entry V k c u (rq_prompt rq) s1 = (w, s2)" by fastforce
  have v: "row_view s2 = row_view s" "sn_spawned s2 = sn_spawned s"
    using view_simps(5) [of m s] frame_or_new_id(6) [of m s] u view_write [of V k c u "rq_prompt rq" s1] spawned_write(1) [of V k c u "rq_prompt rq" s1] w
    by simp_all
  have "start_run V k c h rq u hid b s2 = (run_id, s')"
    using assms(3) h u w by (cases w) (auto simp: dispatch_fresh_def split: prod.splits)
  moreover have "rows_ok s2" "based c s2" using assms(1,2) view_cong [OF v(1)] by simp_all
  ultimately show ?thesis using start_run_starts v(2) by (fastforce simp: run_starts_def)
qed


definition quiet_sessions :: "ltree sessions" where
  "quiet_sessions = demo_sessions\<lparr>sn_runs := []\<rparr>"


end
