(* ===== verification/Engine_Recovery.thy ===== *)
theory Engine_Recovery
  imports Engine_Status Doc_Ledger
begin

text \<open>
  Boot recovery, \<^verbatim>\<open>recover_stale\<close> of \<^verbatim>\<open>crates/engine/src/sessions.rs\<close> with \<^verbatim>\<open>mark_abandoned_streams\<close> of
  \<^verbatim>\<open>doc_host.rs\<close>: for every journal of a run that died, the chat's streaming entries of this device are
  stamped aborted with a visible note, the journal is closed, and a fresh crash with budget left is
  picked up by a task that dispatches the last user message again.
\<close>

subsection \<open>The entries a dead run left\<close>

definition abandoned :: "string \<Rightarrow> session_message_entry \<Rightarrow> bool" where
  "abandoned device_id e \<longleftrightarrow>
     me_role e = MrAssistant \<and> me_status e = Some MsStreaming \<and> me_device_id e = device_id"

fun stamp_entries :: "'d session_env \<Rightarrow> string \<Rightarrow> string \<Rightarrow> session_message_entry list \<Rightarrow> 'd \<Rightarrow>
    (doc_error + (string \<times> int) list) \<times> 'd" where
  "stamp_entries V device_id note [] d = (Inr [], d)"
| "stamp_entries V device_id note (e # es) d =
     (if abandoned device_id e
      then case set_message_status (sv_loro V) (me_id e) MsAborted d of
             (Inl x, d) \<Rightarrow> (Inl x, d)
           | (Inr False, d) \<Rightarrow> stamp_entries V device_id note es d
           | (Inr True, d) \<Rightarrow>
               (let d = snd (append_error_part (sv_loro V) (sv_codec V) (me_id e) (me_id e @ ''-recovery'') note d)
                in case stamp_entries V device_id note es d of
                     (Inl x, d) \<Rightarrow> (Inl x, d)
                   | (Inr stamped, d) \<Rightarrow> (Inr ((me_id e, me_created_at e) # stamped), d))
      else stamp_entries V device_id note es d)"

abbreviation doc_entries :: "'d session_env \<Rightarrow> 'd \<Rightarrow> session_message_entry list" where
  "doc_entries V d \<equiv> read_entries (sv_loro V) (sv_codec V) (sv_hash V) d"

definition mark_abandoned_streams :: "'d session_env \<Rightarrow> string \<Rightarrow> string \<Rightarrow> 'd \<Rightarrow>
    (doc_error + (string \<times> int) list) \<times> 'd" where
  "mark_abandoned_streams V device_id note d = stamp_entries V device_id note (doc_entries V d) d"

subsection \<open>The verdict on a crashed run\<close>

definition max_auto_resume :: nat where "max_auto_resume = 3"
definition resume_fresh_ms :: int where "resume_fresh_ms = 12 * 60 * 60 * 1000"

fun first_text :: "message_part list \<Rightarrow> string option" where
  "first_text [] = None"
| "first_text (PText i s # ps) = Some s"
| "first_text (_ # ps) = first_text ps"

text \<open>The last message of the user: its id and its first text.\<close>

definition revival_prompt :: "session_message_entry list \<Rightarrow> (string \<times> string) option" where
  "revival_prompt es =
     (case List.find (\<lambda>e. me_role e = MrUser) (rev es) of
        None \<Rightarrow> None
      | Some e \<Rightarrow> map_option (\<lambda>s. (me_id e, s)) (first_text (me_parts e)))"

definition crash_fresh :: "int \<Rightarrow> session_message_entry list \<Rightarrow> bool" where
  "crash_fresh now es =
     (case List.find (\<lambda>e. me_status e = Some MsStreaming) (rev es) of
        None \<Rightarrow> False
      | Some e \<Rightarrow> now - me_created_at e < resume_fresh_ms)"

definition will_resume :: "int \<Rightarrow> session_message_entry list \<Rightarrow> nat \<Rightarrow> bool" where
  "will_resume now es attempts \<longleftrightarrow>
     crash_fresh now es \<and> revival_prompt es \<noteq> None \<and> attempts < max_auto_resume"

definition recovery_note :: "bool \<Rightarrow> string" where
  "recovery_note resuming =
     (if resuming then ''Run interrupted by engine restart '' @ tl dash @ ''resuming''
      else ''Run interrupted by engine restart'')"

definition recovery_done :: "bool \<Rightarrow> agent_event" where
  "recovery_done resuming = Done Interrupted None (Some (recovery_note resuming)) None"

subsection \<open>One chat, all chats\<close>

definition find_session :: "'d session_env \<Rightarrow> string \<Rightarrow> 'd sessions \<Rightarrow> 'd sessions" where
  "find_session V chat_id s =
     (case journal_harness_session V chat_id s of
        None \<Rightarrow> s
      | Some (session_id, cwd) \<Rightarrow> remember_harness_session chat_id session_id cwd s)"

text \<open>\<open>write_ok\<close>: whether the counter of attempts could be written. The result says whether the chat was
  recovered; a live run owns its journal.\<close>

definition recover_chat :: "'d session_env \<Rightarrow> tick \<Rightarrow> bool \<Rightarrow> string \<Rightarrow> 'd sessions \<Rightarrow>
    (engine_error + bool) \<times> 'd sessions" where
  "recover_chat V k write_ok chat_id s =
     (if live_run chat_id s \<noteq> None then (Inr False, s)
      else case doc_handle chat_id s of
        Inl e \<Rightarrow> (Inl e, s)
      | Inr d \<Rightarrow>
          (let s = find_session V chat_id s;
               entries = doc_entries V d;
               resuming = will_resume (ck_now_ms k) entries (resume_attempts chat_id (sn_journal s));
               s = publish V k chat_id (recovery_done resuming) s
           in case mark_abandoned_streams V (sn_device_id s) (recovery_note resuming) d of
                (Inl e, d) \<Rightarrow> (Inl (EeDoc e), put_doc chat_id d s)
              | (Inr _, d) \<Rightarrow>
                  let s = set_status k chat_id SsIdle False (put_doc chat_id d s)
                  in (Inr True,
                      case (if resuming then revival_prompt entries else None) of
                        None \<Rightarrow> s
                      | Some (user_id, prompt) \<Rightarrow>
                          spawn (SpawnRevive chat_id user_id prompt)
                            (s\<lparr>sn_journal := snd (note_resume_attempt write_ok chat_id (sn_journal s))\<rparr>))))"

fun recover_chats :: "'d session_env \<Rightarrow> tick \<Rightarrow> bool \<Rightarrow> string list \<Rightarrow> 'd sessions \<Rightarrow>
    (engine_error + nat) \<times> 'd sessions" where
  "recover_chats V k write_ok [] s = (Inr 0, s)"
| "recover_chats V k write_ok (chat_id # chats) s =
     (case recover_chat V k write_ok chat_id s of
        (Inl e, s) \<Rightarrow> (Inl e, s)
      | (Inr b, s) \<Rightarrow>
          (case recover_chats V k write_ok chats s of
             (Inl e, s) \<Rightarrow> (Inl e, s)
           | (Inr n, s) \<Rightarrow> (Inr (if b then n + 1 else n), s)))"

definition recover_stale :: "'d session_env \<Rightarrow> tick \<Rightarrow> bool \<Rightarrow> 'd sessions \<Rightarrow> (engine_error + nat) \<times> 'd sessions" where
  "recover_stale V k write_ok s =
     (case stale_sessions (sv_journal V) (sn_journal s) of
        Inl e \<Rightarrow> (Inl (EeJournal (journal_error_text e)), s)
      | Inr stale \<Rightarrow> recover_chats V k write_ok stale s)"

subsection \<open>The revival task\<close>

text \<open>The doc host as the task sees it.\<close>

definition host_world :: "'d sessions \<Rightarrow> unit world" where
  "host_world s = \<lparr>wd_commands = [], wd_entries = [], wd_workspace = sn_workspace s, wd_engine = ()\<rparr>"

definition bare_request :: "string \<Rightarrow> run_request" where
  "bare_request cwd =
     \<lparr>rq_prompt = [], rq_harness = None, rq_model = None, rq_reasoning = None, rq_model_options = [],
      rq_cwd = cwd, rq_sandbox = WorkspaceWrite, rq_auto_approve = False, rq_resume = None, rq_attachments = []\<rparr>"

definition revival_request :: "'d session_env \<Rightarrow> string \<Rightarrow> string \<Rightarrow> 'd sessions \<Rightarrow> run_request option" where
  "revival_request V chat_id prompt s =
     (case map_of (sn_last_requests s) chat_id of
        Some rq \<Rightarrow> Some rq
      | None \<Rightarrow>
          (case request_from_chat_row (host_world s) chat_id prompt of
             Some rq \<Rightarrow> Some rq
           | None \<Rightarrow> map_option (\<lambda>(_, cwd). bare_request cwd) (journal_harness_session V chat_id s)))"

definition revive_run :: "'d session_env \<Rightarrow> 'd others \<Rightarrow> tick \<Rightarrow> drain_env \<Rightarrow> string \<Rightarrow> string \<Rightarrow> string \<Rightarrow>
    'd sessions \<Rightarrow> 'd sessions" where
  "revive_run V others k env chat_id user_id prompt s =
     (if \<not> sn_doc_host s then s
      else case revival_request V chat_id prompt s of
        None \<Rightarrow> s
      | Some rq \<Rightarrow>
          (let rq = rq\<lparr>rq_prompt := prompt, rq_resume := None, rq_attachments := []\<rparr>
           in snd (dispatch V others k chat_id (harness_for_request env (host_world s) chat_id rq) rq (Some user_id) s)))"

subsection \<open>What stamping does to the transcript\<close>

text \<open>The specification: an abandoned entry is aborted and ends with the note, once; the others stay.\<close>

definition note_id :: "session_message_entry \<Rightarrow> string" where
  "note_id e = me_id e @ ''-recovery''"

definition stamped :: "string \<Rightarrow> string \<Rightarrow> session_message_entry \<Rightarrow> session_message_entry" where
  "stamped device_id note e =
     (if abandoned device_id e
      then e\<lparr>me_status := Some MsAborted,
             me_parts := me_parts e @
               (if list_ex (\<lambda>p. part_id (norm_part p) = note_id e) (me_parts e) then [] else [PError (note_id e) note])\<rparr>
      else e)"

lemma part_rep_id: "part_rep L C p t \<Longrightarrow> is_id i t \<longleftrightarrow> part_id (norm_part p) = i"
proof -
  assume "part_rep L C p t"
  then obtain dp m where t: "to_doc_part C p = Inr dp" "t = TMap m" "map_of m = part_lookup L dp"
    by (auto simp: part_rep_def)
  have "dp_id dp = part_id (norm_part p)" using t(1)
    by (cases p) (auto simp: doc_part_default_def to_doc_tool_def split: sum.splits)
  then show ?thesis using part_lookups(1) [OF t(3)] t(2) by (simp add: is_id_def)
qed

lemma entry_rep_id: "entry_rep L C e t \<Longrightarrow> is_id i t \<longleftrightarrow> me_id e = i"
  by (auto simp: entry_rep_def is_id_def entry_lookup_def opt_map_add)

lemma entry_rep_parts: "entry_rep L C e t \<Longrightarrow> \<exists>us. parts_of t = Some us \<and> list_all2 (part_rep L C) (me_parts e) us"
  by (auto simp: entry_rep_def parts_of_def)

lemma ex_all2: "list_all2 R xs ys \<Longrightarrow> (\<And>x y. R x y \<Longrightarrow> P x \<longleftrightarrow> Q y) \<Longrightarrow> list_ex P xs \<longleftrightarrow> list_ex Q ys"
  by (induction rule: list_all2_induct) auto

lemma does_end:
  assumes "loro_ok L"
  shows "does L p t (act_bind (act_commit L) (\<lambda>_. act_return x)) x t"
  by (rule does_bind [OF does_commit [OF assms]]) (rule does_return)

lemma does_status:
  assumes "loro_ok L" "entry_rep L C e t"
  shows "\<exists>t'. does L p t (act_bind (put_str L p ''status'' (status_str st)) (\<lambda>_. act_bind (act_commit L) (\<lambda>_. act_return x))) x t' \<and>
    entry_rep L C (e\<lparr>me_status := Some st\<rparr>) t'"
proof -
  obtain m ts where t: "t = TMap m" "map_of m = (entry_lookup e)(''parts'' \<mapsto> TList ts)" "list_all2 (part_rep L C) (me_parts e) ts"
    using assms(2) by (auto simp: entry_rep_def)
  let ?t = "TMap (AList.update ''status'' (TVal (JStr (status_str st))) m)"
  have "does L p t (act_bind (put_str L p ''status'' (status_str st)) (\<lambda>_. act_bind (act_commit L) (\<lambda>_. act_return x))) x ?t"
    unfolding put_str_def t(1)
    by (rule does_bind [OF does_put_value [OF assms(1)]]) (rule does_end [OF assms(1)])
  moreover have "entry_rep L C (e\<lparr>me_status := Some st\<rparr>) ?t"
    using t(2,3) status_lookup [where e = e and s = st] by (auto simp: entry_rep_def update_conv' fun_upd_twist)
  ultimately show ?thesis by blast
qed

lemma does_note:
  assumes "loro_ok L" "part_codec_ok L C" "entry_rep L C e t"
  shows "\<exists>t'. does L p t (act_bind (doc_push_part L C (p @ [Key ''parts'']) (PError i m)) (\<lambda>_. act_bind (act_commit L) (\<lambda>_. act_return x))) x t' \<and>
    entry_rep L C (e\<lparr>me_parts := me_parts e @ [PError i m]\<rparr>) t'"
proof -
  obtain f ts where t: "t = TMap f" "map_of f = (entry_lookup e)(''parts'' \<mapsto> TList ts)" "list_all2 (part_rep L C) (me_parts e) ts"
    using assms(3) by (auto simp: entry_rep_def)
  obtain dp where dp: "to_doc_part C (PError i m) = Inr dp" by simp
  let ?u = "TMap (fill (part_fields L dp) [])"
  let ?t = "TMap (AList.update ''parts'' (TList (ts @ [?u])) f)"
  have "map_of f ''parts'' = Some (TList ts)" by (simp add: t(2))
  from does_at_key [OF does_push_part [OF assms(1) dp] this]
  have "does L p t (doc_push_part L C (p @ [Key ''parts'']) (PError i m)) () ?t" unfolding t(1) .
  then have "does L p t (act_bind (doc_push_part L C (p @ [Key ''parts'']) (PError i m)) (\<lambda>_. act_bind (act_commit L) (\<lambda>_. act_return x))) x ?t"
    by (rule does_bind) (rule does_end [OF assms(1)])
  moreover have "entry_lookup (e\<lparr>me_parts := ps\<rparr>) = entry_lookup e" for ps by (simp add: entry_lookup_def)
  then have "entry_rep L C (e\<lparr>me_parts := me_parts e @ [PError i m]\<rparr>) ?t"
    using t(2,3) part_rep_written [OF dp, of L] by (auto simp: entry_rep_def update_conv' list_all2_appendI)
  ultimately show ?thesis by blast
qed

text \<open>One entry, where it is in the list.\<close>

lemma stamp_one:
  assumes "loro_ok L" "part_codec_ok L C" "tree_at [Key ''messages''] (ld_tree L d) = Some (TList (ts1 @ t # ts2))"
    "entry_rep L C e t" "\<forall>u \<in> set ts1. \<not> is_id (me_id e) u"
  shows "\<exists>d1 d2 t' r. set_message_status L (me_id e) MsAborted d = (Inr True, d1) \<and>
    append_error_part L C (me_id e) (note_id e) note d1 = (r, d2) \<and>
    tree_at [Key ''messages''] (ld_tree L d2) = Some (TList (ts1 @ t' # ts2)) \<and>
    entry_rep L C (e\<lparr>me_status := Some MsAborted, me_parts := me_parts e @
      (if list_ex (\<lambda>p. part_id (norm_part p) = note_id e) (me_parts e) then [] else [PError (note_id e) note])\<rparr>) t'"
proof -
  let ?i = "length ts1" let ?p = "[Key ''messages'', Idx ?i]"
  have id: "is_id (me_id e) t" using entry_rep_id [OF assms(4)] by simp
  have pos: "position (is_id (me_id e)) (ts1 @ t # ts2) = Some ?i" by (rule position_app) (use assms(5) id in auto)
  have root: "root_list L ''messages'' d = ts1 @ t # ts2" using assms(3) by (simp add: root_list_def)
  have at: "does L [Key ''messages''] (TList (ts1 @ u # ts2)) a x (TList (ts1 @ u' # ts2))"
    if "does L ?p u a x u'" for u u' and a :: "'a \<Rightarrow> (doc_error + bool) \<times> 'a" and x
    using does_at_idx [of L "[Key ''messages'']" ?i u a x u' "ts1 @ u # ts2"] that by (simp add: nth_append list_update_append)
  obtain t1 where 1: "does L ?p t (act_bind (put_str L ?p ''status'' (status_str MsAborted)) (\<lambda>_. act_bind (act_commit L) (\<lambda>_. act_return True))) True t1"
    "entry_rep L C (e\<lparr>me_status := Some MsAborted\<rparr>) t1"
    using does_status [OF assms(1,4), of ?p MsAborted True] by blast
  from doesD [OF at [OF 1(1)] assms(3)] obtain d1 where
    d1: "set_message_status L (me_id e) MsAborted d = (Inr True, d1)"
      "ld_tree L d1 = tree_upd [Key ''messages''] (\<lambda>_. TList (ts1 @ t1 # ts2)) (ld_tree L d)"
    by (auto simp: set_message_status_def root pos)
  have tr1: "tree_at [Key ''messages''] (ld_tree L d1) = Some (TList (ts1 @ t1 # ts2))"
    unfolding d1(2) tree_at_upd using assms(3) by simp
  obtain us where us: "parts_of t1 = Some us" "list_all2 (part_rep L C) (me_parts e) us"
    using entry_rep_parts [OF 1(2)] by auto
  have id1: "is_id (me_id e) t1" using entry_rep_id [OF 1(2)] by simp
  have root1: "root_list L ''messages'' d1 = ts1 @ t1 # ts2" using tr1 by (simp add: root_list_def)
  have pos1: "position (\<lambda>t. is_id (me_id e) t \<and> parts_of t \<noteq> None) (ts1 @ t1 # ts2) = Some ?i"
    by (rule position_app) (use assms(5) id1 us in auto)
  have ex: "list_ex (\<lambda>p. part_id (norm_part p) = note_id e) (me_parts e) \<longleftrightarrow> list_ex (is_id (note_id e)) us"
    by (rule ex_all2 [OF us(2)]) (simp add: part_rep_id)
  show ?thesis
  proof (cases "list_ex (is_id (note_id e)) us")
    case True
    then have "append_error_part L C (me_id e) (note_id e) note d1 = (Inr True, d1)"
      by (simp add: append_error_part_def root1 pos1 [unfolded not_None_eq] us unwrap_or_def Let_def)
    with d1(1) tr1 1(2) True ex show ?thesis by auto
  next
    case False
    obtain t2 where 2: "does L ?p t1 (act_bind (doc_push_part L C (?p @ [Key ''parts'']) (PError (note_id e) note))
        (\<lambda>_. act_bind (act_commit L) (\<lambda>_. act_return True))) True t2"
      "entry_rep L C (e\<lparr>me_status := Some MsAborted, me_parts := me_parts e @ [PError (note_id e) note]\<rparr>) t2"
      using does_note [OF assms(1,2) 1(2), of ?p "note_id e" "note" True] by auto
    from doesD [OF at [OF 2(1)] tr1] obtain d2 where
      "append_error_part L C (me_id e) (note_id e) note d1 = (Inr True, d2)"
      "ld_tree L d2 = tree_upd [Key ''messages''] (\<lambda>_. TList (ts1 @ t2 # ts2)) (ld_tree L d1)"
      using False by (auto simp: append_error_part_def root1 pos1 [unfolded not_None_eq] us unwrap_or_def Let_def)
    moreover from this(2) have "tree_at [Key ''messages''] (ld_tree L d2) = Some (TList (ts1 @ t2 # ts2))"
      by (simp only: tree_at_upd tr1) simp
    ultimately show ?thesis using d1(1) 2(2) False ex by auto
  qed
qed

lemma stamped_id [simp]: "me_id (stamped dev note e) = me_id e"
  by (simp add: stamped_def)

lemma norm_abandoned [simp]: "abandoned dev (norm_entry e) = abandoned dev e" "me_id (norm_entry e) = me_id e"
  "me_created_at (norm_entry e) = me_created_at e"
  by (simp_all add: abandoned_def norm_entry_def)

lemma stamp_entries_effect:
  assumes "loro_ok (sv_loro V)" "part_codec_ok (sv_loro V) (sv_codec V)"
    "tree_at [Key ''messages''] (ld_tree (sv_loro V) d) = Some (TList (ts1 @ ts2))"
    "list_all2 (entry_rep (sv_loro V) (sv_codec V)) es1 ts1" "list_all2 (entry_rep (sv_loro V) (sv_codec V)) es2 ts2"
    "distinct (map me_id (es1 @ es2))"
  shows "\<exists>d' us2. stamp_entries V dev note (map norm_entry es2) d =
      (Inr (map (\<lambda>e. (me_id e, me_created_at e)) (filter (abandoned dev) es2)), d') \<and>
    tree_at [Key ''messages''] (ld_tree (sv_loro V) d') = Some (TList (ts1 @ us2)) \<and>
    list_all2 (entry_rep (sv_loro V) (sv_codec V)) (map (stamped dev note) es2) us2"
  using assms(3-6)
proof (induction es2 arbitrary: d ts1 ts2 es1)
  case Nil
  then show ?case by simp
next
  case (Cons e es2)
  from Cons.prems(3) obtain t ts where ts2: "ts2 = t # ts" "entry_rep (sv_loro V) (sv_codec V) e t"
    "list_all2 (entry_rep (sv_loro V) (sv_codec V)) es2 ts" by (auto simp: list_all2_Cons1)
  have step: ?case
    if "tree_at [Key ''messages''] (ld_tree (sv_loro V) d2) = Some (TList (ts1 @ u # ts))"
      "entry_rep (sv_loro V) (sv_codec V) (stamped dev note e) u"
      "\<And>r d'. stamp_entries V dev note (map norm_entry es2) d2 = (Inr r, d') \<Longrightarrow>
         stamp_entries V dev note (map norm_entry (e # es2)) d =
           (Inr ((if abandoned dev e then [(me_id e, me_created_at e)] else []) @ r), d')" for d2 u
  proof -
    have a: "tree_at [Key ''messages''] (ld_tree (sv_loro V) d2) = Some (TList ((ts1 @ [u]) @ ts))" using that(1) by simp
    have b: "list_all2 (entry_rep (sv_loro V) (sv_codec V)) (es1 @ [stamped dev note e]) (ts1 @ [u])"
      using Cons.prems(2) that(2) by (simp add: list_all2_appendI)
    have "distinct (map me_id ((es1 @ [stamped dev note e]) @ es2))" using Cons.prems(4) by simp
    from Cons.IH [OF a b ts2(3) this] obtain d' us2 where
      i: "stamp_entries V dev note (map norm_entry es2) d2 =
        (Inr (map (\<lambda>e. (me_id e, me_created_at e)) (filter (abandoned dev) es2)), d')"
      "tree_at [Key ''messages''] (ld_tree (sv_loro V) d') = Some (TList ((ts1 @ [u]) @ us2))"
      "list_all2 (entry_rep (sv_loro V) (sv_codec V)) (map (stamped dev note) es2) us2" by blast
    from that(3) [OF i(1)] i(2,3) that(2) show ?thesis
      by (intro exI [of _ d'] exI [of _ "u # us2"]) simp
  qed
  show ?case
  proof (cases "abandoned dev e")
    case False
    show ?thesis by (rule step [of d t]) (use False Cons.prems(1) ts2 in \<open>simp_all add: stamped_def\<close>)
  next
    case True
    have "\<forall>u \<in> set ts1. \<not> is_id (me_id e) u"
    proof
      fix u assume "u \<in> set ts1"
      then obtain n where "n < length ts1" "u = ts1 ! n" by (auto simp: in_set_conv_nth)
      then have f: "entry_rep (sv_loro V) (sv_codec V) (es1 ! n) u" "es1 ! n \<in> set es1"
        using Cons.prems(2) by (auto simp: list_all2_conv_all_nth)
      moreover have "me_id (es1 ! n) \<noteq> me_id e" using imageI [OF f(2), of me_id] Cons.prems(4) by auto
      ultimately show "\<not> is_id (me_id e) u" by (simp add: entry_rep_id)
    qed
    from stamp_one [OF assms(1,2) Cons.prems(1) [unfolded ts2(1)] ts2(2) this, of "note"] obtain d1 d2 u r where
      1: "set_message_status (sv_loro V) (me_id e) MsAborted d = (Inr True, d1)"
        "append_error_part (sv_loro V) (sv_codec V) (me_id e) (note_id e) note d1 = (r, d2)"
        "tree_at [Key ''messages''] (ld_tree (sv_loro V) d2) = Some (TList (ts1 @ u # ts))"
        "entry_rep (sv_loro V) (sv_codec V) (stamped dev note e) u"
      using True by (auto simp: stamped_def)
    show ?thesis by (rule step [OF 1(3,4)]) (use True 1(1,2) in \<open>simp add: note_id_def\<close>)
  qed
qed

lemma entries_rep_read:
  assumes "part_codec_ok L C" "list_all entry_ok es" "list_all2 (entry_rep L C) es ts"
    "tree_at [Key ''messages''] (ld_tree L d) = Some (TList ts)"
  shows "read_entries L C H d = map norm_entry es"
proof -
  have "list_all2 (\<lambda>e v. entry_from_json C H v = Some e) (map norm_entry es) (map to_json ts)"
    using assms(3,2) by (induction rule: list_all2_induct) (simp_all add: entry_rep_read [OF assms(1)])
  then have "List.map_filter (entry_from_json C H) (map to_json ts) = map norm_entry es" by (rule map_filter_all2)
  then show ?thesis by (simp add: read_entries_def root_list_def assms(4))
qed

lemma stamped_ok: "entry_ok e \<Longrightarrow> entry_ok (stamped dev note e)"
  by (simp add: stamped_def entry_ok_def bytes_ok_def)

lemma marks:
  assumes "loro_ok (sv_loro V)" "part_codec_ok (sv_loro V) (sv_codec V)"
    "tree_at [Key ''messages''] (ld_tree (sv_loro V) d) = Some (TList ts)"
    "list_all2 (entry_rep (sv_loro V) (sv_codec V)) es ts" "list_all entry_ok es" "distinct (map me_id es)"
  shows "doc_entries V d = map norm_entry es \<and>
    (\<exists>d'. mark_abandoned_streams V dev note d =
        (Inr (map (\<lambda>e. (me_id e, me_created_at e)) (filter (abandoned dev) es)), d') \<and>
      doc_entries V d' = map (norm_entry \<circ> stamped dev note) es)"
proof -
  have r: "doc_entries V d = map norm_entry es" by (rule entries_rep_read [OF assms(2,5,4,3)])
  have "tree_at [Key ''messages''] (ld_tree (sv_loro V) d) = Some (TList ([] @ ts))" using assms(3) by simp
  from stamp_entries_effect [OF assms(1,2) this _ assms(4), of "[]" dev "note"] assms(6) obtain d' us where
    s: "stamp_entries V dev note (map norm_entry es) d = (Inr (map (\<lambda>e. (me_id e, me_created_at e)) (filter (abandoned dev) es)), d')"
      "tree_at [Key ''messages''] (ld_tree (sv_loro V) d') = Some (TList us)"
      "list_all2 (entry_rep (sv_loro V) (sv_codec V)) (map (stamped dev note) es) us" by auto
  have "list_all entry_ok (map (stamped dev note) es)" using assms(5) stamped_ok by (induction es) auto
  from entries_rep_read [OF assms(2) this s(3,2)] r s(1) show ?thesis by (simp add: mark_abandoned_streams_def)
qed

subsection \<open>Recovery of a chat\<close>

lemma frame_find [simp]:
  "sn_docs (find_session V c s) = sn_docs s" "sn_journal (find_session V c s) = sn_journal s"
  "sn_device_id (find_session V c s) = sn_device_id s" "sn_spawned (find_session V c s) = sn_spawned s"
  "sn_runs (find_session V c s) = sn_runs s" "sn_statuses (find_session V c s) = sn_statuses s"
  by (simp_all add: find_session_def split: option.split)

lemma attempts_publish [simp]:
  "resume_attempts c (sn_journal (publish V k d ev s)) = resume_attempts c (sn_journal s)"
proof -
  have p: "attempts_path c \<noteq> path_for d" by (rule attempts_other)
  have o1: "map_of (rj_dir (snd (ensure_open J d j))) (attempts_path c) = map_of (rj_dir j) (attempts_path c)" for J j
    using p by (auto simp: ensure_open_def Let_def update_conv split: option.split sum.split prod.split)
  have "map_of (rj_dir (snd (journal_append J f d ev j))) (attempts_path c) = map_of (rj_dir j) (attempts_path c)" for J f j
    using p o1 [of J j] by (auto simp: journal_append_def Let_def update_conv split: option.splits sum.splits prod.splits)
  then show ?thesis by (simp add: publish_journal resume_attempts_def)
qed


subsection \<open>Crash loops\<close>

lemma counter_reads:
  assumes "n = 1 \<or> n = 2 \<or> n = (3 :: nat)"
  shows "utf8_valid (dec n)" "parse_u32 (str_trim (dec n)) = Some n"
proof -
  have d: "dec 1 = ''1''" "dec 2 = ''2''" "dec 3 = ''3''" 
    by (simp_all add: dec.simps digit_char_def char_of_def bit_numeral_rec bit_0)
  have t: "str_trim ''1'' = ''1''" "str_trim ''2'' = ''2''" "str_trim ''3'' = ''3''"
    by (simp_all add: str_trim_def trim_start.simps trim_end.simps ws_at_start_def ws_at_end_def ws_enc_def suffix_def)
  have u: "utf8_valid ''1''" "utf8_valid ''2''" "utf8_valid ''3''" by (simp_all add: utf8_valid.simps byte_in_def)
  have p: "parse_u32 ''1'' = Some 1" "parse_u32 ''2'' = Some 2" "parse_u32 ''3'' = Some 3"
    by (simp_all add: parse_u32_def byte_in_def Let_def)
  show "utf8_valid (dec n)" "parse_u32 (str_trim (dec n)) = Some n" using assms d t u p by auto
qed

lemma attempt_noted:
  assumes "resume_attempts c j < 3"
  shows "resume_attempts c (snd (note_resume_attempt True c j)) = resume_attempts c j + 1"
proof -
  let ?n = "resume_attempts c j + 1"
  have "?n = 1 \<or> ?n = 2 \<or> ?n = 3" using assms by auto
  from counter_reads [OF this] show ?thesis
    by (simp add: note_resume_attempt_def resume_attempts_def [of c "j\<lparr>rj_dir := _\<rparr>"] update_conv Let_def)
qed

text \<open>How often a chat is revived over a row of restarts, each after whatever happened since the last.\<close>

fun revivals :: "'d session_env \<Rightarrow> string \<Rightarrow> (('d sessions \<Rightarrow> 'd sessions) \<times> tick) list \<Rightarrow> 'd sessions \<Rightarrow> nat" where
  "revivals V c [] s = 0"
| "revivals V c ((since, k) # restarts) s =
     (let s = since s;
          s' = snd (recover_chat V k True c s)
      in length (sn_spawned s') - length (sn_spawned s) + revivals V c restarts s')"

lemma recover_counts:
  "sn_spawned (snd (recover_chat V k True c s)) = sn_spawned s \<and>
     resume_attempts c (sn_journal (snd (recover_chat V k True c s))) = resume_attempts c (sn_journal s) \<or>
   length (sn_spawned (snd (recover_chat V k True c s))) = length (sn_spawned s) + 1 \<and> resume_attempts c (sn_journal s) < 3 \<and>
     resume_attempts c (sn_journal (snd (recover_chat V k True c s))) = resume_attempts c (sn_journal s) + 1"
proof (cases "live_run c s = None")
  case False
  then show ?thesis by (simp add: recover_chat_def)
next
  case live: True
  show ?thesis
  proof (cases "doc_handle c s")
    case (Inl e)
    then show ?thesis using live by (simp add: recover_chat_def)
  next
    case (Inr d)
    let ?b = "will_resume (ck_now_ms k) (doc_entries V d) (resume_attempts c (sn_journal s))"
    let ?s1 = "publish V k c (recovery_done ?b) (find_session V c s)"
    obtain r d' where m: "mark_abandoned_streams V (sn_device_id s) (recovery_note ?b) d = (r, d')" by fastforce
    show ?thesis
    proof (cases r)
      case (Inl e)
      then show ?thesis using live Inr m by (simp add: recover_chat_def Let_def)
    next
      case R: (Inr ms)
      let ?s2 = "set_status k c SsIdle False (put_doc c d' ?s1)"
      have e: "snd (recover_chat V k True c s) =
          (case (if ?b then revival_prompt (doc_entries V d) else None) of
             None \<Rightarrow> ?s2
           | Some (u, p) \<Rightarrow> spawn (SpawnRevive c u p) (?s2\<lparr>sn_journal := snd (note_resume_attempt True c (sn_journal ?s2))\<rparr>))"
        using live Inr m R by (simp add: recover_chat_def Let_def)
      have a: "resume_attempts c (sn_journal ?s2) = resume_attempts c (sn_journal s)" by simp
      have l: "?b \<Longrightarrow> resume_attempts c (sn_journal s) < 3" by (simp add: will_resume_def max_auto_resume_def)
      from attempt_noted [of c "sn_journal ?s2"] l a
      have n: "?b \<Longrightarrow> resume_attempts c (snd (note_resume_attempt True c (sn_journal ?s2))) = resume_attempts c (sn_journal s) + 1"
        by simp
      show ?thesis unfolding e using a n l by (auto split: option.split)
    qed
  qed
qed



text \<open>An error of the document leaves the journal closed and the entries streaming: the next boot does not
  find the chat again. It also ends the scan, so the chats after it wait for that boot.\<close>

lemma failed_stamp_not_retried:
  assumes "run_env_ok V" "tick_ok k" "live_run c s = None" "sn_doc_host s" "sn_docs s c = Inr d"
    "\<And>note. mark_abandoned_streams V (sn_device_id s) note d = (Inl e, d')"
    "journal_run (sv_journal V) c evs (sn_journal s)"
  shows "\<exists>s' all. recover_chats V k True (c # chats) s = (Inl (EeDoc e), s') \<and>
    replay (sv_journal V) c 0 (sn_journal s') = Inr all \<and> all \<noteq> [] \<and> is_done (snd (last all))"
proof -
  let ?b = "will_resume (ck_now_ms k) (doc_entries V d) (resume_attempts c (sn_journal s))"
  let ?s1 = "publish V k c (recovery_done ?b) (find_session V c s)"
  have V: "codec_total (sv_journal V)" "codec_ok (sv_journal V)" using assms(1) by (simp_all add: run_env_ok_def codec_total_def)
  have e: "recover_chats V k True (c # chats) s = (Inl (EeDoc e), put_doc c d' ?s1)"
    using assms(3-6) by (simp add: recover_chat_def doc_handle_def Let_def)
  have "journaled V c (map snd evs) s" using run_inv [OF V(2) assms(7)] by (auto simp: journaled_def)
  then have "journaled V c (map snd evs) (find_session V c s)" using journaled_cong [of "find_session V c s" s] by simp
  from publish_journaled [OF V(1) this] assms(2) have "journaled V c (map snd evs @ [recovery_done ?b]) ?s1"
    by (simp add: tick_ok_def)
  then have "journaled V c (map snd evs @ [recovery_done ?b]) (put_doc c d' ?s1)" using journaled_cong [of "put_doc c d' ?s1" ?s1] by simp
  from journaled_replay [OF this] obtain all where
    a: "replay (sv_journal V) c 0 (sn_journal (put_doc c d' ?s1)) = Inr all" "map snd all = map snd evs @ [recovery_done ?b]"
    by blast
  from a(2) have n: "all \<noteq> []" by auto
  then have "snd (last all) = last (map snd all)" by (simp add: last_map)
  then have "is_done (snd (last all))" by (simp add: a(2) is_done_def recovery_done_def)
  with e a(1) n show ?thesis by blast
qed

subsection \<open>A recovery\<close>

definition asked :: session_message_entry where
  "asked = \<lparr>me_id = ''u'', me_role = MrUser, me_parts = [PText ''t0'' ''go''], me_created_at = 0, me_device_id = ''d'',
     me_status = Some MsComplete, me_continuation_of = None\<rparr>"

definition cut_off :: session_message_entry where
  "cut_off = \<lparr>me_id = ''a'', me_role = MrAssistant, me_parts = [PText ''t0'' ''hi''], me_created_at = 0, me_device_id = ''d'',
     me_status = Some MsStreaming, me_continuation_of = None\<rparr>"


end
