(* ===== verification/Rpc_Client.thy ===== *)
theory Rpc_Client
  imports Prelude
begin

text \<open>
  The control plane's multiplexing, \<^verbatim>\<open>crates/rpc/src/lib.rs\<close>, \<^verbatim>\<open>client.rs\<close> and \<^verbatim>\<open>server.rs\<close>: the
  envelopes with their derived (de)serialisers, the client's table of pending requests with the
  reader that resolves them, the server's dispatch loop with its request tasks, and both joined by
  two queues, as \<^verbatim>\<open>memory_client\<close> joins them. The JSON text codec (\<^verbatim>\<open>serde_json\<close>) is a parameter; so
  is the service, as what it answers to a request. A stream is what it has yielded and whether it
  ended. A text that holds a frame as an array is not modelled.
\<close>

subsection \<open>Envelopes\<close>

datatype rpc_error =
    UnknownMethod string
  | BadParams string
  | RpcFailed string
  | RpcTransport string
  | RpcClosed

fun rpc_error_text :: "rpc_error \<Rightarrow> string" where
  "rpc_error_text (UnknownMethod m) = ''unknown method: '' @ m"
| "rpc_error_text (BadParams m) = ''bad params: '' @ m"
| "rpc_error_text (RpcFailed m) = m"
| "rpc_error_text (RpcTransport m) = ''transport: '' @ m"
| "rpc_error_text RpcClosed = ''connection closed''"

record rpc_client_frame =
  cf_id :: nat
  cf_method :: "string option"
  cf_params :: json
  cf_cancel :: bool

record rpc_server_frame =
  sf_id :: nat
  sf_ok :: "json option"
  sf_err :: "string option"
  sf_item :: "json option"
  sf_done :: bool

text \<open>\<^verbatim>\<open>ServerFrame { id, ..Default::default() }\<close>\<close>

definition server_frame_default :: "nat \<Rightarrow> rpc_server_frame" where
  "server_frame_default i =
     \<lparr>sf_id = i, sf_ok = None, sf_err = None, sf_item = None, sf_done = False\<rparr>"

definition client_frame_json :: "rpc_client_frame \<Rightarrow> json" where
  "client_frame_json f =
     JObj ([(''id'', JInt (int (cf_id f)))] @
           (case cf_method f of None \<Rightarrow> [] | Some m \<Rightarrow> [(''method'', JStr m)]) @
           (if cf_params f = JNull then [] else [(''params'', cf_params f)]) @
           (if cf_cancel f then [(''cancel'', JBool True)] else []))"

definition server_frame_json :: "rpc_server_frame \<Rightarrow> json" where
  "server_frame_json f =
     JObj ([(''id'', JInt (int (sf_id f)))] @
           (case sf_ok f of None \<Rightarrow> [] | Some v \<Rightarrow> [(''ok'', v)]) @
           (case sf_err f of None \<Rightarrow> [] | Some e \<Rightarrow> [(''err'', JStr e)]) @
           (case sf_item f of None \<Rightarrow> [] | Some v \<Rightarrow> [(''item'', v)]) @
           (if sf_done f then [(''done'', JBool True)] else []))"

definition client_frame_of :: "json \<Rightarrow> rpc_client_frame option" where
  "client_frame_of v =
     (case as_obj v of
        None \<Rightarrow> None
      | Some fs \<Rightarrow>
          (case (req_field as_u64 fs ''id'', opt_field as_str fs ''method'',
                 default_field JNull Some fs ''params'', default_field False as_bool fs ''cancel'') of
             (Some i, Some m, Some p, Some c) \<Rightarrow>
               Some \<lparr>cf_id = i, cf_method = m, cf_params = p, cf_cancel = c\<rparr>
           | _ \<Rightarrow> None))"

definition server_frame_of :: "json \<Rightarrow> rpc_server_frame option" where
  "server_frame_of v =
     (case as_obj v of
        None \<Rightarrow> None
      | Some fs \<Rightarrow>
          (case (req_field as_u64 fs ''id'', opt_field Some fs ''ok'', opt_field as_str fs ''err'',
                 opt_field Some fs ''item'', default_field False as_bool fs ''done'') of
             (Some i, Some r, Some e, Some t, Some d) \<Rightarrow>
               Some \<lparr>sf_id = i, sf_ok = r, sf_err = e, sf_item = t, sf_done = d\<rparr>
           | _ \<Rightarrow> None))"

text \<open>\<^verbatim>\<open>serde_json::to_string\<close> and \<^verbatim>\<open>serde_json::from_str\<close>.\<close>

record wire_codec =
  wc_to :: "json \<Rightarrow> string + string"
  wc_of :: "string \<Rightarrow> json option"

text \<open>What is relied on: what is written is read back, on one line, with nothing to trim.\<close>

definition wire_ok :: "wire_codec \<Rightarrow> bool" where
  "wire_ok C \<longleftrightarrow>
     (\<forall>j. \<exists>t. wc_to C j = Inr t \<and> wc_of C t = Some j \<and> str_lines t = [t] \<and> str_trim t = t \<and> t \<noteq> [])"

subsection \<open>The client\<close>

text \<open>The table holds the sending half of a oneshot (a call) or of a bounded queue (a stream).\<close>

datatype pending = PendingCall | PendingStream

record rpc_client =
  rc_next_id :: nat
  rc_pending :: "(nat, pending) hashmap"
  rc_closed :: bool

definition rpc_client_new :: rpc_client where
  "rpc_client_new = \<lparr>rc_next_id = 1, rc_pending = [], rc_closed = False\<rparr>"

text \<open>What the waiting tasks see, and what the reader itself sends. A oneshot whose sender is dropped
  resolves its call with \<^const>\<open>RpcClosed\<close>; a queue whose sender is dropped ends its stream.\<close>

datatype client_effect =
    Resolve nat "rpc_error + json"
  | Deliver nat json
  | StreamEnd nat
  | SendCancel string

fun drop_sender :: "nat \<Rightarrow> pending \<Rightarrow> client_effect" where
  "drop_sender i PendingCall = Resolve i (Inl RpcClosed)"
| "drop_sender i PendingStream = StreamEnd i"

definition send_frame :: "wire_codec \<Rightarrow> bool \<Rightarrow> rpc_client_frame \<Rightarrow> rpc_error + string" where
  "send_frame C is_open f =
     (case wc_to C (client_frame_json f) of
        Inl e \<Rightarrow> Inl (RpcTransport (''serialize frame: '' @ e))
      | Inr t \<Rightarrow> if is_open then Inr t else Inl RpcClosed)"

text \<open>A request takes the next number (an atomic \<^verbatim>\<open>u64\<close>, which wraps) and registers its sender; then
  its frame is queued, or it is forgotten again.\<close>

definition register :: "pending \<Rightarrow> rpc_client \<Rightarrow> nat \<times> rpc_client" where
  "register k c =
     (let i = rc_next_id c
      in (i, c\<lparr>rc_next_id := (i + 1) mod 2 ^ 64, rc_pending := AList.update i k (rc_pending c)\<rparr>))"

definition request_frame :: "nat \<Rightarrow> string \<Rightarrow> json \<Rightarrow> rpc_client_frame" where
  "request_frame i m p = \<lparr>cf_id = i, cf_method = Some m, cf_params = p, cf_cancel = False\<rparr>"

definition submit :: "wire_codec \<Rightarrow> bool \<Rightarrow> nat \<Rightarrow> string \<Rightarrow> json \<Rightarrow> rpc_client \<Rightarrow>
    (rpc_error + string) \<times> rpc_client" where
  "submit C is_open i m p c =
     (case send_frame C is_open (request_frame i m p) of
        Inl e \<Rightarrow> (Inl e, c\<lparr>rc_pending := AList.delete i (rc_pending c)\<rparr>)
      | Inr t \<Rightarrow> (Inr t, c))"

text \<open>\<^verbatim>\<open>call\<close> (for \<^const>\<open>PendingCall\<close>) and \<^verbatim>\<open>subscribe\<close> up to the point where they wait.\<close>

definition request :: "wire_codec \<Rightarrow> bool \<Rightarrow> pending \<Rightarrow> string \<Rightarrow> json \<Rightarrow> rpc_client \<Rightarrow>
    (rpc_error + string) \<times> nat \<times> rpc_client" where
  "request C is_open k m p c =
     (let (i, c) = register k c; (r, c) = submit C is_open i m p c in (r, i, c))"

definition cancel_frame :: "nat \<Rightarrow> rpc_client_frame" where
  "cancel_frame i = \<lparr>cf_id = i, cf_method = None, cf_params = JNull, cf_cancel = True\<rparr>"

definition forget :: "nat \<Rightarrow> rpc_client \<Rightarrow> rpc_client" where
  "forget i c = c\<lparr>rc_pending := AList.delete i (rc_pending c)\<rparr>"

text \<open>\<open>alive\<close> tells the streams whose receiver still exists.\<close>

definition route_frame :: "wire_codec \<Rightarrow> (nat \<Rightarrow> bool) \<Rightarrow> rpc_server_frame \<Rightarrow> rpc_client \<Rightarrow>
    client_effect list \<times> rpc_client" where
  "route_frame C alive f c =
     (let i = sf_id f
      in case sf_err f of
           Some e \<Rightarrow>
             ((case map_of (rc_pending c) i of
                 Some PendingCall \<Rightarrow> [Resolve i (Inl (RpcFailed e))]
               | Some PendingStream \<Rightarrow> [StreamEnd i]
               | None \<Rightarrow> []), forget i c)
         | None \<Rightarrow>
             (case sf_ok f of
                Some v \<Rightarrow>
                  ((case map_of (rc_pending c) i of
                      Some PendingCall \<Rightarrow> [Resolve i (Inr v)]
                    | Some PendingStream \<Rightarrow> [StreamEnd i]
                    | None \<Rightarrow> []), forget i c)
              | None \<Rightarrow>
                  (case sf_item f of
                     Some v \<Rightarrow>
                       if map_of (rc_pending c) i = Some PendingStream then
                         if alive i then ([Deliver i v], c)
                         else (StreamEnd i #
                               (case wc_to C (client_frame_json (cancel_frame i)) of
                                  Inr t \<Rightarrow> [SendCancel t] | Inl _ \<Rightarrow> []), forget i c)
                       else ([], c)
                   | None \<Rightarrow>
                       if sf_done f then
                         ((case map_of (rc_pending c) i of
                             Some k \<Rightarrow> [drop_sender i k] | None \<Rightarrow> []), forget i c)
                       else ([], c))))"

definition read_line :: "wire_codec \<Rightarrow> (nat \<Rightarrow> bool) \<Rightarrow> string \<Rightarrow> rpc_client \<Rightarrow>
    client_effect list \<times> rpc_client" where
  "read_line C alive line c =
     (let line = str_trim line
      in if line = [] then ([], c)
         else (case Option.bind (wc_of C line) server_frame_of of
                 None \<Rightarrow> ([], c)
               | Some f \<Rightarrow> route_frame C alive f c))"

fun reader_lines :: "wire_codec \<Rightarrow> (nat \<Rightarrow> bool) \<Rightarrow> string list \<Rightarrow> rpc_client \<Rightarrow>
    client_effect list \<times> rpc_client" where
  "reader_lines C alive [] c = ([], c)"
| "reader_lines C alive (l # ls) c =
     (let (es, c) = read_line C alive l c; (fs, c) = reader_lines C alive ls c in (es @ fs, c))"

definition read_payload :: "wire_codec \<Rightarrow> (nat \<Rightarrow> bool) \<Rightarrow> string \<Rightarrow> rpc_client \<Rightarrow>
    client_effect list \<times> rpc_client" where
  "read_payload C alive payload c = reader_lines C alive (str_lines payload) c"

text \<open>The end of the reader: everything pending fails.\<close>

definition reader_ends :: "rpc_client \<Rightarrow> client_effect list \<times> rpc_client" where
  "reader_ends c =
     (map (\<lambda>(i, k). drop_sender i k) (rc_pending c), c\<lparr>rc_pending := [], rc_closed := True\<rparr>)"

subsection \<open>The server\<close>

datatype rpc_reply = ReplyValue json | ReplyStream "json list" bool

text \<open>The frames a request task sends for what the service returned.\<close>

fun reply_frames :: "nat \<Rightarrow> rpc_error + rpc_reply \<Rightarrow> rpc_server_frame list" where
  "reply_frames i (Inr (ReplyValue v)) = [(server_frame_default i)\<lparr>sf_ok := Some v\<rparr>]"
| "reply_frames i (Inr (ReplyStream vs ends)) =
     map (\<lambda>v. (server_frame_default i)\<lparr>sf_item := Some v\<rparr>) vs @
     (if ends then [(server_frame_default i)\<lparr>sf_done := True\<rparr>] else [])"
| "reply_frames i (Inl e) = [(server_frame_default i)\<lparr>sf_err := Some (rpc_error_text e)\<rparr>]"

text \<open>A spawned task: the number its handle has, the request it answers, what it has still to send and
  whether it then stays, waiting for its stream.\<close>

fun reply_hangs :: "rpc_error + rpc_reply \<Rightarrow> bool" where
  "reply_hangs (Inr (ReplyStream vs ends)) = (\<not> ends)"
| "reply_hangs _ = False"

record request_task =
  tk_no :: nat
  tk_id :: nat
  tk_left :: "rpc_server_frame list"
  tk_hangs :: bool

record server_conn =
  sv_running :: "(nat, nat) hashmap"
  sv_tasks :: "request_task list"
  sv_spawned :: nat

definition server_new :: server_conn where
  "server_new = \<lparr>sv_running = [], sv_tasks = [], sv_spawned = 0\<rparr>"

definition task_finished :: "server_conn \<Rightarrow> nat \<Rightarrow> bool" where
  "task_finished s n \<longleftrightarrow> (\<forall>t \<in> set (sv_tasks s). tk_no t = n \<longrightarrow> tk_left t = [] \<and> \<not> tk_hangs t)"

definition abort_task :: "nat \<Rightarrow> server_conn \<Rightarrow> server_conn" where
  "abort_task n s = s\<lparr>sv_tasks := filter (\<lambda>t. tk_no t \<noteq> n) (sv_tasks s)\<rparr>"

type_synonym service = "nat \<Rightarrow> string \<Rightarrow> json \<Rightarrow> rpc_error + rpc_reply"

definition serve_frame :: "service \<Rightarrow> rpc_client_frame \<Rightarrow> server_conn \<Rightarrow> server_conn" where
  "serve_frame svc f s =
     (let s = s\<lparr>sv_running := filter (\<lambda>(i, n). \<not> task_finished s n) (sv_running s)\<rparr>
      in if cf_cancel f then
           (case map_of (sv_running s) (cf_id f) of
              None \<Rightarrow> s
            | Some n \<Rightarrow> abort_task n (s\<lparr>sv_running := AList.delete (cf_id f) (sv_running s)\<rparr>))
         else
           (case cf_method f of
              None \<Rightarrow> s
            | Some m \<Rightarrow>
                s\<lparr>sv_running := AList.update (cf_id f) (sv_spawned s) (sv_running s),
                  sv_tasks := sv_tasks s @
                    [\<lparr>tk_no = sv_spawned s, tk_id = cf_id f,
                      tk_left = reply_frames (cf_id f) (svc (cf_id f) m (cf_params f)),
                      tk_hangs = reply_hangs (svc (cf_id f) m (cf_params f))\<rparr>],
                  sv_spawned := Suc (sv_spawned s)\<rparr>))"

definition serve_line :: "wire_codec \<Rightarrow> service \<Rightarrow> string \<Rightarrow> server_conn \<Rightarrow> server_conn" where
  "serve_line C svc line s =
     (let line = str_trim line
      in if line = [] then s
         else (case Option.bind (wc_of C line) client_frame_of of
                 None \<Rightarrow> s
               | Some f \<Rightarrow> serve_frame svc f s))"

definition serve_payload :: "wire_codec \<Rightarrow> service \<Rightarrow> string \<Rightarrow> server_conn \<Rightarrow> server_conn" where
  "serve_payload C svc payload s = fold (serve_line C svc) (str_lines payload) s"

definition set_left :: "nat \<Rightarrow> rpc_server_frame list \<Rightarrow> request_task list \<Rightarrow> request_task list" where
  "set_left n fs ts = map (\<lambda>t. if tk_no t = n then t\<lparr>tk_left := fs\<rparr> else t) ts"

text \<open>One send of task \<open>n\<close>: the text for the connection, if it has one. A frame that does not
  serialise ends its task.\<close>

definition task_sends :: "wire_codec \<Rightarrow> nat \<Rightarrow> server_conn \<Rightarrow> string option \<times> server_conn" where
  "task_sends C n s =
     (case find (\<lambda>t. tk_no t = n) (sv_tasks s) of
        None \<Rightarrow> (None, s)
      | Some t \<Rightarrow>
          (case tk_left t of
             [] \<Rightarrow> (None, s)
           | f # fs \<Rightarrow>
               (case wc_to C (server_frame_json f) of
                  Inl _ \<Rightarrow> (None, abort_task n s)
                | Inr x \<Rightarrow>
                    (Some x, s\<lparr>sv_tasks := set_left n fs (sv_tasks s)\<rparr>))))"

text \<open>The end of the connection aborts what is tracked.\<close>

definition serve_ends :: "server_conn \<Rightarrow> server_conn" where
  "serve_ends s = s\<lparr>sv_tasks := filter (\<lambda>t. tk_no t \<notin> snd ` set (sv_running s)) (sv_tasks s), sv_running := []\<rparr>"

subsection \<open>Client and server joined\<close>

text \<open>\<open>rw_asked\<close> and \<open>rw_log\<close> only record: the requests issued, in the order of their numbers, and
  what the waiting tasks saw.\<close>

record rpc_wire =
  rw_client :: rpc_client
  rw_up :: "string list"
  rw_server :: server_conn
  rw_down :: "string list"
  rw_asked :: "(pending \<times> string \<times> json) list"
  rw_log :: "client_effect list"

definition rpc_wire_new :: rpc_wire where
  "rpc_wire_new = \<lparr>rw_client = rpc_client_new, rw_up = [], rw_server = server_new, rw_down = [],
                   rw_asked = [], rw_log = []\<rparr>"

datatype rpc_input =
    Ask pending string json
  | ServerReads
  | TaskSends nat
  | ClientReads "nat \<Rightarrow> bool"

definition cancels :: "client_effect list \<Rightarrow> string list" where
  "cancels es = concat (map (\<lambda>e. case e of SendCancel t \<Rightarrow> [t] | _ \<Rightarrow> []) es)"

fun rpc_step :: "wire_codec \<Rightarrow> service \<Rightarrow> rpc_input \<Rightarrow> rpc_wire \<Rightarrow> rpc_wire" where
  "rpc_step C svc (Ask k m p) w =
     (let (r, i, c) = request C True k m p (rw_client w)
      in w\<lparr>rw_client := c, rw_asked := rw_asked w @ [(k, m, p)],
           rw_up := rw_up w @ (case r of Inr t \<Rightarrow> [t] | Inl _ \<Rightarrow> [])\<rparr>)"
| "rpc_step C svc ServerReads w =
     (case rw_up w of
        [] \<Rightarrow> w
      | t # ts \<Rightarrow> w\<lparr>rw_up := ts, rw_server := serve_payload C svc t (rw_server w)\<rparr>)"
| "rpc_step C svc (TaskSends n) w =
     (let (x, s) = task_sends C n (rw_server w)
      in w\<lparr>rw_server := s, rw_down := rw_down w @ (case x of None \<Rightarrow> [] | Some t \<Rightarrow> [t])\<rparr>)"
| "rpc_step C svc (ClientReads alive) w =
     (case rw_down w of
        [] \<Rightarrow> w
      | t # ts \<Rightarrow>
          (let (es, c) = read_payload C alive t (rw_client w)
           in w\<lparr>rw_down := ts, rw_client := c, rw_log := rw_log w @ es, rw_up := rw_up w @ cancels es\<rparr>))"

definition rpc_steps :: "wire_codec \<Rightarrow> service \<Rightarrow> rpc_input list \<Rightarrow> rpc_wire \<Rightarrow> rpc_wire" where
  "rpc_steps C svc inps w = fold (rpc_step C svc) inps w"


subsection \<open>Frames on the wire\<close>

text \<open>An \<^verbatim>\<open>Option<Value>\<close> that holds \<^verbatim>\<open>null\<close> is written as \<^verbatim>\<open>null\<close> and read as absent.\<close>

definition not_null :: "json option \<Rightarrow> json option" where
  "not_null v = (if v = Some JNull then None else v)"

definition as_read :: "rpc_server_frame \<Rightarrow> rpc_server_frame" where
  "as_read f = f\<lparr>sf_ok := not_null (sf_ok f), sf_item := not_null (sf_item f)\<rparr>"

lemma sf_id_as_read [simp]: "sf_id (as_read f) = sf_id f"
  by (simp add: as_read_def)

lemma client_frame_read: "cf_id f < 2 ^ 64 \<Longrightarrow> client_frame_of (client_frame_json f) = Some f"
  by (cases f) (auto simp: client_frame_of_def client_frame_json_def as_obj_def req_field_def
      opt_field_def default_field_def as_u64_def as_str_def as_bool_def split: option.splits)

lemma server_frame_read:
  "sf_id f < 2 ^ 64 \<Longrightarrow> server_frame_of (server_frame_json f) = Some (as_read f)"
  by (cases f) (auto simp: server_frame_of_def server_frame_json_def as_obj_def req_field_def
      opt_field_def default_field_def as_u64_def as_str_def as_bool_def as_read_def not_null_def
      split: option.splits)

lemma wire_line:
  assumes "wire_ok C" "wc_to C j = Inr t"
  shows "wc_of C t = Some j" "str_lines t = [t]" "str_trim t = t" "t \<noteq> []"
  using assms by (auto simp: wire_ok_def) (metis sum.inject(2))+

lemma wire_writes: "wire_ok C \<Longrightarrow> \<exists>t. wc_to C j = Inr t"
  by (auto simp: wire_ok_def)

lemma client_reads_frame:
  assumes "wire_ok C" "wc_to C (server_frame_json f) = Inr t" "sf_id f < 2 ^ 64"
  shows "read_payload C alive t c = route_frame C alive (as_read f) c"
  using assms by (simp add: read_payload_def read_line_def Let_def wire_line server_frame_read split: prod.splits)

lemma server_reads_frame:
  assumes "wire_ok C" "wc_to C (client_frame_json f) = Inr t" "cf_id f < 2 ^ 64"
  shows "serve_payload C svc t s = serve_frame svc f s"
  using assms by (simp add: serve_payload_def serve_line_def Let_def wire_line client_frame_read)

subsection \<open>The server's tasks\<close>

definition seen :: "nat \<Rightarrow> rpc_server_frame list \<Rightarrow> rpc_server_frame list" where
  "seen i fs = filter (\<lambda>f. sf_id f = i) fs"

lemma seen_append [simp]: "seen i (xs @ ys) = seen i xs @ seen i ys"
  by (simp add: seen_def)

lemma seen_Nil [simp]: "seen i [] = []"
  by (simp add: seen_def)

lemma seen_Cons: "seen i (f # fs) = (if sf_id f = i then f # seen i fs else seen i fs)"
  by (simp add: seen_def)

lemma seen_map_as_read: "seen i (map as_read fs) = map as_read (seen i fs)"
  by (induction fs) (auto simp: seen_Cons)

lemma seen_all: "\<forall>f \<in> set fs. sf_id f = i \<Longrightarrow> seen j fs = (if j = i then fs else [])"
  by (induction fs) (auto simp: seen_Cons)

definition left_frames :: "server_conn \<Rightarrow> rpc_server_frame list" where
  "left_frames s = concat (map tk_left (sv_tasks s))"

definition tasks_ok :: "server_conn \<Rightarrow> bool" where
  "tasks_ok s \<longleftrightarrow>
     distinct (map tk_id (sv_tasks s)) \<and> distinct (map tk_no (sv_tasks s)) \<and>
     (\<forall>t \<in> set (sv_tasks s). tk_no t < sv_spawned s \<and> (\<forall>f \<in> set (tk_left t). sf_id f = tk_id t)) \<and>
     (\<forall>(i, n) \<in> set (sv_running s). n < sv_spawned s \<and>
        (\<forall>t \<in> set (sv_tasks s). tk_no t = n \<longrightarrow> tk_id t = i))"

lemma seen_tasks:
  assumes "distinct (map tk_id ts)" "\<forall>t \<in> set ts. \<forall>f \<in> set (tk_left t). sf_id f = tk_id t"
  shows "seen i (concat (map tk_left ts)) =
    (case find (\<lambda>t. tk_id t = i) ts of None \<Rightarrow> [] | Some t \<Rightarrow> tk_left t)"
  using assms
proof (induction ts)
  case (Cons t ts)
  show ?case
  proof (cases "tk_id t = i")
    case True
    with Cons.prems have "find (\<lambda>t. tk_id t = i) ts = None"
      by (auto simp: find_None_iff) (metis image_eqI)
    with True Cons show ?thesis by (simp add: seen_all [of "tk_left t" "tk_id t"])
  next
    case False
    with Cons show ?thesis by (simp add: seen_all [of "tk_left t" "tk_id t"])
  qed
qed simp

lemma seen_left:
  "tasks_ok s \<Longrightarrow> seen i (left_frames s) =
     (case find (\<lambda>t. tk_id t = i) (sv_tasks s) of None \<Rightarrow> [] | Some t \<Rightarrow> tk_left t)"
  unfolding left_frames_def tasks_ok_def by (intro seen_tasks) auto

lemma find_by_no:
  assumes "distinct (map tk_no ts)" "t \<in> set ts"
  shows "find (\<lambda>u. tk_no u = tk_no t) ts = Some t"
  using assms by (induction ts) auto

lemma set_left_ids [simp]:
  "map tk_id (set_left n fs ts) = map tk_id ts" "map tk_no (set_left n fs ts) = map tk_no ts"
  by (induction ts) (auto simp: set_left_def)

lemma set_left_find:
  "find (\<lambda>u. tk_id u = i) (set_left n fs ts) =
     map_option (\<lambda>u. if tk_no u = n then u\<lparr>tk_left := fs\<rparr> else u) (find (\<lambda>u. tk_id u = i) ts)"
  by (induction ts) (auto simp: set_left_def)

lemma set_left_set: "t \<in> set (set_left n fs ts) \<Longrightarrow>
    \<exists>u \<in> set ts. tk_id u = tk_id t \<and> tk_no u = tk_no t \<and> (tk_left t = tk_left u \<or> tk_no u = n \<and> tk_left t = fs)"
  by (auto simp: set_left_def)

lemma task_sends_cases:
  assumes "wire_ok C" "task_sends C n s = (x, s')"
  obtains "x = None" "s' = s"
  | t f fs y where "t \<in> set (sv_tasks s)" "tk_no t = n" "tk_left t = f # fs"
      "wc_to C (server_frame_json f) = Inr y" "x = Some y" "s' = s\<lparr>sv_tasks := set_left n fs (sv_tasks s)\<rparr>"
proof (cases "find (\<lambda>t. tk_no t = n) (sv_tasks s)")
  case None
  with assms(2) show thesis by (intro that(1)) (auto simp: task_sends_def)
next
  case (Some t)
  note t = find_SomeD [OF Some]
  show thesis
  proof (cases "tk_left t")
    case Nil
    with Some assms(2) show thesis by (intro that(1)) (auto simp: task_sends_def)
  next
    case (Cons f fs)
    obtain y where y: "wc_to C (server_frame_json f) = Inr y" using wire_writes [OF assms(1)] by blast
    with Some Cons assms(2) t show thesis
      by (intro that(2) [of t f fs y]) (auto simp: task_sends_def)
  qed
qed

lemma task_sends_ok:
  assumes "wire_ok C" "tasks_ok s" "task_sends C n s = (x, s')"
  shows "tasks_ok s'" "map tk_id (sv_tasks s') = map tk_id (sv_tasks s)"
    "sv_running s' = sv_running s" "sv_spawned s' = sv_spawned s"
proof -
  have "tasks_ok s' \<and> map tk_id (sv_tasks s') = map tk_id (sv_tasks s) \<and>
    sv_running s' = sv_running s \<and> sv_spawned s' = sv_spawned s"
    using assms(1,3)
  proof (cases rule: task_sends_cases)
    case 1
    with assms(2) show ?thesis by simp
  next
    case (2 t f fs y)
    have only: "u \<in> set (sv_tasks s) \<Longrightarrow> tk_no u = n \<Longrightarrow> u = t" for u
      using assms(2) 2(1,2) find_by_no [of "sv_tasks s" u] find_by_no [of "sv_tasks s" t]
      by (auto simp: tasks_ok_def)
    have "tk_no u < sv_spawned s \<and> (\<forall>f \<in> set (tk_left u). sf_id f = tk_id u)" if u: "u \<in> set (sv_tasks s')" for u
    proof -
      obtain v where v: "v \<in> set (sv_tasks s)" "tk_id v = tk_id u" "tk_no v = tk_no u"
        "tk_left u = tk_left v \<or> tk_no v = n \<and> tk_left u = fs"
        using set_left_set [of u n fs "sv_tasks s"] u unfolding 2(6) by auto
      have "set (tk_left u) \<subseteq> set (tk_left v)" using v(4) only [OF v(1)] 2(3) by auto
      moreover have "tk_no v < sv_spawned s \<and> (\<forall>f \<in> set (tk_left v). sf_id f = tk_id v)"
        using assms(2) v(1) by (auto simp: tasks_ok_def)
      ultimately show ?thesis using v(2,3) by auto
    qed
    moreover have "tk_id u = i" if "(i, m) \<in> set (sv_running s)" and u: "u \<in> set (sv_tasks s')" and "tk_no u = m" for i m u
    proof -
      obtain v where "v \<in> set (sv_tasks s)" "tk_id v = tk_id u" "tk_no v = tk_no u"
        using set_left_set [of u n fs "sv_tasks s"] u unfolding 2(6) by auto
      with that(1,3) assms(2) show ?thesis by (auto simp: tasks_ok_def)
    qed
    ultimately show ?thesis using assms(2) unfolding tasks_ok_def 2(6) by auto
  qed
  then show "tasks_ok s'" "map tk_id (sv_tasks s') = map tk_id (sv_tasks s)"
    "sv_running s' = sv_running s" "sv_spawned s' = sv_spawned s" by blast+
qed

lemma task_sends_seen:
  assumes "wire_ok C" "tasks_ok s" "task_sends C n s = (Some y, s')"
  obtains f where "wc_to C (server_frame_json f) = Inr y" "sf_id f \<in> tk_id ` set (sv_tasks s)"
    "\<And>i. seen i (left_frames s) = seen i [f] @ seen i (left_frames s')"
  using assms(1,3)
proof (cases rule: task_sends_cases)
  case (2 t f fs z)
  have fid: "sf_id f = tk_id t" using assms(2) 2(1,3) by (auto simp: tasks_ok_def)
  have "seen i (left_frames s) = seen i [f] @ seen i (left_frames s')" for i
  proof (cases "find (\<lambda>u. tk_id u = i) (sv_tasks s)")
    case None
    then have "i \<noteq> tk_id t" using 2(1) by (auto simp: find_None_iff)
    with None show ?thesis
      using assms(2) task_sends_ok(1) [OF assms] 2(6) fid
      by (simp add: seen_left set_left_find seen_Cons)
  next
    case (Some u)
    then have u: "u \<in> set (sv_tasks s)" "tk_id u = i" by (auto dest: find_SomeD)
    have inj: "inj_on tk_id (set (sv_tasks s))" "inj_on tk_no (set (sv_tasks s))"
      using assms(2) by (auto simp: tasks_ok_def distinct_map)
    have same: "u = t" if "tk_id t = i \<or> tk_no u = n"
    proof -
      from that have "tk_id u = tk_id t \<or> tk_no u = tk_no t" using u(2) 2(2) by metis
      then show ?thesis
        using inj_onD [OF inj(1) _ u(1) 2(1)] inj_onD [OF inj(2) _ u(1) 2(1)] by blast
    qed
    have l: "seen i (left_frames s) = tk_left u"
      "seen i (left_frames s') = tk_left (if tk_no u = n then u\<lparr>tk_left := fs\<rparr> else u)"
      using assms(2) task_sends_ok(1) [OF assms] Some unfolding 2(6) by (simp_all add: seen_left set_left_find)
    show ?thesis
    proof (cases "u = t")
      case True
      with l 2(2,3) fid u(2) show ?thesis by (simp add: seen_Cons)
    next
      case False
      with same have "tk_id t \<noteq> i" "tk_no u \<noteq> n" by blast+
      with l fid show ?thesis by (simp add: seen_Cons)
    qed
  qed
  with 2 fid show ?thesis by (intro that [of f]) auto
qed simp


lemma set_update_sub: "set (AList.update k v xs) \<subseteq> insert (k, v) (set xs)"
  by (induction xs) auto

lemma tasks_ok_retain: "tasks_ok s \<Longrightarrow> tasks_ok (s\<lparr>sv_running := filter P (sv_running s)\<rparr>)"
  by (auto simp: tasks_ok_def)

lemma tasks_ok_delete: "tasks_ok s \<Longrightarrow> tasks_ok (s\<lparr>sv_running := AList.delete i (sv_running s)\<rparr>)"
  by (auto simp: tasks_ok_def AList.delete_eq)

lemma tasks_ok_abort: "tasks_ok s \<Longrightarrow> tasks_ok (abort_task n s)"
  by (auto simp: tasks_ok_def abort_task_def intro: distinct_map_filter)

lemma left_frames_running [simp]: "left_frames (s\<lparr>sv_running := r\<rparr>) = left_frames s"
  by (simp add: left_frames_def)

lemma find_filter_key:
  "distinct (map tk_id ts) \<Longrightarrow>
   find (\<lambda>t. tk_id t = j) (filter (\<lambda>t. tk_no t \<noteq> n) ts) =
     (if \<exists>t \<in> set ts. tk_no t = n \<and> tk_id t = j then None else find (\<lambda>t. tk_id t = j) ts)"
proof (induction ts)
  case (Cons t ts)
  have "tk_id t = j \<Longrightarrow> u \<in> set ts \<Longrightarrow> tk_id u \<noteq> j" for u
    using Cons.prems by (metis distinct.simps(2) image_eqI list.set_map list.simps(9))
  then show ?case
    using Cons by (cases "tk_id t = j") (force simp: find_None_iff, auto)
qed simp

lemma abort_seen:
  assumes "tasks_ok s"
  shows "seen j (left_frames (abort_task n s)) =
    (if \<exists>t \<in> set (sv_tasks s). tk_no t = n \<and> tk_id t = j then [] else seen j (left_frames s))"
proof -
  have "distinct (map tk_id (sv_tasks s))" using assms by (simp add: tasks_ok_def)
  note find_filter_key [OF this, of j n]
  with assms tasks_ok_abort [OF assms, of n] show ?thesis
    by (simp add: seen_left) (auto simp: abort_task_def)
qed

lemma serve_cancel:
  assumes "tasks_ok s" "cf_cancel f"
  shows "tasks_ok (serve_frame svc f s)"
    "tk_id ` set (sv_tasks (serve_frame svc f s)) \<subseteq> tk_id ` set (sv_tasks s)"
    "seen j (left_frames (serve_frame svc f s)) = seen j (left_frames s) \<or>
     j = cf_id f \<and> seen j (left_frames (serve_frame svc f s)) = []"
proof -
  let ?s = "s\<lparr>sv_running := filter (\<lambda>(i, n). \<not> task_finished s n) (sv_running s)\<rparr>"
  have ok: "tasks_ok ?s" using assms(1) by (rule tasks_ok_retain)
  have "tasks_ok (serve_frame svc f s) \<and>
    tk_id ` set (sv_tasks (serve_frame svc f s)) \<subseteq> tk_id ` set (sv_tasks s) \<and>
    (seen j (left_frames (serve_frame svc f s)) = seen j (left_frames s) \<or>
     j = cf_id f \<and> seen j (left_frames (serve_frame svc f s)) = [])"
  proof (cases "map_of (sv_running ?s) (cf_id f)")
    case None
    with assms ok show ?thesis by (simp add: serve_frame_def Let_def)
  next
    case (Some n)
    let ?t = "?s\<lparr>sv_running := AList.delete (cf_id f) (sv_running ?s)\<rparr>"
    have eq: "serve_frame svc f s = abort_task n ?t"
      using Some assms(2) by (simp add: serve_frame_def Let_def)
    have okt: "tasks_ok ?t" using ok by (rule tasks_ok_delete)
    have "t \<in> set (sv_tasks s) \<Longrightarrow> tk_no t = n \<Longrightarrow> tk_id t = cf_id f" for t
      using map_of_SomeD [OF Some] ok by (auto simp: tasks_ok_def)
    with tasks_ok_abort [OF okt, of n] abort_seen [OF okt, of j n] show ?thesis
      unfolding eq by (auto simp: abort_task_def split: if_splits)
  qed
  then show "tasks_ok (serve_frame svc f s)"
    "tk_id ` set (sv_tasks (serve_frame svc f s)) \<subseteq> tk_id ` set (sv_tasks s)"
    "seen j (left_frames (serve_frame svc f s)) = seen j (left_frames s) \<or>
     j = cf_id f \<and> seen j (left_frames (serve_frame svc f s)) = []" by blast+
qed

lemma reply_frames_id: "f \<in> set (reply_frames i r) \<Longrightarrow> sf_id f = i"
  by (induction i r rule: reply_frames.induct) (auto simp: server_frame_default_def split: if_splits)

lemma serve_request:
  assumes "tasks_ok s" "i \<notin> tk_id ` set (sv_tasks s)"
  shows "tasks_ok (serve_frame svc (request_frame i m p) s)"
    "tk_id ` set (sv_tasks (serve_frame svc (request_frame i m p) s)) = insert i (tk_id ` set (sv_tasks s))"
    "seen j (left_frames (serve_frame svc (request_frame i m p) s)) =
     (if j = i then reply_frames i (svc i m p) else seen j (left_frames s))"
proof -
  let ?r = "filter (\<lambda>(i, n). \<not> task_finished s n) (sv_running s)"
  let ?t = "\<lparr>tk_no = sv_spawned s, tk_id = i, tk_left = reply_frames i (svc i m p),
             tk_hangs = reply_hangs (svc i m p)\<rparr>"
  have eq: "serve_frame svc (request_frame i m p) s =
    s\<lparr>sv_running := AList.update i (sv_spawned s) ?r, sv_tasks := sv_tasks s @ [?t],
      sv_spawned := Suc (sv_spawned s)\<rparr>"
    by (simp add: serve_frame_def request_frame_def)
  have "n < Suc (sv_spawned s) \<and> (\<forall>t \<in> set (sv_tasks s @ [?t]). tk_no t = n \<longrightarrow> tk_id t = k)"
    if "(k, n) \<in> set (AList.update i (sv_spawned s) ?r)" for k n
    using subsetD [OF set_update_sub that] assms(1) by (auto simp: tasks_ok_def)
  with assms show ok: "tasks_ok (serve_frame svc (request_frame i m p) s)"
    unfolding tasks_ok_def eq by (auto dest: reply_frames_id)
  show "tk_id ` set (sv_tasks (serve_frame svc (request_frame i m p) s)) = insert i (tk_id ` set (sv_tasks s))"
    by (simp add: eq)
  have "seen i (left_frames s) = []"
    using assms by (auto simp: seen_left find_None_iff image_iff split: option.splits dest!: find_SomeD)
  then show "seen j (left_frames (serve_frame svc (request_frame i m p) s)) =
     (if j = i then reply_frames i (svc i m p) else seen j (left_frames s))"
    using seen_all [of "reply_frames i (svc i m p)" i j] reply_frames_id [of _ i "svc i m p"]
    by (auto simp: eq left_frames_def)
qed


subsection \<open>What the waiting tasks see\<close>

text \<open>The outcome of a call and the items of a stream, from the frames of its number in the order they
  are routed.\<close>

fun frame_result :: "rpc_server_frame \<Rightarrow> (rpc_error + json) option" where
  "frame_result f =
     (case (sf_err f, sf_ok f, sf_item f) of
        (Some e, _, _) \<Rightarrow> Some (Inl (RpcFailed e))
      | (None, Some v, _) \<Rightarrow> Some (Inr v)
      | (None, None, Some v) \<Rightarrow> None
      | (None, None, None) \<Rightarrow> if sf_done f then Some (Inl RpcClosed) else None)"

declare frame_result.simps [simp del]

fun call_result :: "rpc_server_frame list \<Rightarrow> (rpc_error + json) option" where
  "call_result [] = None"
| "call_result (f # fs) = (case frame_result f of Some r \<Rightarrow> Some r | None \<Rightarrow> call_result fs)"

fun stream_items :: "rpc_server_frame list \<Rightarrow> json list" where
  "stream_items [] = []"
| "stream_items (f # fs) =
     (case frame_result f of
        Some _ \<Rightarrow> []
      | None \<Rightarrow> (case sf_item f of Some v \<Rightarrow> [v] | None \<Rightarrow> []) @ stream_items fs)"

text \<open>What a service's answer means to the caller; \<^const>\<open>None\<close> is a call that never returns.\<close>

fun call_answer :: "rpc_error + rpc_reply \<Rightarrow> (rpc_error + json) option" where
  "call_answer (Inl e) = Some (Inl (RpcFailed (rpc_error_text e)))"
| "call_answer (Inr (ReplyValue v)) = (if v = JNull then None else Some (Inr v))"
| "call_answer (Inr (ReplyStream vs ends)) = (if ends then Some (Inl RpcClosed) else None)"

fun stream_answer :: "rpc_error + rpc_reply \<Rightarrow> json list" where
  "stream_answer (Inr (ReplyStream vs ends)) = filter (\<lambda>v. v \<noteq> JNull) vs"
| "stream_answer _ = []"

definition resolutions :: "nat \<Rightarrow> client_effect list \<Rightarrow> (rpc_error + json) list" where
  "resolutions i es = concat (map (\<lambda>e. case e of Resolve j r \<Rightarrow> if j = i then [r] else [] | _ \<Rightarrow> []) es)"

definition deliveries :: "nat \<Rightarrow> client_effect list \<Rightarrow> json list" where
  "deliveries i es = concat (map (\<lambda>e. case e of Deliver j v \<Rightarrow> if j = i then [v] else [] | _ \<Rightarrow> []) es)"

lemma log_append [simp]:
  "resolutions i (es @ fs) = resolutions i es @ resolutions i fs"
  "deliveries i (es @ fs) = deliveries i es @ deliveries i fs"
  by (simp_all add: resolutions_def deliveries_def)

lemma log_Nil [simp]: "resolutions i [] = []" "deliveries i [] = []"
  by (simp_all add: resolutions_def deliveries_def)

lemma log_Cons:
  "resolutions i (e # es) = (case e of Resolve j r \<Rightarrow> if j = i then [r] else [] | _ \<Rightarrow> []) @ resolutions i es"
  "deliveries i (e # es) = (case e of Deliver j v \<Rightarrow> if j = i then [v] else [] | _ \<Rightarrow> []) @ deliveries i es"
  by (simp_all add: resolutions_def deliveries_def)

lemma call_result_append:
  "call_result (fs @ gs) = (case call_result fs of Some r \<Rightarrow> Some r | None \<Rightarrow> call_result gs)"
  by (induction fs) (auto split: option.splits)

lemma stream_items_append:
  "stream_items (fs @ gs) = (if call_result fs = None then stream_items fs @ stream_items gs else stream_items fs)"
  by (induction fs) (auto split: option.splits)

lemma frame_result_default:
  "frame_result (as_read ((server_frame_default i)\<lparr>sf_ok := Some v\<rparr>)) = (if v = JNull then None else Some (Inr v))"
  "frame_result (as_read ((server_frame_default i)\<lparr>sf_item := Some v\<rparr>)) = None"
  "frame_result (as_read ((server_frame_default i)\<lparr>sf_done := True\<rparr>)) = Some (Inl RpcClosed)"
  "frame_result (as_read ((server_frame_default i)\<lparr>sf_err := Some e\<rparr>)) = Some (Inl (RpcFailed e))"
  by (simp_all add: frame_result.simps as_read_def server_frame_default_def not_null_def)

lemma items_default: "sf_item (as_read ((server_frame_default i)\<lparr>sf_ok := Some v\<rparr>)) = None"
  by (simp add: as_read_def server_frame_default_def not_null_def)

lemma items_result:
  "call_result (map (as_read \<circ> (\<lambda>v. (server_frame_default i)\<lparr>sf_item := Some v\<rparr>)) vs) = None"
  "stream_items (map (as_read \<circ> (\<lambda>v. (server_frame_default i)\<lparr>sf_item := Some v\<rparr>)) vs) =
     filter (\<lambda>v. v \<noteq> JNull) vs"
  by (induction vs) (simp_all add: frame_result_default, simp add: as_read_def not_null_def)

lemma reply_result: "call_result (map as_read (reply_frames i r)) = call_answer r"
  by (induction i r rule: reply_frames.induct)
    (simp_all add: frame_result_default call_result_append items_result)

lemma reply_items: "stream_items (map as_read (reply_frames i r)) = stream_answer r"
  by (induction i r rule: reply_frames.induct)
    (simp_all add: frame_result_default stream_items_append items_result items_default)

lemma drop_sender_log:
  "(case drop_sender i k of Resolve j' r \<Rightarrow> if j' = j then [r] else [] | _ \<Rightarrow> []) =
     (if i = j \<and> k = PendingCall then [Inl RpcClosed] else [])"
  "(case drop_sender i k of Deliver j' v \<Rightarrow> if j' = j then [v] else [] | _ \<Rightarrow> []) = []"
  by (cases k; auto)+

text \<open>Routing a frame touches nothing but its own number.\<close>

lemma route_other:
  assumes "route_frame C alive f c = (es, c')" "j \<noteq> sf_id f"
  shows "map_of (rc_pending c') j = map_of (rc_pending c) j" "resolutions j es = []" "deliveries j es = []"
  using assms
  by (auto simp: route_frame_def Let_def forget_def delete_conv' log_Cons drop_sender_log
      split: option.splits pending.splits if_splits sum.splits)

lemma route_next: "route_frame C alive f c = (es, c') \<Longrightarrow> rc_next_id c' = rc_next_id c"
  by (auto simp: route_frame_def Let_def forget_def split: option.splits pending.splits if_splits)

lemma route_none:
  assumes "route_frame C alive f c = (es, c')" "map_of (rc_pending c) (sf_id f) = None"
  shows "map_of (rc_pending c') (sf_id f) = None" "es = []"
  using assms by (auto simp: route_frame_def Let_def forget_def delete_conv' split: option.splits if_splits)

lemma route_call:
  assumes "route_frame C alive f c = (es, c')" "map_of (rc_pending c) (sf_id f) = Some PendingCall"
  shows "map_of (rc_pending c') (sf_id f) = (if frame_result f = None then Some PendingCall else None)"
    "resolutions (sf_id f) es = (case frame_result f of None \<Rightarrow> [] | Some r \<Rightarrow> [r])"
    "deliveries (sf_id f) es = []" "cancels es = []"
  using assms
  by (auto simp: route_frame_def Let_def forget_def delete_conv' log_Cons frame_result.simps cancels_def
      split: option.splits if_splits)

lemma route_stream:
  assumes "route_frame C alive f c = (es, c')" "map_of (rc_pending c) (sf_id f) = Some PendingStream"
  shows "resolutions (sf_id f) es = []"
    "map_of (rc_pending c') (sf_id f) = Some PendingStream \<and> frame_result f = None \<and>
       deliveries (sf_id f) es = stream_items [f] \<and> cancels es = [] \<or>
     map_of (rc_pending c') (sf_id f) = None \<and> deliveries (sf_id f) es = [] \<and>
       (if frame_result f = None then \<not> alive (sf_id f) \<and>
          (\<forall>t \<in> set (cancels es). wc_to C (client_frame_json (cancel_frame (sf_id f))) = Inr t)
        else stream_items [f] = [] \<and> cancels es = [])"
  using assms
  by (auto simp: route_frame_def Let_def forget_def delete_conv' log_Cons frame_result.simps cancels_def
      split: option.splits if_splits sum.splits)


subsection \<open>The invariant of the joined system\<close>

text \<open>\<open>us\<close> and \<open>ds\<close> are the frames in the two queues, \<open>rs\<close> the frames routed so far. \<open>A\<close> says that no
  receiver of a stream is ever dropped.\<close>

definition texts :: "('a \<Rightarrow> json) \<Rightarrow> wire_codec \<Rightarrow> 'a list \<Rightarrow> string list \<Rightarrow> bool" where
  "texts j C fs ts \<longleftrightarrow> list_all2 (\<lambda>f t. wc_to C (j f) = Inr t) fs ts"

definition asking :: "rpc_client_frame list \<Rightarrow> nat set" where
  "asking us = cf_id ` set (filter (\<lambda>f. \<not> cf_cancel f) us)"

definition asked_at :: "('a list) \<Rightarrow> nat \<Rightarrow> 'a option" where
  "asked_at qs i = (if 0 < i \<and> i \<le> length qs then Some (qs ! (i - 1)) else None)"

definition sent_for :: "bool \<Rightarrow> (pending \<times> string \<times> json) list \<Rightarrow> rpc_client_frame \<Rightarrow> bool" where
  "sent_for A qs f \<longleftrightarrow>
     (case asked_at qs (cf_id f) of
        None \<Rightarrow> False
      | Some (k, m, p) \<Rightarrow>
          if cf_cancel f then \<not> A \<and> k = PendingStream else f = request_frame (cf_id f) m p)"

definition passed :: "nat \<Rightarrow> rpc_server_frame list \<Rightarrow> server_conn \<Rightarrow> rpc_server_frame list" where
  "passed i ds s = map as_read (seen i ds @ seen i (left_frames s))"

definition flow :: "service \<Rightarrow> bool \<Rightarrow> (pending \<times> string \<times> json) list \<Rightarrow> rpc_client_frame list \<Rightarrow>
    rpc_server_frame list \<Rightarrow> rpc_server_frame list \<Rightarrow> server_conn \<Rightarrow> nat \<Rightarrow> bool" where
  "flow svc A qs us ds rs s i \<longleftrightarrow>
     (case asked_at qs i of
        None \<Rightarrow> seen i rs @ passed i ds s = [] \<and> i \<notin> tk_id ` set (sv_tasks s)
      | Some (k, m, p) \<Rightarrow>
          if i \<in> asking us then seen i rs @ passed i ds s = [] \<and> i \<notin> tk_id ` set (sv_tasks s)
          else (\<exists>rest. seen i rs @ passed i ds s @ rest = map as_read (reply_frames i (svc i m p)) \<and>
                  (k = PendingCall \<or> A \<longrightarrow> rest = [])))"

definition call_view :: "nat \<Rightarrow> rpc_client \<Rightarrow> client_effect list \<Rightarrow> rpc_server_frame list \<Rightarrow> bool" where
  "call_view i c es fs \<longleftrightarrow>
     deliveries i es = [] \<and>
     (case call_result fs of
        None \<Rightarrow> map_of (rc_pending c) i = Some PendingCall \<and> resolutions i es = []
      | Some r \<Rightarrow> map_of (rc_pending c) i = None \<and> resolutions i es = [r])"

definition stream_view :: "bool \<Rightarrow> nat \<Rightarrow> rpc_client \<Rightarrow> client_effect list \<Rightarrow> rpc_server_frame list \<Rightarrow> bool" where
  "stream_view A i c es fs \<longleftrightarrow>
     resolutions i es = [] \<and> prefix (deliveries i es) (stream_items fs) \<and>
     (case map_of (rc_pending c) i of
        Some k \<Rightarrow> k = PendingStream \<and> call_result fs = None \<and> deliveries i es = stream_items fs
      | None \<Rightarrow> A \<longrightarrow> call_result fs \<noteq> None \<and> deliveries i es = stream_items fs)"

definition view :: "bool \<Rightarrow> (pending \<times> string \<times> json) list \<Rightarrow> rpc_client \<Rightarrow> client_effect list \<Rightarrow>
    rpc_server_frame list \<Rightarrow> nat \<Rightarrow> bool" where
  "view A qs c es rs i \<longleftrightarrow>
     (case asked_at qs i of
        None \<Rightarrow> map_of (rc_pending c) i = None \<and> resolutions i es = [] \<and> deliveries i es = []
      | Some (k, m, p) \<Rightarrow>
          (case k of PendingCall \<Rightarrow> call_view i c es (seen i rs)
           | PendingStream \<Rightarrow> stream_view A i c es (seen i rs)))"

definition wire_inv :: "wire_codec \<Rightarrow> service \<Rightarrow> bool \<Rightarrow> rpc_client_frame list \<Rightarrow> rpc_server_frame list \<Rightarrow>
    rpc_server_frame list \<Rightarrow> rpc_wire \<Rightarrow> bool" where
  "wire_inv C svc A us ds rs w \<longleftrightarrow>
     texts client_frame_json C us (rw_up w) \<and> texts server_frame_json C ds (rw_down w) \<and>
     rc_next_id (rw_client w) = Suc (length (rw_asked w)) \<and>
     distinct (map cf_id (filter (\<lambda>f. \<not> cf_cancel f) us)) \<and>
     (\<forall>f \<in> set us. sent_for A (rw_asked w) f) \<and>
     tasks_ok (rw_server w) \<and>
     (\<forall>i. flow svc A (rw_asked w) us ds rs (rw_server w) i \<and>
          view A (rw_asked w) (rw_client w) (rw_log w) rs i)"

lemma texts_Nil [simp]: "texts j C [] ts \<longleftrightarrow> ts = []"
  by (auto simp: texts_def)

lemma texts_append: "texts j C fs ts \<Longrightarrow> texts j C gs us \<Longrightarrow> texts j C (fs @ gs) (ts @ us)"
  unfolding texts_def by (rule list_all2_appendI)

lemma texts_single: "texts j C [f] ts \<longleftrightarrow> (\<exists>t. ts = [t] \<and> wc_to C (j f) = Inr t)"
  by (auto simp: texts_def list_all2_Cons1)

lemma texts_Cons2:
  assumes "texts j C fs (t # ts)"
  obtains f gs where "fs = f # gs" "wc_to C (j f) = Inr t" "texts j C gs ts"
  using assms by (auto simp: texts_def list_all2_Cons2)

lemma asked_at_append:
  "asked_at (qs @ [q]) i = (if i = Suc (length qs) then Some q else asked_at qs i)"
  by (auto simp: asked_at_def nth_append)

lemma asked_at_less: "asked_at qs i = Some q \<Longrightarrow> 0 < i \<and> i \<le> length qs"
  by (auto simp: asked_at_def split: if_splits)

lemma asked_at_next [simp]: "asked_at qs (Suc (length qs)) = None"
  by (simp add: asked_at_def)

lemma asking_append: "asking (us @ vs) = asking us \<union> asking vs"
  by (auto simp: asking_def)

lemma asking_Cons: "asking (f # us) = (if cf_cancel f then asking us else insert (cf_id f) (asking us))"
  by (simp add: asking_def)

lemma asking_Nil [simp]: "asking [] = {}"
  by (simp add: asking_def)

lemma wire_inv_new: "wire_inv C svc A [] [] [] rpc_wire_new"
  by (simp add: wire_inv_def rpc_wire_new_def rpc_client_new_def server_new_def tasks_ok_def flow_def view_def
      asked_at_def passed_def left_frames_def)


lemma ask_eq:
  assumes "wc_to C (client_frame_json (request_frame (rc_next_id (rw_client w)) m p)) = Inr t"
  shows "rpc_step C svc (Ask k m p) w =
    w\<lparr>rw_client := (rw_client w)\<lparr>rc_next_id := (rc_next_id (rw_client w) + 1) mod 2 ^ 64,
        rc_pending := AList.update (rc_next_id (rw_client w)) k (rc_pending (rw_client w))\<rparr>,
      rw_asked := rw_asked w @ [(k, m, p)], rw_up := rw_up w @ [t]\<rparr>"
  using assms by (simp add: request_def register_def submit_def send_frame_def Let_def)

lemma inv_ask:
  assumes C: "wire_ok C" and inv: "wire_inv C svc A us ds rs w"
    and n: "Suc (Suc (length (rw_asked w))) < 2 ^ 64"
  shows "wire_inv C svc A (us @ [request_frame (Suc (length (rw_asked w))) m p]) ds rs
    (rpc_step C svc (Ask k m p) w)"
proof -
  let ?i = "Suc (length (rw_asked w))"
  have next_id: "rc_next_id (rw_client w) = ?i" using inv by (simp add: wire_inv_def)
  obtain t where t: "wc_to C (client_frame_json (request_frame ?i m p)) = Inr t"
    using wire_writes [OF C] by blast
  note eq = ask_eq [where k = k and w = w and svc = svc, unfolded next_id, OF t]
  have fl: "flow svc A (rw_asked w) us ds rs (rw_server w) j"
    and vw: "view A (rw_asked w) (rw_client w) (rw_log w) rs j" for j
    using inv by (simp_all add: wire_inv_def)
  have empty: "seen ?i rs = []" "passed ?i ds (rw_server w) = []" "?i \<notin> tk_id ` set (sv_tasks (rw_server w))"
    using fl [of ?i] by (simp_all add: flow_def)
  have sent: "sent_for A (rw_asked w) f" if "f \<in> set us" for f
    using inv that by (simp add: wire_inv_def)
  have old: "cf_id f \<le> length (rw_asked w)" if "f \<in> set us" for f
    using sent [OF that] asked_at_less by (fastforce simp: sent_for_def split: option.splits)
  then have fresh: "?i \<notin> asking us" by (fastforce simp: asking_def)
  have ask: "asking (us @ [request_frame ?i m p]) = insert ?i (asking us)"
    by (simp add: asking_append asking_Cons request_frame_def)
  have "texts client_frame_json C (us @ [request_frame ?i m p]) (rw_up w @ [t])"
    using inv t by (intro texts_append) (simp_all add: wire_inv_def texts_single)
  moreover have "distinct (map cf_id (filter (\<lambda>f. \<not> cf_cancel f) (us @ [request_frame ?i m p])))"
    using inv fresh by (auto simp: wire_inv_def asking_def request_frame_def)
  moreover have "sent_for A (rw_asked w @ [(k, m, p)]) f" if "f \<in> set us" for f
    using sent [OF that] old [OF that] by (simp add: sent_for_def asked_at_append)
  moreover have "sent_for A (rw_asked w @ [(k, m, p)]) (request_frame ?i m p)"
    by (simp add: sent_for_def asked_at_append request_frame_def)
  moreover have "flow svc A (rw_asked w @ [(k, m, p)]) (us @ [request_frame ?i m p]) ds rs (rw_server w) j" for j
    using fl [of j] empty unfolding flow_def ask asked_at_append by (auto split: option.splits)
  moreover have "view A (rw_asked w @ [(k, m, p)])
      ((rw_client w)\<lparr>rc_next_id := Suc ?i, rc_pending := AList.update ?i k (rc_pending (rw_client w))\<rparr>)
      (rw_log w) rs j" for j
    using vw [of j] vw [of ?i] empty(1)
    by (cases k) (auto simp: view_def asked_at_append call_view_def stream_view_def update_conv'
        split: option.splits pending.splits)
  ultimately show ?thesis
    using inv n unfolding wire_inv_def eq by (auto simp: ball_Un)
qed

lemma inv_server_reads:
  assumes C: "wire_ok C" and inv: "wire_inv C svc A us ds rs w"
    and n: "length (rw_asked w) < 2 ^ 64"
  shows "\<exists>us'. wire_inv C svc A us' ds rs (rpc_step C svc ServerReads w)"
proof (cases "rw_up w")
  case Nil
  with inv show ?thesis by auto
next
  case (Cons t ts)
  with inv have "texts client_frame_json C us (t # ts)" by (simp add: wire_inv_def)
  then obtain f vs where us: "us = f # vs" and t: "wc_to C (client_frame_json f) = Inr t"
    and vs: "texts client_frame_json C vs ts" by (rule texts_Cons2)
  have sent: "sent_for A (rw_asked w) f" and ok: "tasks_ok (rw_server w)"
    and fl: "flow svc A (rw_asked w) us ds rs (rw_server w) i" for i
    using inv by (simp_all add: wire_inv_def us)
  obtain k m p where at: "asked_at (rw_asked w) (cf_id f) = Some (k, m, p)"
    using sent by (auto simp: sent_for_def split: option.splits)
  from asked_at_less [OF this] n have "cf_id f < 2 ^ 64" by simp
  note read = server_reads_frame [OF C t this, of svc "rw_server w"]
  let ?s = "serve_frame svc f (rw_server w)"
  have "tasks_ok ?s \<and> (\<forall>i. flow svc A (rw_asked w) vs ds rs ?s i)"
  proof (cases "cf_cancel f")
    case True
    note s = serve_cancel [where svc = svc, OF ok True]
    have "flow svc A (rw_asked w) vs ds rs ?s i" for i
    proof (cases "i = cf_id f \<and> seen i (left_frames ?s) = []")
      case hit: True
      have "\<not> A" "k = PendingStream" using sent at True by (auto simp: sent_for_def)
      with hit at fl [of i] s(2) show ?thesis
        unfolding flow_def us asking_Cons passed_def using True by (auto split: if_splits)
    next
      case False
      with s(3) [of i] have "seen i (left_frames ?s) = seen i (left_frames (rw_server w))" by blast
      with fl [of i] s(2) True show ?thesis
        unfolding flow_def us asking_Cons passed_def by (auto split: option.splits if_splits)
    qed
    with s(1) show ?thesis by blast
  next
    case False
    with sent at have f: "f = request_frame (cf_id f) m p" by (simp add: sent_for_def)
    from fl [of "cf_id f"] at False have none: "seen (cf_id f) rs @ passed (cf_id f) ds (rw_server w) = []"
      "cf_id f \<notin> tk_id ` set (sv_tasks (rw_server w))"
      by (simp_all add: flow_def us asking_Cons)
    note s = serve_request [where svc = svc and m = m and p = p, OF ok none(2), folded f]
    have dist: "cf_id f \<notin> asking vs"
      using inv False by (auto simp: wire_inv_def us asking_def)
    have "flow svc A (rw_asked w) vs ds rs ?s i" for i
    proof (cases "i = cf_id f")
      case True
      with none at dist s(3) [of i] show ?thesis by (simp add: flow_def passed_def)
    next
      case ne: False
      with fl [of i] s(2,3) False show ?thesis
        unfolding flow_def us asking_Cons passed_def by (auto split: option.splits if_splits)
    qed
    with s(1) show ?thesis by blast
  qed
  then have "wire_inv C svc A vs ds rs (w\<lparr>rw_up := ts, rw_server := ?s\<rparr>)"
    using inv vs unfolding wire_inv_def us by (auto split: if_splits)
  then show ?thesis using Cons read by auto
qed

lemma inv_task_sends:
  assumes C: "wire_ok C" and inv: "wire_inv C svc A us ds rs w"
  shows "\<exists>ds'. wire_inv C svc A us ds' rs (rpc_step C svc (TaskSends n) w)"
proof -
  obtain x s where step: "task_sends C n (rw_server w) = (x, s)" by fastforce
  have ok: "tasks_ok (rw_server w)"
    and fl: "flow svc A (rw_asked w) us ds rs (rw_server w) i" for i
    using inv by (simp_all add: wire_inv_def)
  note s = task_sends_ok [OF C ok step]
  show ?thesis
  proof (cases x)
    case None
    with task_sends_cases [OF C step] have "s = rw_server w" by blast
    with None step inv show ?thesis by auto
  next
    case (Some y)
    then obtain f where f: "wc_to C (server_frame_json f) = Inr y"
      "\<And>i. seen i (left_frames (rw_server w)) = seen i [f] @ seen i (left_frames s)"
      using task_sends_seen [OF C ok] step by metis
    have ids: "tk_id ` set (sv_tasks s) = tk_id ` set (sv_tasks (rw_server w))"
      using s(2) by (metis list.set_map)
    have same: "passed i (ds @ [f]) s = passed i ds (rw_server w)" for i
      by (simp add: passed_def f(2))
    have "flow svc A (rw_asked w) us (ds @ [f]) rs s i" for i
      using fl [of i] unfolding flow_def ids same .
    moreover have "texts server_frame_json C (ds @ [f]) (rw_down w @ [y])"
      using inv f(1) by (intro texts_append) (simp_all add: wire_inv_def texts_single)
    ultimately have "wire_inv C svc A us (ds @ [f]) rs (rpc_step C svc (TaskSends n) w)"
      using inv s(1) step Some unfolding wire_inv_def by simp
    then show ?thesis by blast
  qed
qed


lemma drop_sender_cancel: "(case drop_sender i k of SendCancel t \<Rightarrow> [t] | _ \<Rightarrow> []) = []"
  by (cases k) auto

lemma route_cancels:
  assumes "route_frame C alive f c = (es, c')"
  shows "cancels es = [] \<or>
    (\<exists>t. cancels es = [t] \<and> wc_to C (client_frame_json (cancel_frame (sf_id f))) = Inr t \<and>
       map_of (rc_pending c) (sf_id f) = Some PendingStream \<and> \<not> alive (sf_id f))"
  using assms
  by (auto simp: route_frame_def Let_def cancels_def split: option.splits pending.splits if_splits sum.splits)
    (rule drop_sender_cancel)

lemma view_route:
  assumes r: "route_frame C alive f c = (es, c')" and A: "A \<longrightarrow> alive (sf_id f)"
    and v: "view A qs c log rs i"
  shows "view A qs c' (log @ es) (rs @ [f]) i"
proof (cases "i = sf_id f")
  case False
  with route_other [OF r] v show ?thesis
    by (auto simp: view_def call_view_def stream_view_def seen_Cons split: option.splits pending.splits)
next
  case True
  have none: "map_of (rc_pending c) i = None \<Longrightarrow> map_of (rc_pending c') i = None \<and> es = []"
    using route_none [OF r] True by simp
  show ?thesis
  proof (cases "asked_at qs i")
    case None
    with v none show ?thesis by (simp add: view_def)
  next
    case (Some q)
    then obtain k m p where at: "asked_at qs i = Some (k, m, p)" by (cases q) auto
    have fs: "seen i (rs @ [f]) = seen i rs @ [f]" using True by (simp add: seen_Cons)
    show ?thesis
    proof (cases k)
      case PendingCall
      have cv: "call_view i c log (seen i rs)" using v at PendingCall by (simp add: view_def)
      have "call_view i c' (log @ es) (seen i rs @ [f])"
      proof (cases "call_result (seen i rs)")
        case None
        with cv have "map_of (rc_pending c) (sf_id f) = Some PendingCall" by (simp add: call_view_def True)
        from route_call [OF r this] cv None show ?thesis
          by (auto simp: call_view_def call_result_append True split: option.splits)
      next
        case (Some x)
        with cv have "map_of (rc_pending c) i = None" by (simp add: call_view_def)
        with none cv Some show ?thesis by (simp add: call_view_def call_result_append)
      qed
      with at PendingCall fs show ?thesis by (simp add: view_def)
    next
      case PendingStream
      have sv: "stream_view A i c log (seen i rs)" using v at PendingStream by (simp add: view_def)
      have "stream_view A i c' (log @ es) (seen i rs @ [f])"
      proof (cases "map_of (rc_pending c) i")
        case None
        with none sv show ?thesis
          by (auto simp: stream_view_def call_result_append stream_items_append split: option.splits)
      next
        case (Some l)
        with sv have p: "map_of (rc_pending c) (sf_id f) = Some PendingStream" "call_result (seen i rs) = None"
          "deliveries i log = stream_items (seen i rs)" "resolutions i log = []"
          by (auto simp: stream_view_def True)
        from route_stream [OF r p(1)] p(2-) A show ?thesis
          by (auto simp: stream_view_def call_result_append stream_items_append True split: option.splits if_splits)
      qed
      with at PendingStream fs show ?thesis by (simp add: view_def)
    qed
  qed
qed

lemma flow_asking: "asking us' = asking us \<Longrightarrow> flow svc A qs us' ds rs s i = flow svc A qs us ds rs s i"
  unfolding flow_def by (erule ssubst) (rule refl)

lemma inv_client_reads:
  assumes C: "wire_ok C" and inv: "wire_inv C svc A us ds rs w"
    and n: "length (rw_asked w) < 2 ^ 64" and A: "A \<longrightarrow> (\<forall>i. alive i)"
  shows "\<exists>us' ds' rs'. wire_inv C svc A us' ds' rs' (rpc_step C svc (ClientReads alive) w)"
proof (cases "rw_down w")
  case Nil
  with inv show ?thesis by auto
next
  case (Cons t ts)
  with inv have "texts server_frame_json C ds (t # ts)" by (simp add: wire_inv_def)
  then obtain f gs where ds: "ds = f # gs" and t: "wc_to C (server_frame_json f) = Inr t"
    and gs: "texts server_frame_json C gs ts" by (rule texts_Cons2)
  have fl: "flow svc A (rw_asked w) us ds rs (rw_server w) i"
    and vw: "view A (rw_asked w) (rw_client w) (rw_log w) rs i" for i
    using inv by (simp_all add: wire_inv_def)
  have "passed (sf_id f) ds (rw_server w) \<noteq> []" by (simp add: passed_def ds seen_Cons)
  with fl [of "sf_id f"] obtain q where at: "asked_at (rw_asked w) (sf_id f) = Some q"
    by (auto simp: flow_def split: option.splits)
  from asked_at_less [OF this] n have "sf_id f < 2 ^ 64" by simp
  note read = client_reads_frame [OF C t this, of alive "rw_client w"]
  obtain es c where r: "route_frame C alive (as_read f) (rw_client w) = (es, c)" by fastforce
  have step: "rpc_step C svc (ClientReads alive) w =
      w\<lparr>rw_down := ts, rw_client := c, rw_log := rw_log w @ es, rw_up := rw_up w @ cancels es\<rparr>"
    using Cons read r by simp
  have v: "view A (rw_asked w) c (rw_log w @ es) (rs @ [as_read f]) i" for i
    using A by (intro view_route [OF r _ vw]) simp
  have fl': "flow svc A (rw_asked w) us gs (rs @ [as_read f]) (rw_server w) i" for i
  proof -
    have all: "seen i (rs @ [as_read f]) @ passed i gs (rw_server w) = seen i rs @ passed i ds (rw_server w)"
      by (simp add: passed_def ds seen_Cons)
    have rest: "seen i (rs @ [as_read f]) @ passed i gs (rw_server w) @ xs =
        seen i rs @ passed i ds (rw_server w) @ xs" for xs
      by (simp add: passed_def ds seen_Cons)
    show ?thesis using fl [of i] unfolding flow_def all rest .
  qed
  have nx: "rc_next_id c = Suc (length (rw_asked w))"
    using route_next [OF r] inv by (simp add: wire_inv_def)
  from route_cancels [OF r] show ?thesis
  proof (elim disjE exE conjE)
    assume "cancels es = []"
    then have "wire_inv C svc A us gs (rs @ [as_read f]) (rpc_step C svc (ClientReads alive) w)"
      using inv gs v fl' nx unfolding step wire_inv_def by simp
    then show ?thesis by blast
  next
    fix x
    assume x: "cancels es = [x]" "wc_to C (client_frame_json (cancel_frame (sf_id (as_read f)))) = Inr x"
      "map_of (rc_pending (rw_client w)) (sf_id (as_read f)) = Some PendingStream" "\<not> alive (sf_id (as_read f))"
    let ?us = "us @ [cancel_frame (sf_id f)]"
    have "texts client_frame_json C ?us (rw_up w @ [x])"
      using inv x(2) by (intro texts_append) (simp_all add: wire_inv_def texts_single)
    moreover have "fst q = PendingStream"
      using vw [of "sf_id f"] at x(3)
      by (cases q) (auto simp: view_def call_view_def split: pending.splits option.splits)
    then have "sent_for A (rw_asked w) (cancel_frame (sf_id f))"
      using at A x(4) by (cases q) (auto simp: sent_for_def cancel_frame_def)
    moreover have "asking ?us = asking us" by (simp add: asking_append asking_Cons cancel_frame_def)
    ultimately have "wire_inv C svc A ?us gs (rs @ [as_read f]) (rpc_step C svc (ClientReads alive) w)"
      using inv gs v fl' nx flow_asking [of ?us us] x(1) unfolding step wire_inv_def
      by (simp add: ball_Un) (simp add: cancel_frame_def)
    then show ?thesis by blast
  qed
qed

definition receivers_kept :: "rpc_input \<Rightarrow> bool" where
  "receivers_kept inp = (case inp of ClientReads alive \<Rightarrow> (\<forall>i. alive i) | _ \<Rightarrow> True)"

lemma inv_step:
  assumes "wire_ok C" "wire_inv C svc A us ds rs w"
    "Suc (length (rw_asked (rpc_step C svc inp w))) < 2 ^ 64" "A \<longrightarrow> receivers_kept inp"
  shows "\<exists>us' ds' rs'. wire_inv C svc A us' ds' rs' (rpc_step C svc inp w)"
proof (cases inp)
  case (Ask k m p)
  with assms(3) have "Suc (Suc (length (rw_asked w))) < 2 ^ 64" by (simp split: prod.splits)
  from inv_ask [OF assms(1,2) this] Ask show ?thesis by blast
next
  case ServerReads
  with assms(3) have "length (rw_asked w) < 2 ^ 64" by (simp split: list.splits)
  from inv_server_reads [OF assms(1,2) this] ServerReads show ?thesis by blast
next
  case (TaskSends n)
  with inv_task_sends [OF assms(1,2)] show ?thesis by blast
next
  case (ClientReads alive)
  with assms(3) have "length (rw_asked w) < 2 ^ 64" by (simp split: list.splits prod.splits)
  with inv_client_reads [OF assms(1,2) this] assms(4) ClientReads show ?thesis
    by (auto simp: receivers_kept_def)
qed

lemma asked_mono: "length (rw_asked w) \<le> length (rw_asked (rpc_step C svc inp w))"
  by (cases inp) (auto split: list.splits prod.splits)

lemma inv_steps:
  assumes "wire_ok C" "Suc (length (rw_asked (rpc_steps C svc inps rpc_wire_new))) < 2 ^ 64"
    "A \<longrightarrow> list_all receivers_kept inps"
  shows "\<exists>us ds rs. wire_inv C svc A us ds rs (rpc_steps C svc inps rpc_wire_new)"
  using assms(2,3)
proof (induction inps rule: rev_induct)
  case Nil
  have "rpc_steps C svc [] rpc_wire_new = rpc_wire_new" by (simp add: rpc_steps_def)
  with wire_inv_new [of C svc A] show ?case by auto
next
  case (snoc inp inps)
  let ?w = "rpc_steps C svc inps rpc_wire_new"
  have eq: "rpc_steps C svc (inps @ [inp]) rpc_wire_new = rpc_step C svc inp ?w" by (simp add: rpc_steps_def)
  have "Suc (length (rw_asked ?w)) < 2 ^ 64"
    using snoc.prems(1) asked_mono [of ?w C svc inp] unfolding eq by simp
  moreover have "A \<longrightarrow> list_all receivers_kept inps" "A \<longrightarrow> receivers_kept inp"
    using snoc.prems(2) by simp_all
  ultimately show ?case
    using snoc.IH inv_step [OF assms(1)] snoc.prems(1) unfolding eq by blast
qed


subsection \<open>Settling\<close>

definition quiet :: "rpc_wire \<Rightarrow> bool" where
  "quiet w \<longleftrightarrow> rw_up w = [] \<and> rw_down w = [] \<and> left_frames (rw_server w) = []"

lemma rpc_steps_Nil [simp]: "rpc_steps C svc [] w = w"
  by (simp add: rpc_steps_def)

lemma rpc_steps_append: "rpc_steps C svc (xs @ ys) w = rpc_steps C svc ys (rpc_steps C svc xs w)"
  by (simp add: rpc_steps_def)

lemma rpc_steps_Cons: "rpc_steps C svc (x # xs) w = rpc_steps C svc xs (rpc_step C svc x w)"
  by (simp add: rpc_steps_def)

lemma server_drains:
  "\<exists>inps. list_all receivers_kept inps \<and> rw_up (rpc_steps C svc inps w) = [] \<and>
     rw_asked (rpc_steps C svc inps w) = rw_asked w"
proof (induction "rw_up w" arbitrary: w)
  case Nil
  then show ?case by (intro exI [of _ "[]"]) simp
next
  case (Cons t ts)
  let ?w = "rpc_step C svc ServerReads w"
  have "rw_up ?w = ts" "rw_asked ?w = rw_asked w" using Cons.hyps(2) by (simp_all add: sym [OF Cons.hyps(2)])
  with Cons.hyps(1) [of ?w] obtain inps where "list_all receivers_kept inps"
    "rw_up (rpc_steps C svc inps ?w) = []" "rw_asked (rpc_steps C svc inps ?w) = rw_asked w" by auto
  then show ?case
    by (intro exI [of _ "ServerReads # inps"]) (simp add: rpc_steps_Cons receivers_kept_def del: rpc_step.simps)
qed

lemma set_left_length:
  assumes "t \<in> set ts" "tk_left t = f # fs" "distinct (map tk_no ts)"
  shows "length (concat (map tk_left (set_left (tk_no t) fs ts))) < length (concat (map tk_left ts))"
  using assms
proof (induction ts)
  case (Cons u ts)
  show ?case
  proof (cases "u = t")
    case True
    with Cons.prems have "\<forall>v \<in> set ts. tk_no v \<noteq> tk_no t" by (auto simp: image_iff)
    then have "set_left (tk_no t) fs ts = ts" by (induction ts) (simp_all add: set_left_def)
    with True Cons.prems show ?thesis by (simp add: set_left_def)
  next
    case False
    with Cons have "tk_no u \<noteq> tk_no t" by (auto simp: image_iff)
    with False Cons show ?thesis by (simp add: set_left_def)
  qed
qed simp

lemma task_sends_less:
  assumes "wire_ok C" "tasks_ok s" "left_frames s \<noteq> []"
  shows "\<exists>n. length (left_frames (snd (task_sends C n s))) < length (left_frames s)"
proof -
  obtain t f fs where t: "t \<in> set (sv_tasks s)" "tk_left t = f # fs"
    using assms(3) by (auto simp: left_frames_def) (metis neq_Nil_conv)
  obtain y where y: "wc_to C (server_frame_json f) = Inr y" using wire_writes [OF assms(1)] by blast
  have d: "distinct (map tk_no (sv_tasks s))" using assms(2) by (simp add: tasks_ok_def)
  have "snd (task_sends C (tk_no t) s) = s\<lparr>sv_tasks := set_left (tk_no t) fs (sv_tasks s)\<rparr>"
    using find_by_no [OF d t(1)] t(2) y by (simp add: task_sends_def)
  with set_left_length [OF t d] show ?thesis by (intro exI [of _ "tk_no t"]) (simp add: left_frames_def)
qed

lemma tasks_drain:
  assumes "wire_ok C"
  shows "tasks_ok (rw_server w) \<Longrightarrow> rw_up w = [] \<Longrightarrow>
    \<exists>inps. list_all receivers_kept inps \<and> rw_up (rpc_steps C svc inps w) = [] \<and>
      left_frames (rw_server (rpc_steps C svc inps w)) = [] \<and>
      rw_asked (rpc_steps C svc inps w) = rw_asked w"
proof (induction "length (left_frames (rw_server w))" arbitrary: w rule: less_induct)
  case less
  show ?case
  proof (cases "left_frames (rw_server w) = []")
    case True
    with less.prems show ?thesis by (intro exI [of _ "[]"]) simp
  next
    case False
    from task_sends_less [OF assms less.prems(1) this] obtain n where
      n: "length (left_frames (snd (task_sends C n (rw_server w)))) < length (left_frames (rw_server w))" by blast
    let ?w = "rpc_step C svc (TaskSends n) w"
    have w: "rw_server ?w = snd (task_sends C n (rw_server w))" "rw_up ?w = []" "rw_asked ?w = rw_asked w"
      using less.prems by (simp_all split: prod.splits)
    moreover have "tasks_ok (rw_server ?w)"
      using task_sends_ok(1) [OF assms less.prems(1)] w(1) by (metis prod.collapse)
    ultimately obtain inps where "list_all receivers_kept inps" "rw_up (rpc_steps C svc inps ?w) = []"
      "left_frames (rw_server (rpc_steps C svc inps ?w)) = []" "rw_asked (rpc_steps C svc inps ?w) = rw_asked w"
      using less.hyps [of ?w] n by (auto simp del: rpc_step.simps)
    then show ?thesis
      by (intro exI [of _ "TaskSends n # inps"]) (simp add: rpc_steps_Cons receivers_kept_def del: rpc_step.simps)
  qed
qed

lemma cancels_append [simp]: "cancels (xs @ ys) = cancels xs @ cancels ys"
  by (simp add: cancels_def)

lemma reader_lines_kept:
  assumes "\<forall>i. alive i"
  shows "cancels (fst (reader_lines C alive ls c)) = []"
proof (induction ls arbitrary: c)
  case Nil
  show ?case by (simp add: cancels_def)
next
  case (Cons l ls)
  have "cancels (fst (route_frame C alive f d)) = []" for f d
    using route_cancels [of C alive f d] assms by (cases "route_frame C alive f d") auto
  then have "cancels (fst (read_line C alive l c)) = []"
    by (auto simp: read_line_def Let_def cancels_def split: option.splits)
  with Cons show ?case by (auto split: prod.splits) (metis fst_conv)+
qed

lemma client_drains:
  "rw_up w = [] \<Longrightarrow> left_frames (rw_server w) = [] \<Longrightarrow>
   \<exists>inps. list_all receivers_kept inps \<and> quiet (rpc_steps C svc inps w) \<and>
     rw_asked (rpc_steps C svc inps w) = rw_asked w"
proof (induction "rw_down w" arbitrary: w)
  case Nil
  then show ?case by (intro exI [of _ "[]"]) (simp add: quiet_def)
next
  case (Cons t ts)
  let ?w = "rpc_step C svc (ClientReads (\<lambda>_. True)) w"
  have "cancels (fst (read_payload C (\<lambda>_. True) t (rw_client w))) = []"
    by (simp add: read_payload_def reader_lines_kept)
  then have "rw_down ?w = ts" "rw_up ?w = []" "rw_server ?w = rw_server w" "rw_asked ?w = rw_asked w"
    using Cons.prems by (auto simp: sym [OF Cons.hyps(2)] split: prod.splits)
  with Cons.hyps(1) [of ?w] Cons.prems obtain inps where "list_all receivers_kept inps"
    "quiet (rpc_steps C svc inps ?w)" "rw_asked (rpc_steps C svc inps ?w) = rw_asked w"
    by (auto simp del: rpc_step.simps)
  then show ?case
    by (intro exI [of _ "ClientReads (\<lambda>_. True) # inps"])
      (simp add: rpc_steps_Cons receivers_kept_def del: rpc_step.simps)
qed

lemma can_settle:
  assumes C: "wire_ok C" and n: "Suc (length (rw_asked (rpc_steps C svc inps rpc_wire_new))) < 2 ^ 64"
  shows "\<exists>more. list_all receivers_kept more \<and> quiet (rpc_steps C svc (inps @ more) rpc_wire_new) \<and>
    rw_asked (rpc_steps C svc (inps @ more) rpc_wire_new) = rw_asked (rpc_steps C svc inps rpc_wire_new)"
proof -
  let ?w = "rpc_steps C svc inps rpc_wire_new"
  obtain xs where xs: "list_all receivers_kept xs" "rw_up (rpc_steps C svc xs ?w) = []"
    "rw_asked (rpc_steps C svc xs ?w) = rw_asked ?w" using server_drains by blast
  let ?v = "rpc_steps C svc (inps @ xs) rpc_wire_new"
  have "Suc (length (rw_asked ?v)) < 2 ^ 64" using n xs(3) by (simp add: rpc_steps_append)
  from inv_steps [OF C this, of False] have "tasks_ok (rw_server ?v)" by (auto simp: wire_inv_def)
  moreover have "rw_up ?v = []" using xs(2) by (simp add: rpc_steps_append)
  ultimately obtain ys where ys: "list_all receivers_kept ys" "rw_up (rpc_steps C svc ys ?v) = []"
    "left_frames (rw_server (rpc_steps C svc ys ?v)) = []" "rw_asked (rpc_steps C svc ys ?v) = rw_asked ?v"
    using tasks_drain [OF C] by blast
  from client_drains [OF ys(2,3)] obtain zs where "list_all receivers_kept zs"
    "quiet (rpc_steps C svc zs (rpc_steps C svc ys ?v))"
    "rw_asked (rpc_steps C svc zs (rpc_steps C svc ys ?v)) = rw_asked (rpc_steps C svc ys ?v)" by blast
  with xs ys show ?thesis
    by (intro exI [of _ "xs @ ys @ zs"]) (simp add: rpc_steps_append)
qed

text \<open>What the invariant says of a request's number.\<close>

lemma quiet_queues:
  assumes "wire_inv C svc A us ds rs w" "quiet w"
  shows "us = []" "ds = []" "passed i [] (rw_server w) = []"
  using assms by (auto simp: wire_inv_def quiet_def texts_def passed_def)

lemma call_law:
  assumes "wire_ok C" "Suc (length (rw_asked (rpc_steps C svc inps rpc_wire_new))) < 2 ^ 64"
    and "asked_at (rw_asked (rpc_steps C svc inps rpc_wire_new)) i = Some (PendingCall, m, p)"
  shows "resolutions i (rw_log (rpc_steps C svc inps rpc_wire_new)) = [] \<or>
    (\<exists>r. resolutions i (rw_log (rpc_steps C svc inps rpc_wire_new)) = [r] \<and> call_answer (svc i m p) = Some r)"
    "quiet (rpc_steps C svc inps rpc_wire_new) \<Longrightarrow>
     resolutions i (rw_log (rpc_steps C svc inps rpc_wire_new)) =
       (case call_answer (svc i m p) of None \<Rightarrow> [] | Some r \<Rightarrow> [r])"
proof -
  let ?w = "rpc_steps C svc inps rpc_wire_new"
  obtain us ds rs where inv: "wire_inv C svc False us ds rs ?w"
    using inv_steps [OF assms(1,2), of False] by auto
  then have fl: "flow svc False (rw_asked ?w) us ds rs (rw_server ?w) i"
    and vw: "view False (rw_asked ?w) (rw_client ?w) (rw_log ?w) rs i" by (simp_all add: wire_inv_def)
  from vw assms(3) have cv: "call_view i (rw_client ?w) (rw_log ?w) (seen i rs)" by (simp add: view_def)
  have ans: "call_result (seen i rs) = Some r \<Longrightarrow> call_answer (svc i m p) = Some r" for r
    using fl assms(3) reply_result [of i "svc i m p"]
    by (auto simp: flow_def call_result_append split: if_splits dest!: sym [of _ "map as_read _"])
  show "resolutions i (rw_log ?w) = [] \<or>
    (\<exists>r. resolutions i (rw_log ?w) = [r] \<and> call_answer (svc i m p) = Some r)"
    using cv ans by (auto simp: call_view_def split: option.splits)
  assume q: "quiet ?w"
  note e = quiet_queues [OF inv q]
  have "seen i rs = map as_read (reply_frames i (svc i m p))"
    using fl assms(3) e by (simp add: flow_def)
  with cv reply_result [of i "svc i m p"]
  show "resolutions i (rw_log ?w) = (case call_answer (svc i m p) of None \<Rightarrow> [] | Some r \<Rightarrow> [r])"
    by (auto simp: call_view_def split: option.splits)
qed

lemma stream_law:
  assumes "wire_ok C" "Suc (length (rw_asked (rpc_steps C svc inps rpc_wire_new))) < 2 ^ 64"
    and "asked_at (rw_asked (rpc_steps C svc inps rpc_wire_new)) i = Some (PendingStream, m, p)"
  shows "prefix (deliveries i (rw_log (rpc_steps C svc inps rpc_wire_new))) (stream_answer (svc i m p))"
    "list_all receivers_kept inps \<Longrightarrow> quiet (rpc_steps C svc inps rpc_wire_new) \<Longrightarrow>
     deliveries i (rw_log (rpc_steps C svc inps rpc_wire_new)) = stream_answer (svc i m p) \<and>
     (map_of (rc_pending (rw_client (rpc_steps C svc inps rpc_wire_new))) i = None \<longleftrightarrow>
      call_answer (svc i m p) \<noteq> None)"
proof -
  let ?w = "rpc_steps C svc inps rpc_wire_new"
  have items: "prefix (stream_items fs) (stream_answer (svc i m p))"
    if "fs @ gs = map as_read (reply_frames i (svc i m p))" for fs gs
    using reply_items [of i "svc i m p"] stream_items_append [of fs gs] unfolding that
    by (auto split: if_splits intro!: prefixI [OF sym])
  obtain us ds rs where inv: "wire_inv C svc False us ds rs ?w"
    using inv_steps [OF assms(1,2), of False] by auto
  then have fl: "flow svc False (rw_asked ?w) us ds rs (rw_server ?w) i"
    and vw: "view False (rw_asked ?w) (rw_client ?w) (rw_log ?w) rs i" by (simp_all add: wire_inv_def)
  from vw assms(3) have "prefix (deliveries i (rw_log ?w)) (stream_items (seen i rs))"
    by (simp add: view_def stream_view_def)
  moreover have "prefix (stream_items (seen i rs)) (stream_answer (svc i m p))"
    using fl assms(3) items by (fastforce simp: flow_def split: if_splits)
  ultimately show "prefix (deliveries i (rw_log ?w)) (stream_answer (svc i m p))"
    by (rule prefix_order.trans)
  assume "list_all receivers_kept inps" and q: "quiet ?w"
  then obtain us ds rs where inv: "wire_inv C svc True us ds rs ?w"
    using inv_steps [OF assms(1,2), of True] by auto
  then have "flow svc True (rw_asked ?w) us ds rs (rw_server ?w) i"
    and vw: "view True (rw_asked ?w) (rw_client ?w) (rw_log ?w) rs i" by (simp_all add: wire_inv_def)
  then have "seen i rs = map as_read (reply_frames i (svc i m p))"
    using assms(3) quiet_queues [OF inv q] by (simp add: flow_def)
  with vw assms(3) show "deliveries i (rw_log ?w) = stream_answer (svc i m p) \<and>
     (map_of (rc_pending (rw_client ?w)) i = None \<longleftrightarrow> call_answer (svc i m p) \<noteq> None)"
    by (auto simp: view_def stream_view_def reply_items reply_result split: option.splits)
qed


subsection \<open>Disconnection, and what never returns\<close>

lemma reader_ends_log:
  assumes "hm_wf (rc_pending c)"
  shows "resolutions i (fst (reader_ends c)) =
    (if map_of (rc_pending c) i = Some PendingCall then [Inl RpcClosed] else [])"
proof -
  have "distinct (map fst xs) \<Longrightarrow> resolutions i (map (\<lambda>(i, k). drop_sender i k) xs) =
      (if map_of xs i = Some PendingCall then [Inl RpcClosed] else [])" for xs
  proof (induction xs)
    case (Cons x xs)
    then have "fst x = i \<Longrightarrow> map_of xs i = None" by (auto simp: map_of_eq_None_iff)
    with Cons show ?case by (cases x) (auto simp: log_Cons drop_sender_log)
  qed simp
  with assms show ?thesis by (simp add: reader_ends_def hm_wf_def)
qed

lemma request_wf: "hm_wf (rc_pending c) \<Longrightarrow> hm_wf (rc_pending (snd (snd (request C b k m p c))))"
  by (auto simp: request_def register_def submit_def Let_def split: sum.splits prod.splits
      intro!: hm.wf_put hm.wf_del)

lemma route_wf: "hm_wf (rc_pending c) \<Longrightarrow> hm_wf (rc_pending (snd (route_frame C alive f c)))"
  by (auto simp: route_frame_def Let_def forget_def split: option.splits intro!: hm.wf_del)

text \<open>A request made after the reader ended, while the outgoing queue still takes frames, is registered
  in a table that nothing empties any more.\<close>

lemma late_request_waits:
  assumes "wire_ok C" "(es, c) = reader_ends c0"
  shows "\<exists>t i c'. request C True PendingCall m p c = (Inr t, i, c') \<and> rc_closed c' \<and>
    map_of (rc_pending c') i = Some PendingCall"
  using assms wire_writes [OF assms(1)]
  by (auto simp: reader_ends_def request_def register_def submit_def send_frame_def Let_def update_conv'
      split: sum.splits prod.splits) (metis sum.distinct(1))

text \<open>A service that answers \<^verbatim>\<open>null\<close> is never heard: the frame that carries it is read as empty.\<close>

lemma null_reply_unheard:
  assumes "wire_ok C" "Suc (length (rw_asked (rpc_steps C svc inps rpc_wire_new))) < 2 ^ 64"
    and "asked_at (rw_asked (rpc_steps C svc inps rpc_wire_new)) i = Some (PendingCall, m, p)"
    and "svc i m p = Inr (ReplyValue JNull)"
  shows "resolutions i (rw_log (rpc_steps C svc inps rpc_wire_new)) = []"
  using call_law(1) [OF assms(1-3)] assms(4) by auto

subsection \<open>Properties\<close>


definition unary_wire :: wire_codec where
  "unary_wire =
     \<lparr>wc_to = \<lambda>j. Inr (replicate (Suc (to_nat j)) (CHR ''x'')),
      wc_of = \<lambda>t. Some (from_nat (length t - 1))\<rparr>"

lemma suffix_replicate: "suffix (a # v) (replicate n x) \<Longrightarrow> last (a # v) = x"
  by (metis in_set_replicate last_in_set list.discI set_mono_suffix subsetD)

lemma unary_no_ws:
  "ws_at_start (replicate n (CHR ''x'')) = None" "ws_at_end (replicate n (CHR ''x'')) = None"
proof -
  show "ws_at_start (replicate n (CHR ''x'')) = None"
    by (cases n) (simp_all add: ws_at_start_def ws_enc_def)
  show "ws_at_end (replicate n (CHR ''x'')) = None"
    unfolding ws_at_end_def ws_enc_def by (auto simp: find_None_iff dest!: suffix_replicate)
qed

lemma unary_wire_ok: "wire_ok unary_wire"
proof -
  have "str_trim (replicate n (CHR ''x'')) = replicate n (CHR ''x'')" for n
    by (simp add: str_trim_def trim_start.simps trim_end.simps unary_no_ws)
  moreover have "str_lines (replicate (Suc n) (CHR ''x'')) = [replicate (Suc n) (CHR ''x'')]" for n
  proof -
    have t: "takeWhile (\<lambda>c. c \<noteq> CHR 0x0A) (replicate k (CHR ''x'')) = replicate k (CHR ''x'')"
      "dropWhile (\<lambda>c. c \<noteq> CHR 0x0A) (replicate k (CHR ''x'')) = []" for k
      by (induction k) simp_all
    show ?thesis using t [of "Suc n"] by (subst str_lines.simps) (simp del: replicate_Suc)
  qed
  ultimately show ?thesis
    by (simp add: wire_ok_def unary_wire_def del: replicate_Suc)
qed

definition demo_service :: service where
  "demo_service i m p =
     (if m = ''Echo'' then Inr (ReplyValue p)
      else if m = ''Count'' then Inr (ReplyStream [JInt 0, JInt 1] True)
      else Inl (UnknownMethod m))"

definition demo_inputs :: "rpc_input list" where
  "demo_inputs = [Ask PendingStream ''Count'' JNull, Ask PendingCall ''Echo'' (JInt 7), ServerReads,
                  ServerReads, TaskSends 1, TaskSends 0]"

lemma demo_asked:
  "rw_asked (rpc_steps unary_wire demo_service demo_inputs rpc_wire_new) =
     [(PendingStream, ''Count'', JNull), (PendingCall, ''Echo'', JInt 7)]"
proof -
  have a: "rw_asked (rpc_step C svc (Ask k m p) w) = rw_asked w @ [(k, m, p)]" for C svc k m p w
    by (simp split: prod.splits)
  have b: "rw_asked (rpc_step C svc ServerReads w) = rw_asked w"
    "rw_asked (rpc_step C svc (TaskSends n) w) = rw_asked w" for C svc w n
    by (simp_all split: list.splits prod.splits)
  show ?thesis
    by (simp add: demo_inputs_def rpc_steps_Cons a b rpc_wire_new_def del: rpc_step.simps)
qed




end
