(* ===== verification/Rpc_Device_Room.thy ===== *)
theory Rpc_Device_Room
  imports Rpc_Client
begin

text \<open>
  The device room, \<^verbatim>\<open>crates/rpc/src/device_room.rs\<close>: frames relayed between a host and the clients that
  dial it, the host's session with one virtual connection per client, the client's link, the pace of the
  host's redials and the cache of links with its cooldowns. The JSON text codec is a parameter, as are
  the lossy UTF-8 decoder, the relay between the sockets, the clocks and what a dial returns. Times are
  milliseconds.
\<close>

unbundle bit_operations_syntax

subsection \<open>Frames\<close>

definition relay_kind :: string where "relay_kind = '' relay''"
definition nudge_kind :: string where "nudge_kind = ''nudge''"
definition rpc_kind :: string where "rpc_kind = ''rpc''"

lemmas frame_kinds = relay_kind_def nudge_kind_def rpc_kind_def

record device_header =
  dh_s :: string
  dh_k :: string
  dh_to :: "string option"
  dh_from :: "string option"

definition device_header_new :: "string \<Rightarrow> string \<Rightarrow> device_header" where
  "device_header_new s k = \<lparr>dh_s = s, dh_k = k, dh_to = None, dh_from = None\<rparr>"

definition with_to :: "string \<Rightarrow> device_header \<Rightarrow> device_header" where
  "with_to conn h = h\<lparr>dh_to := Some conn\<rparr>"

definition device_header_json :: "device_header \<Rightarrow> json" where
  "device_header_json h =
     JObj ([(''s'', JStr (dh_s h)), (''k'', JStr (dh_k h))] @
           (case dh_to h of None \<Rightarrow> [] | Some c \<Rightarrow> [(''to'', JStr c)]) @
           (case dh_from h of None \<Rightarrow> [] | Some c \<Rightarrow> [(''from'', JStr c)]))"

definition device_header_of :: "json \<Rightarrow> device_header option" where
  "device_header_of v =
     (case as_obj v of
        None \<Rightarrow> None
      | Some fs \<Rightarrow>
          (case (req_field as_str fs ''s'', req_field as_str fs ''k'', opt_field as_str fs ''to'',
                 opt_field as_str fs ''from'') of
             (Some s, Some k, Some t, Some f) \<Rightarrow> Some \<lparr>dh_s = s, dh_k = k, dh_to = t, dh_from = f\<rparr>
           | _ \<Rightarrow> None))"

text \<open>\<^verbatim>\<open>serde_json::to_vec\<close>, \<^verbatim>\<open>from_slice\<close> with its syntax errors, and the message of a shape error.\<close>

record byte_codec =
  bc_to :: "json \<Rightarrow> string + bytes"
  bc_of :: "bytes \<Rightarrow> string + json"
  bc_shape :: "json \<Rightarrow> string"

text \<open>The length prefix: seven bits per byte, least significant first.\<close>

function uleb128 :: "nat \<Rightarrow> bytes" where
  "uleb128 n =
     (let byte = n AND 127; n = drop_bit 7 n
      in if n = 0 then [char_of byte] else char_of (byte OR 128) # uleb128 n)"
  by pat_completeness auto
termination
  by (relation "measure id") (auto simp: drop_bit_nat_def)

declare uleb128.simps [simp del]

definition bad_frame :: "string \<Rightarrow> rpc_error" where
  "bad_frame m = RpcTransport (''device frame: '' @ m)"

fun uleb128_read :: "nat \<Rightarrow> nat \<Rightarrow> bytes \<Rightarrow> rpc_error + nat \<times> bytes" where
  "uleb128_read n shift [] = Inl (bad_frame ''truncated uleb128'')"
| "uleb128_read n shift (b # bs) =
     (let byte = of_char b
      in if 32 \<le> shift then Inl (bad_frame ''uleb128 overflow'')
         else
           let n = n OR push_bit shift (byte AND 127)
           in if byte AND 128 = 0 then Inr (n, bs) else uleb128_read n (shift + 7) bs)"

definition encode_device_frame :: "byte_codec \<Rightarrow> device_header \<Rightarrow> bytes \<Rightarrow> rpc_error + bytes" where
  "encode_device_frame J h payload =
     (case bc_to J (device_header_json h) of
        Inl e \<Rightarrow> Inl (RpcTransport (''encode frame header: '' @ e))
      | Inr b \<Rightarrow> Inr (uleb128 (length b) @ b @ payload))"

definition decode_device_frame :: "byte_codec \<Rightarrow> bytes \<Rightarrow> rpc_error + device_header \<times> bytes" where
  "decode_device_frame J bs =
     (case uleb128_read 0 0 bs of
        Inl e \<Rightarrow> Inl e
      | Inr (n, rest) \<Rightarrow>
          if length rest < n then Inl (bad_frame ''truncated header'')
          else
            (case bc_of J (take n rest) of
               Inl e \<Rightarrow> Inl (bad_frame (''bad header JSON: '' @ e))
             | Inr v \<Rightarrow>
                 (case device_header_of v of
                    None \<Rightarrow> Inl (bad_frame (''bad header JSON: '' @ bc_shape J v))
                  | Some h \<Rightarrow> Inr (h, drop n rest))))"

definition relay_error_code :: "byte_codec \<Rightarrow> bytes \<Rightarrow> string option" where
  "relay_error_code J payload =
     (case bc_of J payload of
        Inl _ \<Rightarrow> None
      | Inr v \<Rightarrow> Option.bind (as_obj v) (\<lambda>fs. req_field as_str fs ''error''))"

text \<open>\<^verbatim>\<open>replacen("http", "ws", 1)\<close> and \<^verbatim>\<open>trim_end_matches('/')\<close>.\<close>

fun replace_http :: "string \<Rightarrow> string" where
  "replace_http [] = []"
| "replace_http (c # cs) =
     (if prefix ''http'' (c # cs) then ''ws'' @ drop 4 (c # cs) else c # replace_http cs)"

definition device_room_ws_url :: "string \<Rightarrow> string \<Rightarrow> string \<Rightarrow> string option \<Rightarrow> string \<Rightarrow> string" where
  "device_room_ws_url edge_url device_id role conn_id token =
     (let ws_base = rev (dropWhile (\<lambda>c. c = CHR ''/'') (rev (replace_http edge_url)));
          conn = (case conn_id of None \<Rightarrow> [] | Some c \<Rightarrow> ''&connId='' @ c)
      in ws_base @ ''/device/'' @ device_id @ ''/ws?role='' @ role @ conn @ ''&token='' @ token)"

subsection \<open>The host's session\<close>

text \<open>A virtual connection: the queue that feeds its dispatch loop, and the loop's state. One that was
  dropped takes nothing any more but still works off its queue.\<close>

record virtual_conn =
  vc_in :: "string list"
  vc_server :: server_conn

record host_session =
  hs_conns :: "(string, virtual_conn) hashmap"
  hs_ending :: "(string \<times> virtual_conn) list"
  hs_out :: "bytes list"
  hs_nudged :: "string list"

definition host_session_new :: host_session where
  "host_session_new = \<lparr>hs_conns = [], hs_ending = [], hs_out = [], hs_nudged = []\<rparr>"

definition make_virtual_conn :: virtual_conn where
  "make_virtual_conn = \<lparr>vc_in = [], vc_server = server_new\<rparr>"

definition nudge_of :: "byte_codec \<Rightarrow> bytes \<Rightarrow> string option" where
  "nudge_of J payload =
     (case bc_of J payload of
        Inl _ \<Rightarrow> None
      | Inr v \<Rightarrow>
          (case Option.bind (as_obj v) (\<lambda>fs. opt_field as_str fs ''chatId'') of
             Some (Some chat) \<Rightarrow> Some chat
           | _ \<Rightarrow> None))"

definition drop_conn :: "string \<Rightarrow> host_session \<Rightarrow> host_session" where
  "drop_conn c s =
     (case map_of (hs_conns s) c of
        None \<Rightarrow> s
      | Some v \<Rightarrow> s\<lparr>hs_conns := AList.delete c (hs_conns s), hs_ending := hs_ending s @ [(c, v)]\<rparr>)"

definition handle_host_frame :: "byte_codec \<Rightarrow> (bytes \<Rightarrow> string) \<Rightarrow> bytes \<Rightarrow> host_session \<Rightarrow> host_session" where
  "handle_host_frame J lossy bs s =
     (case decode_device_frame J bs of
        Inl _ \<Rightarrow> s
      | Inr (h, payload) \<Rightarrow>
          if dh_k h = relay_kind then
            (case (case dh_from h of Some c \<Rightarrow> Some c | None \<Rightarrow> dh_to h) of
               Some c \<Rightarrow> drop_conn c s
             | None \<Rightarrow> s)
          else if dh_k h = nudge_kind then
            (case nudge_of J payload of
               Some chat \<Rightarrow> s\<lparr>hs_nudged := hs_nudged s @ [chat]\<rparr>
             | None \<Rightarrow> s)
          else if dh_k h \<noteq> rpc_kind then s
          else
            (case dh_from h of
               None \<Rightarrow> s
             | Some c \<Rightarrow>
                 let v = (case map_of (hs_conns s) c of Some v \<Rightarrow> v | None \<Rightarrow> make_virtual_conn)
                 in s\<lparr>hs_conns := AList.update c (v\<lparr>vc_in := vc_in v @ [lossy payload]\<rparr>) (hs_conns s)\<rparr>))"

text \<open>One step of a connection's dispatch loop, and one frame of its reply pump.\<close>

definition conn_reads :: "wire_codec \<Rightarrow> service \<Rightarrow> virtual_conn \<Rightarrow> virtual_conn" where
  "conn_reads C svc v =
     (case vc_in v of
        [] \<Rightarrow> v
      | t # ts \<Rightarrow> v\<lparr>vc_in := ts, vc_server := serve_payload C svc t (vc_server v)\<rparr>)"

definition reply_frame :: "byte_codec \<Rightarrow> string \<Rightarrow> string \<Rightarrow> bytes list" where
  "reply_frame J c text =
     (case encode_device_frame J (with_to c (device_header_new rpc_kind rpc_kind)) text of
        Inr b \<Rightarrow> [b]
      | Inl _ \<Rightarrow> [])"

definition conn_sends :: "wire_codec \<Rightarrow> byte_codec \<Rightarrow> string \<Rightarrow> nat \<Rightarrow> virtual_conn \<Rightarrow>
    bytes list \<times> virtual_conn" where
  "conn_sends C J c n v =
     (let (x, sv) = task_sends C n (vc_server v)
      in ((case x of None \<Rightarrow> [] | Some t \<Rightarrow> reply_frame J c t), v\<lparr>vc_server := sv\<rparr>))"

text \<open>\<open>EndReads\<close> and \<open>EndSends\<close> are the steps of a connection that was dropped, by its position;
  \<open>EndCloses\<close> is its end, when its queue is empty.\<close>

datatype host_input =
    HostFrame bytes
  | ConnReads string
  | ConnSends string nat
  | EndReads nat
  | EndSends nat nat
  | EndCloses nat

fun room_step :: "wire_codec \<Rightarrow> byte_codec \<Rightarrow> (bytes \<Rightarrow> string) \<Rightarrow> (string \<Rightarrow> service) \<Rightarrow> host_input \<Rightarrow>
    host_session \<Rightarrow> host_session" where
  "room_step C J lossy svc (HostFrame b) s = handle_host_frame J lossy b s"
| "room_step C J lossy svc (ConnReads c) s =
     (case map_of (hs_conns s) c of
        None \<Rightarrow> s
      | Some v \<Rightarrow> s\<lparr>hs_conns := AList.update c (conn_reads C (svc c) v) (hs_conns s)\<rparr>)"
| "room_step C J lossy svc (ConnSends c n) s =
     (case map_of (hs_conns s) c of
        None \<Rightarrow> s
      | Some v \<Rightarrow>
          (let (out, v) = conn_sends C J c n v
           in s\<lparr>hs_conns := AList.update c v (hs_conns s), hs_out := hs_out s @ out\<rparr>))"
| "room_step C J lossy svc (EndReads k) s =
     (if k < length (hs_ending s)
      then let (c, v) = hs_ending s ! k
           in s\<lparr>hs_ending := (hs_ending s)[k := (c, conn_reads C (svc c) v)]\<rparr>
      else s)"
| "room_step C J lossy svc (EndSends k n) s =
     (if k < length (hs_ending s)
      then let (c, v) = hs_ending s ! k; (out, v) = conn_sends C J c n v
           in s\<lparr>hs_ending := (hs_ending s)[k := (c, v)], hs_out := hs_out s @ out\<rparr>
      else s)"
| "room_step C J lossy svc (EndCloses k) s =
     (if k < length (hs_ending s) \<and> vc_in (snd (hs_ending s ! k)) = []
      then let (c, v) = hs_ending s ! k
           in s\<lparr>hs_ending := (hs_ending s)[k := (c, v\<lparr>vc_server := serve_ends (vc_server v)\<rparr>)]\<rparr>
      else s)"

definition room_steps :: "wire_codec \<Rightarrow> byte_codec \<Rightarrow> (bytes \<Rightarrow> string) \<Rightarrow> (string \<Rightarrow> service) \<Rightarrow>
    host_input list \<Rightarrow> host_session \<Rightarrow> host_session" where
  "room_steps C J lossy svc inps s = fold (room_step C J lossy svc) inps s"

text \<open>The loop around them: what the socket, the keepalive and the timer of the silence lease report. At
  its end every connection is dropped.\<close>

definition silence_lease :: nat where "silence_lease = 40000"

record live_session =
  ls_session :: host_session
  ls_last_rx :: nat
  ls_over :: bool

datatype socket_event =
    SocketBinary nat bytes
  | SocketOther nat
  | SocketClosed
  | WriteFailed
  | LeaseTimer nat

definition clear_conns :: "host_session \<Rightarrow> host_session" where
  "clear_conns s = s\<lparr>hs_conns := [], hs_ending := hs_ending s @ hs_conns s\<rparr>"

definition end_session :: "live_session \<Rightarrow> live_session" where
  "end_session l = l\<lparr>ls_session := clear_conns (ls_session l), ls_over := True\<rparr>"

definition session_event :: "byte_codec \<Rightarrow> (bytes \<Rightarrow> string) \<Rightarrow> socket_event \<Rightarrow> live_session \<Rightarrow> live_session" where
  "session_event J lossy ev l =
     (if ls_over l then l
      else case ev of
        SocketBinary t b \<Rightarrow> l\<lparr>ls_last_rx := t, ls_session := handle_host_frame J lossy b (ls_session l)\<rparr>
      | SocketOther t \<Rightarrow> l\<lparr>ls_last_rx := t\<rparr>
      | SocketClosed \<Rightarrow> end_session l
      | WriteFailed \<Rightarrow> end_session l
      | LeaseTimer t \<Rightarrow> if ls_last_rx l + silence_lease \<le> t then end_session l else l)"

subsection \<open>The client's link\<close>

definition link_sends :: "byte_codec \<Rightarrow> string \<Rightarrow> rpc_error + bytes" where
  "link_sends J text = encode_device_frame J (device_header_new rpc_kind rpc_kind) text"

datatype link_event = LinkText string | LinkDown string | LinkIgnores

definition link_receives :: "byte_codec \<Rightarrow> (bytes \<Rightarrow> string) \<Rightarrow> bytes \<Rightarrow> link_event" where
  "link_receives J lossy bs =
     (case decode_device_frame J bs of
        Inl _ \<Rightarrow> LinkIgnores
      | Inr (h, payload) \<Rightarrow>
          if dh_k h = relay_kind then
            LinkDown (case relay_error_code J payload of Some code \<Rightarrow> code | None \<Rightarrow> ''relay error'')
          else if dh_k h = rpc_kind then LinkText (lossy payload)
          else LinkIgnores)"

text \<open>The link's pump: the reason it ended with is what \<^verbatim>\<open>closed\<close> shows.\<close>

record device_link =
  dl_last_rx :: nat
  dl_inbox :: "string list"
  dl_sent :: "bytes list"
  dl_reason :: "string option"

datatype link_input =
    LinkCalls string bool
  | LinkDropped
  | LinkSocket socket_event
  | LinkInboxGone

definition link_step :: "byte_codec \<Rightarrow> (bytes \<Rightarrow> string) \<Rightarrow> link_input \<Rightarrow> device_link \<Rightarrow> device_link" where
  "link_step J lossy inp l =
     (if dl_reason l \<noteq> None then l
      else case inp of
        LinkCalls text written \<Rightarrow>
          (case link_sends J text of
             Inl _ \<Rightarrow> l
           | Inr b \<Rightarrow>
               if written then l\<lparr>dl_sent := dl_sent l @ [b]\<rparr>
               else l\<lparr>dl_reason := Some ''connection lost''\<rparr>)
      | LinkDropped \<Rightarrow> l\<lparr>dl_reason := Some ''closed''\<rparr>
      | LinkInboxGone \<Rightarrow> l\<lparr>dl_reason := Some ''client dropped''\<rparr>
      | LinkSocket ev \<Rightarrow>
          (case ev of
             SocketBinary t b \<Rightarrow>
               (let l = l\<lparr>dl_last_rx := t\<rparr>
                in case link_receives J lossy b of
                     LinkText text \<Rightarrow> l\<lparr>dl_inbox := dl_inbox l @ [text]\<rparr>
                   | LinkDown code \<Rightarrow> l\<lparr>dl_reason := Some code\<rparr>
                   | LinkIgnores \<Rightarrow> l)
           | SocketOther t \<Rightarrow> l\<lparr>dl_last_rx := t\<rparr>
           | SocketClosed \<Rightarrow> l\<lparr>dl_reason := Some ''connection lost''\<rparr>
           | WriteFailed \<Rightarrow> l\<lparr>dl_reason := Some ''connection lost''\<rparr>
           | LeaseTimer t \<Rightarrow>
               if dl_last_rx l + silence_lease \<le> t then l\<lparr>dl_reason := Some ''silent past lease''\<rparr> else l))"

definition link_is_closed :: "device_link \<Rightarrow> bool" where
  "link_is_closed l \<longleftrightarrow> dl_reason l \<noteq> None"

subsection \<open>The relay between them\<close>

text \<open>\<^verbatim>\<open>webSocketMessage\<close> of \<^verbatim>\<open>edge/src/device-room.ts\<close>, while the other side is connected: a client's
  frame is stamped with its connection, a host's goes to the connection it names.\<close>

definition relay_to_host :: "byte_codec \<Rightarrow> string \<Rightarrow> bytes \<Rightarrow> bytes list" where
  "relay_to_host J conn bs =
     (case decode_device_frame J bs of
        Inl _ \<Rightarrow> []
      | Inr (h, payload) \<Rightarrow>
          (case encode_device_frame J \<lparr>dh_s = dh_s h, dh_k = dh_k h, dh_to = None, dh_from = Some conn\<rparr> payload of
             Inr b \<Rightarrow> [b] | Inl _ \<Rightarrow> []))"

definition relay_to_client :: "byte_codec \<Rightarrow> bytes \<Rightarrow> (string \<times> bytes) list" where
  "relay_to_client J bs =
     (case decode_device_frame J bs of
        Inl _ \<Rightarrow> []
      | Inr (h, payload) \<Rightarrow>
          (case dh_to h of
             None \<Rightarrow> []
           | Some c \<Rightarrow>
               if c = [] then []
               else (case encode_device_frame J (device_header_new (dh_s h) (dh_k h)) payload of
                       Inr b \<Rightarrow> [(c, b)] | Inl _ \<Rightarrow> [])))"

subsection \<open>The host's redials\<close>

definition host_rejoin_min :: nat where "host_rejoin_min = 250"
definition host_healthy_session :: nat where "host_healthy_session = 30000"

text \<open>What ended the wait of one round: no credentials, a session that ended or failed after some time;
  then a timer, or an event that cuts the wait short.\<close>

datatype host_round = SignedOutRound | SessionEnded | SessionFailed nat

definition after_round :: "nat \<Rightarrow> host_round \<Rightarrow> nat \<Rightarrow> nat" where
  "after_round retry r delay =
     (case r of
        SignedOutRound \<Rightarrow> retry
      | SessionEnded \<Rightarrow> host_rejoin_min
      | SessionFailed elapsed \<Rightarrow>
          if host_healthy_session \<le> elapsed then host_rejoin_min else min (delay * 2) retry)"

definition after_wait :: "bool \<Rightarrow> nat \<Rightarrow> nat" where
  "after_wait woken delay = (if woken then host_rejoin_min else delay)"

text \<open>The waits of a row of rounds, without their jitter.\<close>

fun host_waits :: "nat \<Rightarrow> (host_round \<times> bool) list \<Rightarrow> nat \<Rightarrow> nat list" where
  "host_waits retry [] delay = []"
| "host_waits retry ((r, woken) # rs) delay =
     (let d = after_round retry r delay in d # host_waits retry rs (after_wait woken d))"

subsection \<open>The cache of links\<close>

definition dial_attempts :: nat where "dial_attempts = 3"
definition failure_decay :: nat where "failure_decay = 600000"

record cache_config =
  kc_cooldown_base :: nat
  kc_cooldown_max :: nat

definition cache_config_new :: cache_config where
  "cache_config_new = \<lparr>kc_cooldown_base = 5000, kc_cooldown_max = 60000\<rparr>"

record dial_state =
  ds_failures :: nat
  ds_last_failure :: "nat option"
  ds_cooldown_until :: "nat option"

definition dial_state_default :: dial_state where
  "dial_state_default = \<lparr>ds_failures = 0, ds_last_failure = None, ds_cooldown_until = None\<rparr>"

text \<open>Links are numbered; \<open>lc_closed\<close> are those whose transport has dropped.\<close>

record link_cache =
  lc_config :: cache_config
  lc_revoked :: bool
  lc_links :: "(string, nat) hashmap"
  lc_closed :: "nat list"
  lc_dial :: "(string, dial_state) hashmap"

definition cached :: "string \<Rightarrow> link_cache \<Rightarrow> nat option \<times> link_cache" where
  "cached d c =
     (case map_of (lc_links c) d of
        None \<Rightarrow> (None, c)
      | Some l \<Rightarrow>
          if l \<in> set (lc_closed c) then (None, c\<lparr>lc_links := AList.delete d (lc_links c)\<rparr>)
          else (Some l, c))"

definition cooling :: "nat \<Rightarrow> string \<Rightarrow> link_cache \<Rightarrow> string option" where
  "cooling now d c =
     (case map_of (lc_dial c) d of
        None \<Rightarrow> None
      | Some e \<Rightarrow>
          (case ds_cooldown_until e of
             None \<Rightarrow> None
           | Some until \<Rightarrow>
               if until \<le> now then None
               else Some (''peer '' @ d @ '': unreachable (backing off after '' @ dec (ds_failures e) @
                          '' failed dials; retrying in ~'' @ dec (max 1 ((until - now) div 1000)) @ ''s)'')))"

text \<open>The three clock readings of the source, in order. The count of failures is a \<^verbatim>\<open>u32\<close>.\<close>

definition backoff :: "cache_config \<Rightarrow> nat \<Rightarrow> nat" where
  "backoff k failures =
     min (kc_cooldown_base k * push_bit (min (if failures = 0 then 2 ^ 32 - 1 else failures - 1) 16) 1)
       (kc_cooldown_max k)"

definition note_failure :: "nat \<Rightarrow> nat \<Rightarrow> nat \<Rightarrow> string \<Rightarrow> link_cache \<Rightarrow> link_cache" where
  "note_failure t1 t2 t3 d c =
     (let e = (case map_of (lc_dial c) d of Some e \<Rightarrow> e | None \<Rightarrow> dial_state_default);
          f = (case ds_last_failure e of
                 Some at \<Rightarrow> if failure_decay < t1 - at then 0 else ds_failures e
               | None \<Rightarrow> ds_failures e);
          f = (f + 1) mod 2 ^ 32
      in c\<lparr>lc_dial := AList.update d
             \<lparr>ds_failures = f, ds_last_failure = Some t2, ds_cooldown_until = Some (t3 + backoff (lc_config c) f)\<rparr>
             (lc_dial c)\<rparr>)"

definition not_signed_in :: rpc_error where
  "not_signed_in = RpcTransport ''not signed in''"

text \<open>One dial: a fresh token, the socket, then a round trip that proves the host answers.\<close>

datatype probe_outcome = ProbeTimedOut | ProbeFailed rpc_error | ProbeAnswered json

definition dial :: "string \<Rightarrow> string option \<Rightarrow> rpc_error + nat \<Rightarrow> probe_outcome \<Rightarrow> rpc_error + nat" where
  "dial d token connected probe =
     (case token of
        None \<Rightarrow> Inl not_signed_in
      | Some _ \<Rightarrow>
          (case connected of
             Inl e \<Rightarrow> Inl e
           | Inr l \<Rightarrow>
               (case probe of
                  ProbeTimedOut \<Rightarrow> Inl (RpcTransport (''peer '' @ d @ '': readiness check timed out''))
                | ProbeFailed e \<Rightarrow>
                    Inl (RpcTransport (''peer '' @ d @ '': readiness check failed: '' @ rpc_error_text e))
                | ProbeAnswered _ \<Rightarrow> Inr l)))"

text \<open>The row of dials of one call, until one succeeds: how many were made, and the outcome.\<close>

fun dial_row :: "(rpc_error + nat) list \<Rightarrow> rpc_error option \<Rightarrow> nat \<times> (rpc_error + nat)" where
  "dial_row [] last_err = (0, Inl (case last_err of Some e \<Rightarrow> e | None \<Rightarrow> RpcClosed))"
| "dial_row (Inr l # rs) last_err = (1, Inr l)"
| "dial_row (Inl e # rs) last_err = (let (n, r) = dial_row rs (Some e) in (Suc n, r))"

text \<open>A dial that succeeded: the link is cached, unless the credentials were revoked meanwhile.\<close>

definition connects :: "string \<Rightarrow> nat \<Rightarrow> link_cache \<Rightarrow> (rpc_error + nat) \<times> link_cache" where
  "connects d l c =
     (let c = c\<lparr>lc_dial := AList.delete d (lc_dial c)\<rparr>
      in if lc_revoked c then (Inl not_signed_in, c)
         else (Inr l, c\<lparr>lc_links := AList.update d l (lc_links c)\<rparr>))"

text \<open>\<^verbatim>\<open>client\<close>, by one caller holding the device's dial lock: \<open>others1\<close> is what other tasks do while it
  waits for the lock, \<open>others2\<close> what they do while it dials; \<open>dials\<close> gives the outcome of
  each attempt. It returns how many dials it made.\<close>

record cache_clock =
  kt_now :: nat
  kt_check :: nat
  kt_fail :: nat
  kt_until :: nat

definition cache_client :: "cache_clock \<Rightarrow> (nat \<Rightarrow> rpc_error + nat) \<Rightarrow> (link_cache \<Rightarrow> link_cache) \<Rightarrow>
    (link_cache \<Rightarrow> link_cache) \<Rightarrow> string \<Rightarrow> link_cache \<Rightarrow> (rpc_error + nat) \<times> nat \<times> link_cache" where
  "cache_client t dials others1 others2 d c =
     (if lc_revoked c then (Inl not_signed_in, 0, c)
      else
        (case cached d c of
           (Some l, c) \<Rightarrow> (Inr l, 0, c)
         | (None, c) \<Rightarrow>
             (case cached d (others1 c) of
                (Some l, c) \<Rightarrow> (Inr l, 0, c)
              | (None, c) \<Rightarrow>
                  (case cooling (kt_now t) d c of
                     Some m \<Rightarrow> (Inl (RpcTransport m), 0, c)
                   | None \<Rightarrow>
                       (case dial_row (map dials [0..<dial_attempts]) None of
                          (n, Inr l) \<Rightarrow> (let (r, c) = connects d l (others2 c) in (r, n, c))
                        | (n, Inl e) \<Rightarrow>
                            (Inl e, n, note_failure (kt_check t) (kt_fail t) (kt_until t) d (others2 c)))))))"

definition invalidate :: "string \<Rightarrow> link_cache \<Rightarrow> link_cache" where
  "invalidate d c = c\<lparr>lc_links := AList.delete d (lc_links c)\<rparr>"

definition disconnect_all :: "link_cache \<Rightarrow> link_cache" where
  "disconnect_all c = c\<lparr>lc_revoked := True, lc_links := [], lc_dial := []\<rparr>"

definition reset_cooldown :: "string \<Rightarrow> link_cache \<Rightarrow> link_cache" where
  "reset_cooldown d c = c\<lparr>lc_dial := AList.delete d (lc_dial c)\<rparr>"

definition cache_woken :: "link_cache \<Rightarrow> link_cache" where
  "cache_woken c = c\<lparr>lc_links := [], lc_dial := []\<rparr>"

definition cache_token_changed :: "bool \<Rightarrow> link_cache \<Rightarrow> link_cache" where
  "cache_token_changed signed_out c =
     (if signed_out then c\<lparr>lc_revoked := True, lc_links := [], lc_dial := []\<rparr>
      else c\<lparr>lc_revoked := False, lc_dial := []\<rparr>)"

text \<open>A link's transport drops; its evictor then removes it, if it is still the one in the cache.\<close>

definition link_drops :: "nat \<Rightarrow> link_cache \<Rightarrow> link_cache" where
  "link_drops l c = c\<lparr>lc_closed := l # lc_closed c\<rparr>"

definition evict :: "string \<Rightarrow> nat \<Rightarrow> link_cache \<Rightarrow> link_cache" where
  "evict d l c =
     (if map_of (lc_links c) d = Some l then c\<lparr>lc_links := AList.delete d (lc_links c)\<rparr> else c)"


subsection \<open>The codec\<close>

lemma and_127: "n AND 127 = n mod 128" for n :: nat
  using take_bit_eq_mask [of 7 n] by (simp add: take_bit_eq_mod mask_eq_exp_minus_1)

lemma and_128: "n AND 128 = 0 \<longleftrightarrow> \<not> bit n 7" for n :: nat
  using and_exp_eq_0_iff_not_bit [of n 7] by simp

lemma or_shifted: "a < 2 ^ k \<Longrightarrow> a OR push_bit k b = a + b * 2 ^ k" for a b :: nat
proof -
  assume a: "a < 2 ^ k"
  have "take_bit k a AND push_bit k b = 0" by (rule bit_eqI) (simp add: bit_simps)
  with a have "a AND push_bit k b = 0" by (simp add: take_bit_nat_eq_self)
  then show ?thesis by (simp add: disjunctive_add_eq_or [symmetric] push_bit_eq_mult)
qed

lemma or_128: "b < 128 \<Longrightarrow> b OR 128 = b + 128" for b :: nat
  using or_shifted [of b 7 1] by (simp add: push_bit_eq_mult)

lemma uleb128_eq:
  "uleb128 n = (if n < 128 then [char_of n] else char_of (n mod 128 + 128) # uleb128 (n div 128))"
  by (subst uleb128.simps) (auto simp: Let_def and_127 or_128 drop_bit_nat_def div_eq_0_iff)

lemma uleb128_read_byte:
  assumes "acc < 2 ^ shift" "shift < 32" "of_char c = (x :: nat)"
  shows "uleb128_read acc shift (c # bs) =
    (if x < 128 then Inr (acc + x * 2 ^ shift, bs)
     else uleb128_read (acc + x mod 128 * 2 ^ shift) (shift + 7) bs)"
proof -
  have "x < 256" using assms(3) of_char_mod_256 [of c, where ?'a = nat] mod_less_divisor [of 256 "of_char c"]
    by linarith
  then have "x div 128 = (if x < 128 then 0 else 1)" by (auto intro: div_nat_eqI)
  then have x: "x AND 128 = 0 \<longleftrightarrow> x < 128" by (simp add: and_128 bit_iff_odd)
  have "acc OR push_bit shift (x AND 127) = acc + x mod 128 * 2 ^ shift"
    unfolding and_127 using assms(1) by (rule or_shifted)
  then show ?thesis using assms(2,3) x by (simp add: Let_def del: push_bit_and)
qed

declare uleb128_read.simps(2) [simp del]

lemma uleb128_round:
  assumes "n < 2 ^ (35 - shift)" "acc < 2 ^ shift" "7 dvd shift" "shift < 35"
  shows "uleb128_read acc shift (uleb128 n @ rest) = Inr (acc + n * 2 ^ shift, rest)"
  using assms
proof (induction n arbitrary: acc shift rule: less_induct)
  case (less n)
  have sh: "shift \<le> 28" using less.prems(3,4) by (auto elim!: dvdE)
  show ?case
  proof (cases "n < 128")
    case True
    then have "of_char (char_of n :: char) = n" by simp
    with True sh less.prems(2) show ?thesis by (simp add: uleb128_eq uleb128_read_byte)
  next
    case False
    let ?b = "n mod 128"
    have b: "?b < 128" by simp
    have byte: "of_char (char_of (?b + 128) :: char) = ?b + 128" using b by simp
    have "shift \<noteq> 28" using less.prems(1) False by auto
    moreover obtain k where "shift = 7 * k" using less.prems(3) by (rule dvdE)
    ultimately have sh2: "shift \<le> 21" using sh by presburger
    have acc: "acc + ?b * 2 ^ shift < 2 ^ (shift + 7)"
    proof -
      have "?b * 2 ^ shift \<le> 127 * 2 ^ shift" using b by (intro mult_le_mono1) simp
      moreover have "(2 :: nat) ^ (shift + 7) = 128 * 2 ^ shift" by (simp add: power_add)
      ultimately show ?thesis using less.prems(2) by linarith
    qed
    have "(2 :: nat) ^ (35 - shift) = 2 ^ (35 - (shift + 7)) * 128"
    proof -
      have "35 - shift = (35 - (shift + 7)) + 7" using sh2 by simp
      then show ?thesis by (simp only: power_add) simp
    qed
    with less.prems(1) have n: "n div 128 < 2 ^ (35 - (shift + 7))" by (simp add: div_less_iff_less_mult)
    have "n div 128 < n" using False by simp
    from less.IH [OF this n acc] less.prems(3) sh2
    have "uleb128_read (acc + ?b * 2 ^ shift) (shift + 7) (uleb128 (n div 128) @ rest) =
        Inr (acc + ?b * 2 ^ shift + n div 128 * 2 ^ (shift + 7), rest)" by simp
    moreover have "acc + ?b * 2 ^ shift + n div 128 * 2 ^ (shift + 7) = acc + n * 2 ^ shift"
    proof -
      have "n * 2 ^ shift = (?b + n div 128 * 128) * 2 ^ shift" by simp
      also have "\<dots> = ?b * 2 ^ shift + n div 128 * 2 ^ (shift + 7)"
        by (simp only: add_mult_distrib power_add) simp
      finally show ?thesis by simp
    qed
    ultimately show ?thesis
      using False sh less.prems(2) byte by (subst uleb128_eq) (simp add: uleb128_read_byte)
  qed
qed

lemma device_header_read: "device_header_of (device_header_json h) = Some h"
  by (cases h) (auto simp: device_header_of_def device_header_json_def as_obj_def req_field_def opt_field_def
      as_str_def split: option.splits)

text \<open>What is relied on for a header: the text codec gives it back, and its text is shorter than
  \<open>2 ^ 35\<close> bytes.\<close>

definition header_carried :: "byte_codec \<Rightarrow> device_header \<Rightarrow> bool" where
  "header_carried J h \<longleftrightarrow>
     (case bc_to J (device_header_json h) of
        Inl _ \<Rightarrow> False
      | Inr b \<Rightarrow> bc_of J b = Inr (device_header_json h) \<and> length b < 2 ^ 35)"

lemma device_frame_round:
  assumes "header_carried J h"
  obtains b where "encode_device_frame J h payload = Inr b" "decode_device_frame J b = Inr (h, payload)"
proof -
  obtain t where t: "bc_to J (device_header_json h) = Inr t" "bc_of J t = Inr (device_header_json h)"
    "length t < 2 ^ 35" using assms by (auto simp: header_carried_def split: sum.splits)
  have "uleb128_read 0 0 (uleb128 (length t) @ t @ payload) = Inr (length t, t @ payload)"
    using uleb128_round [of "length t" 0 0 "t @ payload"] t(3) by simp
  with t show thesis
    by (intro that [of "uleb128 (length t) @ t @ payload"])
      (simp_all add: encode_device_frame_def decode_device_frame_def device_header_read)
qed


subsection \<open>Connections of one session do not meet\<close>

text \<open>The connection a frame is for, and the inputs that concern the connection \<open>c\<close>.\<close>

definition frame_conn :: "byte_codec \<Rightarrow> bytes \<Rightarrow> string option" where
  "frame_conn J bs =
     (case decode_device_frame J bs of
        Inl _ \<Rightarrow> None
      | Inr (h, payload) \<Rightarrow>
          if dh_k h = relay_kind then (case dh_from h of Some c \<Rightarrow> Some c | None \<Rightarrow> dh_to h)
          else if dh_k h = rpc_kind then dh_from h
          else None)"

fun concerns :: "byte_codec \<Rightarrow> string \<Rightarrow> host_input \<Rightarrow> bool" where
  "concerns J c (HostFrame b) = (frame_conn J b = Some c)"
| "concerns J c (ConnReads d) = (d = c)"
| "concerns J c (ConnSends d n) = (d = c)"
| "concerns J c _ = False"

text \<open>What one input does to a connection, as a function of that connection alone.\<close>

fun conn_step :: "wire_codec \<Rightarrow> byte_codec \<Rightarrow> (bytes \<Rightarrow> string) \<Rightarrow> service \<Rightarrow> host_input \<Rightarrow>
    virtual_conn option \<Rightarrow> virtual_conn option" where
  "conn_step C J lossy svc (HostFrame b) v =
     (case decode_device_frame J b of
        Inl _ \<Rightarrow> v
      | Inr (h, payload) \<Rightarrow>
          if dh_k h = relay_kind then None
          else (let u = (case v of Some u \<Rightarrow> u | None \<Rightarrow> make_virtual_conn)
                in Some (u\<lparr>vc_in := vc_in u @ [lossy payload]\<rparr>)))"
| "conn_step C J lossy svc (ConnReads d) v = map_option (conn_reads C svc) v"
| "conn_step C J lossy svc (ConnSends d n) v =
     map_option (\<lambda>u. u\<lparr>vc_server := snd (task_sends C n (vc_server u))\<rparr>) v"
| "conn_step C J lossy svc _ v = v"

lemma kinds_differ: "relay_kind \<noteq> nudge_kind" "relay_kind \<noteq> rpc_kind" "nudge_kind \<noteq> rpc_kind"
  by (simp_all add: frame_kinds)

lemma room_step_conn:
  "map_of (hs_conns (room_step C J lossy svc inp s)) c =
     (if concerns J c inp then conn_step C J lossy (svc c) inp (map_of (hs_conns s) c)
      else map_of (hs_conns s) c)"
proof (cases inp)
  case (HostFrame b)
  show ?thesis
  proof (cases "decode_device_frame J b")
    case (Inl e)
    with HostFrame show ?thesis by (simp add: handle_host_frame_def frame_conn_def)
  next
    case (Inr hp)
    obtain h payload where hp: "hp = (h, payload)" by (cases hp)
    show ?thesis
      using HostFrame Inr kinds_differ unfolding hp
      by (cases "dh_from h")
        (auto simp: handle_host_frame_def frame_conn_def drop_conn_def delete_conv' update_conv' Let_def
          split: option.splits if_splits)
  qed
next
  case (ConnSends d n)
  then show ?thesis
    by (auto simp: update_conv' conn_sends_def split: option.splits prod.splits)
qed (auto simp: update_conv' Let_def conn_sends_def split: option.splits prod.splits)

lemma room_steps_conn:
  "map_of (hs_conns (room_steps C J lossy svc inps s)) c =
     fold (conn_step C J lossy (svc c)) (filter (concerns J c) inps) (map_of (hs_conns s) c)"
  unfolding room_steps_def by (induction inps arbitrary: s) (simp_all add: room_step_conn)

text \<open>C17. One session serves many clients, each as if it were alone: whatever frames the others send,
  however their requests run, whoever leaves and in which order the session's steps are interleaved, the
  virtual connection of a client is the one that its own inputs alone would have made, with the service
  that answers it alone.\<close>

theorem host_conns_independent:
  "map_of (hs_conns (room_steps C J lossy svc inps host_session_new)) c =
     map_of (hs_conns (room_steps C J lossy (\<lambda>_. svc c) (filter (concerns J c) inps) host_session_new)) c"
  by (simp add: room_steps_conn)

subsection \<open>A text across the relay\<close>

text \<open>C18. A text crosses the relay unchanged and arrives at the right place: what a link sends comes out of
  the relay as a frame that appends exactly this text to the input of the sender's virtual connection and
  changes no other connection; what that connection replies leaves the relay for this connection only,
  and its link receives exactly the reply.\<close>

theorem relay_carries_text:
  assumes "header_carried J (device_header_new rpc_kind rpc_kind)"
    and "header_carried J \<lparr>dh_s = rpc_kind, dh_k = rpc_kind, dh_to = None, dh_from = Some c\<rparr>"
    and "header_carried J (with_to c (device_header_new rpc_kind rpc_kind))"
    and "lossy text = text" "lossy reply = reply" "c \<noteq> []"
  shows "\<exists>b1 b2 b3 b4. link_sends J text = Inr b1 \<and> relay_to_host J c b1 = [b2] \<and>
      vc_in (the (map_of (hs_conns (handle_host_frame J lossy b2 s)) c)) =
        (case map_of (hs_conns s) c of None \<Rightarrow> [] | Some v \<Rightarrow> vc_in v) @ [text] \<and>
      (\<forall>d. d \<noteq> c \<longrightarrow> map_of (hs_conns (handle_host_frame J lossy b2 s)) d = map_of (hs_conns s) d) \<and>
      reply_frame J c reply = [b3] \<and> relay_to_client J b3 = [(c, b4)] \<and>
      link_receives J lossy b4 = LinkText reply"
proof -
  obtain b1 where b1: "encode_device_frame J (device_header_new rpc_kind rpc_kind) text = Inr b1"
    "decode_device_frame J b1 = Inr (device_header_new rpc_kind rpc_kind, text)"
    using device_frame_round [OF assms(1)] by blast
  obtain b2 where b2: "encode_device_frame J \<lparr>dh_s = rpc_kind, dh_k = rpc_kind, dh_to = None, dh_from = Some c\<rparr> text = Inr b2"
    "decode_device_frame J b2 = Inr (\<lparr>dh_s = rpc_kind, dh_k = rpc_kind, dh_to = None, dh_from = Some c\<rparr>, text)"
    using device_frame_round [OF assms(2)] by blast
  obtain b3 where b3: "encode_device_frame J (with_to c (device_header_new rpc_kind rpc_kind)) reply = Inr b3"
    "decode_device_frame J b3 = Inr (with_to c (device_header_new rpc_kind rpc_kind), reply)"
    using device_frame_round [OF assms(3)] by blast
  obtain b4 where b4: "encode_device_frame J (device_header_new rpc_kind rpc_kind) reply = Inr b4"
    "decode_device_frame J b4 = Inr (device_header_new rpc_kind rpc_kind, reply)"
    using device_frame_round [OF assms(1)] by blast
  have up: "link_sends J text = Inr b1" "relay_to_host J c b1 = [b2]"
    using b1 b2(1) by (simp_all add: link_sends_def relay_to_host_def device_header_new_def)
  have conns: "hs_conns (handle_host_frame J lossy b2 s) = AList.update c
      (let v = (case map_of (hs_conns s) c of Some v \<Rightarrow> v | None \<Rightarrow> make_virtual_conn) in v\<lparr>vc_in := vc_in v @ [text]\<rparr>)
      (hs_conns s)"
    using b2(2) kinds_differ assms(4) by (simp add: handle_host_frame_def Let_def)
  have "relay_to_client J b3 = [(c, b4)]"
    using b3(2) b4(1) assms(6) by (simp add: relay_to_client_def with_to_def device_header_new_def)
  moreover have "link_receives J lossy b4 = LinkText reply"
    using b4(2) kinds_differ assms(5) by (simp add: link_receives_def device_header_new_def)
  moreover have "reply_frame J c reply = [b3]" using b3(1) by (simp add: reply_frame_def)
  ultimately show ?thesis
    using up conns
    by (intro exI [of _ b1] exI [of _ b2] exI [of _ b3] exI [of _ b4])
      (simp add: update_conv' make_virtual_conn_def Let_def split: option.split)
qed

definition unary_bytes :: byte_codec where
  "unary_bytes =
     \<lparr>bc_to = \<lambda>j. Inr (if j = device_header_json (device_header_new rpc_kind rpc_kind) then ''a''
                       else if j = device_header_json (with_to ''c1'' (device_header_new rpc_kind rpc_kind)) then ''b''
                       else ''c''),
      bc_of = \<lambda>t. Inr (if t = ''a'' then device_header_json (device_header_new rpc_kind rpc_kind)
                       else if t = ''b'' then device_header_json (with_to ''c1'' (device_header_new rpc_kind rpc_kind))
                       else device_header_json \<lparr>dh_s = rpc_kind, dh_k = rpc_kind, dh_to = None, dh_from = Some ''c1''\<rparr>),
      bc_shape = \<lambda>_. ''unexpected value''\<rparr>"

lemma relay_carries_text_witness:
  "\<exists>b1 b2 b3 b4. link_sends unary_bytes ''ping'' = Inr b1 \<and> relay_to_host unary_bytes ''c1'' b1 = [b2] \<and>
      vc_in (the (map_of (hs_conns (handle_host_frame unary_bytes id b2 host_session_new)) ''c1'')) = [''ping''] \<and>
      reply_frame unary_bytes ''c1'' ''pong'' = [b3] \<and> relay_to_client unary_bytes b3 = [(''c1'', b4)] \<and>
      link_receives unary_bytes id b4 = LinkText ''pong''"
proof -
  have h: "header_carried unary_bytes (device_header_new rpc_kind rpc_kind)"
    "header_carried unary_bytes \<lparr>dh_s = rpc_kind, dh_k = rpc_kind, dh_to = None, dh_from = Some ''c1''\<rparr>"
    "header_carried unary_bytes (with_to ''c1'' (device_header_new rpc_kind rpc_kind))"
    by (simp_all add: header_carried_def unary_bytes_def device_header_json_def device_header_new_def with_to_def)
  show ?thesis
    using relay_carries_text [OF h, of id "''ping''" "''pong''" host_session_new]
    by (simp add: host_session_new_def) blast
qed


text \<open>A socket that has been silent for the lease is given up at the next timer, and stays given up.\<close>

lemma lease_ends_session:
  assumes "ls_last_rx l + silence_lease \<le> t" "\<not> ls_over l"
  shows "ls_over (session_event J lossy (LeaseTimer t) l)"
    "hs_conns (ls_session (session_event J lossy (LeaseTimer t) l)) = []"
  using assms by (simp_all add: session_event_def end_session_def clear_conns_def)

lemma over_stays: "ls_over l \<Longrightarrow> fold (session_event J lossy) evs l = l"
  by (induction evs) (simp_all add: session_event_def)

lemma link_stays_closed: "link_is_closed l \<Longrightarrow> fold (link_step J lossy) inps l = l"
  by (induction inps) (simp_all add: link_step_def link_is_closed_def)

lemma lease_closes_link:
  "dl_last_rx l + silence_lease \<le> t \<Longrightarrow> link_is_closed (link_step J lossy (LinkSocket (LeaseTimer t)) l)"
  by (simp add: link_step_def link_is_closed_def)

subsection \<open>The pace of redials\<close>

text \<open>No wait of the host is longer than the configured retry, or the rejoin delay where that is
  longer.\<close>

lemma host_waits_bounded: "list_all (\<lambda>d. d \<le> max retry host_rejoin_min) (host_waits retry rs delay)"
  by (induction retry rs delay rule: host_waits.induct)
    (auto simp: Let_def after_round_def split: host_round.splits)

lemma host_waits_double:
  assumes "elapsed < host_healthy_session" "host_rejoin_min \<le> retry"
  shows "host_waits retry (replicate k (SessionFailed elapsed, False)) (min (host_rejoin_min * 2 ^ j) retry) =
    map (\<lambda>i. min (host_rejoin_min * 2 ^ (j + i + 1)) retry) [0..<k]"
proof (induction k arbitrary: j)
  case (Suc k)
  have "min (min (host_rejoin_min * 2 ^ j) retry * 2) retry = min (host_rejoin_min * 2 ^ Suc j) retry"
    by (simp add: min_def)
  with assms Suc [of "Suc j"] show ?case
    by (simp add: Let_def after_round_def after_wait_def upt_conv_Cons map_Suc_upt [symmetric]
        del: upt_Suc)
qed simp

lemma dial_row_failed:
  "dial_row rs e0 = (n, Inl e) \<Longrightarrow> n = length rs \<and> (\<forall>r \<in> set rs. \<exists>x. r = Inl x)"
  by (induction rs e0 arbitrary: n rule: dial_row.induct) (auto split: prod.splits)

lemma dial_row_count: "fst (dial_row rs e0) \<le> length rs"
  by (induction rs e0 rule: dial_row.induct) (auto split: prod.splits)

lemma dial_row_pos: "rs \<noteq> [] \<Longrightarrow> 0 < fst (dial_row rs e0)"
  by (cases rs; cases "hd rs") (auto split: prod.splits)

lemma backoff_bounds:
  "min (kc_cooldown_base k) (kc_cooldown_max k) \<le> backoff k f" "backoff k f \<le> kc_cooldown_max k"
  "0 < f \<Longrightarrow> f \<le> 17 \<Longrightarrow> backoff k f = min (kc_cooldown_base k * 2 ^ (f - 1)) (kc_cooldown_max k)"
proof -
  have "kc_cooldown_base k \<le> kc_cooldown_base k * 2 ^ j" for j by simp
  then show "min (kc_cooldown_base k) (kc_cooldown_max k) \<le> backoff k f"
    unfolding backoff_def push_bit_eq_mult by (simp add: min.coboundedI1)
  show "backoff k f \<le> kc_cooldown_max k" by (simp add: backoff_def)
  show "0 < f \<Longrightarrow> f \<le> 17 \<Longrightarrow> backoff k f = min (kc_cooldown_base k * 2 ^ (f - 1)) (kc_cooldown_max k)"
    by (simp add: backoff_def push_bit_eq_mult)
qed

definition streak :: "nat \<Rightarrow> string \<Rightarrow> link_cache \<Rightarrow> nat" where
  "streak t d c =
     (case map_of (lc_dial c) d of
        None \<Rightarrow> 0
      | Some e \<Rightarrow>
          (case ds_last_failure e of
             Some at \<Rightarrow> if failure_decay < t - at then 0 else ds_failures e
           | None \<Rightarrow> ds_failures e))"

lemma note_failure_entry:
  "map_of (lc_dial (note_failure t1 t2 t3 d c)) d =
     Some \<lparr>ds_failures = (streak t1 d c + 1) mod 2 ^ 32, ds_last_failure = Some t2,
           ds_cooldown_until = Some (t3 + backoff (lc_config c) ((streak t1 d c + 1) mod 2 ^ 32))\<rparr>"
  by (simp add: note_failure_def streak_def update_conv' dial_state_default_def Let_def split: option.splits)

lemma cache_client_failed:
  assumes "cache_client t dials id id d c = (Inl e, n, c')" "n \<noteq> 0"
  shows "n = dial_attempts" "\<forall>k < dial_attempts. \<exists>x. dials k = Inl x"
    "\<exists>c0. lc_dial c0 = lc_dial c \<and> lc_config c0 = lc_config c \<and>
       c' = note_failure (kt_check t) (kt_fail t) (kt_until t) d c0"
proof -
  have cd: "cached d x = (r, y) \<Longrightarrow> lc_dial y = lc_dial x \<and> lc_config y = lc_config x \<and> lc_revoked y = lc_revoked x"
    for x r y by (auto simp: cached_def split: option.splits if_splits)
  obtain r1 c1 where c1: "cached d c = (r1, c1)" by fastforce
  obtain r2 c2 where c2: "cached d c1 = (r2, c2)" by fastforce
  obtain k r where row: "dial_row (map dials [0..<dial_attempts]) None = (k, r)" by fastforce
  have main: "\<not> lc_revoked c" "r1 = None" "r2 = None" "cooling (kt_now t) d c2 = None"
    using assms c1 c2 by (auto simp: cache_client_def split: if_splits option.splits)
  have "r = Inl e \<and> k = n \<and> c' = note_failure (kt_check t) (kt_fail t) (kt_until t) d c2"
    using assms main c1 c2 row cd [OF c1] cd [OF c2]
    by (cases r) (auto simp: cache_client_def connects_def Let_def)
  with row dial_row_failed [of "map dials [0..<dial_attempts]" None n e] cd [OF c1] cd [OF c2]
  show "n = dial_attempts" "\<forall>k < dial_attempts. \<exists>x. dials k = Inl x"
    "\<exists>c0. lc_dial c0 = lc_dial c \<and> lc_config c0 = lc_config c \<and>
       c' = note_failure (kt_check t) (kt_fail t) (kt_until t) d c0"
    by auto
qed

lemma cooling_refuses:
  assumes "map_of (lc_dial c) d = Some e" "ds_cooldown_until e = Some u" "kt_now t < u"
    "map_of (lc_links c) d = None" "\<not> lc_revoked c"
  shows "\<exists>m. cache_client t dials id others2 d c = (Inl (RpcTransport m), 0, c)"
proof -
  have "cached d c = (None, c)" using assms(4) by (simp add: cached_def)
  moreover obtain m where "cooling (kt_now t) d c = Some m" using assms(1-3) by (simp add: cooling_def)
  ultimately show ?thesis using assms(5) by (simp add: cache_client_def)
qed


definition cache_new :: "cache_config \<Rightarrow> link_cache" where
  "cache_new k = \<lparr>lc_config = k, lc_revoked = False, lc_links = [], lc_closed = [], lc_dial = []\<rparr>"

definition demo_clock :: "nat \<Rightarrow> cache_clock" where
  "demo_clock t = \<lparr>kt_now = t, kt_check = t, kt_fail = t, kt_until = t\<rparr>"



subsection \<open>Signing out\<close>

text \<open>What other tasks do to the cache: one operation each, a dial of another call that succeeded or a call
  that failed among them.\<close>

datatype cache_op =
    Invalidate string
  | DisconnectAll
  | ResetCooldown string
  | CacheWoken
  | TokenChanged bool
  | LinkDrops nat
  | Evict string nat
  | Connects string nat
  | CallFails nat nat nat string

fun cache_step :: "cache_op \<Rightarrow> link_cache \<Rightarrow> link_cache" where
  "cache_step (Invalidate d) c = invalidate d c"
| "cache_step DisconnectAll c = disconnect_all c"
| "cache_step (ResetCooldown d) c = reset_cooldown d c"
| "cache_step CacheWoken c = cache_woken c"
| "cache_step (TokenChanged signed_out) c = cache_token_changed signed_out c"
| "cache_step (LinkDrops l) c = link_drops l c"
| "cache_step (Evict d l) c = evict d l c"
| "cache_step (Connects d l) c = snd (connects d l c)"
| "cache_step (CallFails t1 t2 t3 d) c = note_failure t1 t2 t3 d c"

definition cache_ops :: "cache_op list \<Rightarrow> link_cache \<Rightarrow> link_cache" where
  "cache_ops ops c = fold cache_step ops c"

definition signs_out :: "cache_op \<Rightarrow> bool" where
  "signs_out a \<longleftrightarrow> a = DisconnectAll \<or> a = TokenChanged True"

definition signs_in :: "cache_op \<Rightarrow> bool" where
  "signs_in a \<longleftrightarrow> a = TokenChanged False"

definition shut_out :: "link_cache \<Rightarrow> bool" where
  "shut_out c \<longleftrightarrow> lc_revoked c \<and> lc_links c = []"

lemma signs_out_cut_off: "signs_out a \<Longrightarrow> shut_out (cache_step a c)"
  by (auto simp: signs_out_def shut_out_def disconnect_all_def cache_token_changed_def)

lemma stays_cut_off: "shut_out c \<Longrightarrow> \<not> signs_in a \<Longrightarrow> shut_out (cache_step a c)"
  by (cases a) (auto simp: shut_out_def signs_in_def invalidate_def disconnect_all_def reset_cooldown_def
      cache_woken_def cache_token_changed_def link_drops_def evict_def connects_def note_failure_def Let_def)

lemma ops_cut_off:
  "shut_out c \<Longrightarrow> list_all (\<lambda>a. \<not> signs_in a) ops \<Longrightarrow> shut_out (cache_ops ops c)"
  unfolding cache_ops_def by (induction ops arbitrary: c) (simp_all add: stays_cut_off)

lemma cached_cut_off: "shut_out c \<Longrightarrow> cached d c = (None, c)"
  by (simp add: cached_def shut_out_def)

lemma cooling_only: "shut_out c \<Longrightarrow> shut_out (note_failure t1 t2 t3 d c)"
  by (simp add: shut_out_def note_failure_def Let_def)

lemma connects_cut_off: "shut_out c \<Longrightarrow> connects d l c = (Inl not_signed_in, c\<lparr>lc_dial := AList.delete d (lc_dial c)\<rparr>)"
  by (simp add: shut_out_def connects_def Let_def)

lemma cut_off_dial: "shut_out c \<Longrightarrow> shut_out (c\<lparr>lc_dial := x\<rparr>)"
  by (simp add: shut_out_def)

text \<open>C40. Signing out closes the way to the peers, for calls in flight too: once the credentials are gone,
  and until new ones arrive, no call gets a link, whether it was waiting for the device's lock or in the
  middle of a dial that then succeeds; nothing is cached any more, whatever the other tasks do.\<close>

theorem signed_out_gets_no_link:
  assumes "cache_client t dials (cache_ops o1) (cache_ops o2) d c = (r, n, c')"
    and "\<not> lc_revoked c" "fst (cached d c) = None"
    and "signs_out a" "list_all (\<lambda>b. \<not> signs_in b) after"
    and "o1 = before @ a # after \<and> list_all (\<lambda>b. \<not> signs_in b) o2 \<or> o2 = before @ a # after \<and> n \<noteq> 0"
  shows "(\<exists>e. r = Inl e) \<and> shut_out c'"
proof -
  have cut: "shut_out (cache_ops (before @ a # after) x)" for x
    using ops_cut_off [OF signs_out_cut_off [OF assms(4)] assms(5)] by (simp add: cache_ops_def)
  obtain c1 where c1: "cached d c = (None, c1)" using assms(3) by (cases "cached d c") auto
  obtain k q where row: "dial_row (map dials [0..<dial_attempts]) None = (k, q)" by fastforce
  show ?thesis
  proof (cases "shut_out (cache_ops o1 c1)")
    case True
    note c2 = cached_cut_off [OF True, of d]
    show ?thesis
    proof (cases "cooling (kt_now t) d (cache_ops o1 c1)")
      case (Some m)
      with assms(1,2) c1 c2 True show ?thesis by (auto simp: cache_client_def)
    next
      case None
      have "shut_out (cache_ops o2 (cache_ops o1 c1))"
        using assms(6) cut ops_cut_off [OF True, of o2] by auto
      with None assms(1,2) c1 c2 row connects_cut_off [OF this, of d] cut_off_dial cooling_only
      show ?thesis by (cases q) (auto simp: cache_client_def Let_def)
    qed
  next
    case False
    with cut assms(6) have o2: "o2 = before @ a # after" "n \<noteq> 0" by auto
    obtain c2 where c2: "cached d (cache_ops o1 c1) = (None, c2)" "cooling (kt_now t) d c2 = None"
      using assms(1,2) c1 o2(2) by (auto simp: cache_client_def split: option.splits prod.splits)
    have "shut_out (cache_ops o2 c2)" using cut o2(1) by simp
    with c2 assms(1,2) c1 row connects_cut_off [OF this, of d] cut_off_dial cooling_only
    show ?thesis by (cases q) (auto simp: cache_client_def Let_def)
  qed
qed

lemma signed_out_gets_no_link_witness:
  "\<exists>e. fst (cache_client (demo_clock 0) (\<lambda>_. Inr 7) (cache_ops []) (cache_ops [DisconnectAll]) ''d1''
      (cache_new cache_config_new)) = Inl e"
proof -
  let ?c = "cache_new cache_config_new"
  obtain r n c' where call: "cache_client (demo_clock 0) (\<lambda>_. Inr 7) (cache_ops []) (cache_ops [DisconnectAll]) ''d1'' ?c = (r, n, c')"
    using prod_cases3 by blast
  then have "n \<noteq> 0"
    by (auto simp: cache_client_def cache_new_def cached_def cooling_def dial_attempts_def upt_conv_Cons cache_ops_def
        split: prod.splits)
  moreover have "\<not> lc_revoked ?c" "fst (cached ''d1'' ?c) = None" by (simp_all add: cache_new_def cached_def)
  ultimately have "\<exists>e. r = Inl e"
    using signed_out_gets_no_link [OF call, of DisconnectAll "[]" "[]"] by (simp add: signs_out_def)
  with call show ?thesis by simp
qed

end
