(* ===== verification/Spec2Isabelle.thy ===== *)
theory Spec2Isabelle
  imports Doc_Transcript_Delta Proto_View Engine_Chat_Sink Sync_Registry_Client Engine_Journal Engine_Ledger
    Doc_Rebuild Engine_Recovery Rpc_Device_Room
begin

text \<open>
  A model of zeron's core: an application in which coding agents run on a host device, and every
  device of the user sees and steers them. What is synced lives in two kinds of rooms of an edge
  service. One registry room per workspace holds rows (devices, spaces, chats, sessions) that merge
  field by field under hybrid logical clocks. One room per chat holds a document (a Loro CRDT) with
  the transcript and a ledger of commands; the chat's host executes the commands and streams the
  agent's events back into the transcript. Each device keeps both in a local store, and works offline.

  \<^bold>\<open>Theories and sources\<close>

  \<^item> \<^verbatim>\<open>Prelude\<close>: strings as bytes, 64-bit integers, sorted maps, association lists, JSON values, and the
    facts of the Rust standard library about them.
  \<^item> \<^verbatim>\<open>Proto_Types\<close> (\<^verbatim>\<open>crates/proto/src/agent.rs\<close>, \<^verbatim>\<open>entities.rs\<close>, \<^verbatim>\<open>workspace.rs\<close>): the wire types.
    \<^verbatim>\<open>Proto_View\<close> (\<^verbatim>\<open>view.rs\<close>): what the clients derive from the rows (indicators, list orders, groups,
    labels, the boot gate).
  \<^item> \<^verbatim>\<open>Doc_Parts\<close> (\<^verbatim>\<open>crates/doc/src/parts.rs\<close>): the fold of agent events into message parts.
    \<^verbatim>\<open>Doc_Transcript_Delta\<close> (\<^verbatim>\<open>transcript_delta.rs\<close>): frames between two transcript states.
    \<^verbatim>\<open>Doc_Commands\<close> (\<^verbatim>\<open>commands.rs\<close>): the command ledger's rules.
  \<^item> \<^verbatim>\<open>Doc_Loro\<close>: the document library as a parameter. \<^verbatim>\<open>Doc_Schema\<close>, \<^verbatim>\<open>Doc_Stream\<close> and \<^verbatim>\<open>Doc_Ledger\<close>
    (\<^verbatim>\<open>schema.rs\<close>): the chat document, its writers and readers. \<^verbatim>\<open>Doc_Rebuild\<close> (\<^verbatim>\<open>rebuild.rs\<close>): the
    epoch rebuild.
  \<^item> \<^verbatim>\<open>Doc_Registry_Core\<close>, \<^verbatim>\<open>Doc_Registry\<close>, \<^verbatim>\<open>Doc_Registry_Api\<close> (\<^verbatim>\<open>registry.rs\<close>, row shapes of
    \<^verbatim>\<open>workspace.rs\<close>): clocks and merge; the replica with its pending batches and overlay; the typed
    reads and writes.
  \<^item> \<^verbatim>\<open>Sync_Store\<close> (\<^verbatim>\<open>crates/sync/src/store.rs\<close>): the SQLite store. \<^verbatim>\<open>Sync_Frames\<close>
    (\<^verbatim>\<open>chat_frames.rs\<close>) and \<^verbatim>\<open>Sync_Chat_Client\<close> (\<^verbatim>\<open>chat_client.rs\<close>): the chat room's frames and client.
    \<^verbatim>\<open>Sync_Registry_Client\<close> (\<^verbatim>\<open>registry.rs\<close>): the registry room's client, on the replica of
    \<^verbatim>\<open>Doc_Registry\<close>.
  \<^item> \<^verbatim>\<open>Engine_Workspace\<close> (\<^verbatim>\<open>crates/engine/src/workspace_host.rs\<close>): the workspace host.
    \<^verbatim>\<open>Engine_Chat_Sink\<close> (\<^verbatim>\<open>chat2_host.rs\<close>): the sink of a chat room over document and store.
    \<^verbatim>\<open>Engine_Drain\<close> (\<^verbatim>\<open>doc_host.rs\<close>): the drain of pending commands. \<^verbatim>\<open>Engine_Ledger\<close>: its outcome
    write on documents. \<^verbatim>\<open>Engine_Journal\<close> (\<^verbatim>\<open>run_journal.rs\<close>): the crash journal of runs.
  \<^item> \<^verbatim>\<open>Engine_Sessions\<close> (\<^verbatim>\<open>sessions.rs\<close>): the sessions engine's shared state, its status rows, dispatch,
    steering, interrupts and the input bridge. \<^verbatim>\<open>Engine_Run\<close>: the task of one run (\<^verbatim>\<open>drive_run\<close>), a
    machine whose inputs are what its \<^verbatim>\<open>select!\<close> waits for. \<^verbatim>\<open>Engine_Transcript\<close>, \<^verbatim>\<open>Engine_Steers\<close> and
    \<^verbatim>\<open>Engine_Status\<close>: what a run leaves in document and journal, what becomes of steers and stops, what
    the session rows show. \<^verbatim>\<open>Engine_Recovery\<close>: boot recovery (\<^verbatim>\<open>recover_stale\<close>,
    \<^verbatim>\<open>mark_abandoned_streams\<close>).
  \<^item> \<^verbatim>\<open>Rpc_Client\<close> (\<^verbatim>\<open>crates/rpc/src/lib.rs\<close>, \<^verbatim>\<open>client.rs\<close>, \<^verbatim>\<open>server.rs\<close>): the control plane's envelopes,
    the multiplexing client, the dispatch loop with its request tasks, and the two joined.
    \<^verbatim>\<open>Rpc_Device_Room\<close> (\<^verbatim>\<open>device_room.rs\<close>): relay frames, the host's virtual connections, the client's
    link, and the cache of links with its cooldowns and sign-out.

  \<^bold>\<open>Conventions.\<close> A struct is a record and an enum a datatype, with the source's names. A fallible
  operation returns a sum whose left side is the error; stateful code passes its state. What comes
  from outside is an input: wall clock readings, received frames, the answers of dialers and file
  systems, the faults a database reports. Asynchronous actors are step functions over lists of such
  inputs; an actor that awaits nothing between two inputs is one step. Where an operation takes two
  locks, what other tasks do between them is an argument of the operation (\<open>others\<close>), and the
  properties of a run alone instantiate it with the identity.

  \<^bold>\<open>Interfaces.\<close> Libraries are parameters, with what the code relies on as named hypotheses, each
  shown to hold of a concrete instance: the Loro document (\<open>loro_ok\<close>, instance \<open>tree_ops\<close>), the JSON
  codecs, the line differ, the sessions engine as the drain calls it. Where a client needs only a
  contract of a component, the contract is a locale interpreted on the component's definitions.

  \<^bold>\<open>What is shown.\<close>

  \<^item> Registry: operations with distinct clocks merge to the same rows in every order, deletions stay, a
    replica's pending batches are exactly what the server has not acknowledged, server state never
    loses rows, a re-seeded room converges to the same rows, the client implements the replica's
    transitions and pushes every pending batch after a join.
  \<^item> Chat rooms: a push is pending until the server's verdict, the cursor leaves no gap under the
    ordering the server keeps, the stored cursor is never ahead of the stored document, a checkpoint
    download never splices two checkpoints, a quota drain ends.
  \<^item> Chat document: streaming a turn's events into the document leaves what writing the finished
    message would, however the events are grouped into commits; entries and commands read back as
    written; a malformed entry costs only itself; the join of continuations is that of a reference
    definition; the rebuild keeps every entry and the pending commands and is idempotent.
  \<^item> Commands: a drain ends, executes a command at most once, and refines a step relation on claims and
    outcomes; the outcome write on documents refines the one on lists.
  \<^item> Runs: over every sequence of loop inputs and callers' actions, the entries a run writes carry exactly
    the text it journaled, in order, with one chip per tool call, and none stays streaming; a steer the
    engine accepts is confirmed by a boundary or dispatched again when the run ends by itself; a stop
    ends the run within its grace; the chat's row is active with a start time while the run is in a turn;
    a dispatch starts or joins a run. Lemmas beside them show where an accepted steer is lost.
  \<^item> Crash recovery: what the journal acknowledged is replayed after any crash, and a chat is stale
    exactly when its run did not finish; recovery aborts the entries a dead run left streaming, closes
    its journal and revives it at most three times in a row.
  \<^item> Remote control: in every interleaving a call gets the answer to its own request, once, and can
    always be brought to return; a subscription receives its stream in order; the connections of one
    host session do not influence each other; a text crosses the relay unchanged; a dead peer is dialed
    at a bounded pace; after a sign-out no call gets a link. Lemmas beside them show two calls that
    never return: one answered \<^verbatim>\<open>null\<close>, one made after the reader ended.

  \<^bold>\<open>Bounds and fuel.\<close> The drain's loop takes fuel, and any fuel above the number of unclaimed commands
  is enough, since each round claims one. A write is cut into batches of at most 400 operations, a
  checkpoint is fetched in at most 4 attempts, a run is resumed at most 3 times. A steering mailbox
  holds 32 messages. The loop of a run has no fuel: it is a step function, and the properties quantify
  over every finite sequence of its inputs. A request number is a \<^verbatim>\<open>u64\<close> that wraps: the properties of
  the client are for fewer than \<open>2 ^ 64 - 1\<close> requests on a connection. A frame header is carried below
  \<open>2 ^ 35\<close> bytes, the most the five bytes of its length prefix hold. The byte-wise
  scanners (lines, UTF-8, trimming) recurse on the length of their input.

  \<^bold>\<open>Not modelled.\<close> The user interface (GPUI views), the iOS application, the edge worker (TypeScript) and
  the landing page; process and protocol glue of the agent harnesses; the terminal, git, update and
  authentication services, which are input and output; the tasks, watches and sockets around the
  modelled actors. The manifest lists each part with its reason.
\<close>

end
